(* ===== verification/Prelude.thy ===== *)
theory Prelude
  imports Main "HOL-Library.Word"
begin

unbundle bit_operations_syntax

text \<open>
  Shared vocabulary of the development: the names of the machine types of the C sources, the
  collections that carry component proofs, and generic facts about bits of words, bounded
  subtraction of object bases and updates of index functions.

  A C array \<open>T a[N]\<close> is a function \<open>nat \<Rightarrow> T\<close> of its index; the component theories prove
  that the indexes the code uses stay inside the declared size wherever the code relies on it.
\<close>

section \<open>Machine types\<close>

type_synonym u8 = "8 word"
type_synonym u16 = "16 word"
type_synonym u32 = "32 word"

section \<open>Collections\<close>

named_theorems frame_simps \<open>fields an operation leaves alone\<close>
named_theorems queue_simps \<open>membership of threads in wait queues after an operation\<close>
named_theorems kdefs \<open>definitions of the service handlers\<close>

section \<open>Words and their bits\<close>

lemma word32_bit_lt: "bit (w :: u32) n \<Longrightarrow> n < 32"
  by (drule bit_imp_le_length) simp

lemma word32_eqI: "(\<And>n. n < 32 \<Longrightarrow> bit (v :: u32) n = bit w n) \<Longrightarrow> v = w"
  by (rule bit_word_eqI) simp

lemma word32_eq_iff: "(v :: u32) = w \<longleftrightarrow> (\<forall>n<32. bit v n = bit w n)"
  by (auto intro: word32_eqI)

lemma word32_eq_0_iff: "(w :: u32) = 0 \<longleftrightarrow> (\<forall>n. \<not> bit w n)"
  by (auto simp: word32_eq_iff dest: word32_bit_lt)

lemma bit_set_bit_u32 [simp]: "bit (set_bit m (w :: u32)) n \<longleftrightarrow> bit w n \<or> (m = n \<and> n < 32)"
  by (auto simp: bit_set_bit_iff)

lemma bit_unset_bit_u32 [simp]: "bit (unset_bit m (w :: u32)) n \<longleftrightarrow> bit w n \<and> m \<noteq> n"
  by (auto simp: bit_unset_bit_iff)

lemma unset_bit_less:
  assumes "bit (w :: u32) n"
  shows "unset_bit n w < w"
proof -
  have "unset_bit n w AND w = unset_bit n w"
    by (rule word32_eqI) (auto simp: bit_and_iff)
  then have "unset_bit n w \<le> w" by (metis word_and_le1)
  moreover have "unset_bit n w \<noteq> w"
    using assms by (metis bit_unset_bit_u32)
  ultimately show ?thesis by simp
qed

lemma unat_minus_base:
  fixes w :: u32
  assumes "unat (w - of_nat b) < m" and "b + m \<le> 2 ^ 32"
  shows "unat w = unat (w - of_nat b) + b"
proof -
  have b: "unat (of_nat b :: u32) = b"
    using assms by (simp add: unat_of_nat)
  have "unat w = unat ((w - of_nat b) + of_nat b)" by simp
  also have "\<dots> = (unat (w - of_nat b) + b) mod 2 ^ 32"
    by (simp only: unat_word_ariths b) simp
  also have "\<dots> = unat (w - of_nat b) + b"
    using assms by simp
  finally show ?thesis .
qed

lemma unat_of_nat_lt32 [simp]: "n < 2 ^ 32 \<Longrightarrow> unat (of_nat n :: u32) = n"
  by (simp add: unat_of_nat)

text \<open>Composition of computations that may fail.\<close>

abbreviation bind :: "'a option \<Rightarrow> ('a \<Rightarrow> 'b option) \<Rightarrow> 'b option" where
  "bind \<equiv> Option.bind"

end
