(* ===== verification/Cortex_M3.thy ===== *)
theory Cortex_M3
  imports Prelude
begin

text \<open>
  The instructions and memory idioms of the Cortex-M3 that ThinkOS is written with
  (\<^verbatim>\<open>src/src/sdk/include/arch/cortex-m3.h\<close>): \<open>clz\<close> counts leading zeros, \<open>rbit\<close> reverses a
  word, and the bit-band accessors \<open>__bit_mem_rd\<close> and \<open>__bit_mem_wr\<close> read and write one bit of
  memory. The composition \<open>__clz(__rbit(w))\<close>, which the kernel uses everywhere to take the head
  of a wait queue, is shown to be the position of the lowest set bit (32 when there is none);
  the locale \<open>bit_queue\<close> states the queue that this gives.
\<close>

section \<open>Definitions\<close>

definition clz :: "u32 \<Rightarrow> nat" where
  "clz w = length (takeWhile Not (map (bit w) (rev [0..<32])))"

definition rbit :: "u32 \<Rightarrow> u32" where
  "rbit w = horner_sum of_bool 2 (rev (map (bit w) [0..<32]))"

definition bit_mem_rd :: "u32 \<Rightarrow> nat \<Rightarrow> bool" where
  "bit_mem_rd w n = bit w n"

definition bit_mem_wr :: "u32 \<Rightarrow> nat \<Rightarrow> bool \<Rightarrow> u32" where
  "bit_mem_wr w n v = (if v then set_bit n w else unset_bit n w)"

section \<open>The lowest set bit\<close>

definition first_bit :: "u32 \<Rightarrow> nat" where
  "first_bit w = length (takeWhile Not (map (bit w) [0..<32]))"

lemma bit_rbit: "bit (rbit w) n \<longleftrightarrow> n < 32 \<and> bit w (31 - n)"
  by (auto simp: rbit_def bit_horner_sum_bit_word_iff rev_nth)

lemma clz_rbit: "clz (rbit w) = first_bit w"
proof -
  have "map (bit (rbit w)) (rev [0..<32]) = map (bit w) [0..<32]"
    by (rule nth_equalityI) (auto simp: rev_nth bit_rbit)
  then show ?thesis by (simp add: clz_def first_bit_def)
qed

lemma first_bit_le: "first_bit w \<le> 32"
  using length_takeWhile_le [of Not "map (bit w) [0..<32]"] by (simp add: first_bit_def)

lemma first_bit_not_before: "t < first_bit w \<Longrightarrow> \<not> bit w t"
proof -
  assume t: "t < first_bit w"
  then have "t < 32" using first_bit_le [of w] by simp
  from t have "takeWhile Not (map (bit w) [0..<32]) ! t \<in> set (takeWhile Not (map (bit w) [0..<32]))"
    by (simp add: first_bit_def)
  then have "\<not> takeWhile Not (map (bit w) [0..<32]) ! t"
    by (rule set_takeWhileD [THEN conjunct2])
  then show ?thesis
    using t \<open>t < 32\<close> by (simp add: takeWhile_nth first_bit_def)
qed

lemma first_bit_bit: "first_bit w < 32 \<Longrightarrow> bit w (first_bit w)"
  using nth_length_takeWhile [of Not "map (bit w) [0..<32]"] by (simp add: first_bit_def)

lemma first_bit_32_iff [simp]: "first_bit w = 32 \<longleftrightarrow> w = 0"
proof
  assume "first_bit w = 32"
  then show "w = 0"
    using first_bit_not_before [of _ w] by (auto simp: word32_eq_iff)
next
  assume "w = 0"
  then have "\<not> first_bit w < 32" using first_bit_bit [of w] by auto
  then show "first_bit w = 32" using first_bit_le [of w] by simp
qed

lemma first_bit_lt_iff [simp]: "first_bit w < 32 \<longleftrightarrow> w \<noteq> 0"
  using first_bit_le [of w] first_bit_32_iff [of w] by linarith

lemma first_bit_least: "bit w t \<Longrightarrow> first_bit w \<le> t"
  using first_bit_not_before [of t w] by (cases "t < first_bit w") auto

lemma first_bit_eq_Min: "w \<noteq> 0 \<Longrightarrow> first_bit w = Min {t. bit w t}"
proof -
  assume "w \<noteq> 0"
  have "finite {t. bit w t}"
    by (rule finite_subset [of _ "{..<32}"]) (auto dest: word32_bit_lt)
  then show ?thesis
    using \<open>w \<noteq> 0\<close> by (intro Min_eqI [symmetric]) (auto intro: first_bit_least first_bit_bit)
qed

section \<open>Bit-band access\<close>

lemma bit_mem_wr_bit [simp]:
  "bit (bit_mem_wr w n v) t \<longleftrightarrow> (if t = n \<and> n < 32 then v else bit w t)"
  by (auto simp: bit_mem_wr_def dest: word32_bit_lt)

lemma bit_mem_rd_bit [simp]: "bit_mem_rd w n = bit w n"
  by (simp add: bit_mem_rd_def)

lemma bit_mem_wr_clear_less: "bit w n \<Longrightarrow> bit_mem_wr w n False < w"
  by (simp add: bit_mem_wr_def unset_bit_less)

section \<open>Bitmap queues\<close>

text \<open>
  A wait queue of the kernel is a 32-bit bitmap of thread numbers. Its contract: inserting and
  removing act as set operations on the members, the head is the smallest member, and there is a
  head exactly when the queue is not empty.
\<close>

locale bit_queue =
  fixes insq :: "nat \<Rightarrow> 'q \<Rightarrow> 'q"
    and remq :: "nat \<Rightarrow> 'q \<Rightarrow> 'q"
    and headq :: "'q \<Rightarrow> nat"
    and members :: "'q \<Rightarrow> nat set"
    and width :: nat
  assumes members_insq: "t < width \<Longrightarrow> members (insq t q) = insert t (members q)"
    and members_remq: "members (remq t q) = members q - {t}"
    and members_width: "members q \<subseteq> {..<width}"
    and headq_none: "headq q = width \<longleftrightarrow> members q = {}"
    and headq_some: "members q \<noteq> {} \<Longrightarrow> headq q = Min (members q)"
begin

lemma members_finite: "finite (members q)"
  by (rule finite_subset [OF members_width]) simp

lemma headq_member: "headq q \<noteq> width \<Longrightarrow> headq q \<in> members q"
  using headq_none headq_some members_finite Min_in by metis

lemma headq_le: "t \<in> members q \<Longrightarrow> headq q \<le> t"
  using headq_some [of q] members_finite [of q] by (metis Min_le empty_iff)

lemma headq_insq: "t < width \<Longrightarrow> members q \<noteq> {} \<Longrightarrow> headq (insq t q) = min t (headq q)"
  by (simp add: headq_some members_insq Min_insert members_finite)

lemma headq_insq_empty: "t < width \<Longrightarrow> members q = {} \<Longrightarrow> headq (insq t q) = t"
  by (simp add: headq_some members_insq)

lemma dequeue_card: "headq q \<noteq> width \<Longrightarrow> card (members (remq (headq q) q)) < card (members q)"
  using members_finite headq_member by (metis card_Diff1_less members_remq)

end

interpretation wq: bit_queue
  "\<lambda>t w. bit_mem_wr w t True" "\<lambda>t w. bit_mem_wr w t False" "\<lambda>w. clz (rbit w)"
  "\<lambda>w. {t. bit w t}" 32
proof (unfold_locales, goal_cases)
  case (3 q)
  show ?case by (auto dest: word32_bit_lt)
next
  case (4 q)
  show ?case by (auto simp: clz_rbit word32_eq_0_iff)
next
  case (5 q)
  then have "q \<noteq> 0" by (auto simp: word32_eq_0_iff)
  then show ?case by (simp add: clz_rbit first_bit_eq_Min)
qed (auto dest: word32_bit_lt)

end
