(* ===== verification/ThinkOS_State.thy ===== *)
theory ThinkOS_State
  imports Cortex_M3
begin

text \<open>
  The run-time block of the ThinkOS kernel and its inline primitives
  (\<^verbatim>\<open>src/src/sdk/include/thinkos_sys.h\<close>, \<^verbatim>\<open>thinkos.h\<close>), at the default configuration that
  \<^verbatim>\<open>thinkos_sys.h\<close> sets: 8 threads, 8 objects of each kind, time sharing, join, pause, cancel,
  timed calls, allocation bitmaps and argument checks enabled.

  The state is the record \<open>thinkos_rt\<close>. The wait queues are the words \<open>wq_lst\<close>; the named
  queues of the C structure are positions in that list, as the \<open>wq_lst[0]\<close> placeholder makes
  them: 0 ready, 1 time share, 2 cancelled, 3 paused, 4 clock, 5 to 12 mutexes, 13 to 20
  condition variables, 21 to 28 semaphores, 29 to 36 event sets, 37 to 44 flags, 45 to 52 join.
  Index 8 of the per-thread arrays is the idle thread, which the C structure stores right behind
  them. Two fields model the hardware a handler writes: \<open>pendsv\<close> is the PendSV pending bit and
  \<open>irq_en\<close> the interrupt enable bits. Handlers run with interrupts off or at a priority the
  scheduler cannot preempt, so each is one state transformer.
\<close>

section \<open>Configuration\<close>

abbreviation (input) THINKOS_THREADS_MAX :: nat where "THINKOS_THREADS_MAX \<equiv> 8"
abbreviation (input) THINKOS_MUTEX_MAX :: nat where "THINKOS_MUTEX_MAX \<equiv> 8"
abbreviation (input) THINKOS_COND_MAX :: nat where "THINKOS_COND_MAX \<equiv> 8"
abbreviation (input) THINKOS_SEMAPHORE_MAX :: nat where "THINKOS_SEMAPHORE_MAX \<equiv> 8"
abbreviation (input) THINKOS_EVENT_MAX :: nat where "THINKOS_EVENT_MAX \<equiv> 8"
abbreviation (input) THINKOS_FLAG_MAX :: nat where "THINKOS_FLAG_MAX \<equiv> 8"
abbreviation (input) THINKOS_IRQ_MAX :: nat where "THINKOS_IRQ_MAX \<equiv> 80"
abbreviation (input) THINKOS_SCHED_LIMIT_MAX :: nat where "THINKOS_SCHED_LIMIT_MAX \<equiv> 32"
abbreviation (input) THINKOS_SCHED_LIMIT_MIN :: nat where "THINKOS_SCHED_LIMIT_MIN \<equiv> 1"

abbreviation (input) THINKOS_WQ_READY :: nat where "THINKOS_WQ_READY \<equiv> 0"
abbreviation (input) THINKOS_WQ_TMSHARE :: nat where "THINKOS_WQ_TMSHARE \<equiv> 1"
abbreviation (input) THINKOS_WQ_CANCELED :: nat where "THINKOS_WQ_CANCELED \<equiv> 2"
abbreviation (input) THINKOS_WQ_PAUSED :: nat where "THINKOS_WQ_PAUSED \<equiv> 3"
abbreviation (input) THINKOS_WQ_CLOCK :: nat where "THINKOS_WQ_CLOCK \<equiv> 4"
abbreviation (input) THINKOS_MUTEX_BASE :: nat where "THINKOS_MUTEX_BASE \<equiv> 5"
abbreviation (input) THINKOS_COND_BASE :: nat where "THINKOS_COND_BASE \<equiv> 13"
abbreviation (input) THINKOS_SEM_BASE :: nat where "THINKOS_SEM_BASE \<equiv> 21"
abbreviation (input) THINKOS_EVENT_BASE :: nat where "THINKOS_EVENT_BASE \<equiv> 29"
abbreviation (input) THINKOS_FLAG_BASE :: nat where "THINKOS_FLAG_BASE \<equiv> 37"
abbreviation (input) THINKOS_JOIN_BASE :: nat where "THINKOS_JOIN_BASE \<equiv> 45"
abbreviation (input) THINKOS_WQ_LST_END :: nat where "THINKOS_WQ_LST_END \<equiv> 53"

abbreviation (input) THINKOS_THREAD_NULL :: nat where "THINKOS_THREAD_NULL \<equiv> 32"
abbreviation (input) THINKOS_THREAD_IDLE :: nat where "THINKOS_THREAD_IDLE \<equiv> 8"

abbreviation (input) THINKOS_ETIMEDOUT :: u32 where "THINKOS_ETIMEDOUT \<equiv> - 1"
abbreviation (input) THINKOS_EINTR :: u32 where "THINKOS_EINTR \<equiv> - 2"
abbreviation (input) THINKOS_EINVAL :: u32 where "THINKOS_EINVAL \<equiv> - 3"
abbreviation (input) THINKOS_EAGAIN :: u32 where "THINKOS_EAGAIN \<equiv> - 4"
abbreviation (input) THINKOS_EDEADLK :: u32 where "THINKOS_EDEADLK \<equiv> - 5"
abbreviation (input) THINKOS_EPERM :: u32 where "THINKOS_EPERM \<equiv> - 6"
abbreviation (input) THINKOS_ENOSYS :: u32 where "THINKOS_ENOSYS \<equiv> - 7"

section \<open>State\<close>

record thinkos_context =
  c_r4 :: u32
  c_r5 :: u32
  c_r6 :: u32
  c_r7 :: u32
  c_r8 :: u32
  c_r9 :: u32
  c_r10 :: u32
  c_r11 :: u32
  c_r0 :: u32
  c_r1 :: u32
  c_r2 :: u32
  c_r3 :: u32
  c_r12 :: u32
  c_lr :: u32
  c_pc :: u32
  c_xpsr :: u32

record thinkos_rt =
  ctx :: "nat \<Rightarrow> thinkos_context option"
  active :: nat
  wq_lst :: "nat \<Rightarrow> u32"
  th_stat :: "nat \<Rightarrow> nat"
  sched_val :: "nat \<Rightarrow> u8"
  sched_pri :: "nat \<Rightarrow> u8"
  sched_limit :: u32
  ticks :: u32
  clock :: "nat \<Rightarrow> u32"
  sem_val :: "nat \<Rightarrow> u32"
  ev_pend :: "nat \<Rightarrow> u32"
  ev_mask :: "nat \<Rightarrow> u32"
  flag_sig :: u32
  flag_lock :: u32
  lock :: "nat \<Rightarrow> int"
  irq_th :: "nat \<Rightarrow> int"
  th_alloc :: u32
  mutex_alloc :: u32
  cond_alloc :: u32
  sem_alloc :: u32
  ev_alloc :: u32
  flag_alloc :: u32
  th_inf :: "nat \<Rightarrow> u32"
  pendsv :: bool
  irq_en :: "nat \<Rightarrow> bool"

text \<open>The words a service call finds on the caller's stack: r0 to r3, r12, lr, pc, xpsr.\<close>

type_synonym svc_arg = "nat \<Rightarrow> u32"

abbreviation qbit :: "thinkos_rt \<Rightarrow> nat \<Rightarrow> nat \<Rightarrow> bool" where
  "qbit rt q t \<equiv> bit (wq_lst rt q) t"

section \<open>Inline primitives\<close>

text \<open>\<open>__bit_mem_wr(&thinkos_rt.wq_lst[q], t, v)\<close>, and the same on a named queue.\<close>

definition wq_wr :: "nat \<Rightarrow> nat \<Rightarrow> bool \<Rightarrow> thinkos_rt \<Rightarrow> thinkos_rt" where
  "wq_wr q t v rt = rt\<lparr>wq_lst := (wq_lst rt)(q := bit_mem_wr (wq_lst rt q) t v)\<rparr>"

definition thinkos_defer_sched :: "thinkos_rt \<Rightarrow> thinkos_rt" where
  "thinkos_defer_sched rt = rt\<lparr>pendsv := True\<rparr>"

text \<open>Refill the ready queue from the time-share queue once only the idle thread is left in it.\<close>

definition tmshare_collect :: "thinkos_rt \<Rightarrow> thinkos_rt" where
  "tmshare_collect rt =
    (if wq_lst rt THINKOS_WQ_READY = push_bit THINKOS_THREADS_MAX 1
     then rt\<lparr>wq_lst := (wq_lst rt)
                (THINKOS_WQ_READY := wq_lst rt THINKOS_WQ_READY OR wq_lst rt THINKOS_WQ_TMSHARE,
                 THINKOS_WQ_TMSHARE := 0)\<rparr>
     else rt)"

definition thinkos_wait :: "nat \<Rightarrow> thinkos_rt \<Rightarrow> thinkos_rt" where
  "thinkos_wait thread rt =
     thinkos_defer_sched (tmshare_collect (wq_wr THINKOS_WQ_READY thread False rt))"

definition thinkos_wq_head :: "nat \<Rightarrow> thinkos_rt \<Rightarrow> nat" where
  "thinkos_wq_head wq rt = clz (rbit (wq_lst rt wq))"

definition thinkos_wq_insert :: "nat \<Rightarrow> nat \<Rightarrow> thinkos_rt \<Rightarrow> thinkos_rt" where
  "thinkos_wq_insert wq th rt =
     (wq_wr wq th True rt)\<lparr>th_stat := (th_stat rt)(th := (wq * 2) mod 256)\<rparr>"

definition thinkos_tmdwq_insert :: "nat \<Rightarrow> nat \<Rightarrow> u32 \<Rightarrow> thinkos_rt \<Rightarrow> thinkos_rt" where
  "thinkos_tmdwq_insert wq th ms rt =
     (wq_wr THINKOS_WQ_CLOCK th True
       (wq_wr wq th True (rt\<lparr>clock := (clock rt)(th := ticks rt + ms)\<rparr>)))
     \<lparr>th_stat := (th_stat rt)(th := (wq * 2 + 1) mod 256)\<rparr>"

definition thinkos_wq_remove :: "nat \<Rightarrow> nat \<Rightarrow> thinkos_rt \<Rightarrow> thinkos_rt" where
  "thinkos_wq_remove wq th rt = wq_wr THINKOS_WQ_CLOCK th False (wq_wr wq th False rt)"

text \<open>\<open>thinkos_rt.ctx[th]->r0 = v\<close>\<close>

definition ctx_set_r0 :: "nat \<Rightarrow> u32 \<Rightarrow> thinkos_rt \<Rightarrow> thinkos_rt" where
  "ctx_set_r0 th v rt =
     rt\<lparr>ctx := (ctx rt)(th := map_option (\<lambda>c. c\<lparr>c_r0 := v\<rparr>) (ctx rt th))\<rparr>"

definition thinkos_wakeup :: "nat \<Rightarrow> nat \<Rightarrow> thinkos_rt \<Rightarrow> thinkos_rt" where
  "thinkos_wakeup wq th rt =
    (let rt1 = wq_wr THINKOS_WQ_READY th True rt;
         rt2 = wq_wr wq th False rt1;
         rt3 = wq_wr THINKOS_WQ_CLOCK th False rt2;
         rt4 = ctx_set_r0 th 0 rt3
     in rt4\<lparr>th_stat := (th_stat rt4)(th := 0)\<rparr>)"

definition thinkos_wakeup_return :: "nat \<Rightarrow> nat \<Rightarrow> u32 \<Rightarrow> thinkos_rt \<Rightarrow> thinkos_rt" where
  "thinkos_wakeup_return wq th ret rt =
    (let rt1 = wq_wr THINKOS_WQ_READY th True rt;
         rt2 = wq_wr wq th False rt1;
         rt3 = wq_wr THINKOS_WQ_CLOCK th False rt2;
         rt4 = rt3\<lparr>th_stat := (th_stat rt3)(th := 0)\<rparr>
     in ctx_set_r0 th ret rt4)"

definition thinkos_timer_set :: "u32 \<Rightarrow> thinkos_rt \<Rightarrow> thinkos_rt" where
  "thinkos_timer_set ms rt =
    (let self = active rt;
         rt1 = rt\<lparr>clock := (clock rt)(self := ticks rt + ms)\<rparr>;
         rt2 = wq_wr THINKOS_WQ_CLOCK self True rt1
     in rt2\<lparr>th_stat := (th_stat rt2)(self := set_bit 0 (th_stat rt2 self))\<rparr>)"

definition thinkos_timer_cancel :: "thinkos_rt \<Rightarrow> thinkos_rt" where
  "thinkos_timer_cancel rt =
    (let self = active rt;
         rt1 = wq_wr THINKOS_WQ_CLOCK self False rt
     in rt1\<lparr>th_stat := (th_stat rt1)(self := unset_bit 0 (th_stat rt1 self))\<rparr>)"

definition thinkos_timer_timedout :: "thinkos_rt \<Rightarrow> bool" where
  "thinkos_timer_timedout rt \<longleftrightarrow> sint (clock rt (active rt) - ticks rt) \<le> 0"

text \<open>\<open>unsigned int idx = wq - BASE\<close>: the subtraction wraps, so an object number below the base
  gives a huge index.\<close>

definition obj_idx :: "nat \<Rightarrow> u32 \<Rightarrow> nat" where
  "obj_idx base wq = unat (wq - of_nat base)"

section \<open>What the primitives leave alone\<close>

lemma wq_wr_frame [simp, frame_simps]:
  "ctx (wq_wr q t v rt) = ctx rt"
  "active (wq_wr q t v rt) = active rt"
  "th_stat (wq_wr q t v rt) = th_stat rt"
  "sched_val (wq_wr q t v rt) = sched_val rt"
  "sched_pri (wq_wr q t v rt) = sched_pri rt"
  "sched_limit (wq_wr q t v rt) = sched_limit rt"
  "ticks (wq_wr q t v rt) = ticks rt"
  "clock (wq_wr q t v rt) = clock rt"
  "sem_val (wq_wr q t v rt) = sem_val rt"
  "ev_pend (wq_wr q t v rt) = ev_pend rt"
  "ev_mask (wq_wr q t v rt) = ev_mask rt"
  "flag_sig (wq_wr q t v rt) = flag_sig rt"
  "flag_lock (wq_wr q t v rt) = flag_lock rt"
  "lock (wq_wr q t v rt) = lock rt"
  "irq_th (wq_wr q t v rt) = irq_th rt"
  "th_alloc (wq_wr q t v rt) = th_alloc rt"
  "mutex_alloc (wq_wr q t v rt) = mutex_alloc rt"
  "cond_alloc (wq_wr q t v rt) = cond_alloc rt"
  "sem_alloc (wq_wr q t v rt) = sem_alloc rt"
  "ev_alloc (wq_wr q t v rt) = ev_alloc rt"
  "flag_alloc (wq_wr q t v rt) = flag_alloc rt"
  "th_inf (wq_wr q t v rt) = th_inf rt"
  "pendsv (wq_wr q t v rt) = pendsv rt"
  "irq_en (wq_wr q t v rt) = irq_en rt"
  by (simp_all add: wq_wr_def)

lemma defer_sched_frame [simp, frame_simps]:
  "ctx (thinkos_defer_sched rt) = ctx rt"
  "active (thinkos_defer_sched rt) = active rt"
  "th_stat (thinkos_defer_sched rt) = th_stat rt"
  "sched_val (thinkos_defer_sched rt) = sched_val rt"
  "sched_pri (thinkos_defer_sched rt) = sched_pri rt"
  "sched_limit (thinkos_defer_sched rt) = sched_limit rt"
  "ticks (thinkos_defer_sched rt) = ticks rt"
  "clock (thinkos_defer_sched rt) = clock rt"
  "sem_val (thinkos_defer_sched rt) = sem_val rt"
  "ev_pend (thinkos_defer_sched rt) = ev_pend rt"
  "ev_mask (thinkos_defer_sched rt) = ev_mask rt"
  "flag_sig (thinkos_defer_sched rt) = flag_sig rt"
  "flag_lock (thinkos_defer_sched rt) = flag_lock rt"
  "lock (thinkos_defer_sched rt) = lock rt"
  "irq_th (thinkos_defer_sched rt) = irq_th rt"
  "th_alloc (thinkos_defer_sched rt) = th_alloc rt"
  "mutex_alloc (thinkos_defer_sched rt) = mutex_alloc rt"
  "cond_alloc (thinkos_defer_sched rt) = cond_alloc rt"
  "sem_alloc (thinkos_defer_sched rt) = sem_alloc rt"
  "ev_alloc (thinkos_defer_sched rt) = ev_alloc rt"
  "flag_alloc (thinkos_defer_sched rt) = flag_alloc rt"
  "th_inf (thinkos_defer_sched rt) = th_inf rt"
  "irq_en (thinkos_defer_sched rt) = irq_en rt"
  by (simp_all add: thinkos_defer_sched_def)

lemma collect_frame [simp, frame_simps]:
  "ctx (tmshare_collect rt) = ctx rt"
  "active (tmshare_collect rt) = active rt"
  "th_stat (tmshare_collect rt) = th_stat rt"
  "sched_val (tmshare_collect rt) = sched_val rt"
  "sched_pri (tmshare_collect rt) = sched_pri rt"
  "sched_limit (tmshare_collect rt) = sched_limit rt"
  "ticks (tmshare_collect rt) = ticks rt"
  "clock (tmshare_collect rt) = clock rt"
  "sem_val (tmshare_collect rt) = sem_val rt"
  "ev_pend (tmshare_collect rt) = ev_pend rt"
  "ev_mask (tmshare_collect rt) = ev_mask rt"
  "flag_sig (tmshare_collect rt) = flag_sig rt"
  "flag_lock (tmshare_collect rt) = flag_lock rt"
  "lock (tmshare_collect rt) = lock rt"
  "irq_th (tmshare_collect rt) = irq_th rt"
  "th_alloc (tmshare_collect rt) = th_alloc rt"
  "mutex_alloc (tmshare_collect rt) = mutex_alloc rt"
  "cond_alloc (tmshare_collect rt) = cond_alloc rt"
  "sem_alloc (tmshare_collect rt) = sem_alloc rt"
  "ev_alloc (tmshare_collect rt) = ev_alloc rt"
  "flag_alloc (tmshare_collect rt) = flag_alloc rt"
  "th_inf (tmshare_collect rt) = th_inf rt"
  "pendsv (tmshare_collect rt) = pendsv rt"
  "irq_en (tmshare_collect rt) = irq_en rt"
  by (simp_all add: tmshare_collect_def)

lemma wait_frame [simp, frame_simps]:
  "ctx (thinkos_wait th rt) = ctx rt"
  "active (thinkos_wait th rt) = active rt"
  "th_stat (thinkos_wait th rt) = th_stat rt"
  "sched_val (thinkos_wait th rt) = sched_val rt"
  "sched_pri (thinkos_wait th rt) = sched_pri rt"
  "sched_limit (thinkos_wait th rt) = sched_limit rt"
  "ticks (thinkos_wait th rt) = ticks rt"
  "clock (thinkos_wait th rt) = clock rt"
  "sem_val (thinkos_wait th rt) = sem_val rt"
  "ev_pend (thinkos_wait th rt) = ev_pend rt"
  "ev_mask (thinkos_wait th rt) = ev_mask rt"
  "flag_sig (thinkos_wait th rt) = flag_sig rt"
  "flag_lock (thinkos_wait th rt) = flag_lock rt"
  "lock (thinkos_wait th rt) = lock rt"
  "irq_th (thinkos_wait th rt) = irq_th rt"
  "th_alloc (thinkos_wait th rt) = th_alloc rt"
  "mutex_alloc (thinkos_wait th rt) = mutex_alloc rt"
  "cond_alloc (thinkos_wait th rt) = cond_alloc rt"
  "sem_alloc (thinkos_wait th rt) = sem_alloc rt"
  "ev_alloc (thinkos_wait th rt) = ev_alloc rt"
  "flag_alloc (thinkos_wait th rt) = flag_alloc rt"
  "th_inf (thinkos_wait th rt) = th_inf rt"
  "irq_en (thinkos_wait th rt) = irq_en rt"
  by (simp_all add: thinkos_wait_def)

lemma wq_insert_frame [simp, frame_simps]:
  "ctx (thinkos_wq_insert q t rt) = ctx rt"
  "active (thinkos_wq_insert q t rt) = active rt"
  "sched_val (thinkos_wq_insert q t rt) = sched_val rt"
  "sched_pri (thinkos_wq_insert q t rt) = sched_pri rt"
  "sched_limit (thinkos_wq_insert q t rt) = sched_limit rt"
  "ticks (thinkos_wq_insert q t rt) = ticks rt"
  "clock (thinkos_wq_insert q t rt) = clock rt"
  "sem_val (thinkos_wq_insert q t rt) = sem_val rt"
  "ev_pend (thinkos_wq_insert q t rt) = ev_pend rt"
  "ev_mask (thinkos_wq_insert q t rt) = ev_mask rt"
  "flag_sig (thinkos_wq_insert q t rt) = flag_sig rt"
  "flag_lock (thinkos_wq_insert q t rt) = flag_lock rt"
  "lock (thinkos_wq_insert q t rt) = lock rt"
  "irq_th (thinkos_wq_insert q t rt) = irq_th rt"
  "th_alloc (thinkos_wq_insert q t rt) = th_alloc rt"
  "mutex_alloc (thinkos_wq_insert q t rt) = mutex_alloc rt"
  "cond_alloc (thinkos_wq_insert q t rt) = cond_alloc rt"
  "sem_alloc (thinkos_wq_insert q t rt) = sem_alloc rt"
  "ev_alloc (thinkos_wq_insert q t rt) = ev_alloc rt"
  "flag_alloc (thinkos_wq_insert q t rt) = flag_alloc rt"
  "th_inf (thinkos_wq_insert q t rt) = th_inf rt"
  "pendsv (thinkos_wq_insert q t rt) = pendsv rt"
  "irq_en (thinkos_wq_insert q t rt) = irq_en rt"
  by (simp_all add: thinkos_wq_insert_def)

lemma tmdwq_insert_frame [simp, frame_simps]:
  "ctx (thinkos_tmdwq_insert q t ms rt) = ctx rt"
  "active (thinkos_tmdwq_insert q t ms rt) = active rt"
  "sched_val (thinkos_tmdwq_insert q t ms rt) = sched_val rt"
  "sched_pri (thinkos_tmdwq_insert q t ms rt) = sched_pri rt"
  "sched_limit (thinkos_tmdwq_insert q t ms rt) = sched_limit rt"
  "ticks (thinkos_tmdwq_insert q t ms rt) = ticks rt"
  "sem_val (thinkos_tmdwq_insert q t ms rt) = sem_val rt"
  "ev_pend (thinkos_tmdwq_insert q t ms rt) = ev_pend rt"
  "ev_mask (thinkos_tmdwq_insert q t ms rt) = ev_mask rt"
  "flag_sig (thinkos_tmdwq_insert q t ms rt) = flag_sig rt"
  "flag_lock (thinkos_tmdwq_insert q t ms rt) = flag_lock rt"
  "lock (thinkos_tmdwq_insert q t ms rt) = lock rt"
  "irq_th (thinkos_tmdwq_insert q t ms rt) = irq_th rt"
  "th_alloc (thinkos_tmdwq_insert q t ms rt) = th_alloc rt"
  "mutex_alloc (thinkos_tmdwq_insert q t ms rt) = mutex_alloc rt"
  "cond_alloc (thinkos_tmdwq_insert q t ms rt) = cond_alloc rt"
  "sem_alloc (thinkos_tmdwq_insert q t ms rt) = sem_alloc rt"
  "ev_alloc (thinkos_tmdwq_insert q t ms rt) = ev_alloc rt"
  "flag_alloc (thinkos_tmdwq_insert q t ms rt) = flag_alloc rt"
  "th_inf (thinkos_tmdwq_insert q t ms rt) = th_inf rt"
  "pendsv (thinkos_tmdwq_insert q t ms rt) = pendsv rt"
  "irq_en (thinkos_tmdwq_insert q t ms rt) = irq_en rt"
  by (simp_all add: thinkos_tmdwq_insert_def)

lemma set_r0_frame [simp, frame_simps]:
  "active (ctx_set_r0 t v rt) = active rt"
  "th_stat (ctx_set_r0 t v rt) = th_stat rt"
  "sched_val (ctx_set_r0 t v rt) = sched_val rt"
  "sched_pri (ctx_set_r0 t v rt) = sched_pri rt"
  "sched_limit (ctx_set_r0 t v rt) = sched_limit rt"
  "ticks (ctx_set_r0 t v rt) = ticks rt"
  "clock (ctx_set_r0 t v rt) = clock rt"
  "sem_val (ctx_set_r0 t v rt) = sem_val rt"
  "ev_pend (ctx_set_r0 t v rt) = ev_pend rt"
  "ev_mask (ctx_set_r0 t v rt) = ev_mask rt"
  "flag_sig (ctx_set_r0 t v rt) = flag_sig rt"
  "flag_lock (ctx_set_r0 t v rt) = flag_lock rt"
  "lock (ctx_set_r0 t v rt) = lock rt"
  "irq_th (ctx_set_r0 t v rt) = irq_th rt"
  "th_alloc (ctx_set_r0 t v rt) = th_alloc rt"
  "mutex_alloc (ctx_set_r0 t v rt) = mutex_alloc rt"
  "cond_alloc (ctx_set_r0 t v rt) = cond_alloc rt"
  "sem_alloc (ctx_set_r0 t v rt) = sem_alloc rt"
  "ev_alloc (ctx_set_r0 t v rt) = ev_alloc rt"
  "flag_alloc (ctx_set_r0 t v rt) = flag_alloc rt"
  "th_inf (ctx_set_r0 t v rt) = th_inf rt"
  "pendsv (ctx_set_r0 t v rt) = pendsv rt"
  "irq_en (ctx_set_r0 t v rt) = irq_en rt"
  by (simp_all add: ctx_set_r0_def)

lemma wakeup_frame [simp, frame_simps]:
  "active (thinkos_wakeup q t rt) = active rt"
  "sched_val (thinkos_wakeup q t rt) = sched_val rt"
  "sched_pri (thinkos_wakeup q t rt) = sched_pri rt"
  "sched_limit (thinkos_wakeup q t rt) = sched_limit rt"
  "ticks (thinkos_wakeup q t rt) = ticks rt"
  "clock (thinkos_wakeup q t rt) = clock rt"
  "sem_val (thinkos_wakeup q t rt) = sem_val rt"
  "ev_pend (thinkos_wakeup q t rt) = ev_pend rt"
  "ev_mask (thinkos_wakeup q t rt) = ev_mask rt"
  "flag_sig (thinkos_wakeup q t rt) = flag_sig rt"
  "flag_lock (thinkos_wakeup q t rt) = flag_lock rt"
  "lock (thinkos_wakeup q t rt) = lock rt"
  "irq_th (thinkos_wakeup q t rt) = irq_th rt"
  "th_alloc (thinkos_wakeup q t rt) = th_alloc rt"
  "mutex_alloc (thinkos_wakeup q t rt) = mutex_alloc rt"
  "cond_alloc (thinkos_wakeup q t rt) = cond_alloc rt"
  "sem_alloc (thinkos_wakeup q t rt) = sem_alloc rt"
  "ev_alloc (thinkos_wakeup q t rt) = ev_alloc rt"
  "flag_alloc (thinkos_wakeup q t rt) = flag_alloc rt"
  "th_inf (thinkos_wakeup q t rt) = th_inf rt"
  "pendsv (thinkos_wakeup q t rt) = pendsv rt"
  "irq_en (thinkos_wakeup q t rt) = irq_en rt"
  by (simp_all add: thinkos_wakeup_def Let_def)

lemma wakeup_return_frame [simp, frame_simps]:
  "active (thinkos_wakeup_return q t v rt) = active rt"
  "sched_val (thinkos_wakeup_return q t v rt) = sched_val rt"
  "sched_pri (thinkos_wakeup_return q t v rt) = sched_pri rt"
  "sched_limit (thinkos_wakeup_return q t v rt) = sched_limit rt"
  "ticks (thinkos_wakeup_return q t v rt) = ticks rt"
  "clock (thinkos_wakeup_return q t v rt) = clock rt"
  "sem_val (thinkos_wakeup_return q t v rt) = sem_val rt"
  "ev_pend (thinkos_wakeup_return q t v rt) = ev_pend rt"
  "ev_mask (thinkos_wakeup_return q t v rt) = ev_mask rt"
  "flag_sig (thinkos_wakeup_return q t v rt) = flag_sig rt"
  "flag_lock (thinkos_wakeup_return q t v rt) = flag_lock rt"
  "lock (thinkos_wakeup_return q t v rt) = lock rt"
  "irq_th (thinkos_wakeup_return q t v rt) = irq_th rt"
  "th_alloc (thinkos_wakeup_return q t v rt) = th_alloc rt"
  "mutex_alloc (thinkos_wakeup_return q t v rt) = mutex_alloc rt"
  "cond_alloc (thinkos_wakeup_return q t v rt) = cond_alloc rt"
  "sem_alloc (thinkos_wakeup_return q t v rt) = sem_alloc rt"
  "ev_alloc (thinkos_wakeup_return q t v rt) = ev_alloc rt"
  "flag_alloc (thinkos_wakeup_return q t v rt) = flag_alloc rt"
  "th_inf (thinkos_wakeup_return q t v rt) = th_inf rt"
  "pendsv (thinkos_wakeup_return q t v rt) = pendsv rt"
  "irq_en (thinkos_wakeup_return q t v rt) = irq_en rt"
  by (simp_all add: thinkos_wakeup_return_def Let_def)

lemma prim_pendsv [simp]:
  "pendsv (thinkos_defer_sched rt)"
  "pendsv (thinkos_wait th rt)"
  by (simp_all add: thinkos_defer_sched_def thinkos_wait_def)

lemma prim_th_stat [simp]:
  "th_stat (thinkos_wq_insert q t rt) = (th_stat rt)(t := (q * 2) mod 256)"
  "th_stat (thinkos_tmdwq_insert q t ms rt) = (th_stat rt)(t := (q * 2 + 1) mod 256)"
  "th_stat (thinkos_wakeup q t rt) = (th_stat rt)(t := 0)"
  "th_stat (thinkos_wakeup_return q t v rt) = (th_stat rt)(t := 0)"
  by (simp_all add: thinkos_wq_insert_def thinkos_tmdwq_insert_def thinkos_wakeup_def
      thinkos_wakeup_return_def Let_def)

lemma wq_lst_frame [simp, frame_simps]:
  "wq_lst (thinkos_defer_sched rt) = wq_lst rt"
  "wq_lst (ctx_set_r0 t v rt) = wq_lst rt"
  by (simp_all add: thinkos_defer_sched_def ctx_set_r0_def)

section \<open>Membership in the queues\<close>

lemma qbit_wq_wr [simp, queue_simps]:
  "qbit (wq_wr q t True rt) q' t' \<longleftrightarrow> qbit rt q' t' \<or> (q' = q \<and> t' = t \<and> t < 32)"
  "qbit (wq_wr q t False rt) q' t' \<longleftrightarrow> qbit rt q' t' \<and> \<not> (q' = q \<and> t' = t)"
  by (auto simp: wq_wr_def dest: word32_bit_lt)

lemma qbit_wq_insert [simp, queue_simps]:
  "qbit (thinkos_wq_insert q t rt) q' t' \<longleftrightarrow> qbit rt q' t' \<or> (q' = q \<and> t' = t \<and> t < 32)"
  by (simp add: thinkos_wq_insert_def)

lemma qbit_tmdwq_insert [simp, queue_simps]:
  "qbit (thinkos_tmdwq_insert q t ms rt) q' t' \<longleftrightarrow>
     qbit rt q' t' \<or> ((q' = q \<or> q' = 4) \<and> t' = t \<and> t < 32)"
proof -
  have "wq_lst (rt\<lparr>clock := c\<rparr>) = wq_lst rt" for c by simp
  then show ?thesis by (simp add: thinkos_tmdwq_insert_def) blast
qed

lemma wakeup_wq_lst:
  "wq_lst (thinkos_wakeup q t rt) = wq_lst (wq_wr 4 t False (wq_wr q t False (wq_wr 0 t True rt)))"
  "wq_lst (thinkos_wakeup_return q t v rt) =
     wq_lst (wq_wr 4 t False (wq_wr q t False (wq_wr 0 t True rt)))"
  by (simp_all add: thinkos_wakeup_def thinkos_wakeup_return_def Let_def)

lemma qbit_wakeup [simp, queue_simps]:
  "t < 32 \<Longrightarrow> q \<noteq> 0 \<Longrightarrow> qbit (thinkos_wakeup q t rt) q' t' \<longleftrightarrow>
     (qbit rt q' t' \<and> \<not> (t' = t \<and> (q' = q \<or> q' = 4))) \<or> (t' = t \<and> q' = 0)"
  "t < 32 \<Longrightarrow> q \<noteq> 0 \<Longrightarrow> qbit (thinkos_wakeup_return q t v rt) q' t' \<longleftrightarrow>
     (qbit rt q' t' \<and> \<not> (t' = t \<and> (q' = q \<or> q' = 4))) \<or> (t' = t \<and> q' = 0)"
  by (cases "q' = 0"; cases "t' = t"; simp add: wakeup_wq_lst)+

lemma bit_idle_only: "bit (256 :: u32) t \<longleftrightarrow> t = 8"
proof -
  have "(256 :: u32) = push_bit 8 1" by simp
  then show ?thesis
    by (simp only: bit_push_bit_iff bit_1_iff) auto
qed

lemma ready_idle_only_iff: "(w :: u32) = 256 \<longleftrightarrow> (\<forall>t. bit w t = (t = 8))"
  by (metis bit_idle_only word32_eqI)

definition idle_only :: "thinkos_rt \<Rightarrow> bool" where
  "idle_only rt \<longleftrightarrow> (\<forall>t. qbit rt 0 t = (t = 8))"

lemma qbit_collect:
  "idle_only rt \<Longrightarrow> qbit (tmshare_collect rt) q t \<longleftrightarrow>
     (q = 0 \<and> (t = 8 \<or> qbit rt 1 t)) \<or> (1 < q \<and> qbit rt q t)"
  "\<not> idle_only rt \<Longrightarrow> tmshare_collect rt = rt"
  by (auto simp: tmshare_collect_def idle_only_def ready_idle_only_iff bit_or_iff)

lemma collect_D:
  "qbit (tmshare_collect rt) 0 t \<Longrightarrow> qbit rt 0 t \<or> qbit rt 1 t"
  "qbit (tmshare_collect rt) 1 t \<Longrightarrow> qbit rt 1 t \<and> \<not> idle_only rt"
  "qbit rt 0 t \<Longrightarrow> qbit (tmshare_collect rt) 0 t"
  by (cases "idle_only rt"; simp add: qbit_collect; auto simp: idle_only_def)+

lemma collect_other: "1 < q \<Longrightarrow> qbit (tmshare_collect rt) q t = qbit rt q t"
  by (cases "idle_only rt") (simp_all add: qbit_collect)

lemma wait_wq_lst:
  "wq_lst (thinkos_wait th rt) = wq_lst (tmshare_collect (wq_wr 0 th False rt))"
  by (simp add: thinkos_wait_def)

lemma qbit_wait_other [simp, queue_simps]: "1 < q \<Longrightarrow> qbit (thinkos_wait th rt) q t = qbit rt q t"
  by (simp add: wait_wq_lst collect_other)

lemma wait_D:
  "qbit (thinkos_wait th rt) 0 t \<Longrightarrow> (qbit rt 0 t \<and> t \<noteq> th) \<or> qbit rt 1 t"
  "qbit (thinkos_wait th rt) 1 t \<Longrightarrow> qbit rt 1 t"
  "qbit rt 0 t \<Longrightarrow> t \<noteq> th \<Longrightarrow> qbit (thinkos_wait th rt) 0 t"
  using collect_D [of "wq_wr 0 th False rt"] by (auto simp: wait_wq_lst)

lemma wait_ready_tmshare:
  "qbit (thinkos_wait th rt) 0 t \<Longrightarrow> qbit (thinkos_wait th rt) 1 t \<Longrightarrow> qbit rt 0 t \<and> qbit rt 1 t"
  using collect_D [of "wq_wr 0 th False rt"] qbit_collect(2) [of "wq_wr 0 th False rt"]
  by (auto simp: wait_wq_lst)

lemma wait_not_ready: "\<not> qbit rt 1 th \<Longrightarrow> \<not> qbit (thinkos_wait th rt) 0 th"
  using wait_D(1) by blast

lemma wq_head_first_bit: "thinkos_wq_head wq rt = first_bit (wq_lst rt wq)"
  by (simp add: thinkos_wq_head_def clz_rbit)

lemma wq_head_NULL [simp]: "thinkos_wq_head wq rt = 32 \<longleftrightarrow> wq_lst rt wq = 0"
  by (simp add: wq_head_first_bit)

lemma wq_head_member: "thinkos_wq_head wq rt \<noteq> 32 \<Longrightarrow> qbit rt wq (thinkos_wq_head wq rt)"
  using wq.headq_member [of "wq_lst rt wq"] by (simp add: thinkos_wq_head_def)

lemma wq_head_le: "qbit rt wq t \<Longrightarrow> thinkos_wq_head wq rt \<le> t"
  using wq.headq_le [of t "wq_lst rt wq"] by (simp add: thinkos_wq_head_def)

section \<open>Object numbers\<close>

text \<open>
  Each kind of object owns eight consecutive wait queues. The contract of a kind: a number that
  passes the argument check is the queue of the object with that index, and lies in the list
  behind the five system queues.
\<close>

locale obj_class =
  fixes base :: nat
  assumes base_lo: "5 \<le> base" and base_hi: "base + 8 \<le> 45"
begin

lemma obj_wq: "obj_idx base w < 8 \<Longrightarrow> unat w = base + obj_idx base w"
  using unat_minus_base [of w base 8] base_hi by (simp add: obj_idx_def)

lemma obj_wq_range: "obj_idx base w < 8 \<Longrightarrow> 5 \<le> unat w \<and> unat w < 45"
  using obj_wq [of w] base_lo base_hi by simp

lemma obj_idx_wq: "i < 8 \<Longrightarrow> obj_idx base (of_nat (base + i)) = i"
  using base_hi by (simp add: obj_idx_def)

lemma obj_stat: "obj_idx base w < 8 \<Longrightarrow> (unat w * 2) mod 256 = 2 * unat w \<and> (unat w * 2 + 1) mod 256 = 2 * unat w + 1"
  using obj_wq_range [of w] by simp

end

interpretation mutex_class: obj_class THINKOS_MUTEX_BASE
  by unfold_locales simp_all

interpretation cond_class: obj_class THINKOS_COND_BASE
  by unfold_locales simp_all

interpretation sem_class: obj_class THINKOS_SEM_BASE
  by unfold_locales simp_all

interpretation event_class: obj_class THINKOS_EVENT_BASE
  by unfold_locales simp_all

interpretation flag_class: obj_class THINKOS_FLAG_BASE
  by unfold_locales simp_all

end
