(* ===== verification/ThinkOS_Inv.thy ===== *)
theory ThinkOS_Inv
  imports ThinkOS_State
begin

text \<open>
  The invariant of the ThinkOS run-time block. \<open>X\<close> is the set of exiting threads: those whose
  program counter a service call has pointed at \<open>thinkos_thread_exit\<close>. The invariant says where a
  thread may be queued: the idle thread is always ready; a queue holds existing thread numbers
  only; a thread that waits for an object or for the clock is neither ready nor in the time-share
  queue, its status byte names the one object queue it is in, and it is allocated; and unless a
  context switch is pending the running thread waits for nothing.

  The lemmas \<open>kinv_block\<close>, \<open>kinv_tmd_block\<close> and \<open>kinv_wakeup\<close> carry the proofs of the service
  handlers: a handler blocks the caller, wakes a queued thread, or changes fields the invariant
  does not mention.
\<close>

section \<open>Definition\<close>

definition running_ok :: "nat set \<Rightarrow> thinkos_rt \<Rightarrow> bool" where
  "running_ok X rt \<longleftrightarrow>
     active rt \<le> 8 \<and>
     (active rt < 8 \<longrightarrow> bit (th_alloc rt) (active rt)) \<and>
     (\<forall>q. 4 \<le> q \<and> q < 53 \<longrightarrow> \<not> qbit rt q (active rt)) \<and>
     (qbit rt 1 (active rt) \<longrightarrow> active rt \<in> X)"

definition kinv :: "nat set \<Rightarrow> thinkos_rt \<Rightarrow> bool" where
  "kinv X rt \<longleftrightarrow>
     qbit rt 0 8 \<and>
     (\<forall>q t. q < 53 \<and> qbit rt q t \<longrightarrow> t < 8 \<or> (q = 0 \<and> t = 8)) \<and>
     (\<forall>t. th_stat rt t < 106) \<and>
     (\<forall>q t. 5 \<le> q \<and> q < 53 \<and> qbit rt q t \<longrightarrow> th_stat rt t div 2 = q) \<and>
     (\<forall>t. qbit rt 4 t \<longrightarrow> odd (th_stat rt t)) \<and>
     (\<forall>q t. 4 \<le> q \<and> q < 53 \<and> qbit rt q t \<longrightarrow> \<not> qbit rt 0 t \<and> \<not> qbit rt 1 t \<and> t \<notin> X) \<and>
     (\<forall>t. qbit rt 0 t \<and> qbit rt 1 t \<longrightarrow> t \<in> X) \<and>
     (\<forall>t. qbit rt 2 t \<longrightarrow> t \<in> X \<and> th_stat rt t div 2 = 2) \<and>
     (\<forall>q t. 45 \<le> q \<and> q < 53 \<and> qbit rt q t \<longrightarrow> \<not> qbit rt 4 t) \<and>
     (\<forall>q t. (q \<le> 1 \<or> 4 \<le> q) \<and> q < 53 \<and> t < 8 \<and> qbit rt q t \<longrightarrow> bit (th_alloc rt) t) \<and>
     (\<forall>t. t \<in> X \<longrightarrow> t < 8 \<and> bit (th_alloc rt) t) \<and>
     (pendsv rt \<or> running_ok X rt)"

section \<open>Reading the invariant\<close>

lemma kinvD:
  assumes "kinv X rt"
  shows kinv_idle: "qbit rt 0 8"
    and kinv_range: "q < 53 \<Longrightarrow> qbit rt q t \<Longrightarrow> t < 8 \<or> (q = 0 \<and> t = 8)"
    and kinv_stat_lt: "th_stat rt t < 106"
    and kinv_stat: "5 \<le> q \<Longrightarrow> q < 53 \<Longrightarrow> qbit rt q t \<Longrightarrow> th_stat rt t div 2 = q"
    and kinv_clock: "qbit rt 4 t \<Longrightarrow> odd (th_stat rt t)"
    and kinv_wait: "4 \<le> q \<Longrightarrow> q < 53 \<Longrightarrow> qbit rt q t \<Longrightarrow> \<not> qbit rt 0 t \<and> \<not> qbit rt 1 t \<and> t \<notin> X"
    and kinv_tmshare: "qbit rt 0 t \<Longrightarrow> qbit rt 1 t \<Longrightarrow> t \<in> X"
    and kinv_canceled: "qbit rt 2 t \<Longrightarrow> t \<in> X \<and> th_stat rt t div 2 = 2"
    and kinv_join: "45 \<le> q \<Longrightarrow> q < 53 \<Longrightarrow> qbit rt q t \<Longrightarrow> \<not> qbit rt 4 t"
    and kinv_alloc: "q \<le> 1 \<or> 4 \<le> q \<Longrightarrow> q < 53 \<Longrightarrow> t < 8 \<Longrightarrow> qbit rt q t \<Longrightarrow> bit (th_alloc rt) t"
    and kinv_exit: "t \<in> X \<Longrightarrow> t < 8 \<and> bit (th_alloc rt) t"
    and kinv_running: "\<not> pendsv rt \<Longrightarrow> running_ok X rt"
  using assms unfolding kinv_def by blast+

lemma kinvI:
  assumes "qbit rt 0 8"
    and "\<And>q t. q < 53 \<Longrightarrow> qbit rt q t \<Longrightarrow> t < 8 \<or> (q = 0 \<and> t = 8)"
    and "\<And>t. th_stat rt t < 106"
    and "\<And>q t. 5 \<le> q \<Longrightarrow> q < 53 \<Longrightarrow> qbit rt q t \<Longrightarrow> th_stat rt t div 2 = q"
    and "\<And>t. qbit rt 4 t \<Longrightarrow> odd (th_stat rt t)"
    and "\<And>q t. 4 \<le> q \<Longrightarrow> q < 53 \<Longrightarrow> qbit rt q t \<Longrightarrow> \<not> qbit rt 0 t \<and> \<not> qbit rt 1 t \<and> t \<notin> X"
    and "\<And>t. qbit rt 0 t \<Longrightarrow> qbit rt 1 t \<Longrightarrow> t \<in> X"
    and "\<And>t. qbit rt 2 t \<Longrightarrow> t \<in> X \<and> th_stat rt t div 2 = 2"
    and "\<And>q t. 45 \<le> q \<Longrightarrow> q < 53 \<Longrightarrow> qbit rt q t \<Longrightarrow> \<not> qbit rt 4 t"
    and "\<And>q t. q \<le> 1 \<or> 4 \<le> q \<Longrightarrow> q < 53 \<Longrightarrow> t < 8 \<Longrightarrow> qbit rt q t \<Longrightarrow> bit (th_alloc rt) t"
    and "\<And>t. t \<in> X \<Longrightarrow> t < 8 \<and> bit (th_alloc rt) t"
    and "pendsv rt \<or> running_ok X rt"
  shows "kinv X rt"
  using assms unfolding kinv_def by blast

lemma kinv_lt8: "kinv X rt \<Longrightarrow> q < 53 \<Longrightarrow> q \<noteq> 0 \<Longrightarrow> qbit rt q t \<Longrightarrow> t < 8"
  using kinv_range by blast

lemma kinv_one_queue:
  "kinv X rt \<Longrightarrow> 5 \<le> q \<Longrightarrow> q < 53 \<Longrightarrow> 5 \<le> q' \<Longrightarrow> q' < 53 \<Longrightarrow> qbit rt q t \<Longrightarrow> qbit rt q' t \<Longrightarrow> q = q'"
  using kinv_stat by metis

text \<open>The invariant reads the queues, the status bytes, the allocation bitmap and the two
  scheduling fields; updates of all other fields keep it.\<close>

lemma kinv_cong:
  "wq_lst rt' = wq_lst rt \<Longrightarrow> th_stat rt' = th_stat rt \<Longrightarrow> th_alloc rt' = th_alloc rt \<Longrightarrow>
   active rt' = active rt \<Longrightarrow> pendsv rt' = pendsv rt \<Longrightarrow> kinv X rt' = kinv X rt"
  by (simp add: kinv_def running_ok_def)

lemma kinv_upd [simp]:
  "kinv X (rt\<lparr>ctx := v_ctx\<rparr>) = kinv X rt"
  "kinv X (rt\<lparr>sched_val := v_sched_val\<rparr>) = kinv X rt"
  "kinv X (rt\<lparr>sched_pri := v_sched_pri\<rparr>) = kinv X rt"
  "kinv X (rt\<lparr>sched_limit := v_sched_limit\<rparr>) = kinv X rt"
  "kinv X (rt\<lparr>ticks := v_ticks\<rparr>) = kinv X rt"
  "kinv X (rt\<lparr>clock := v_clock\<rparr>) = kinv X rt"
  "kinv X (rt\<lparr>sem_val := v_sem_val\<rparr>) = kinv X rt"
  "kinv X (rt\<lparr>ev_pend := v_ev_pend\<rparr>) = kinv X rt"
  "kinv X (rt\<lparr>ev_mask := v_ev_mask\<rparr>) = kinv X rt"
  "kinv X (rt\<lparr>flag_sig := v_flag_sig\<rparr>) = kinv X rt"
  "kinv X (rt\<lparr>flag_lock := v_flag_lock\<rparr>) = kinv X rt"
  "kinv X (rt\<lparr>lock := v_lock\<rparr>) = kinv X rt"
  "kinv X (rt\<lparr>irq_th := v_irq_th\<rparr>) = kinv X rt"
  "kinv X (rt\<lparr>mutex_alloc := v_mutex_alloc\<rparr>) = kinv X rt"
  "kinv X (rt\<lparr>cond_alloc := v_cond_alloc\<rparr>) = kinv X rt"
  "kinv X (rt\<lparr>sem_alloc := v_sem_alloc\<rparr>) = kinv X rt"
  "kinv X (rt\<lparr>ev_alloc := v_ev_alloc\<rparr>) = kinv X rt"
  "kinv X (rt\<lparr>flag_alloc := v_flag_alloc\<rparr>) = kinv X rt"
  "kinv X (rt\<lparr>th_inf := v_th_inf\<rparr>) = kinv X rt"
  "kinv X (rt\<lparr>irq_en := v_irq_en\<rparr>) = kinv X rt"
  by (rule kinv_cong; simp)+

lemma kinv_set_r0 [simp]: "kinv X (ctx_set_r0 t v rt) = kinv X rt"
  by (simp add: ctx_set_r0_def)

section \<open>Blocking and waking\<close>

lemma kinv_defer [simp]: "kinv X rt \<Longrightarrow> kinv X (thinkos_defer_sched rt)"
  using prim_pendsv(1) unfolding kinv_def wq_lst_frame defer_sched_frame by blast

text \<open>What blocking a running thread does to the queues, whichever way the handler writes it.\<close>

definition blocks :: "nat set \<Rightarrow> nat \<Rightarrow> nat \<Rightarrow> thinkos_rt \<Rightarrow> thinkos_rt \<Rightarrow> bool" where
  "blocks Q s t rt rt' \<longleftrightarrow>
     (\<forall>q u. 1 < q \<longrightarrow> qbit rt' q u = (qbit rt q u \<or> (q \<in> Q \<and> u = t))) \<and>
     (\<forall>u. qbit rt' 0 u \<longrightarrow> (qbit rt 0 u \<and> u \<noteq> t) \<or> qbit rt 1 u) \<and>
     (\<forall>u. qbit rt' 1 u \<longrightarrow> qbit rt 1 u) \<and>
     (\<forall>u. qbit rt' 0 u \<and> qbit rt' 1 u \<longrightarrow> qbit rt 0 u \<and> qbit rt 1 u) \<and>
     qbit rt' 0 8 \<and>
     th_stat rt' = (th_stat rt)(t := s) \<and> th_alloc rt' = th_alloc rt \<and> pendsv rt'"

lemma kinv_blocks:
  assumes k: "kinv X rt" and np: "\<not> pendsv rt" and t: "t = active rt" "t < 8" "t \<notin> X"
    and b: "blocks Q s t rt rt'"
    and Q: "Q \<subseteq> {4..<53}" "\<And>q. q \<in> Q \<Longrightarrow> 5 \<le> q \<Longrightarrow> q = s div 2" "s < 106" "4 \<in> Q \<longrightarrow> odd s"
      "4 \<in> Q \<longrightarrow> s div 2 < 45"
  shows "kinv X rt'"
proof -
  have r: "running_ok X rt" using kinv_running [OF k np] .
  have old: "\<not> qbit rt q t" if "4 \<le> q" "q < 53" for q
    using r t that by (auto simp: running_ok_def)
  have tm: "\<not> qbit rt 1 t" using r t by (auto simp: running_ok_def)
  have al: "bit (th_alloc rt) t" using r t by (auto simp: running_ok_def)
  note bb = b [unfolded blocks_def]
  have w: "qbit rt' q u = (qbit rt q u \<or> (q \<in> Q \<and> u = t))" if "1 < q" for q u
    using bb that by blast
  have st: "th_stat rt' u = (if u = t then s else th_stat rt u)" for u
    using bb by simp
  have r0: "\<not> qbit rt' 0 t \<and> \<not> qbit rt' 1 t" using bb tm by blast
  show ?thesis
    unfolding kinv_def
  proof (intro conjI allI impI; (elim conjE)?)
    show "qbit rt' 0 8" using bb by blast
  next
    fix q u assume "q < 53" "qbit rt' q u"
    moreover consider "q = 0" | "q = 1" | "1 < q" by linarith
    ultimately show "u < 8 \<or> (q = 0 \<and> u = 8)"
      using kinv_range [OF k, of q u] kinv_range [OF k, of 1 u] t(2) w [of q u] bb by cases auto
  next
    fix u show "th_stat rt' u < 106" using kinv_stat_lt [OF k] Q st by simp
  next
    fix q u assume "5 \<le> q" "q < 53" "qbit rt' q u"
    then show "th_stat rt' u div 2 = q"
      using w [of q u] old [of q] kinv_stat [OF k, of q u] Q st by auto
  next
    fix u assume "qbit rt' 4 u"
    then show "odd (th_stat rt' u)"
      using w [of 4 u] old [of 4] kinv_clock [OF k, of u] Q st by auto
  next
    fix q u assume q: "4 \<le> q" "q < 53" "qbit rt' q u"
    then show "\<not> qbit rt' 0 u" "\<not> qbit rt' 1 u" "u \<notin> X"
      using w [of q u] kinv_wait [OF k, of q u] bb r0 t by auto
  next
    fix u assume "qbit rt' 0 u" "qbit rt' 1 u"
    then show "u \<in> X" using bb kinv_tmshare [OF k] by blast
  next
    fix u assume "qbit rt' 2 u"
    then show "u \<in> X" "th_stat rt' u div 2 = 2"
      using w [of 2 u] kinv_canceled [OF k, of u] Q(1) t(3) st [of u] by auto
  next
    fix q u assume "45 \<le> q" "q < 53" "qbit rt' q u"
    then show "\<not> qbit rt' 4 u"
      using w [of q u] w [of 4 u] old [of 4] old [of q] kinv_join [OF k, of q u] Q by auto
  next
    fix q u assume q: "q \<le> 1 \<or> 4 \<le> q" "q < 53" "u < 8" "qbit rt' q u"
    have "u = t \<or> qbit rt q u \<or> qbit rt 0 u \<or> qbit rt 1 u"
      using q bb w [of q u] by (cases "q = 0 \<or> q = 1") auto
    then have "bit (th_alloc rt) u"
      using al kinv_alloc [OF k] q by fastforce
    then show "bit (th_alloc rt') u" using bb by simp
  next
    fix u assume "u \<in> X"
    then show "u < 8" "bit (th_alloc rt') u" using kinv_exit [OF k] bb by auto
  next
    show "pendsv rt' \<or> running_ok X rt'" using bb by blast
  qed
qed

lemma blocks_wait_insert:
  "kinv X rt \<Longrightarrow> t < 8 \<Longrightarrow> 1 < q \<Longrightarrow>
   blocks {q} ((q * 2) mod 256) t rt (thinkos_wait t (thinkos_wq_insert q t rt))"
  using wait_D [where th = t and rt = "thinkos_wq_insert q t rt"] wait_ready_tmshare [where th = t and rt = "thinkos_wq_insert q t rt"]
  by (auto simp: blocks_def kinv_idle)

lemma blocks_wait_tmd_insert:
  "kinv X rt \<Longrightarrow> t < 8 \<Longrightarrow> 1 < q \<Longrightarrow>
   blocks {q, 4} ((q * 2 + 1) mod 256) t rt (thinkos_wait t (thinkos_tmdwq_insert q t ms rt))"
  using wait_D [where th = t and rt = "thinkos_tmdwq_insert q t ms rt"]
    wait_ready_tmshare [where th = t and rt = "thinkos_tmdwq_insert q t ms rt"]
  by (auto simp: blocks_def kinv_idle)

lemma kinv_block [intro]:
  assumes "kinv X rt" "\<not> pendsv rt" "active rt < 8" "active rt \<notin> X" "5 \<le> q" "q < 53"
  shows "kinv X (thinkos_wait (active rt) (thinkos_wq_insert q (active rt) rt))"
  by (rule kinv_blocks [OF assms(1,2) _ assms(3,4) blocks_wait_insert [OF assms(1,3), of q]])
    (use assms in auto)

lemma kinv_tmd_block [intro]:
  assumes "kinv X rt" "\<not> pendsv rt" "active rt < 8" "active rt \<notin> X" "5 \<le> q" "q < 45"
  shows "kinv X (thinkos_wait (active rt) (thinkos_tmdwq_insert q (active rt) ms rt))"
  by (rule kinv_blocks [OF assms(1,2) _ assms(3,4) blocks_wait_tmd_insert [OF assms(1,3), of q ms]])
    (use assms in auto)

lemma kinv_obj_block:
  assumes "kinv X rt" "\<not> pendsv rt" "active rt < 8" "active rt \<notin> X" "5 \<le> q \<and> q < 45"
  shows "kinv X (thinkos_wait (active rt) (thinkos_wq_insert q (active rt) rt))"
    and "kinv X (thinkos_wait (active rt) (thinkos_tmdwq_insert q (active rt) ms rt))"
  using assms by auto

text \<open>Unblocking a thread: it leaves the queues it waits in and becomes ready. Its status byte may
  take any value, since it names no queue any more.\<close>

lemma kinv_unblock:
  assumes k: "kinv X rt" and q: "4 \<le> q" "q < 53" "qbit rt q t"
    and same: "\<And>p u. u \<noteq> t \<Longrightarrow> qbit rt' p u = qbit rt p u"
    and rdy: "qbit rt' 0 t"
    and gone: "\<And>p. p < 53 \<Longrightarrow> qbit rt' p t \<Longrightarrow> p = 0 \<or> (p < 4 \<and> qbit rt p t)"
    and f: "th_stat rt' = (th_stat rt)(t := s)" "s < 106" "th_alloc rt' = th_alloc rt"
      "active rt' = active rt" "pendsv rt' = pendsv rt"
  shows "kinv X rt'"
proof -
  have t: "t < 8" "\<not> qbit rt 0 t" "\<not> qbit rt 1 t" "t \<notin> X"
    using kinv_wait [OF k q] kinv_lt8 [OF k q(2) _ q(3)] q by auto
  have al: "bit (th_alloc rt) t" using kinv_alloc [OF k _ q(2) t(1) q(3)] q by simp
  have nt: "u \<noteq> t" if "4 \<le> p" "p < 53" "qbit rt' p u" for p u using gone [of p] that by auto
  have run: "running_ok X rt \<Longrightarrow> running_ok X rt'"
  proof -
    assume r: "running_ok X rt"
    then have "active rt \<noteq> t" using q by (auto simp: running_ok_def)
    then show ?thesis using r by (simp add: running_ok_def f same)
  qed
  show ?thesis
    unfolding kinv_def
  proof (intro conjI allI impI; (elim conjE)?)
    show "qbit rt' 0 8" using kinv_idle [OF k] t same [of 8 0] by simp
  next
    fix p u assume "p < 53" "qbit rt' p u"
    then show "u < 8 \<or> (p = 0 \<and> u = 8)" using kinv_range [OF k, of p u] t same by (cases "u = t") auto
  next
    fix u show "th_stat rt' u < 106" using kinv_stat_lt [OF k] f by simp
  next
    fix p u assume p: "5 \<le> p" "p < 53" "qbit rt' p u"
    then show "th_stat rt' u div 2 = p"
      using nt [of p u] kinv_stat [OF k, of p u] same by (auto simp: f)
  next
    fix u assume "qbit rt' 4 u"
    then show "odd (th_stat rt' u)" using nt [of 4 u] kinv_clock [OF k, of u] same by (auto simp: f)
  next
    fix p u assume p: "4 \<le> p" "p < 53" "qbit rt' p u"
    then show "\<not> qbit rt' 0 u" "\<not> qbit rt' 1 u" "u \<notin> X"
      using nt [of p u] kinv_wait [OF k, of p u] same by auto
  next
    fix u assume "qbit rt' 0 u" "qbit rt' 1 u"
    then show "u \<in> X" using kinv_tmshare [OF k, of u] gone [of 1] t same by (cases "u = t") auto
  next
    fix u assume u: "qbit rt' 2 u"
    then have "u \<noteq> t" using gone [of 2] kinv_canceled [OF k, of t] t by auto
    then show "u \<in> X" "th_stat rt' u div 2 = 2" using u kinv_canceled [OF k, of u] same by (auto simp: f)
  next
    fix p u assume p: "45 \<le> p" "p < 53" "qbit rt' p u"
    then show "\<not> qbit rt' 4 u" using nt [of p u] kinv_join [OF k, of p u] same by auto
  next
    fix p u assume "p \<le> 1 \<or> 4 \<le> p" "p < 53" "u < 8" "qbit rt' p u"
    then show "bit (th_alloc rt') u" using kinv_alloc [OF k, of p u] al same by (cases "u = t") (auto simp: f)
  next
    fix u assume "u \<in> X"
    then show "u < 8" "bit (th_alloc rt') u" using kinv_exit [OF k] by (auto simp: f)
  next
    show "pendsv rt' \<or> running_ok X rt'" using kinv_running [OF k] run by (auto simp: f)
  qed
qed

lemma kinv_wakeup [intro]:
  assumes k: "kinv X rt" and q: "5 \<le> q" "q < 53" "qbit rt q t"
  shows "kinv X (thinkos_wakeup q t rt)" "kinv X (thinkos_wakeup_return q t v rt)"
proof -
  have t: "t < 32" using kinv_lt8 [OF k q(2) _ q(3)] q by simp
  have only: "p = q" if "5 \<le> p" "p < 53" "qbit rt p t" for p
    using kinv_one_queue [OF k that(1,2) q(1,2) that(3) q(3)] .
  have gone: "p = 0 \<or> (p < 4 \<and> qbit rt p t)"
    if "p < 53" "(qbit rt p t \<and> p \<noteq> q \<and> p \<noteq> 4) \<or> p = 0" for p
    using that only [of p] by linarith
  show "kinv X (thinkos_wakeup q t rt)"
    by (rule kinv_unblock [OF k _ q(2,3), where s = 0]) (use q t gone in auto)
  show "kinv X (thinkos_wakeup_return q t v rt)"
    by (rule kinv_unblock [OF k _ q(2,3), where s = 0]) (use q t gone in auto)
qed

section \<open>Which queues an operation may fill\<close>

text \<open>\<open>shrinks Q rt rt'\<close>: outside \<open>Q\<close>, no object queue gains a thread. The invariants of the
  object kinds follow from it for the services of the other kinds.\<close>

definition shrinks :: "nat set \<Rightarrow> thinkos_rt \<Rightarrow> thinkos_rt \<Rightarrow> bool" where
  "shrinks Q rt rt' \<longleftrightarrow> (\<forall>q t. 5 \<le> q \<and> q < 53 \<and> q \<notin> Q \<and> qbit rt' q t \<longrightarrow> qbit rt q t)"

lemma shrinks_same [simp]: "wq_lst rt' = wq_lst rt \<Longrightarrow> shrinks Q rt rt'"
  by (simp add: shrinks_def)

lemma shrinks_trans: "shrinks Q rt rt' \<Longrightarrow> shrinks Q rt' rt'' \<Longrightarrow> shrinks Q rt rt''"
  unfolding shrinks_def by blast

lemma shrinks_mono: "shrinks Q rt rt' \<Longrightarrow> Q \<subseteq> Q' \<Longrightarrow> shrinks Q' rt rt'"
  unfolding shrinks_def by blast

lemma shrinksD: "shrinks Q rt rt' \<Longrightarrow> qbit rt' q t \<Longrightarrow> 5 \<le> q \<Longrightarrow> q < 53 \<Longrightarrow> q \<notin> Q \<Longrightarrow> qbit rt q t"
  unfolding shrinks_def by blast

lemma shrinks_block [simp]:
  "q \<in> Q \<Longrightarrow> shrinks Q rt rt' \<Longrightarrow> shrinks Q rt (thinkos_wait t (thinkos_wq_insert q t rt'))"
  "q \<in> Q \<Longrightarrow> shrinks Q rt rt' \<Longrightarrow> shrinks Q rt (thinkos_wait t (thinkos_tmdwq_insert q t ms rt'))"
  by (auto simp: shrinks_def)

lemma shrinks_wakeup [simp]:
  "t < 32 \<Longrightarrow> 0 < q \<Longrightarrow> shrinks Q rt rt' \<Longrightarrow> shrinks Q rt (thinkos_wakeup q t rt')"
  "t < 32 \<Longrightarrow> 0 < q \<Longrightarrow> shrinks Q rt rt' \<Longrightarrow> shrinks Q rt (thinkos_wakeup_return q t v rt')"
  by (auto simp: shrinks_def)

lemma shrinks_defer [simp]: "shrinks Q rt (thinkos_defer_sched rt') = shrinks Q rt rt'"
  by (simp add: shrinks_def)

lemma wq_head_lt32: "wq_lst rt q \<noteq> 0 \<Longrightarrow> thinkos_wq_head q rt < 32"
  by (simp add: wq_head_first_bit)

end
