(* ===== verification/ThinkOS_Alloc.thy ===== *)
theory ThinkOS_Alloc
  imports ThinkOS_Inv
begin

text \<open>
  The three bitmap allocators of ThinkOS: \<open>thinkos_bmp_alloc\<close> (\<^verbatim>\<open>thinkos_core.c\<close>), which hands out
  objects, and \<open>thinkos_alloc_lo\<close> and \<open>thinkos_alloc_hi\<close> (\<^verbatim>\<open>thinkos_sys.h\<close>), which hand out thread
  numbers upwards or downwards from a start. The locale \<open>id_alloc\<close> is their common contract.
\<close>

section \<open>Definitions\<close>

text \<open>A bitmap is the list of its words; the loop runs over \<open>(bits + 31) / 32\<close> of them.\<close>

function bmp_alloc_from :: "nat \<Rightarrow> nat \<Rightarrow> u32 list \<Rightarrow> int \<times> u32 list" where
  "bmp_alloc_from i n bmp =
    (if i < n then
       (let j = clz (rbit (NOT (bmp ! i)))
        in if j < 32 then (int (32 * i + j), bmp[i := bit_mem_wr (bmp ! i) j True])
           else bmp_alloc_from (Suc i) n bmp)
     else (- 1, bmp))"
  by pat_completeness auto
termination
  by (relation "measure (\<lambda>(i, n, bmp). n - i)") auto

declare bmp_alloc_from.simps [simp del]

definition thinkos_bmp_alloc :: "u32 list \<Rightarrow> nat \<Rightarrow> int \<times> u32 list" where
  "thinkos_bmp_alloc bmp bits = bmp_alloc_from 0 ((bits + 31) div 32) bmp"

definition thinkos_alloc_lo :: "nat \<Rightarrow> u32 \<Rightarrow> int \<times> u32" where
  "thinkos_alloc_lo start w =
    (let idx = clz (rbit (NOT (drop_bit start w))) + start
     in if idx \<ge> 32 then (- 1, w) else (int idx, bit_mem_wr w idx True))"

definition thinkos_alloc_hi :: "nat \<Rightarrow> u32 \<Rightarrow> int \<times> u32" where
  "thinkos_alloc_hi start0 w =
    (let start = (if start0 > 31 then 31 else start0);
         idx = int start - int (clz (NOT (push_bit (31 - start) w)))
     in if idx < 0 then (- 1, w) else (idx, bit_mem_wr w (nat idx) True))"

section \<open>The highest set bit\<close>

lemma rbit_rbit [simp]: "rbit (rbit w) = w"
  by (rule word32_eqI) (auto simp: bit_rbit)

lemma clz_eq_first_bit: "clz w = first_bit (rbit w)"
  using clz_rbit [of "rbit w"] by simp

lemma rbit_eq_0 [simp]: "rbit w = 0 \<longleftrightarrow> w = 0"
  by (metis rbit_rbit word32_eq_0_iff bit_rbit)

lemma clz_bit: "w \<noteq> 0 \<Longrightarrow> clz w < 32 \<and> bit w (31 - clz w)"
  using first_bit_bit [of "rbit w"] by (simp add: clz_eq_first_bit bit_rbit)

lemma clz_above: "31 - clz w < n \<Longrightarrow> n < 32 \<Longrightarrow> w \<noteq> 0 \<Longrightarrow> \<not> bit w n"
  using first_bit_not_before [of "31 - n" "rbit w"] clz_bit [of w]
  by (simp add: clz_eq_first_bit bit_rbit)

section \<open>The contract\<close>

text \<open>
  An allocator over the bits \<open>D\<close>: success returns a bit of \<open>D\<close> that was clear and sets exactly that
  bit; failure is \<open>-1\<close>, changes nothing, and happens only when every bit of \<open>D\<close> is taken.
\<close>

locale id_alloc =
  fixes alloc :: "u32 \<Rightarrow> int \<times> u32" and D :: "nat set"
  assumes alloc_some: "alloc w = (i, w') \<Longrightarrow> 0 \<le> i \<Longrightarrow>
      nat i \<in> D \<and> nat i < 32 \<and> \<not> bit w (nat i) \<and> w' = bit_mem_wr w (nat i) True"
    and alloc_none: "alloc w = (i, w') \<Longrightarrow> i < 0 \<Longrightarrow> i = - 1 \<and> w' = w \<and> (\<forall>n\<in>D. bit w n)"
begin

lemma alloc_keeps: "alloc w = (i, w') \<Longrightarrow> bit w n \<Longrightarrow> bit w' n"
  using alloc_some [of w i w'] alloc_none [of w i w'] by (cases "i < 0") auto

lemma alloc_marks: "alloc w = (i, w') \<Longrightarrow> 0 \<le> i \<Longrightarrow> bit w' (nat i)"
  using alloc_some [of w i w'] by simp

lemma alloc_only: "alloc w = (i, w') \<Longrightarrow> bit w' n \<Longrightarrow> bit w n \<or> (0 \<le> i \<and> n = nat i)"
  using alloc_some [of w i w'] alloc_none [of w i w'] by (cases "i < 0") (auto split: if_splits)

lemma alloc_distinct: "alloc w = (i, w') \<Longrightarrow> 0 \<le> i \<Longrightarrow> alloc w' = (j, w'') \<Longrightarrow> i \<noteq> j"
  using alloc_marks [of w i w'] alloc_some [of w' j w''] by auto

lemma alloc_full_iff: "D \<subseteq> {..<32} \<Longrightarrow> fst (alloc w) = - 1 \<longleftrightarrow> (\<forall>n\<in>D. bit w n)"
proof -
  obtain i w' where a: "alloc w = (i, w')" by fastforce
  show ?thesis
    using alloc_some [OF a] alloc_none [OF a] a by (cases "i < 0") auto
qed

lemma alloc_bounded:
  assumes "alloc w = (i, w')" and "0 \<le> i" and "\<And>n. N \<le> n \<Longrightarrow> n < 32 \<Longrightarrow> bit w n"
  shows "i < int N"
proof (rule ccontr)
  assume "\<not> i < int N"
  then have "N \<le> nat i" by simp
  then show False using alloc_some [OF assms(1,2)] assms(3) by blast
qed

end

section \<open>The implementations\<close>

lemma bmp_alloc_single:
  "0 < bits \<Longrightarrow> bits \<le> 32 \<Longrightarrow>
   thinkos_bmp_alloc [w] bits =
     (if NOT w = 0 then (- 1, [w])
      else (int (first_bit (NOT w)), [bit_mem_wr w (first_bit (NOT w)) True]))"
proof -
  assume "0 < bits" "bits \<le> 32"
  then have "(bits + 31) div 32 = 1" by linarith
  then show ?thesis
    by (simp add: thinkos_bmp_alloc_def bmp_alloc_from.simps [of 0] bmp_alloc_from.simps [of "Suc 0"]
        clz_rbit Let_def)
qed

definition obj_bmp_alloc :: "u32 \<Rightarrow> int \<times> u32" where
  "obj_bmp_alloc w = (case thinkos_bmp_alloc [w] 8 of (i, bmp) \<Rightarrow> (i, bmp ! 0))"

interpretation bmp8: id_alloc obj_bmp_alloc "{..<32}"
proof (unfold_locales, goal_cases)
  case (1 w i w')
  then have nz: "NOT w \<noteq> 0"
    by (auto simp: obj_bmp_alloc_def bmp_alloc_single split: if_splits)
  then have "bit (NOT w) (first_bit (NOT w))" "first_bit (NOT w) < 32"
    using first_bit_bit [of "NOT w"] by simp_all
  with 1 nz show ?case
    by (auto simp: obj_bmp_alloc_def bmp_alloc_single bit_not_iff)
next
  case (2 w i w')
  then have z: "NOT w = 0"
    by (auto simp: obj_bmp_alloc_def bmp_alloc_single split: if_splits)
  then have "bit w n" if "n < 32" for n
    using that bit_not_iff [of w n] by (simp add: z)
  with 2 z show ?case
    by (auto simp: obj_bmp_alloc_def bmp_alloc_single)
qed

lemma alloc_lo_id: "id_alloc (thinkos_alloc_lo start) {start..<32}"
proof (unfold_locales, goal_cases)
  case (1 w i w')
  let ?v = "NOT (drop_bit start w)"
  have i: "i = int (first_bit ?v + start)" "first_bit ?v + start < 32"
    using 1 by (auto simp: thinkos_alloc_lo_def clz_rbit Let_def split: if_splits)
  then have "bit ?v (first_bit ?v)" by (intro first_bit_bit) linarith
  then have "\<not> bit w (first_bit ?v + start)"
    by (simp add: bit_not_iff bit_drop_bit_eq add.commute)
  moreover have "nat i = first_bit ?v + start" using i(1) by linarith
  ultimately show ?case
    using 1 i(2) by (auto simp: thinkos_alloc_lo_def clz_rbit Let_def)
next
  case (2 w i w')
  let ?v = "NOT (drop_bit start w)"
  have big: "32 \<le> first_bit ?v + start" and r: "i = - 1" "w' = w"
    using 2 by (auto simp: thinkos_alloc_lo_def clz_rbit Let_def split: if_splits)
  have "bit w n" if "n \<in> {start..<32}" for n
    using that big first_bit_not_before [of "n - start" ?v] by (auto simp: bit_not_iff bit_drop_bit_eq)
  with r show ?case by blast
qed

lemma alloc_hi_id: "id_alloc (thinkos_alloc_hi start0) {..min start0 31}"
proof (unfold_locales, goal_cases)
  case (1 w i w')
  define s where "s = min start0 31"
  let ?v = "NOT (push_bit (31 - s) w)"
  have s: "(if start0 > 31 then 31 else start0) = s" "s < 32" by (auto simp: s_def)
  have i: "i = int s - int (clz ?v)" "clz ?v \<le> s" "w' = bit_mem_wr w (nat i) True"
    using 1 by (auto simp: thinkos_alloc_hi_def Let_def s split: if_splits)
  have n: "nat i = s - clz ?v" using i by simp
  have "first_bit (rbit ?v) < 32" using i(2) s(2) clz_eq_first_bit [of ?v] by linarith
  then have "?v \<noteq> 0" using first_bit_lt_iff rbit_eq_0 by blast
  then have "bit ?v (31 - clz ?v)" using clz_bit by blast
  moreover have "31 - clz ?v = (31 - s) + nat i" using n i(2) s(2) by simp
  ultimately have "\<not> bit w (nat i)" by (auto simp: bit_not_iff bit_push_bit_iff)
  moreover have "nat i \<le> min start0 31" "nat i < 32"
    using n s(2) unfolding s_def by linarith+
  ultimately show ?case using i(3) by blast
next
  case (2 w i w')
  define s where "s = min start0 31"
  let ?v = "NOT (push_bit (31 - s) w)"
  have s: "(if start0 > 31 then 31 else start0) = s" "s < 32" by (auto simp: s_def)
  have big: "s < clz ?v" and r: "i = - 1" "w' = w"
    using 2 by (auto simp: thinkos_alloc_hi_def Let_def s split: if_splits)
  have "bit w n" if "n \<le> s" for n
  proof -
    have "\<not> bit ?v (31 - s + n)"
      using first_bit_not_before [of "s - n" "rbit ?v"] big that s(2)
      by (auto simp: clz_eq_first_bit bit_rbit)
    then show ?thesis using that s(2) by (auto simp: bit_not_iff bit_push_bit_iff)
  qed
  with r show ?case by (auto simp: s_def)
qed

interpretation alloc_lo: id_alloc "thinkos_alloc_lo start" "{start..<32}" for start
  by (rule alloc_lo_id)

interpretation alloc_hi: id_alloc "thinkos_alloc_hi start" "{..min start 31}" for start
  by (rule alloc_hi_id)

end
