(* ===== verification/ThinkOS_Init.thy ===== *)
theory ThinkOS_Init
  imports ThinkOS_Alloc
begin

text \<open>
  Start of the kernel: \<open>thinkos_init\<close> (\<^verbatim>\<open>src/src/sdk/libthinkos/thinkos_core.c\<close>) on the zeroed static
  block. Addresses the linker fixes (the idle task, the exit stub, the tick counter, the main
  thread's information block) are the fields of \<open>thinkos_link\<close>. Programming the NVIC, SysTick and
  stack registers and filling the exception stack with a pattern are left out: no service reads
  them back.
\<close>

section \<open>Definitions\<close>

record thinkos_link =
  idle_task_addr :: u32
  thread_exit_addr :: u32
  ticks_addr :: u32
  main_inf_addr :: u32

record thinkos_thread_opt =
  opt_stack_size :: nat
  opt_priority :: nat
  opt_id :: nat
  opt_paused :: bool

definition thinkos_rt_bss :: thinkos_rt where
  "thinkos_rt_bss = \<lparr>ctx = (\<lambda>_. None), active = 0, wq_lst = (\<lambda>_. 0), th_stat = (\<lambda>_. 0),
     sched_val = (\<lambda>_. 0), sched_pri = (\<lambda>_. 0), sched_limit = 0, ticks = 0, clock = (\<lambda>_. 0),
     sem_val = (\<lambda>_. 0), ev_pend = (\<lambda>_. 0), ev_mask = (\<lambda>_. 0), flag_sig = 0, flag_lock = 0,
     lock = (\<lambda>_. 0), irq_th = (\<lambda>_. 0), th_alloc = 0, mutex_alloc = 0, cond_alloc = 0,
     sem_alloc = 0, ev_alloc = 0, flag_alloc = 0, th_inf = (\<lambda>_. 0), pendsv = False,
     irq_en = (\<lambda>_. False)\<rparr>"

text \<open>The allocation bitmap of \<open>max\<close> objects: the words below are cleared, the bits of the last
  word that stand for no object are set.\<close>

definition alloc_bmp_init :: "nat \<Rightarrow> u32" where
  "alloc_bmp_init mx = (if mx mod 32 \<noteq> 0 then push_bit (mx mod 32) 0xffffffff else 0)"

definition init_idle :: "thinkos_link \<Rightarrow> thinkos_rt \<Rightarrow> thinkos_rt" where
  "init_idle lk rt =
     rt\<lparr>ctx := (ctx rt)(THINKOS_THREAD_IDLE :=
          Some \<lparr>c_r4 = 0, c_r5 = 0, c_r6 = 0, c_r7 = 0, c_r8 = 0, c_r9 = 0, c_r10 = 0, c_r11 = 0,
                c_r0 = 0, c_r1 = 0, c_r2 = 0, c_r3 = 0, c_r12 = 0, c_lr = ticks_addr lk,
                c_pc = idle_task_addr lk, c_xpsr = 0x01000000\<rparr>),
        sched_val := (sched_val rt)(THINKOS_THREAD_IDLE := 0),
        sched_pri := (sched_pri rt)(THINKOS_THREAD_IDLE := 0)\<rparr>"

definition init_objects :: "thinkos_rt \<Rightarrow> thinkos_rt" where
  "init_objects rt =
     rt\<lparr>irq_th := (\<lambda>i. if i < THINKOS_IRQ_MAX then - 1 else irq_th rt i),
        mutex_alloc := alloc_bmp_init THINKOS_MUTEX_MAX,
        sem_alloc := alloc_bmp_init THINKOS_SEMAPHORE_MAX,
        cond_alloc := alloc_bmp_init THINKOS_COND_MAX,
        flag_alloc := alloc_bmp_init THINKOS_FLAG_MAX,
        ev_alloc := alloc_bmp_init THINKOS_EVENT_MAX,
        lock := (\<lambda>i. if i < THINKOS_MUTEX_MAX then - 1 else lock rt i),
        flag_sig := 0,
        flag_lock := 0,
        ev_pend := (\<lambda>i. if i < THINKOS_EVENT_MAX then 0 else ev_pend rt i),
        ev_mask := (\<lambda>i. if i < THINKOS_EVENT_MAX then 0xffffffff else ev_mask rt i)\<rparr>"

definition init_main_thread :: "thinkos_link \<Rightarrow> thinkos_thread_opt \<Rightarrow> thinkos_rt \<Rightarrow> nat \<times> thinkos_rt" where
  "init_main_thread lk opt rt =
    (let id0 = (if opt_id opt \<ge> THINKOS_THREADS_MAX then THINKOS_THREADS_MAX - 1 else opt_id opt);
         (i, w) = thinkos_alloc_lo id0 (push_bit THINKOS_THREADS_MAX 0xffffffff);
         self = nat i;
         pri = min (opt_priority opt) THINKOS_SCHED_LIMIT_MAX;
         rt1 = rt\<lparr>th_alloc := w,
                  th_inf := (th_inf rt)(self := main_inf_addr lk),
                  sched_pri := (sched_pri rt)(self := of_nat pri),
                  sched_val := (sched_val rt)(self := of_nat (pri div 2)),
                  sched_limit := of_nat (max pri THINKOS_SCHED_LIMIT_MIN),
                  active := self\<rparr>;
         rt2 = wq_wr THINKOS_WQ_READY THINKOS_THREADS_MAX True (wq_wr THINKOS_WQ_READY self True rt1)
     in (self, if opt_paused opt then thinkos_defer_sched (wq_wr THINKOS_WQ_PAUSED self True rt2) else rt2))"

definition thinkos_init :: "thinkos_link \<Rightarrow> thinkos_thread_opt \<Rightarrow> thinkos_rt \<Rightarrow> nat \<times> thinkos_rt" where
  "thinkos_init lk opt rt = init_main_thread lk opt (init_objects (init_idle lk rt))"

section \<open>The state after initialization\<close>

lemma bit_bmp_init: "bit (push_bit 8 (0xffffffff :: u32)) n \<longleftrightarrow> 8 \<le> n \<and> n < 32"
proof -
  have "(0xffffffff :: u32) = - 1" by simp
  then show ?thesis by (simp only: bit_push_bit_iff bit_minus_1_iff) auto
qed

lemma alloc_bmp_init_8: "bit (alloc_bmp_init 8) n \<longleftrightarrow> 8 \<le> n \<and> n < 32"
proof -
  have "alloc_bmp_init 8 = push_bit 8 0xffffffff" by (simp add: alloc_bmp_init_def)
  then show ?thesis by (simp only: bit_bmp_init)
qed

lemma alloc_lo_start:
  assumes "i < 32" "\<not> bit w i"
  shows "thinkos_alloc_lo i w = (int i, bit_mem_wr w i True)"
proof -
  have "bit (NOT (drop_bit i w)) 0"
    using assms by (simp add: bit_not_iff bit_drop_bit_eq)
  then have "first_bit (NOT (drop_bit i w)) = 0"
    using first_bit_least by blast
  then show ?thesis
    using assms by (simp add: thinkos_alloc_lo_def clz_rbit)
qed

lemma init_alloc_lo:
  assumes "i < 8"
  shows "thinkos_alloc_lo i (push_bit 8 0xffffffff) =
    (int i, bit_mem_wr (push_bit 8 0xffffffff) i True)"
  by (rule alloc_lo_start) (use assms in \<open>simp_all only: bit_bmp_init\<close>, simp_all)

lemma init_main_thread_eq:
  assumes "id0 = min (opt_id opt) 7"
  shows "fst (thinkos_init lk opt rt) = id0"
    and "active (snd (thinkos_init lk opt rt)) = id0"
    and "th_alloc (snd (thinkos_init lk opt rt)) = bit_mem_wr (push_bit 8 0xffffffff) id0 True"
    and "th_stat (snd (thinkos_init lk opt rt)) = th_stat rt"
    and "pendsv (snd (thinkos_init lk opt rt)) = (pendsv rt \<or> opt_paused opt)"
    and "qbit (snd (thinkos_init lk opt rt)) q t \<longleftrightarrow>
      qbit rt q t \<or> (q = 0 \<and> (t = id0 \<or> t = 8)) \<or> (q = 3 \<and> t = id0 \<and> opt_paused opt)"
proof -
  have "(if opt_id opt \<ge> 8 then 8 - 1 else opt_id opt) = id0" "id0 < 8" using assms by auto
  then show "fst (thinkos_init lk opt rt) = id0" "active (snd (thinkos_init lk opt rt)) = id0"
    "th_alloc (snd (thinkos_init lk opt rt)) = bit_mem_wr (push_bit 8 0xffffffff) id0 True"
    "th_stat (snd (thinkos_init lk opt rt)) = th_stat rt"
    "pendsv (snd (thinkos_init lk opt rt)) = (pendsv rt \<or> opt_paused opt)"
    "qbit (snd (thinkos_init lk opt rt)) q t \<longleftrightarrow>
      qbit rt q t \<or> (q = 0 \<and> (t = id0 \<or> t = 8)) \<or> (q = 3 \<and> t = id0 \<and> opt_paused opt)"
    using init_alloc_lo [of id0]
    by (auto simp: thinkos_init_def init_main_thread_def init_objects_def init_idle_def Let_def
        simp del: push_bit_numeral)
qed

lemma kinv_init: "kinv {} (snd (thinkos_init lk opt thinkos_rt_bss))"
proof -
  define i where "i = min (opt_id opt) 7"
  have i: "i < 8" by (simp add: i_def)
  note e = init_main_thread_eq [OF i_def, of lk thinkos_rt_bss]
  have b: "\<not> qbit thinkos_rt_bss q t" "th_stat thinkos_rt_bss t = 0" "\<not> pendsv thinkos_rt_bss" for q t
    by (simp_all add: thinkos_rt_bss_def)
  show ?thesis
    using i by (auto simp: kinv_def running_ok_def e b)
qed

section \<open>A concrete start\<close>

text \<open>A system started with a main thread numbered 0 of priority 8; the examples of the
  development run from it.\<close>

definition boot_rt :: thinkos_rt where
  "boot_rt = snd (thinkos_init
     \<lparr>idle_task_addr = 0x101, thread_exit_addr = 0x201, ticks_addr = 0x20000000, main_inf_addr = 0x301\<rparr>
     \<lparr>opt_stack_size = 1024, opt_priority = 8, opt_id = 0, opt_paused = False\<rparr> thinkos_rt_bss)"

lemma boot_queues [simp]: "qbit boot_rt q t \<longleftrightarrow> q = 0 \<and> (t = 0 \<or> t = 8)"
proof -
  have "\<not> qbit thinkos_rt_bss q t" by (simp add: thinkos_rt_bss_def)
  then show ?thesis
    unfolding boot_rt_def by (subst init_main_thread_eq(6) [OF refl]) simp
qed

lemma boot_fields [simp]:
  "active boot_rt = 0" "th_stat boot_rt = (\<lambda>_. 0)" "pendsv boot_rt = False"
  "th_alloc boot_rt = bit_mem_wr (push_bit 8 0xffffffff) 0 True"
  unfolding boot_rt_def by (subst init_main_thread_eq [OF refl]; simp add: thinkos_rt_bss_def)+

lemma init_objects_kept:
  fixes rt0 lk opt rt
  defines "rt0 \<equiv> snd (thinkos_init lk opt rt)"
  shows "lock rt0 = lock (init_objects (init_idle lk rt))"
    "mutex_alloc rt0 = alloc_bmp_init 8" "cond_alloc rt0 = alloc_bmp_init 8"
    "sem_alloc rt0 = alloc_bmp_init 8" "ev_alloc rt0 = alloc_bmp_init 8"
    "flag_alloc rt0 = alloc_bmp_init 8" "flag_sig rt0 = 0" "flag_lock rt0 = 0"
    "ev_pend rt0 = ev_pend (init_objects (init_idle lk rt))"
    "ev_mask rt0 = ev_mask (init_objects (init_idle lk rt))"
    "sem_val rt0 = sem_val rt" "clock rt0 = clock rt" "ticks rt0 = ticks rt"
    "irq_th rt0 = irq_th (init_objects (init_idle lk rt))"
  unfolding rt0_def thinkos_init_def init_main_thread_def Let_def
  by (simp_all add: init_objects_def init_idle_def split: prod.split)

lemma kinv_boot: "kinv {} boot_rt"
  unfolding boot_rt_def by (rule kinv_init)

lemma boot_objects [simp]:
  "lock boot_rt m = (if m < 8 then - 1 else 0)" "mutex_alloc boot_rt = alloc_bmp_init 8"
  "cond_alloc boot_rt = alloc_bmp_init 8" "sem_alloc boot_rt = alloc_bmp_init 8"
  "ev_alloc boot_rt = alloc_bmp_init 8" "flag_alloc boot_rt = alloc_bmp_init 8"
  "flag_sig boot_rt = 0" "flag_lock boot_rt = 0" "ev_pend boot_rt m = 0"
  "ev_mask boot_rt m = (if m < 8 then 0xffffffff else 0)" "sem_val boot_rt m = 0"
  "clock boot_rt m = 0" "ticks boot_rt = 0" "irq_th boot_rt m = (if m < 80 then - 1 else 0)"
  unfolding boot_rt_def init_objects_kept
  by (simp_all add: init_objects_def init_idle_def thinkos_rt_bss_def)

end
