(* ===== verification/ThinkOS_Sched.thy ===== *)
theory ThinkOS_Sched
  imports ThinkOS_Init
begin

text \<open>
  The scheduler of ThinkOS (\<^verbatim>\<open>src/src/sdk/libthinkos/thinkos_core.c\<close>): the PendSV handler that
  switches to the ready thread with the lowest number, the SysTick handler that advances the clock,
  wakes the threads whose time has come and charges the running thread its share, and the routine
  a thread ends in.

  \<open>sched_inv\<close> is the invariant of the 8-bit share counters. The counters stay between 0 and the
  limit, so the subtraction and addition of the handler never leave the range of \<open>int8_t\<close>, and
  the idle thread is never moved to the time-share queue.
\<close>

section \<open>Definitions\<close>

text \<open>The frame is what \<open>__sched_entry\<close> pushes on the stack of the interrupted thread; taking the
  exception clears the pending bit.\<close>

definition cm3_pendsv_isr :: "thinkos_context \<Rightarrow> thinkos_rt \<Rightarrow> thinkos_rt" where
  "cm3_pendsv_isr frame rt =
    (let idx = active rt;
         rt1 = rt\<lparr>ctx := (ctx rt)(idx := Some frame)\<rparr>;
         idx' = clz (rbit (wq_lst rt1 THINKOS_WQ_READY))
     in rt1\<lparr>active := idx', pendsv := False\<rparr>)"

text \<open>A thread whose clock has run out: it leaves the queue its status byte names and the clock
  queue and becomes ready.\<close>

definition systick_expire :: "nat \<Rightarrow> thinkos_rt \<Rightarrow> thinkos_rt" where
  "systick_expire j rt =
    (let stat = th_stat rt j;
         rt1 = rt\<lparr>th_stat := (th_stat rt)(j := 0)\<rparr>;
         rt2 = wq_wr (stat div 2) j False rt1;
         rt3 = wq_wr THINKOS_WQ_CLOCK j False rt2
     in wq_wr THINKOS_WQ_READY j True rt3)"

text \<open>The loop over the bit-reversed copy of the clock queue; \<open>sched\<close> counts the woken threads.\<close>

function systick_loop :: "u32 \<Rightarrow> u32 \<Rightarrow> thinkos_rt \<Rightarrow> nat \<Rightarrow> thinkos_rt \<times> nat" where
  "systick_loop wq now rt sched =
    (let j = clz wq
     in if j < 32
        then (let wq' = wq AND NOT (drop_bit j 0x80000000)
              in if sint (clock rt j - now) \<le> 0
                 then systick_loop wq' now (systick_expire j rt) (Suc sched)
                 else systick_loop wq' now rt sched)
        else (rt, sched))"
  by pat_completeness auto

definition systick_timeshare :: "thinkos_rt \<Rightarrow> nat \<Rightarrow> thinkos_rt \<times> nat" where
  "systick_timeshare rt sched =
    (let idx = active rt;
         rt1 = rt\<lparr>sched_val := (sched_val rt)(idx := sched_val rt idx - sched_pri rt idx)\<rparr>
     in if sint (sched_val rt1 idx) < 0
        then (let rt2 = rt1\<lparr>sched_val := (sched_val rt1)(idx := sched_val rt1 idx + ucast (sched_limit rt1))\<rparr>;
                  rt3 = wq_wr THINKOS_WQ_TMSHARE idx True rt2;
                  rt4 = wq_wr THINKOS_WQ_READY idx False rt3
              in (tmshare_collect rt4, Suc sched))
        else (rt1, sched))"

definition exit_join :: "nat \<Rightarrow> u32 \<Rightarrow> nat \<Rightarrow> thinkos_rt \<Rightarrow> thinkos_rt" where
  "exit_join self code j rt =
    (if \<not> bit_mem_rd (th_alloc rt) j then rt
     else (let rt1 = (if sched_limit rt < ucast (sched_pri rt j)
                      then rt\<lparr>sched_limit := ucast (sched_pri rt j)\<rparr> else rt)
           in if bit_mem_rd (wq_lst rt1 (THINKOS_JOIN_BASE + self)) j
              then ctx_set_r0 j code
                     (wq_wr (THINKOS_JOIN_BASE + self) j False (wq_wr THINKOS_WQ_READY j True rt1))
              else rt1))"

text \<open>The end of a thread, as one step. The code enables the interrupts again before its last three statements, and an interrupt
  between them is not modelled. It also stores the exit code through the saved context of each joining thread without a
  test; here a context that is null (a thread that has no saved frame) makes that store do nothing.\<close>

definition thinkos_thread_exit :: "u32 \<Rightarrow> thinkos_rt \<Rightarrow> thinkos_rt" where
  "thinkos_thread_exit code rt =
    (let self = active rt;
         rt1 = wq_wr THINKOS_WQ_TMSHARE self False rt;
         stat = th_stat rt1 self;
         rt2 = rt1\<lparr>th_stat := (th_stat rt1)(self := 0)\<rparr>;
         rt3 = wq_wr (stat div 2) self False rt2;
         rt4 = fold (exit_join self code) [0..<THINKOS_THREADS_MAX] rt3;
         rt5 = rt4\<lparr>th_alloc := bit_mem_wr (th_alloc rt4) self False\<rparr>;
         rt6 = rt5\<lparr>ctx := (ctx rt5)(self := None)\<rparr>
     in thinkos_wait self rt6)"

section \<open>Termination of the clock loop\<close>

lemma bit_msb_shift: "bit (drop_bit j 0x80000000 :: u32) n \<longleftrightarrow> n + j = 31"
proof -
  have "(0x80000000 :: u32) = push_bit 31 1" by simp
  then show ?thesis
    by (simp only: bit_drop_bit_eq o_def bit_push_bit_iff bit_1_iff) auto
qed

lemma clear_msb: "j < 32 \<Longrightarrow> w AND NOT (drop_bit j 0x80000000) = unset_bit (31 - j) (w :: u32)"
  by (rule word32_eqI) (auto simp only: bit_and_iff bit_not_iff bit_msb_shift bit_unset_bit_u32, auto)

termination systick_loop
proof (relation "measure (\<lambda>(wq, _). unat wq)", goal_cases)
  case 1
  show ?case by simp
next
  case (2 wq now rt sched j wq')
  then have "wq \<noteq> 0" by (auto simp: clz_eq_first_bit)
  then show ?case
    using 2 clear_msb [of j wq] unset_bit_less [OF conjunct2 [OF clz_bit]] by (auto simp: word_less_nat_alt)
next
  case (3 wq now rt sched j wq')
  then have "wq \<noteq> 0" by (auto simp: clz_eq_first_bit)
  then show ?case
    using 3 clear_msb [of j wq] unset_bit_less [OF conjunct2 [OF clz_bit]] by (auto simp: word_less_nat_alt)
qed

declare systick_loop.simps [simp del]

definition cm3_systick_isr :: "thinkos_rt \<Rightarrow> thinkos_rt" where
  "cm3_systick_isr rt =
    (let now = ticks rt + 1;
         rt1 = rt\<lparr>ticks := now\<rparr>;
         (rt2, sched) = systick_loop (rbit (wq_lst rt1 THINKOS_WQ_CLOCK)) now rt1 0;
         (rt3, sched') = systick_timeshare rt2 sched
     in if sched' \<noteq> 0 then thinkos_defer_sched rt3 else rt3)"

section \<open>Frames\<close>

lemma expire_frame [simp, frame_simps]:
  "ctx (systick_expire j rt) = ctx rt"
  "active (systick_expire j rt) = active rt"
  "sched_val (systick_expire j rt) = sched_val rt"
  "sched_pri (systick_expire j rt) = sched_pri rt"
  "sched_limit (systick_expire j rt) = sched_limit rt"
  "ticks (systick_expire j rt) = ticks rt"
  "clock (systick_expire j rt) = clock rt"
  "th_alloc (systick_expire j rt) = th_alloc rt"
  "pendsv (systick_expire j rt) = pendsv rt"
  "th_stat (systick_expire j rt) = (th_stat rt)(j := 0)"
  by (simp_all add: systick_expire_def Let_def)

lemma objects_expire:
  "sem_val (systick_expire j rt) = sem_val rt"
  "ev_pend (systick_expire j rt) = ev_pend rt"
  "ev_mask (systick_expire j rt) = ev_mask rt"
  "flag_sig (systick_expire j rt) = flag_sig rt"
  "flag_lock (systick_expire j rt) = flag_lock rt"
  "lock (systick_expire j rt) = lock rt"
  "mutex_alloc (systick_expire j rt) = mutex_alloc rt"
  "cond_alloc (systick_expire j rt) = cond_alloc rt"
  "sem_alloc (systick_expire j rt) = sem_alloc rt"
  "ev_alloc (systick_expire j rt) = ev_alloc rt"
  "flag_alloc (systick_expire j rt) = flag_alloc rt"
  by (simp_all add: systick_expire_def Let_def)

lemma qbit_expire [simp, queue_simps]:
  "j < 32 \<Longrightarrow> qbit (systick_expire j rt) q t \<longleftrightarrow>
     (qbit rt q t \<and> \<not> (t = j \<and> (q = 4 \<or> q = th_stat rt j div 2))) \<or> (t = j \<and> q = 0)"
proof -
  assume j: "j < 32"
  have "wq_lst (systick_expire j rt) =
      wq_lst (wq_wr 0 j True (wq_wr 4 j False (wq_wr (th_stat rt j div 2) j False
        (rt\<lparr>th_stat := (th_stat rt)(j := 0)\<rparr>))))"
    by (simp add: systick_expire_def Let_def)
  then show ?thesis using j by (cases "t = j") auto
qed

lemma systick_expire_rest:
  "(systick_expire j rt)\<lparr>wq_lst := w, th_stat := s\<rparr> = rt\<lparr>wq_lst := w, th_stat := s\<rparr>"
  by (simp add: systick_expire_def Let_def wq_wr_def)

section \<open>What the clock loop computes\<close>

definition expires :: "u32 \<Rightarrow> u32 \<Rightarrow> thinkos_rt \<Rightarrow> nat \<Rightarrow> bool" where
  "expires w now rt t \<longleftrightarrow> bit w t \<and> sint (clock rt t - now) \<le> 0"

lemma rbit_unset: "j < 32 \<Longrightarrow> unset_bit (31 - j) (rbit w) = rbit (unset_bit j w)"
  by (rule word32_eqI) (auto simp: bit_rbit)

text \<open>One unfolding of the loop, in terms of the queue itself rather than its reversal.\<close>

lemma systick_loop_step:
  "systick_loop (rbit w) now rt n =
    (if w = 0 then (rt, n)
     else if sint (clock rt (first_bit w) - now) \<le> 0
     then systick_loop (rbit (unset_bit (first_bit w) w)) now (systick_expire (first_bit w) rt) (Suc n)
     else systick_loop (rbit (unset_bit (first_bit w) w)) now rt n)"
proof (cases "w = 0")
  case True
  then have n: "\<not> first_bit w < 32" by simp
  have "systick_loop (rbit w) now rt n = (rt, n)"
    by (subst systick_loop.simps) (simp only: clz_rbit Let_def n if_False)
  then show ?thesis using True by simp
next
  case False
  then have j: "first_bit w < 32" by simp
  have "rbit w AND NOT (drop_bit (first_bit w) 0x80000000) = unset_bit (31 - first_bit w) (rbit w)"
    by (rule clear_msb [OF j])
  also have "\<dots> = rbit (unset_bit (first_bit w) w)"
    by (rule rbit_unset [OF j])
  finally have e: "rbit w AND NOT (drop_bit (first_bit w) 0x80000000) = rbit (unset_bit (first_bit w) w)" .
  show ?thesis
    using j False by (simp only: systick_loop.simps [of "rbit w"] clz_rbit Let_def e if_True if_False)
qed

lemma clock_loop_induct [case_names empty step]:
  assumes "\<And>w rt. w = 0 \<Longrightarrow> P w rt"
    and "\<And>w rt. w \<noteq> 0 \<Longrightarrow> (\<And>rt'. P (unset_bit (first_bit w) w) rt') \<Longrightarrow> P w rt"
  shows "P (w :: u32) rt"
proof (induction w arbitrary: rt rule: measure_induct_rule [of unat])
  case (less w)
  show ?case
  proof (cases "w = 0")
    case False
    then have "unat (unset_bit (first_bit w) w) < unat w"
      using unset_bit_less [OF first_bit_bit] by (simp add: word_less_nat_alt)
    then show ?thesis using assms(2) [OF False] less by blast
  qed (rule assms(1))
qed

lemma systick_loop_spec:
  "systick_loop (rbit w) now rt n = (rt', n') \<Longrightarrow>
    (\<forall>q t. qbit rt' q t \<longleftrightarrow>
       (if expires w now rt t then q = 0 \<or> (qbit rt q t \<and> q \<noteq> 4 \<and> q \<noteq> th_stat rt t div 2)
        else qbit rt q t)) \<and>
    th_stat rt' = (\<lambda>t. if expires w now rt t then 0 else th_stat rt t) \<and>
    n' = n + card {t. expires w now rt t} \<and>
    rt' = rt\<lparr>wq_lst := wq_lst rt', th_stat := th_stat rt'\<rparr>"
proof (induction w rt arbitrary: n rule: clock_loop_induct)
  case (empty w rt)
  then have "systick_loop (rbit w) now rt n = (rt, n)" using systick_loop_step [of w] by simp
  with empty show ?case by (simp add: expires_def)
next
  case (step w rt)
  define j where "j = first_bit w"
  let ?w = "unset_bit j w"
  have j: "j < 32" "bit w j" using step.hyps first_bit_bit [of w] by (simp_all add: j_def)
  have fin: "finite {t. expires w now rt t}" for w rt
    by (rule finite_subset [of _ "{..<32}"]) (auto simp: expires_def dest: word32_bit_lt)
  show ?case
  proof (cases "sint (clock rt j - now) \<le> 0")
    case True
    let ?r = "systick_expire j rt"
    have "systick_loop (rbit ?w) now ?r (Suc n) = (rt', n')"
      using step.prems step.hyps True systick_loop_step [of w now rt n] by (simp add: j_def)
    note ih = step.IH [folded j_def, OF this]
    have ex: "expires w now rt t \<longleftrightarrow> t = j \<or> expires ?w now ?r t" for t
      using True j by (auto simp: expires_def)
    have nj: "\<not> expires ?w now ?r j" by (simp add: expires_def)
    have "{t. expires w now rt t} = insert j {t. expires ?w now ?r t}" using ex by auto
    then have "card {t. expires w now rt t} = Suc (card {t. expires ?w now ?r t})"
      using nj fin by simp
    moreover have "rt' = ?r\<lparr>wq_lst := wq_lst rt', th_stat := th_stat rt'\<rparr>" using ih by blast
    then have "rt' = rt\<lparr>wq_lst := wq_lst rt', th_stat := th_stat rt'\<rparr>"
      by (rule trans [OF _ systick_expire_rest])
    ultimately show ?thesis using ih j nj by (auto simp: ex)
  next
    case False
    have "systick_loop (rbit ?w) now rt n = (rt', n')"
      using step.prems step.hyps False systick_loop_step [of w now rt n] by (simp add: j_def)
    note ih = step.IH [folded j_def, OF this]
    have e: "expires w now rt = expires ?w now rt"
      using False j by (auto simp: expires_def fun_eq_iff)
    show ?thesis unfolding e by (rule ih)
  qed
qed

section \<open>The clock and the kernel invariant\<close>

lemma kinv_expire:
  assumes k: "kinv X rt" and q: "qbit rt 4 t"
  shows "kinv X (systick_expire t rt)"
proof -
  have t: "t < 32" using kinv_lt8 [OF k _ _ q] by simp
  have gone: "p = 0 \<or> (p < 4 \<and> qbit rt p t)"
    if "p < 53" "(qbit rt p t \<and> p \<noteq> 4 \<and> p \<noteq> th_stat rt t div 2) \<or> p = 0" for p
    using that kinv_stat [OF k, of p t] by linarith
  show ?thesis
    by (rule kinv_unblock [OF k _ _ q, where s = 0]) (use t gone in auto)
qed

lemma kinv_systick_loop:
  "kinv X rt \<Longrightarrow> (\<And>t. bit w t \<Longrightarrow> qbit rt 4 t) \<Longrightarrow> kinv X (fst (systick_loop (rbit w) now rt n))"
proof (induction w rt arbitrary: n rule: clock_loop_induct)
  case (empty w rt)
  then have "systick_loop (rbit w) now rt n = (rt, n)" using systick_loop_step [of w] by simp
  with empty show ?case by simp
next
  case (step w rt)
  have j: "first_bit w < 32" "qbit rt 4 (first_bit w)"
    using step first_bit_bit [of w] by simp_all
  then have "kinv X (systick_expire (first_bit w) rt)" using kinv_expire step.prems by blast
  with step j show ?case by (subst systick_loop_step) simp
qed

section \<open>The share counters\<close>

definition sched_inv :: "thinkos_rt \<Rightarrow> bool" where
  "sched_inv rt \<longleftrightarrow>
     sched_val rt 8 = 0 \<and> sched_pri rt 8 = 0 \<and> 1 \<le> uint (sched_limit rt) \<and> uint (sched_limit rt) \<le> 32 \<and>
     (\<forall>t<8. 0 \<le> sint (sched_val rt t) \<and> sint (sched_val rt t) < uint (sched_limit rt) \<and>
            uint (sched_pri rt t) \<le> uint (sched_limit rt))"

lemma uint_nonneg: "0 \<le> uint w"
  by simp

lemma sint8_small:
  "0 \<le> n \<Longrightarrow> n < 128 \<Longrightarrow> sint (of_int n :: u8) = n"
  by (simp add: signed_of_int signed_take_bit_int_eq_self)

text \<open>The arithmetic of the handler on \<open>int8_t\<close>: no step overflows, and charging a share is
  subtraction modulo the limit.\<close>

lemma share_sub:
  fixes v p :: u8
  assumes "0 \<le> sint v" "sint v < 32" "uint p \<le> 32"
  shows "sint (v - p) = sint v - uint p"
proof -
  have p: "sint p = uint p"
    using sint8_small [of "uint p"] assms(3) by simp
  have "- 128 \<le> sint v - uint p" "sint v - uint p < 128"
    using assms uint_nonneg [of p] by linarith+
  then have "signed_take_bit 7 (sint v - sint p) = sint v - sint p"
    unfolding p by (intro signed_take_bit_int_eq_self) simp_all
  then show ?thesis using p by (simp add: sint_word_ariths)
qed

lemma share_add:
  fixes v :: u8 and l :: u32
  assumes "sint v < 0" "- 32 \<le> sint v" "uint l \<le> 32"
  shows "sint (v + ucast l) = sint v + uint l"
proof -
  have "(ucast l :: u8) = of_int (uint l)" by simp
  then have l: "sint (ucast l :: u8) = uint l"
    using sint8_small [of "uint l"] assms(3) by simp
  have "- 128 \<le> sint v + uint l" "sint v + uint l < 128"
    using assms uint_nonneg [of l] by linarith+
  then have "signed_take_bit 7 (sint v + sint (ucast l :: u8)) = sint v + sint (ucast l :: u8)"
    unfolding l by (intro signed_take_bit_int_eq_self) simp_all
  then show ?thesis using l by (simp add: sint_word_ariths)
qed

lemma sched_inv_share:
  assumes "sched_inv rt" "t < 8"
  shows "sint (sched_val rt t - sched_pri rt t) = sint (sched_val rt t) - uint (sched_pri rt t)"
    and "sint (sched_val rt t - sched_pri rt t) < 0 \<Longrightarrow>
      sint (sched_val rt t - sched_pri rt t + ucast (sched_limit rt)) =
        sint (sched_val rt t) - uint (sched_pri rt t) + uint (sched_limit rt)"
proof -
  have b: "0 \<le> sint (sched_val rt t)" "sint (sched_val rt t) < uint (sched_limit rt)"
    "uint (sched_pri rt t) \<le> uint (sched_limit rt)" "uint (sched_limit rt) \<le> 32"
    using assms by (auto simp: sched_inv_def)
  show s: "sint (sched_val rt t - sched_pri rt t) = sint (sched_val rt t) - uint (sched_pri rt t)"
    by (rule share_sub) (use b in linarith)+
  assume "sint (sched_val rt t - sched_pri rt t) < 0"
  then show "sint (sched_val rt t - sched_pri rt t + ucast (sched_limit rt)) =
      sint (sched_val rt t) - uint (sched_pri rt t) + uint (sched_limit rt)"
    using share_add [of "sched_val rt t - sched_pri rt t" "sched_limit rt"] s b by linarith
qed

lemma sched_inv_timeshare:
  assumes "sched_inv rt" "active rt \<le> 8"
  shows "sched_inv (fst (systick_timeshare rt n))"
proof (cases "active rt = 8")
  case True
  then show ?thesis using assms by (simp add: systick_timeshare_def sched_inv_def Let_def)
next
  case False
  then have a: "active rt < 8" using assms by simp
  have b: "0 \<le> sint (sched_val rt (active rt))" "sint (sched_val rt (active rt)) < uint (sched_limit rt)"
    "uint (sched_pri rt (active rt)) \<le> uint (sched_limit rt)"
    using assms a by (auto simp: sched_inv_def)
  show ?thesis
  proof (cases "sint (sched_val rt (active rt) - sched_pri rt (active rt)) < 0")
    case True
    then show ?thesis
      using assms(1) a b sched_inv_share [OF assms(1) a]
      by (auto simp: systick_timeshare_def sched_inv_def Let_def)
  next
    case False
    moreover have "sint (sched_val rt (active rt)) - uint (sched_pri rt (active rt)) < uint (sched_limit rt)"
      using b uint_nonneg [of "sched_pri rt (active rt)"] by linarith
    ultimately show ?thesis
      using assms(1) a b sched_inv_share(1) [OF assms(1) a]
      by (auto simp: systick_timeshare_def sched_inv_def Let_def)
  qed
qed

section \<open>The invariants across the handlers\<close>

text \<open>Moving the running thread to the time-share queue, and back when nothing else is ready.\<close>

lemma requeue_queues:
  fixes rt i
  defines "r \<equiv> tmshare_collect (wq_wr 0 i False (wq_wr 1 i True rt))"
  assumes "i < 8"
  shows "1 < q \<Longrightarrow> qbit r q t = qbit rt q t"
    and "qbit r 0 t \<Longrightarrow> qbit rt 0 t \<or> qbit rt 1 t \<or> t = i"
    and "qbit r 1 t \<Longrightarrow> qbit rt 1 t \<or> t = i"
    and "qbit r 0 t \<Longrightarrow> qbit r 1 t \<Longrightarrow> qbit rt 0 t \<and> qbit rt 1 t"
    and "qbit rt 0 8 \<Longrightarrow> qbit r 0 8"
proof -
  let ?r4 = "wq_wr 0 i False (wq_wr 1 i True rt)"
  show "1 < q \<Longrightarrow> qbit r q t = qbit rt q t" by (simp add: r_def collect_other)
  show "qbit r 0 t \<Longrightarrow> qbit rt 0 t \<or> qbit rt 1 t \<or> t = i"
    using collect_D(1) [of ?r4 t] by (auto simp: r_def)
  show "qbit r 1 t \<Longrightarrow> qbit rt 1 t \<or> t = i"
    using collect_D(2) [of ?r4 t] by (auto simp: r_def)
  show "qbit r 0 t \<Longrightarrow> qbit r 1 t \<Longrightarrow> qbit rt 0 t \<and> qbit rt 1 t"
    using collect_D(2) [of ?r4 t] qbit_collect(2) [of ?r4] by (auto simp: r_def)
  show "qbit rt 0 8 \<Longrightarrow> qbit r 0 8"
    using collect_D(3) [of ?r4 8] assms(2) by (auto simp: r_def)
qed

lemma idle_only_upd:
  "idle_only (wq_wr 0 i False (rt\<lparr>sched_val := v\<rparr>)) = idle_only (wq_wr 0 i False rt)"
  by (simp add: idle_only_def)

lemma requeue_dest:
  assumes "i < 8"
  shows "qbit (tmshare_collect (wq_wr 0 i False (wq_wr 1 i True rt)))
    (if idle_only (wq_wr 0 i False rt) then 0 else 1) i"
proof -
  let ?r = "wq_wr 0 i False (wq_wr 1 i True rt)"
  have "idle_only ?r = idle_only (wq_wr 0 i False rt)" by (simp add: idle_only_def)
  then show ?thesis
    using assms qbit_collect [of ?r] by (cases "idle_only ?r") simp_all
qed

lemma kinv_requeue:
  assumes k: "kinv X rt" and np: "\<not> pendsv rt \<or> qbit rt 0 (active rt)" and i: "i = active rt" "i < 8"
  shows "kinv X (thinkos_defer_sched (tmshare_collect (wq_wr 0 i False (wq_wr 1 i True rt))))"
proof -
  define r where "r = tmshare_collect (wq_wr 0 i False (wq_wr 1 i True rt))"
  note rq = requeue_queues [OF i(2), where rt = rt, folded r_def]
  have run: "bit (th_alloc rt) i" "\<And>q. 4 \<le> q \<Longrightarrow> q < 53 \<Longrightarrow> \<not> qbit rt q i"
    using np kinv_running [OF k] kinv_alloc [OF k, of 0 i] kinv_wait [OF k, of _ i] i by (auto simp: running_ok_def)
  have fr: "th_stat r = th_stat rt" "th_alloc r = th_alloc rt" by (simp_all add: r_def)
  have "kinv X (thinkos_defer_sched r)"
    unfolding kinv_def wq_lst_frame defer_sched_frame fr
  proof (intro conjI allI impI; (elim conjE)?)
    show "qbit r 0 8" using rq(5) kinv_idle [OF k] by blast
  next
    fix q t assume "q < 53" "qbit r q t"
    moreover consider "q = 0" | "q = 1" | "1 < q" by linarith
    ultimately show "t < 8 \<or> (q = 0 \<and> t = 8)"
      using kinv_range [OF k, of q t] kinv_range [OF k, of 1 t] rq(1) [of q t] rq(2,3) [of t] i(2) by cases auto
  next
    fix t show "th_stat rt t < 106" by (rule kinv_stat_lt [OF k])
  next
    fix q t assume "5 \<le> q" "q < 53" "qbit r q t"
    then show "th_stat rt t div 2 = q" using rq(1) [of q t] kinv_stat [OF k, of q t] by simp
  next
    fix t assume "qbit r 4 t"
    then show "odd (th_stat rt t)" using rq(1) [of 4 t] kinv_clock [OF k, of t] by simp
  next
    fix q t assume q: "4 \<le> q" "q < 53" "qbit r q t"
    then have "qbit rt q t" using rq(1) [of q t] by simp
    with q show "\<not> qbit r 0 t" "\<not> qbit r 1 t" "t \<notin> X"
      using kinv_wait [OF k, of q t] run(2) [of q] rq(2,3) [of t] by auto
  next
    fix t assume "qbit r 0 t" "qbit r 1 t"
    then show "t \<in> X" using rq(4) kinv_tmshare [OF k] by blast
  next
    fix t assume "qbit r 2 t"
    then show "t \<in> X" "th_stat rt t div 2 = 2" using rq(1) [of 2 t] kinv_canceled [OF k, of t] by auto
  next
    fix q t assume "45 \<le> q" "q < 53" "qbit r q t"
    then show "\<not> qbit r 4 t" using rq(1) [of q t] rq(1) [of 4 t] kinv_join [OF k, of q t] by simp
  next
    fix q t assume q: "q \<le> 1 \<or> 4 \<le> q" "q < 53" "t < 8" "qbit r q t"
    then have "t = i \<or> qbit rt q t \<or> qbit rt 0 t \<or> qbit rt 1 t"
      using rq(1) [of q t] rq(2,3) [of t] by (cases "q = 0 \<or> q = 1") auto
    then show "bit (th_alloc rt) t" using run(1) kinv_alloc [OF k] q by fastforce
  next
    fix t assume "t \<in> X"
    then show "t < 8" "bit (th_alloc rt) t" using kinv_exit [OF k] by auto
  next
    show "pendsv (thinkos_defer_sched r) \<or> running_ok X (thinkos_defer_sched r)" by simp
  qed
  then show ?thesis by (simp add: r_def)
qed

lemma timeshare_idle:
  "sched_inv rt \<Longrightarrow> active rt = 8 \<Longrightarrow> systick_timeshare rt n = (rt, n)"
  by (auto simp: systick_timeshare_def sched_inv_def Let_def fun_upd_idem)

text \<open>When a tick is harmless: before the running thread has blocked, or between the service and the
  context switch it asked for, as long as the thread that blocked has share left. The tick charges the
  thread that is still the active one, and moves it to the time-share queue when its share has run
  out, whether it is still ready or not.\<close>

definition tick_ok :: "thinkos_rt \<Rightarrow> bool" where
  "tick_ok rt \<longleftrightarrow> \<not> pendsv rt \<or> qbit rt 0 (active rt) \<or>
     (active rt \<le> 8 \<and> 0 \<le> sint (sched_val rt (active rt) - sched_pri rt (active rt)))"

lemma tick_ok_active: "kinv X rt \<Longrightarrow> tick_ok rt \<Longrightarrow> active rt \<le> 8"
  using kinv_running [of X rt] kinv_range [of X rt 0 "active rt"] by (auto simp: tick_ok_def running_ok_def)

lemma kinv_timeshare:
  assumes k: "kinv X rt" and np: "tick_ok rt" and s: "sched_inv rt"
    and e: "systick_timeshare rt n = (rt', n')"
  shows "kinv X (if n' \<noteq> 0 then thinkos_defer_sched rt' else rt')"
proof -
  have "active rt \<le> 8" by (rule tick_ok_active [OF k np])
  then consider "active rt = 8" | "active rt < 8" by linarith
  then show ?thesis
  proof cases
    case 1
    then show ?thesis using timeshare_idle [OF s 1, of n] e k by simp
  next
    case 2
    show ?thesis
    proof (cases "sint (sched_val rt (active rt) - sched_pri rt (active rt)) < 0")
      case True
      then show ?thesis
        using e kinv_requeue [of X "rt\<lparr>sched_val := (sched_val rt)(active rt :=
            sched_val rt (active rt) - sched_pri rt (active rt) + ucast (sched_limit rt))\<rparr>" "active rt"] k np 2
        by (auto simp: systick_timeshare_def Let_def tick_ok_def)
    next
      case False
      then show ?thesis using e k by (auto simp: systick_timeshare_def Let_def)
    qed
  qed
qed

lemma systick_split:
  obtains rt2 n rt3 n' where
    "systick_loop (rbit (wq_lst rt 4)) (ticks rt + 1) (rt\<lparr>ticks := ticks rt + 1\<rparr>) 0 = (rt2, n)"
    "systick_timeshare rt2 n = (rt3, n')"
    "cm3_systick_isr rt = (if n' \<noteq> 0 then thinkos_defer_sched rt3 else rt3)"
proof -
  obtain rt2 n where 1: "systick_loop (rbit (wq_lst rt 4)) (ticks rt + 1) (rt\<lparr>ticks := ticks rt + 1\<rparr>) 0 = (rt2, n)"
    by fastforce
  obtain rt3 n' where 2: "systick_timeshare rt2 n = (rt3, n')" by fastforce
  have "cm3_systick_isr rt = (if n' \<noteq> 0 then thinkos_defer_sched rt3 else rt3)"
    by (simp add: cm3_systick_isr_def Let_def 1 2)
  then show ?thesis by (rule that [OF 1 2])
qed

lemma loop_frame:
  assumes "systick_loop (rbit w) now rt n = (rt', n')"
  shows "rt' = rt\<lparr>wq_lst := wq_lst rt', th_stat := th_stat rt'\<rparr>"
  using systick_loop_spec [OF assms] by blast

lemma kinv_systick:
  assumes k: "kinv X rt" and np: "tick_ok rt" and s: "sched_inv rt"
  shows "kinv X (cm3_systick_isr rt)"
proof (rule systick_split [of rt])
  fix rt2 n rt3 n'
  assume l: "systick_loop (rbit (wq_lst rt 4)) (ticks rt + 1) (rt\<lparr>ticks := ticks rt + 1\<rparr>) 0 = (rt2, n)"
    and t: "systick_timeshare rt2 n = (rt3, n')"
    and e: "cm3_systick_isr rt = (if n' \<noteq> 0 then thinkos_defer_sched rt3 else rt3)"
  have k2: "kinv X rt2"
    using kinv_systick_loop [of X "rt\<lparr>ticks := ticks rt + 1\<rparr>" "wq_lst rt 4" "ticks rt + 1" 0] k l by simp
  note f = loop_frame [OF l]
  have "qbit rt2 0 t" if "qbit rt 0 t" for t using systick_loop_spec [OF l] that by simp
  moreover have "pendsv rt2 = pendsv rt" "active rt2 = active rt" "sched_val rt2 = sched_val rt" "sched_pri rt2 = sched_pri rt"
    by (subst f, simp)+
  ultimately have "tick_ok rt2" using np by (auto simp: tick_ok_def)
  moreover have "sched_inv rt2" by (subst f) (use s in \<open>simp add: sched_inv_def\<close>)
  ultimately show ?thesis using kinv_timeshare [OF k2 _ _ t] e by simp
qed

lemma sched_inv_systick:
  assumes s: "sched_inv rt" and a: "active rt \<le> 8"
  shows "sched_inv (cm3_systick_isr rt)"
proof (rule systick_split [of rt])
  fix rt2 n rt3 n'
  assume l: "systick_loop (rbit (wq_lst rt 4)) (ticks rt + 1) (rt\<lparr>ticks := ticks rt + 1\<rparr>) 0 = (rt2, n)"
    and t: "systick_timeshare rt2 n = (rt3, n')"
    and e: "cm3_systick_isr rt = (if n' \<noteq> 0 then thinkos_defer_sched rt3 else rt3)"
  note f = loop_frame [OF l]
  have "sched_inv rt2" by (subst f) (use s in \<open>simp add: sched_inv_def\<close>)
  moreover have "active rt2 \<le> 8" by (subst f) (simp add: a)
  ultimately have "sched_inv rt3" using sched_inv_timeshare [of rt2 n] t by simp
  then show ?thesis by (simp add: e sched_inv_def)
qed

lemma timeshare_objects:
  "systick_timeshare rt n = (rt', n') \<Longrightarrow>
     ctx rt' = ctx rt \<and> active rt' = active rt \<and> th_stat rt' = th_stat rt \<and> sched_pri rt' = sched_pri rt \<and>
     sched_limit rt' = sched_limit rt \<and> ticks rt' = ticks rt \<and> clock rt' = clock rt \<and>
     sem_val rt' = sem_val rt \<and> ev_pend rt' = ev_pend rt \<and> ev_mask rt' = ev_mask rt \<and>
     flag_sig rt' = flag_sig rt \<and> flag_lock rt' = flag_lock rt \<and> lock rt' = lock rt \<and> irq_th rt' = irq_th rt \<and>
     th_alloc rt' = th_alloc rt \<and> mutex_alloc rt' = mutex_alloc rt \<and> cond_alloc rt' = cond_alloc rt \<and>
     sem_alloc rt' = sem_alloc rt \<and> ev_alloc rt' = ev_alloc rt \<and> flag_alloc rt' = flag_alloc rt"
  by (auto simp: systick_timeshare_def Let_def split: if_splits)

lemma timeshare_queue:
  "systick_timeshare rt n = (rt', n') \<Longrightarrow> 1 < q \<Longrightarrow> qbit rt' q t = qbit rt q t"
  by (auto simp: systick_timeshare_def Let_def collect_other split: if_splits)

lemma systick_frame [simp, frame_simps]:
  "ctx (cm3_systick_isr rt) = ctx rt"
  "active (cm3_systick_isr rt) = active rt"
  "sched_pri (cm3_systick_isr rt) = sched_pri rt"
  "sched_limit (cm3_systick_isr rt) = sched_limit rt"
  "ticks (cm3_systick_isr rt) = ticks rt + 1"
  "clock (cm3_systick_isr rt) = clock rt"
  "sem_val (cm3_systick_isr rt) = sem_val rt"
  "ev_pend (cm3_systick_isr rt) = ev_pend rt"
  "ev_mask (cm3_systick_isr rt) = ev_mask rt"
  "flag_sig (cm3_systick_isr rt) = flag_sig rt"
  "flag_lock (cm3_systick_isr rt) = flag_lock rt"
  "lock (cm3_systick_isr rt) = lock rt"
  "irq_th (cm3_systick_isr rt) = irq_th rt"
  "th_alloc (cm3_systick_isr rt) = th_alloc rt"
  "mutex_alloc (cm3_systick_isr rt) = mutex_alloc rt"
  "cond_alloc (cm3_systick_isr rt) = cond_alloc rt"
  "sem_alloc (cm3_systick_isr rt) = sem_alloc rt"
  "ev_alloc (cm3_systick_isr rt) = ev_alloc rt"
  "flag_alloc (cm3_systick_isr rt) = flag_alloc rt"
proof -
  obtain rt2 n rt3 n' where
    l: "systick_loop (rbit (wq_lst rt 4)) (ticks rt + 1) (rt\<lparr>ticks := ticks rt + 1\<rparr>) 0 = (rt2, n)"
    and t: "systick_timeshare rt2 n = (rt3, n')"
    and e: "cm3_systick_isr rt = (if n' \<noteq> 0 then thinkos_defer_sched rt3 else rt3)"
    by (rule systick_split [of rt])
  define w s where "w = wq_lst rt2" and "s = th_stat rt2"
  have f: "rt2 = rt\<lparr>ticks := ticks rt + 1, wq_lst := w, th_stat := s\<rparr>"
    using loop_frame [OF l] by (simp add: w_def s_def)
  show "ctx (cm3_systick_isr rt) = ctx rt"
    "active (cm3_systick_isr rt) = active rt"
    "sched_pri (cm3_systick_isr rt) = sched_pri rt"
    "sched_limit (cm3_systick_isr rt) = sched_limit rt"
    "ticks (cm3_systick_isr rt) = ticks rt + 1"
    "clock (cm3_systick_isr rt) = clock rt"
    "sem_val (cm3_systick_isr rt) = sem_val rt"
    "ev_pend (cm3_systick_isr rt) = ev_pend rt"
    "ev_mask (cm3_systick_isr rt) = ev_mask rt"
    "flag_sig (cm3_systick_isr rt) = flag_sig rt"
    "flag_lock (cm3_systick_isr rt) = flag_lock rt"
    "lock (cm3_systick_isr rt) = lock rt"
    "irq_th (cm3_systick_isr rt) = irq_th rt"
    "th_alloc (cm3_systick_isr rt) = th_alloc rt"
    "mutex_alloc (cm3_systick_isr rt) = mutex_alloc rt"
    "cond_alloc (cm3_systick_isr rt) = cond_alloc rt"
    "sem_alloc (cm3_systick_isr rt) = sem_alloc rt"
    "ev_alloc (cm3_systick_isr rt) = ev_alloc rt"
    "flag_alloc (cm3_systick_isr rt) = flag_alloc rt"
    using timeshare_objects [OF t] by (simp_all add: e f)
qed

text \<open>A tick fills no object queue: threads only leave the queues their status names.\<close>

lemma systick_queue:
  assumes "1 < q"
  shows "qbit (cm3_systick_isr rt) q t \<longleftrightarrow>
    qbit rt q t \<and> \<not> (expires (wq_lst rt 4) (ticks rt + 1) rt t \<and> (q = 4 \<or> q = th_stat rt t div 2))"
proof (rule systick_split [of rt])
  fix rt2 n rt3 n'
  assume l: "systick_loop (rbit (wq_lst rt 4)) (ticks rt + 1) (rt\<lparr>ticks := ticks rt + 1\<rparr>) 0 = (rt2, n)"
    and t: "systick_timeshare rt2 n = (rt3, n')"
    and e: "cm3_systick_isr rt = (if n' \<noteq> 0 then thinkos_defer_sched rt3 else rt3)"
  have x: "expires w now (rt\<lparr>ticks := k\<rparr>) = expires w now rt" for w now k
    by (simp add: expires_def fun_eq_iff)
  show ?thesis
    using systick_loop_spec [OF l] timeshare_queue [OF t assms, of t] assms by (auto simp: e x)
qed

lemma shrinks_systick: "shrinks Q rt (cm3_systick_isr rt)"
  unfolding shrinks_def by (intro allI impI, elim conjE, subst (asm) systick_queue) auto

section \<open>The context switch\<close>

lemma pendsv_frame [simp, frame_simps]:
  "wq_lst (cm3_pendsv_isr frame rt) = wq_lst rt"
  "th_stat (cm3_pendsv_isr frame rt) = th_stat rt"
  "sched_val (cm3_pendsv_isr frame rt) = sched_val rt"
  "sched_pri (cm3_pendsv_isr frame rt) = sched_pri rt"
  "sched_limit (cm3_pendsv_isr frame rt) = sched_limit rt"
  "ticks (cm3_pendsv_isr frame rt) = ticks rt"
  "clock (cm3_pendsv_isr frame rt) = clock rt"
  "sem_val (cm3_pendsv_isr frame rt) = sem_val rt"
  "ev_pend (cm3_pendsv_isr frame rt) = ev_pend rt"
  "ev_mask (cm3_pendsv_isr frame rt) = ev_mask rt"
  "flag_sig (cm3_pendsv_isr frame rt) = flag_sig rt"
  "flag_lock (cm3_pendsv_isr frame rt) = flag_lock rt"
  "lock (cm3_pendsv_isr frame rt) = lock rt"
  "irq_th (cm3_pendsv_isr frame rt) = irq_th rt"
  "th_alloc (cm3_pendsv_isr frame rt) = th_alloc rt"
  "mutex_alloc (cm3_pendsv_isr frame rt) = mutex_alloc rt"
  "cond_alloc (cm3_pendsv_isr frame rt) = cond_alloc rt"
  "sem_alloc (cm3_pendsv_isr frame rt) = sem_alloc rt"
  "ev_alloc (cm3_pendsv_isr frame rt) = ev_alloc rt"
  "flag_alloc (cm3_pendsv_isr frame rt) = flag_alloc rt"
  "pendsv (cm3_pendsv_isr frame rt) = False"
  "ctx (cm3_pendsv_isr frame rt) = (ctx rt)(active rt := Some frame)"
  by (simp_all add: cm3_pendsv_isr_def Let_def)

lemma pendsv_active: "active (cm3_pendsv_isr frame rt) = first_bit (wq_lst rt 0)"
  by (simp add: cm3_pendsv_isr_def Let_def clz_rbit)

lemma pendsv_picks:
  assumes "qbit rt 0 8"
  shows "qbit rt 0 (active (cm3_pendsv_isr frame rt))"
    and "qbit rt 0 t \<Longrightarrow> active (cm3_pendsv_isr frame rt) \<le> t"
proof -
  have "wq_lst rt 0 \<noteq> 0" using assms by auto
  then show "qbit rt 0 (active (cm3_pendsv_isr frame rt))"
    using first_bit_bit [of "wq_lst rt 0"] by (simp add: pendsv_active)
  show "qbit rt 0 t \<Longrightarrow> active (cm3_pendsv_isr frame rt) \<le> t"
    by (simp add: pendsv_active first_bit_least)
qed

lemma kinv_pendsv:
  assumes k: "kinv X rt"
  shows "kinv X (cm3_pendsv_isr frame rt)"
proof -
  define a where "a = active (cm3_pendsv_isr frame rt)"
  have a: "qbit rt 0 a" using pendsv_picks(1) [OF kinv_idle [OF k]] by (simp add: a_def)
  have "running_ok X (cm3_pendsv_isr frame rt)"
    unfolding running_ok_def a_def [symmetric] pendsv_frame
  proof (intro conjI allI impI; (elim conjE)?)
    show "a \<le> 8" using kinv_range [OF k _ a] by auto
    show "a < 8 \<Longrightarrow> bit (th_alloc rt) a" using kinv_alloc [OF k _ _ _ a] by simp
    show "\<And>q. 4 \<le> q \<Longrightarrow> q < 53 \<Longrightarrow> \<not> qbit rt q a" using kinv_wait [OF k] a by blast
    show "qbit rt 1 a \<Longrightarrow> a \<in> X" using kinv_tmshare [OF k a] .
  qed
  then show ?thesis using k unfolding kinv_def pendsv_frame by blast
qed

section \<open>The end of a thread\<close>

lemma exit_join_frame [simp]:
  "th_alloc (exit_join self code j rt) = th_alloc rt"
  "th_stat (exit_join self code j rt) = th_stat rt"
  "active (exit_join self code j rt) = active rt"
  "pendsv (exit_join self code j rt) = pendsv rt"
  "sched_val (exit_join self code j rt) = sched_val rt"
  "sched_pri (exit_join self code j rt) = sched_pri rt"
  "sem_val (exit_join self code j rt) = sem_val rt"
  "ev_pend (exit_join self code j rt) = ev_pend rt"
  "ev_mask (exit_join self code j rt) = ev_mask rt"
  "flag_sig (exit_join self code j rt) = flag_sig rt"
  "flag_lock (exit_join self code j rt) = flag_lock rt"
  "lock (exit_join self code j rt) = lock rt"
  "irq_th (exit_join self code j rt) = irq_th rt"
  by (simp_all add: exit_join_def Let_def)

lemma qbit_exit_join [simp]:
  "j < 8 \<Longrightarrow> self < 8 \<Longrightarrow> qbit (exit_join self code j rt) q t \<longleftrightarrow>
     (if t = j \<and> bit (th_alloc rt) j \<and> qbit rt (45 + self) j
      then q = 0 \<or> (qbit rt q t \<and> q \<noteq> 45 + self) else qbit rt q t)"
  by (auto simp: exit_join_def Let_def)

lemma ctx_exit_join:
  "ctx (exit_join self code j rt) t =
     (if t = j \<and> bit (th_alloc rt) j \<and> qbit rt (45 + self) j
      then map_option (\<lambda>c. c\<lparr>c_r0 := code\<rparr>) (ctx rt t) else ctx rt t)"
  by (auto simp: exit_join_def ctx_set_r0_def Let_def)

definition exit_joins :: "nat \<Rightarrow> u32 \<Rightarrow> nat \<Rightarrow> thinkos_rt \<Rightarrow> thinkos_rt" where
  "exit_joins self code n rt = fold (exit_join self code) [0..<n] rt"

lemma exit_joins_Suc [simp]:
  "exit_joins self code 0 rt = rt"
  "exit_joins self code (Suc n) rt = exit_join self code n (exit_joins self code n rt)"
  by (simp_all add: exit_joins_def)

lemma exit_joins_frame [simp]:
  "th_alloc (exit_joins self code n rt) = th_alloc rt"
  "th_stat (exit_joins self code n rt) = th_stat rt"
  "active (exit_joins self code n rt) = active rt"
  "pendsv (exit_joins self code n rt) = pendsv rt"
  "sched_val (exit_joins self code n rt) = sched_val rt"
  "sched_pri (exit_joins self code n rt) = sched_pri rt"
  "sem_val (exit_joins self code n rt) = sem_val rt"
  "ev_pend (exit_joins self code n rt) = ev_pend rt"
  "ev_mask (exit_joins self code n rt) = ev_mask rt"
  "flag_sig (exit_joins self code n rt) = flag_sig rt"
  "flag_lock (exit_joins self code n rt) = flag_lock rt"
  "lock (exit_joins self code n rt) = lock rt"
  "irq_th (exit_joins self code n rt) = irq_th rt"
  by (induction n) simp_all

lemma qbit_exit_joins:
  "n \<le> 8 \<Longrightarrow> self < 8 \<Longrightarrow> qbit (exit_joins self code n rt) q t \<longleftrightarrow>
     (if t < n \<and> bit (th_alloc rt) t \<and> qbit rt (45 + self) t
      then q = 0 \<or> (qbit rt q t \<and> q \<noteq> 45 + self) else qbit rt q t)"
  by (induction n arbitrary: q t) (auto simp: less_Suc_eq)

lemma ctx_exit_joins:
  "n \<le> 8 \<Longrightarrow> self < 8 \<Longrightarrow> ctx (exit_joins self code n rt) t =
     (if t < n \<and> bit (th_alloc rt) t \<and> qbit rt (45 + self) t
      then map_option (\<lambda>c. c\<lparr>c_r0 := code\<rparr>) (ctx rt t) else ctx rt t)"
  by (induction n arbitrary: t) (auto simp: ctx_exit_join qbit_exit_joins less_Suc_eq)

text \<open>Taking the running thread off the ready queue without queueing it anywhere.\<close>

lemma kinv_wait_only:
  assumes "kinv X rt" "\<not> pendsv rt" "active rt < 8" "active rt \<notin> X"
  shows "kinv X (thinkos_wait (active rt) rt)"
proof -
  have "blocks {} (th_stat rt (active rt)) (active rt) rt (thinkos_wait (active rt) rt)"
    using wait_D [where th = "active rt" and rt = rt] wait_ready_tmshare [where th = "active rt" and rt = rt]
      kinv_idle [OF assms(1)] assms(3)
    by (auto simp: blocks_def)
  then show ?thesis
    by (rule kinv_blocks [OF assms(1,2) refl assms(3,4)]) (use kinv_stat_lt [OF assms(1)] in auto)
qed

lemma kinv_realloc:
  assumes k: "kinv X rt" and w: "wq_lst rt' = wq_lst rt" and s: "th_stat rt' = th_stat rt"
    and "\<And>q t. q \<le> 1 \<or> 4 \<le> q \<Longrightarrow> q < 53 \<Longrightarrow> t < 8 \<Longrightarrow> qbit rt q t \<Longrightarrow> bit (th_alloc rt') t"
    and "\<And>t. t \<in> X \<Longrightarrow> bit (th_alloc rt') t" and "pendsv rt' \<or> running_ok X rt'"
  shows "kinv X rt'"
proof (rule kinvI, unfold w s, goal_cases)
  case (2 q t)
  then show ?case by (rule kinv_range [OF k])
next
  case (4 q t)
  then show ?case by (rule kinv_stat [OF k])
next
  case (6 q t)
  then show ?case by (rule kinv_wait [OF k])
next
  case (9 q t)
  then show ?case by (rule kinv_join [OF k])
next
  case (10 q t)
  then show ?case by (rule assms(4))
next
  case (11 t)
  then show ?case using assms(5) kinv_exit [OF k] by blast
qed (use assms(6) k in \<open>simp_all add: kinv_idle kinv_stat_lt kinv_clock kinv_tmshare kinv_canceled\<close>)

lemma kinv_unalloc:
  assumes k: "kinv X rt" and p: "pendsv rt" and t: "t \<notin> X"
    and n: "\<And>q. q < 53 \<Longrightarrow> q \<le> 1 \<or> 4 \<le> q \<Longrightarrow> \<not> qbit rt q t"
  shows "kinv X (rt\<lparr>th_alloc := bit_mem_wr (th_alloc rt) t False\<rparr>)"
proof -
  have "bit (bit_mem_wr (th_alloc rt) t False) u"
    if "q \<le> 1 \<or> 4 \<le> q" "q < 53" "u < 8" "qbit rt q u" for q u
    using kinv_alloc [OF k that] n [OF that(2,1)] that(4) by auto
  moreover have "bit (bit_mem_wr (th_alloc rt) t False) u" if "u \<in> X" for u
    using kinv_exit [OF k that] t that by auto
  ultimately show ?thesis
    using p by (intro kinv_realloc [OF k]) (simp_all del: bit_mem_wr_bit)
qed

lemma kinv_exit_joins:
  "kinv X rt \<Longrightarrow> self < 8 \<Longrightarrow> n \<le> 8 \<Longrightarrow> kinv X (exit_joins self code n rt)"
proof (induction n)
  case (Suc n)
  define r where "r = exit_joins self code n rt"
  have k: "kinv X r" using Suc by (simp add: r_def)
  show ?case
  proof (cases "bit (th_alloc r) n \<and> qbit r (45 + self) n")
    case True
    then have only: "p = 45 + self" if "5 \<le> p" "p < 53" "qbit r p n" for p
      using kinv_one_queue [OF k that(1,2) _ _ that(3)] Suc.prems by simp
    have c: "\<not> qbit r 4 n" using kinv_join [OF k, of "45 + self" n] True Suc.prems by simp
    have gone: "p = 0 \<or> (p < 4 \<and> qbit r p n)" if "p < 53" "p = 0 \<or> (qbit r p n \<and> p \<noteq> 45 + self)" for p
    proof -
      consider "p = 0" | "0 < p" "p < 4" | "p = 4" | "5 \<le> p" by linarith
      then show ?thesis using that only [of p] c by cases auto
    qed
    have "kinv X (exit_join self code n r)"
      by (rule kinv_unblock [OF k, of "45 + self" n, where s = "th_stat r n"])
        (use True Suc.prems gone kinv_stat_lt [OF k] in auto)
    then show ?thesis by (simp add: r_def)
  next
    case False
    have "kinv X (exit_join self code n r) = kinv X r"
      by (rule kinv_cong) (use False in \<open>auto simp: exit_join_def Let_def\<close>)
    then show ?thesis using k by (simp add: r_def)
  qed
qed simp

definition exit_unlink :: "thinkos_rt \<Rightarrow> thinkos_rt" where
  "exit_unlink rt =
     wq_wr (th_stat rt (active rt) div 2) (active rt) False
       ((wq_wr 1 (active rt) False rt)\<lparr>th_stat := (th_stat rt)(active rt := 0)\<rparr>)"

lemma thread_exit_eq:
  "thinkos_thread_exit code rt =
    (let r = exit_joins (active rt) code 8 (exit_unlink rt)
     in thinkos_wait (active rt) (r\<lparr>th_alloc := bit_mem_wr (th_alloc r) (active rt) False,
          ctx := (ctx r)(active rt := None)\<rparr>))"
  by (simp add: thinkos_thread_exit_def exit_unlink_def exit_joins_def Let_def)

lemma exit_unlink_frame [simp]:
  "active (exit_unlink rt) = active rt" "pendsv (exit_unlink rt) = pendsv rt"
  "th_alloc (exit_unlink rt) = th_alloc rt" "ctx (exit_unlink rt) = ctx rt"
  "th_stat (exit_unlink rt) = (th_stat rt)(active rt := 0)"
  "sched_val (exit_unlink rt) = sched_val rt" "sched_pri (exit_unlink rt) = sched_pri rt"
  "sched_limit (exit_unlink rt) = sched_limit rt" "sem_val (exit_unlink rt) = sem_val rt"
  "ev_pend (exit_unlink rt) = ev_pend rt" "ev_mask (exit_unlink rt) = ev_mask rt"
  "flag_sig (exit_unlink rt) = flag_sig rt" "flag_lock (exit_unlink rt) = flag_lock rt"
  "lock (exit_unlink rt) = lock rt" "irq_th (exit_unlink rt) = irq_th rt"
  by (simp_all add: exit_unlink_def)

lemma qbit_exit_unlink [simp]:
  "qbit (exit_unlink rt) q t \<longleftrightarrow>
     qbit rt q t \<and> \<not> (t = active rt \<and> (q = 1 \<or> q = th_stat rt (active rt) div 2))"
proof -
  have "wq_lst (r\<lparr>th_stat := s\<rparr>) = wq_lst r" for r s by simp
  then show ?thesis by (auto simp: exit_unlink_def)
qed

lemma kinv_exit_unlink:
  assumes k: "kinv X rt" and np: "\<not> pendsv rt" and a: "active rt < 8"
  shows "kinv (X - {active rt}) (exit_unlink rt)"
proof -
  have r: "running_ok X rt" by (rule kinv_running [OF k np])
  then have na: "\<not> qbit rt q (active rt)" if "4 \<le> q" "q < 53" for q
    using that by (simp add: running_ok_def)
  have "running_ok (X - {active rt}) (exit_unlink rt)"
    using r by (auto simp: running_ok_def)
  then show ?thesis
    using kinv_idle [OF k] a
  proof (intro kinvI, goal_cases)
    case (2 q t)
    then show ?case using kinv_range [OF k, of q t] by simp
  next
    case (3 t)
    then show ?case using kinv_stat_lt [OF k] by simp
  next
    case (4 q t)
    then show ?case using kinv_stat [OF k, of q t] na [of q] by auto
  next
    case (5 t)
    then show ?case using kinv_clock [OF k, of t] na [of 4] by auto
  next
    case (6 q t)
    then show ?case using kinv_wait [OF k, of q t] by simp
  next
    case (7 t)
    then show ?case using kinv_tmshare [OF k, of t] by simp
  next
    case (8 t)
    then show ?case using kinv_canceled [OF k, of t] by auto
  next
    case (9 q t)
    then show ?case using kinv_join [OF k, of q t] by simp
  next
    case (10 q t)
    then show ?case using kinv_alloc [OF k, of q t] by simp
  next
    case (11 t)
    then show ?case using kinv_exit [OF k, of t] by simp
  qed simp_all
qed

lemma wait_upd: "wq_lst (thinkos_wait t (rt\<lparr>th_alloc := a, ctx := c\<rparr>)) = wq_lst (thinkos_wait t rt)"
  by (simp add: thinkos_wait_def thinkos_defer_sched_def tmshare_collect_def wq_wr_def)

lemma exit_joins_active:
  assumes "kinv X rt" "\<not> pendsv rt" "active rt < 8" "q < 53" "q = 1 \<or> 4 \<le> q"
  shows "\<not> qbit (exit_joins (active rt) code 8 (exit_unlink rt)) q (active rt)"
  using kinv_running [OF assms(1,2)] assms(3-5) by (auto simp: qbit_exit_joins running_ok_def)

lemma kinv_thread_exit:
  assumes k: "kinv X rt" and np: "\<not> pendsv rt" and a: "active rt < 8"
  shows "kinv (X - {active rt}) (thinkos_thread_exit code rt)"
proof -
  define r where "r = exit_joins (active rt) code 8 (exit_unlink rt)"
  have kr: "kinv (X - {active rt}) r"
    using kinv_exit_joins [OF kinv_exit_unlink [OF k np a] a] by (simp add: r_def)
  have ar: "active r = active rt" by (simp add: r_def)
  have "kinv (X - {active rt}) (thinkos_wait (active rt) r)"
    using kinv_wait_only [OF kr] a np ar by (simp add: r_def)
  moreover have "\<not> qbit (thinkos_wait (active rt) r) q (active rt)" if "q < 53" "q \<le> 1 \<or> 4 \<le> q" for q
  proof -
    have n: "\<not> qbit r q' (active rt)" if "q' < 53" "q' = 1 \<or> 4 \<le> q'" for q'
      using exit_joins_active [OF k np a that, of code] by (simp add: r_def)
    have "q = 0 \<or> q = 1 \<or> 4 \<le> q" using that by auto
    then consider "q = 0" | "q = 1" | "4 \<le> q" by blast
    then show ?thesis
      using n [of 1] n [of q] that wait_D(1,2) [where th = "active rt" and rt = r and t = "active rt"]
      by cases auto
  qed
  ultimately have "kinv (X - {active rt}) ((thinkos_wait (active rt) r)
      \<lparr>th_alloc := bit_mem_wr (th_alloc (thinkos_wait (active rt) r)) (active rt) False\<rparr>)"
    by (intro kinv_unalloc) simp_all
  then show ?thesis
    by (subst kinv_cong [of _ "(thinkos_wait (active rt) r)
          \<lparr>th_alloc := bit_mem_wr (th_alloc (thinkos_wait (active rt) r)) (active rt) False\<rparr>"])
      (simp_all add: thread_exit_eq Let_def wait_upd r_def)
qed

lemma thread_exit_frame [simp, frame_simps]:
  "sched_val (thinkos_thread_exit code rt) = sched_val rt"
  "sched_pri (thinkos_thread_exit code rt) = sched_pri rt"
  "sem_val (thinkos_thread_exit code rt) = sem_val rt"
  "ev_pend (thinkos_thread_exit code rt) = ev_pend rt"
  "ev_mask (thinkos_thread_exit code rt) = ev_mask rt"
  "flag_sig (thinkos_thread_exit code rt) = flag_sig rt"
  "flag_lock (thinkos_thread_exit code rt) = flag_lock rt"
  "lock (thinkos_thread_exit code rt) = lock rt"
  "irq_th (thinkos_thread_exit code rt) = irq_th rt"
  "active (thinkos_thread_exit code rt) = active rt"
  "pendsv (thinkos_thread_exit code rt)"
  by (simp_all add: thread_exit_eq Let_def)

lemma shrinks_thread_exit: "active rt < 8 \<Longrightarrow> shrinks Q rt (thinkos_thread_exit code rt)"
  by (auto simp: thread_exit_eq Let_def shrinks_def wait_upd qbit_exit_joins split: if_splits)

text \<open>The re-evaluation of the limit never changes it, since no priority exceeds the limit.\<close>

lemma exit_joins_limit: "sched_inv rt \<Longrightarrow> n \<le> 8 \<Longrightarrow> sched_limit (exit_joins self code n rt) = sched_limit rt"
proof (induction n)
  case (Suc n)
  have "uint (sched_pri rt n) \<le> uint (sched_limit rt)" using Suc.prems by (simp add: sched_inv_def)
  then have "\<not> sched_limit rt < ucast (sched_pri rt n)"
    using uint_up_ucast [of "sched_pri rt n", where 'b = 32] by (simp add: word_less_def is_up)
  then show ?case using Suc by (simp add: exit_join_def Let_def)
qed simp

lemma sched_inv_thread_exit:
  assumes "sched_inv rt"
  shows "sched_inv (thinkos_thread_exit code rt)"
proof -
  have "sched_inv (exit_unlink rt)" using assms by (simp add: sched_inv_def)
  then have "sched_limit (thinkos_thread_exit code rt) = sched_limit rt"
    using exit_joins_limit [of "exit_unlink rt" 8] by (simp add: thread_exit_eq Let_def)
  then show ?thesis using assms by (simp add: sched_inv_def)
qed

section \<open>Counting down the clock\<close>

lemma timeshare_other:
  assumes "systick_timeshare rt n = (rt', n')" "t \<noteq> active rt"
  shows "qbit rt 0 t \<Longrightarrow> qbit rt' 0 t"
    and "qbit rt' 0 t \<Longrightarrow> qbit rt 0 t \<or> qbit rt 1 t"
    and "qbit rt' 1 t \<Longrightarrow> qbit rt 1 t"
  using assms collect_D [where t = t]
  by (fastforce simp: systick_timeshare_def Let_def split: if_splits)+

lemma systick_other:
  assumes t: "t \<noteq> active rt"
  shows "expires (wq_lst rt 4) (ticks rt + 1) rt t \<Longrightarrow> qbit (cm3_systick_isr rt) 0 t"
    and "\<not> expires (wq_lst rt 4) (ticks rt + 1) rt t \<Longrightarrow> \<not> qbit rt 0 t \<Longrightarrow> \<not> qbit rt 1 t \<Longrightarrow>
      \<not> qbit (cm3_systick_isr rt) 0 t \<and> \<not> qbit (cm3_systick_isr rt) 1 t"
    and "qbit rt 0 t \<Longrightarrow> qbit (cm3_systick_isr rt) 0 t"
proof -
  obtain rt2 n rt3 n' where
    l: "systick_loop (rbit (wq_lst rt 4)) (ticks rt + 1) (rt\<lparr>ticks := ticks rt + 1\<rparr>) 0 = (rt2, n)"
    and ts: "systick_timeshare rt2 n = (rt3, n')"
    and e: "cm3_systick_isr rt = (if n' \<noteq> 0 then thinkos_defer_sched rt3 else rt3)"
    by (rule systick_split [of rt])
  have x: "expires w now (rt\<lparr>ticks := k\<rparr>) = expires w now rt" for w now k
    by (simp add: expires_def fun_eq_iff)
  have a: "active rt2 = active rt" by (subst loop_frame [OF l]) simp
  note o = timeshare_other [OF ts, of t, unfolded a, OF t]
  note s = systick_loop_spec [OF l, unfolded x]
  show "expires (wq_lst rt 4) (ticks rt + 1) rt t \<Longrightarrow> qbit (cm3_systick_isr rt) 0 t"
    using o(1) s by (simp add: e)
  show "\<not> expires (wq_lst rt 4) (ticks rt + 1) rt t \<Longrightarrow> \<not> qbit rt 0 t \<Longrightarrow> \<not> qbit rt 1 t \<Longrightarrow>
      \<not> qbit (cm3_systick_isr rt) 0 t \<and> \<not> qbit (cm3_systick_isr rt) 1 t"
    using o(2,3) s by (auto simp: e)
  show "qbit rt 0 t \<Longrightarrow> qbit (cm3_systick_isr rt) 0 t"
    using o(1) s by (auto simp: e)
qed

lemma systick_pow:
  "ticks ((cm3_systick_isr ^^ n) rt) = ticks rt + of_nat n"
  "clock ((cm3_systick_isr ^^ n) rt) = clock rt"
  "active ((cm3_systick_isr ^^ n) rt) = active rt"
  by (induction n) simp_all

lemma sint32_small: "n < 2 ^ 31 \<Longrightarrow> sint (of_nat n :: u32) = int n"
  by (simp add: signed_of_nat signed_take_bit_int_eq_self)

lemma sint_countdown:
  fixes ms :: u32
  assumes "unat ms < 2 ^ 31" "k \<le> unat ms"
  shows "sint (ms - of_nat k) = int (unat ms) - int k"
proof -
  have "ms - of_nat k = of_nat (unat ms - k)" using assms(2) by (simp add: of_nat_diff)
  moreover have "sint (of_nat (unat ms - k) :: u32) = int (unat ms - k)"
    using sint32_small [of "unat ms - k"] assms(1) by simp
  ultimately show ?thesis using assms(2) by (simp only: of_nat_diff)
qed

section \<open>The scheduler at start\<close>

lemma init_sched:
  fixes lk opt rt
  defines "r \<equiv> snd (thinkos_init lk opt rt)" and "id0 \<equiv> min (opt_id opt) 7"
    and "p \<equiv> min (opt_priority opt) 32"
  shows "sched_val r = (sched_val rt)(8 := 0, id0 := of_nat (p div 2))"
    and "sched_pri r = (sched_pri rt)(8 := 0, id0 := of_nat p)"
    and "sched_limit r = of_nat (max p 1)"
proof -
  have i: "(if opt_id opt \<ge> 8 then 8 - 1 else opt_id opt) = id0" "id0 < 8" by (auto simp: id0_def)
  show "sched_val r = (sched_val rt)(8 := 0, id0 := of_nat (p div 2))"
    "sched_pri r = (sched_pri rt)(8 := 0, id0 := of_nat p)" "sched_limit r = of_nat (max p 1)"
    using i init_alloc_lo [OF i(2)]
    by (simp_all add: r_def p_def thinkos_init_def init_main_thread_def init_objects_def init_idle_def Let_def
        del: push_bit_numeral)
qed

lemma sched_inv_init: "sched_inv (snd (thinkos_init lk opt thinkos_rt_bss))"
proof -
  let ?r = "snd (thinkos_init lk opt thinkos_rt_bss)"
  define p i where "p = min (opt_priority opt) 32" and "i = min (opt_id opt) 7"
  have p: "p \<le> 32" by (simp add: p_def)
  have i: "i < 8" by (simp add: i_def)
  note f = init_sched [of lk opt thinkos_rt_bss, folded p_def i_def]
  have u: "uint (of_nat p :: u8) = int p"
    using p by (simp only: uint_nat unat_of_nat) simp
  have l: "uint (sched_limit ?r) = int (max p 1)"
    unfolding f(3) using p by (simp only: uint_nat unat_of_nat) simp
  have s: "sint (of_nat (p div 2) :: u8) = int (p div 2)"
    using sint8_small [of "int (p div 2)"] p by simp
  have bss: "sched_val thinkos_rt_bss t = 0" "sched_pri thinkos_rt_bss t = 0" for t
    by (simp_all add: thinkos_rt_bss_def)
  have "int (p div 2) < int (max p 1)" by auto
  then have "0 \<le> sint (sched_val ?r t) \<and> sint (sched_val ?r t) < int (max p 1) \<and>
      uint (sched_pri ?r t) \<le> int (max p 1)" if "t < 8" for t
    using s u that bss by (cases "t = i") (simp_all add: f(1,2))
  moreover have "sched_val ?r 8 = 0 \<and> sched_pri ?r 8 = 0"
    using i by (simp add: f(1,2))
  ultimately show ?thesis using p by (simp add: sched_inv_def l)
qed

lemma sched_inv_boot: "sched_inv boot_rt"
  unfolding boot_rt_def by (rule sched_inv_init)

section \<open>Properties\<close>

text \<open>C3: the PendSV handler stores the frame of the interrupted thread, clears the pending request
  and switches to the ready thread with the lowest number, which exists, is allocated or the idle
  thread, and waits for no object and for no clock.\<close>

theorem pendsv_schedules:
  assumes "kinv X rt"
  shows "\<exists>a. active (cm3_pendsv_isr frame rt) = a \<and> qbit rt 0 a \<and> (\<forall>t. qbit rt 0 t \<longrightarrow> a \<le> t) \<and>
    (a = 8 \<or> (a < 8 \<and> bit (th_alloc rt) a)) \<and> (\<forall>q. 4 \<le> q \<and> q < 53 \<longrightarrow> \<not> qbit rt q a) \<and>
    ctx (cm3_pendsv_isr frame rt) (active rt) = Some frame \<and> \<not> pendsv (cm3_pendsv_isr frame rt)"
proof (intro exI conjI)
  let ?a = "active (cm3_pendsv_isr frame rt)"
  show "qbit rt 0 ?a" "\<forall>t. qbit rt 0 t \<longrightarrow> ?a \<le> t"
    using pendsv_picks [OF kinv_idle [OF assms]] by blast+
  have "running_ok X (cm3_pendsv_isr frame rt)"
    using kinv_running [OF kinv_pendsv [OF assms]] by simp
  then show "?a = 8 \<or> (?a < 8 \<and> bit (th_alloc rt) ?a)" "\<forall>q. 4 \<le> q \<and> q < 53 \<longrightarrow> \<not> qbit rt q ?a"
    by (auto simp: running_ok_def)
qed simp_all

theorem pendsv_schedules_witness:
  "kinv {} boot_rt \<and> (\<exists>a. active (cm3_pendsv_isr undefined boot_rt) = a \<and> qbit boot_rt 0 a)"
  using pendsv_schedules [OF kinv_boot] kinv_boot by blast

text \<open>C20: the accounting of a tick on \<open>int8_t\<close> counters is exact: the counter of the running thread
  goes down by its priority modulo the limit, stays below the limit, and the thread is queued for
  its next share (with a context switch requested) exactly when the share is used up; when it is the
  only thread it is made ready again at once.\<close>

theorem systick_charges:
  assumes s: "sched_inv rt" and a: "active rt < 8" and e: "systick_timeshare rt n = (rt', n')"
  shows "sint (sched_val rt' (active rt)) =
      (sint (sched_val rt (active rt)) - uint (sched_pri rt (active rt))) mod uint (sched_limit rt) \<and>
    n' = (if sint (sched_val rt (active rt)) < uint (sched_pri rt (active rt)) then Suc n else n) \<and>
    (n' \<noteq> n \<longrightarrow> qbit rt' (if idle_only (wq_wr 0 (active rt) False rt) then 0 else 1) (active rt))"
proof (intro conjI impI)
  let ?v = "sint (sched_val rt (active rt))" and ?p = "uint (sched_pri rt (active rt))"
    and ?l = "uint (sched_limit rt)"
  have b: "0 \<le> ?v" "?v < ?l" "?p \<le> ?l" using s a by (auto simp: sched_inv_def)
  have p: "0 \<le> ?p" by simp
  note sh = sched_inv_share [OF s a]
  show "sint (sched_val rt' (active rt)) = (?v - ?p) mod ?l"
  proof (cases "?v < ?p")
    case True
    have "(?v - ?p) mod ?l = (?v - ?p + ?l) mod ?l" by simp
    also have "\<dots> = ?v - ?p + ?l" by (rule mod_pos_pos_trivial) (use b True in linarith)+
    finally show ?thesis using e sh True by (auto simp: systick_timeshare_def Let_def)
  next
    case False
    have "(?v - ?p) mod ?l = ?v - ?p" by (rule mod_pos_pos_trivial) (use b p False in linarith)+
    then show ?thesis using e sh(1) False by (auto simp: systick_timeshare_def Let_def)
  qed
  show "n' = (if ?v < ?p then Suc n else n)"
    using e sh(1) by (auto simp: systick_timeshare_def Let_def split: if_splits)
  show "qbit rt' (if idle_only (wq_wr 0 (active rt) False rt) then 0 else 1) (active rt)" if "n' \<noteq> n"
    using that e requeue_dest [OF a, of "rt\<lparr>sched_val := (sched_val rt)(active rt :=
      sched_val rt (active rt) - sched_pri rt (active rt) + ucast (sched_limit rt))\<rparr>"]
    by (simp add: systick_timeshare_def Let_def idle_only_upd split: if_splits)
qed

theorem systick_charges_witness:
  "sint (sched_val (fst (systick_timeshare boot_rt 0)) 0) =
     (sint (sched_val boot_rt 0) - uint (sched_pri boot_rt 0)) mod uint (sched_limit boot_rt)"
  using systick_charges [OF sched_inv_boot, of 0] by (cases "systick_timeshare boot_rt 0") simp

lemma exit_queue_cases: "q \<noteq> 3 \<Longrightarrow> q \<le> 1 \<or> 4 \<le> q \<or> q = (2 :: nat)"
  by linarith

text \<open>C21: when a thread ends, every thread that joined it becomes ready with the exit code as the
  result of its call, its join queue is empty, its number is free again, no queue but the paused one
  holds it, a context switch is pending, and the kernel invariant holds without it.\<close>

theorem thread_exit_joined:
  assumes k: "kinv X rt" and np: "\<not> pendsv rt" and a: "active rt < 8"
  shows "kinv (X - {active rt}) (thinkos_thread_exit code rt) \<and>
    (\<forall>t. qbit rt (45 + active rt) t \<and> t \<noteq> active rt \<longrightarrow>
      qbit (thinkos_thread_exit code rt) 0 t \<and>
      ctx (thinkos_thread_exit code rt) t = map_option (\<lambda>c. c\<lparr>c_r0 := code\<rparr>) (ctx rt t)) \<and>
    (\<forall>u. \<not> qbit (thinkos_thread_exit code rt) (45 + active rt) u) \<and>
    \<not> bit (th_alloc (thinkos_thread_exit code rt)) (active rt) \<and>
    (\<forall>q<53. q \<noteq> 3 \<longrightarrow> \<not> qbit (thinkos_thread_exit code rt) q (active rt)) \<and>
    pendsv (thinkos_thread_exit code rt)"
proof (intro conjI allI impI; (elim conjE)?)
  let ?x = "thinkos_thread_exit code rt"
  show kx: "kinv (X - {active rt}) ?x" by (rule kinv_thread_exit [OF k np a])
  show na: "\<not> bit (th_alloc ?x) (active rt)" using a by (simp add: thread_exit_eq Let_def)
  show "pendsv ?x" by simp
  have j: "t < 8 \<and> bit (th_alloc rt) t" if "qbit rt (45 + active rt) t" for t
    using kinv_lt8 [OF k _ _ that] kinv_alloc [OF k _ _ _ that] a by simp
  show "\<not> qbit ?x (45 + active rt) u" for u
    using a j [of u] by (auto simp: thread_exit_eq Let_def wait_upd qbit_exit_joins)
  show "qbit ?x 0 t" "ctx ?x t = map_option (\<lambda>c. c\<lparr>c_r0 := code\<rparr>) (ctx rt t)"
    if "qbit rt (45 + active rt) t" "t \<noteq> active rt" for t
    using that a j [OF that(1)]
      wait_D(3) [where th = "active rt" and rt = "exit_joins (active rt) code 8 (exit_unlink rt)" and t = t]
    by (auto simp: thread_exit_eq Let_def wait_upd qbit_exit_joins ctx_exit_joins)
  show "\<not> qbit ?x q (active rt)" if "q < 53" "q \<noteq> 3" for q
  proof
    assume "qbit ?x q (active rt)"
    then show False
      using that na a kinv_alloc [OF kx _ that(1) a] kinv_canceled [OF kx, of "active rt"]
        exit_queue_cases [of q] by auto
  qed
qed

theorem thread_exit_joined_witness:
  "kinv {} (thinkos_thread_exit 7 boot_rt) \<and> \<not> bit (th_alloc (thinkos_thread_exit 7 boot_rt)) 0"
  using thread_exit_joined [OF kinv_boot, of 7] by simp

end
