(* ===== verification/ThinkOS_Wake.thy ===== *)
theory ThinkOS_Wake
  imports ThinkOS_Init
begin

text \<open>
  Two idioms several services of ThinkOS share: the loop that wakes every thread of a queue
  (\<open>flag_set\<close>, \<open>cond_broadcast\<close> and, with another return value, \<open>break\<close>), and the block sequence of
  the semaphore and event services, which refills the ready queue only when it is the empty word.

  The locale \<open>wake_loop\<close> states what the loops rely on (the wake-up primitive takes the head out of
  its queue and keeps the kernel invariant) and derives once what a whole loop does; it is
  interpreted for both wake-up primitives.
\<close>

section \<open>Definitions\<close>

function wakeup_all :: "nat \<Rightarrow> thinkos_rt \<Rightarrow> thinkos_rt" where
  "wakeup_all wq rt =
    (let th = thinkos_wq_head wq rt
     in if th \<noteq> THINKOS_THREAD_NULL then wakeup_all wq (thinkos_wakeup wq th rt) else rt)"
  by pat_completeness auto

function wakeup_return_all :: "nat \<Rightarrow> u32 \<Rightarrow> thinkos_rt \<Rightarrow> thinkos_rt" where
  "wakeup_return_all wq ret rt =
    (let th = thinkos_wq_head wq rt
     in if th \<noteq> THINKOS_THREAD_NULL then wakeup_return_all wq ret (thinkos_wakeup_return wq th ret rt) else rt)"
  by pat_completeness auto

text \<open>\<open>if (wq_ready == 0) { wq_ready = wq_tmshare; wq_tmshare = 0; }\<close>\<close>

definition tmshare_collect_empty :: "thinkos_rt \<Rightarrow> thinkos_rt" where
  "tmshare_collect_empty rt =
    (if wq_lst rt THINKOS_WQ_READY = 0
     then rt\<lparr>wq_lst := (wq_lst rt)(THINKOS_WQ_READY := wq_lst rt THINKOS_WQ_TMSHARE, THINKOS_WQ_TMSHARE := 0)\<rparr>
     else rt)"

definition block_self :: "nat \<Rightarrow> thinkos_rt \<Rightarrow> thinkos_rt" where
  "block_self self rt =
     thinkos_defer_sched (tmshare_collect_empty (wq_wr THINKOS_WQ_READY self False rt))"

section \<open>Termination\<close>

text \<open>Whatever the queue, even the ready queue itself, its word loses the bit of the thread woken.\<close>

lemma wakeup_less:
  assumes "thinkos_wq_head wq rt \<noteq> 32"
  shows "wq_lst (thinkos_wakeup wq (thinkos_wq_head wq rt) rt) wq < wq_lst rt wq"
    and "wq_lst (thinkos_wakeup_return wq (thinkos_wq_head wq rt) v rt) wq < wq_lst rt wq"
proof -
  let ?t = "thinkos_wq_head wq rt"
  have b: "bit (wq_lst rt wq) ?t" by (rule wq_head_member [OF assms])
  have "wq_lst (wq_wr 4 ?t False (wq_wr wq ?t False (wq_wr 0 ?t True rt))) wq = unset_bit ?t (wq_lst rt wq)"
    by (rule word32_eqI) auto
  then show "wq_lst (thinkos_wakeup wq ?t rt) wq < wq_lst rt wq"
    "wq_lst (thinkos_wakeup_return wq ?t v rt) wq < wq_lst rt wq"
    using unset_bit_less [OF b] by (simp_all add: wakeup_wq_lst)
qed

termination wakeup_all
  by (relation "measure (\<lambda>(wq, rt). unat (wq_lst rt wq))")
    (use wakeup_less(1) in \<open>auto simp: word_less_nat_alt [symmetric]\<close>)

termination wakeup_return_all
  by (relation "measure (\<lambda>(wq, ret, rt). unat (wq_lst rt wq))")
    (use wakeup_less(2) in \<open>auto simp: word_less_nat_alt [symmetric]\<close>)

declare wakeup_all.simps [simp del] wakeup_return_all.simps [simp del]

section \<open>The loop\<close>

locale wake_loop =
  fixes wake :: "nat \<Rightarrow> thinkos_rt \<Rightarrow> thinkos_rt"
    and loop :: "thinkos_rt \<Rightarrow> thinkos_rt"
    and wq :: nat and ret :: u32
  assumes wq_range: "5 \<le> wq" "wq < 53"
    and loop_unfold: "loop rt =
      (if wq_lst rt wq = 0 then rt else loop (wake (thinkos_wq_head wq rt) rt))"
    and wake_less: "wq_lst rt wq \<noteq> 0 \<Longrightarrow> wq_lst (wake (thinkos_wq_head wq rt) rt) wq < wq_lst rt wq"
    and wake_qbit: "t < 32 \<Longrightarrow> qbit (wake t rt) q u \<longleftrightarrow>
      (qbit rt q u \<and> \<not> (u = t \<and> (q = wq \<or> q = 4))) \<or> (u = t \<and> q = 0)"
    and wake_ctx: "ctx (wake t rt) = (ctx rt)(t := map_option (\<lambda>c. c\<lparr>c_r0 := ret\<rparr>) (ctx rt t))"
    and wake_stat: "th_stat (wake t rt) = (th_stat rt)(t := 0)"
    and wake_rest: "(wake t rt)\<lparr>ctx := c, wq_lst := w, th_stat := s\<rparr> = rt\<lparr>ctx := c, wq_lst := w, th_stat := s\<rparr>"
    and wake_kinv: "kinv X rt \<Longrightarrow> qbit rt wq t \<Longrightarrow> kinv X (wake t rt)"
begin

lemma loop_induct [case_names empty step]:
  assumes "\<And>rt. wq_lst rt wq = 0 \<Longrightarrow> P rt"
    and "\<And>rt. wq_lst rt wq \<noteq> 0 \<Longrightarrow> P (wake (thinkos_wq_head wq rt) rt) \<Longrightarrow> P rt"
  shows "P rt"
proof (induction rt rule: measure_induct_rule [of "\<lambda>rt. unat (wq_lst rt wq)"])
  case (less rt)
  show ?case
  proof (cases "wq_lst rt wq = 0")
    case False
    then have "P (wake (thinkos_wq_head wq rt) rt)"
      using less wake_less [of rt] by (simp add: word_less_nat_alt)
    then show ?thesis using assms(2) [OF False] by blast
  qed (rule assms(1))
qed

lemma loop_kinv: "kinv X rt \<Longrightarrow> kinv X (loop rt)"
proof (induction rt rule: loop_induct)
  case (empty rt)
  then show ?case by (subst loop_unfold) simp
next
  case (step rt)
  then have "qbit rt wq (thinkos_wq_head wq rt)" by (intro wq_head_member) simp
  then have "kinv X (loop (wake (thinkos_wq_head wq rt) rt))" using step wake_kinv by blast
  then show ?case using step by (subst loop_unfold) simp
qed

lemma loop_spec:
  "(\<forall>q t. qbit (loop rt) q t \<longleftrightarrow>
      (if qbit rt wq t then q = 0 \<or> (qbit rt q t \<and> q \<noteq> wq \<and> q \<noteq> 4) else qbit rt q t)) \<and>
   (\<forall>t. ctx (loop rt) t =
      (if qbit rt wq t then map_option (\<lambda>c. c\<lparr>c_r0 := ret\<rparr>) (ctx rt t) else ctx rt t)) \<and>
   (\<forall>t. th_stat (loop rt) t = (if qbit rt wq t then 0 else th_stat rt t)) \<and>
   loop rt = rt\<lparr>ctx := ctx (loop rt), wq_lst := wq_lst (loop rt), th_stat := th_stat (loop rt)\<rparr>"
proof (induction rt rule: loop_induct)
  case (empty rt)
  then have "loop rt = rt" by (subst loop_unfold) simp
  with empty show ?case by simp
next
  case (step rt)
  define t where "t = thinkos_wq_head wq rt"
  let ?r = "wake t rt"
  have t: "t < 32" "qbit rt wq t"
    using step.hyps wq_head_lt32 wq_head_member [of wq rt] by (simp_all add: t_def)
  have l: "loop rt = loop ?r" using step.hyps by (subst loop_unfold) (simp add: t_def)
  have wqt: "qbit ?r wq u \<longleftrightarrow> qbit rt wq u \<and> u \<noteq> t" for u
    using wake_qbit [OF t(1), of rt wq u] wq_range by auto
  note ih = step.IH [folded t_def]
  have "loop ?r = ?r\<lparr>ctx := ctx (loop ?r), wq_lst := wq_lst (loop ?r), th_stat := th_stat (loop ?r)\<rparr>"
    using ih by blast
  then have "loop ?r = rt\<lparr>ctx := ctx (loop ?r), wq_lst := wq_lst (loop ?r), th_stat := th_stat (loop ?r)\<rparr>"
    by (rule trans [OF _ wake_rest])
  moreover have "qbit (loop ?r) q u \<longleftrightarrow>
      (if qbit rt wq u then q = 0 \<or> (qbit rt q u \<and> q \<noteq> wq \<and> q \<noteq> 4) else qbit rt q u)" for q u
    using ih t wqt [of u] wake_qbit [OF t(1), of rt q u] by (cases "u = t") auto
  moreover have "ctx (loop ?r) u =
      (if qbit rt wq u then map_option (\<lambda>c. c\<lparr>c_r0 := ret\<rparr>) (ctx rt u) else ctx rt u)" for u
    using ih t wqt [of u] wake_ctx [of t rt] by (cases "u = t") auto
  moreover have "th_stat (loop ?r) u = (if qbit rt wq u then 0 else th_stat rt u)" for u
    using ih t wqt [of u] wake_stat [of t rt] by (cases "u = t") auto
  ultimately show ?case unfolding l by blast
qed

lemma loop_qbit:
  "qbit (loop rt) q t \<longleftrightarrow>
     (if qbit rt wq t then q = 0 \<or> (qbit rt q t \<and> q \<noteq> wq \<and> q \<noteq> 4) else qbit rt q t)"
  using loop_spec by blast

lemma loop_empties: "wq_lst (loop rt) wq = 0"
  using wq_range by (subst word32_eq_0_iff) (auto simp: loop_qbit)

lemma loop_ctx:
  "ctx (loop rt) t = (if qbit rt wq t then map_option (\<lambda>c. c\<lparr>c_r0 := ret\<rparr>) (ctx rt t) else ctx rt t)"
  using loop_spec by blast

lemma loop_rest:
  "loop rt = rt\<lparr>ctx := ctx (loop rt), wq_lst := wq_lst (loop rt), th_stat := th_stat (loop rt)\<rparr>"
  using loop_spec by blast

lemma loop_shrinks: "shrinks Q rt (loop rt)"
  by (auto simp: shrinks_def loop_qbit split: if_splits)

end

section \<open>The two loops\<close>

lemma wakeup_all_loop:
  assumes "5 \<le> wq" "wq < 53"
  shows "wake_loop (thinkos_wakeup wq) (wakeup_all wq) wq 0"
proof (unfold_locales, goal_cases)
  case (3 rt)
  then show ?case by (subst wakeup_all.simps) (simp add: Let_def)
next
  case (4 rt)
  then show ?case using wakeup_less(1) [of wq rt] by simp
next
  case (5 t rt q u)
  then show ?case using assms by simp
next
  case (8 t rt c w s)
  show ?case by (simp add: thinkos_wakeup_def wq_wr_def ctx_set_r0_def Let_def)
next
  case (9 X rt t)
  then show ?case using assms by (intro kinv_wakeup)
qed (use assms in \<open>simp_all add: thinkos_wakeup_def ctx_set_r0_def Let_def\<close>)

lemma wakeup_return_all_loop:
  assumes "5 \<le> wq" "wq < 53"
  shows "wake_loop (\<lambda>t. thinkos_wakeup_return wq t ret) (wakeup_return_all wq ret) wq ret"
proof (unfold_locales, goal_cases)
  case (3 rt)
  then show ?case by (subst wakeup_return_all.simps) (simp add: Let_def)
next
  case (4 rt)
  then show ?case using wakeup_less(2) [of wq rt] by simp
next
  case (5 t rt q u)
  then show ?case using assms by simp
next
  case (8 t rt c w s)
  show ?case by (simp add: thinkos_wakeup_return_def wq_wr_def ctx_set_r0_def Let_def)
next
  case (9 X rt t)
  then show ?case using assms by (intro kinv_wakeup)
qed (use assms in \<open>simp_all add: thinkos_wakeup_return_def ctx_set_r0_def Let_def\<close>)

section \<open>Blocking\<close>

lemma block_self_frame [simp, frame_simps]:
  "ctx (block_self th rt) = ctx rt"
  "active (block_self th rt) = active rt"
  "th_stat (block_self th rt) = th_stat rt"
  "sched_val (block_self th rt) = sched_val rt"
  "sched_pri (block_self th rt) = sched_pri rt"
  "sched_limit (block_self th rt) = sched_limit rt"
  "ticks (block_self th rt) = ticks rt"
  "clock (block_self th rt) = clock rt"
  "sem_val (block_self th rt) = sem_val rt"
  "ev_pend (block_self th rt) = ev_pend rt"
  "ev_mask (block_self th rt) = ev_mask rt"
  "flag_sig (block_self th rt) = flag_sig rt"
  "flag_lock (block_self th rt) = flag_lock rt"
  "lock (block_self th rt) = lock rt"
  "irq_th (block_self th rt) = irq_th rt"
  "th_alloc (block_self th rt) = th_alloc rt"
  "mutex_alloc (block_self th rt) = mutex_alloc rt"
  "cond_alloc (block_self th rt) = cond_alloc rt"
  "sem_alloc (block_self th rt) = sem_alloc rt"
  "ev_alloc (block_self th rt) = ev_alloc rt"
  "flag_alloc (block_self th rt) = flag_alloc rt"
  "th_inf (block_self th rt) = th_inf rt"
  "irq_en (block_self th rt) = irq_en rt"
  "pendsv (block_self th rt)"
  by (simp_all add: block_self_def tmshare_collect_empty_def)

text \<open>The idle thread keeps the ready word different from zero, so this refill never happens.\<close>

lemma collect_empty_idle: "qbit rt 0 8 \<Longrightarrow> tmshare_collect_empty rt = rt"
  by (auto simp: tmshare_collect_empty_def)

lemma qbit_block_self [simp]:
  "qbit rt 0 8 \<Longrightarrow> th \<noteq> 8 \<Longrightarrow> qbit (block_self th rt) q t \<longleftrightarrow> qbit rt q t \<and> \<not> (q = 0 \<and> t = th)"
  by (simp add: block_self_def collect_empty_idle)

lemma qbit_block_self_obj [simp]: "1 < q \<Longrightarrow> qbit (block_self th rt) q t = qbit rt q t"
  by (simp add: block_self_def tmshare_collect_empty_def)

lemma kinv_block_self:
  assumes "kinv X rt" "\<not> pendsv rt" "active rt < 8" "active rt \<notin> X" "5 \<le> q \<and> q < 45"
  shows "kinv X (block_self (active rt) (thinkos_wq_insert q (active rt) rt))"
    and "kinv X (block_self (active rt) (thinkos_tmdwq_insert q (active rt) ms rt))"
proof -
  have "blocks {q} ((q * 2) mod 256) (active rt) rt (block_self (active rt) (thinkos_wq_insert q (active rt) rt))"
    "blocks {q, 4} ((q * 2 + 1) mod 256) (active rt) rt
       (block_self (active rt) (thinkos_tmdwq_insert q (active rt) ms rt))"
    using kinv_idle [OF assms(1)] assms(3,5) by (auto simp: blocks_def)
  note b = this
  show "kinv X (block_self (active rt) (thinkos_wq_insert q (active rt) rt))"
    by (rule kinv_blocks [OF assms(1,2) refl assms(3,4) b(1)]) (use assms(5) in auto)
  show "kinv X (block_self (active rt) (thinkos_tmdwq_insert q (active rt) ms rt))"
    by (rule kinv_blocks [OF assms(1,2) refl assms(3,4) b(2)]) (use assms(5) in auto)
qed

lemma shrinks_block_self [simp]:
  "q \<in> Q \<Longrightarrow> shrinks Q rt rt' \<Longrightarrow> shrinks Q rt (block_self t (thinkos_wq_insert q t rt'))"
  "q \<in> Q \<Longrightarrow> shrinks Q rt rt' \<Longrightarrow> shrinks Q rt (block_self t (thinkos_tmdwq_insert q t ms rt'))"
  by (auto simp: shrinks_def)

end
