(* ===== verification/ThinkOS_Thread.thy ===== *)
theory ThinkOS_Thread
  imports ThinkOS_Sched ThinkOS_Wake
begin

text \<open>
  The thread services of ThinkOS: create, join, cancel and exit (\<^verbatim>\<open>src/src/sdk/libthinkos/thinkos.c\<close>), pause
  and resume (\<^verbatim>\<open>thinkos_pause.c\<close>), sleep and alarm (\<^verbatim>\<open>thinkos_sleep.c\<close>), interrupt threads
  (\<^verbatim>\<open>thinkos_irq.c\<close>), and the object tables with the break service (\<^verbatim>\<open>thinkos_type.c\<close>, \<^verbatim>\<open>thinkos_util.c\<close>,
  \<^verbatim>\<open>thinkos_break.c\<close>).

  A thread's context is the record at its stack pointer; the fill pattern the create service writes
  below it is left out. The NVIC is modelled by its enable bits.
\<close>

section \<open>Thread creation\<close>

text \<open>The fields of \<open>struct thinkos_thread_opt\<close> in the word \<open>arg[3]\<close> of the call.\<close>

definition init_stack_size :: "svc_arg \<Rightarrow> nat" where
  "init_stack_size arg = unat (take_bit 16 (arg 3))"

definition init_priority :: "svc_arg \<Rightarrow> u8" where
  "init_priority arg = ucast (take_bit 8 (drop_bit 16 (arg 3)))"

definition init_id :: "svc_arg \<Rightarrow> nat" where
  "init_id arg = unat (take_bit 7 (drop_bit 24 (arg 3)))"

definition init_paused :: "svc_arg \<Rightarrow> bool" where
  "init_paused arg = bit (arg 3) 31"

definition thread_alloc :: "nat \<Rightarrow> u32 \<Rightarrow> int \<times> u32" where
  "thread_alloc id0 w =
    (if id0 \<ge> THINKOS_THREADS_MAX then thinkos_alloc_hi THINKOS_THREADS_MAX w
     else (case thinkos_alloc_lo id0 w of (th, w') \<Rightarrow>
       if th < 0 then thinkos_alloc_hi id0 w' else (th, w')))"

definition thinkos_thread_create_svc :: "thinkos_link \<Rightarrow> svc_arg \<Rightarrow> thinkos_rt \<Rightarrow> svc_arg \<times> thinkos_rt" where
  "thinkos_thread_create_svc lk arg rt =
    (case thread_alloc (init_id arg) (th_alloc rt) of (ti, w) \<Rightarrow>
      if ti < 0 then (arg(0 := THINKOS_EINVAL), rt\<lparr>th_alloc := w\<rparr>)
      else
       (let th = nat ti;
            rt1 = rt\<lparr>th_alloc := w\<rparr>
        in if init_stack_size arg < 64 then (arg(0 := THINKOS_EINVAL), rt1)
           else
            (let c = \<lparr>c_r4 = 0, c_r5 = 0, c_r6 = 0, c_r7 = 0, c_r8 = 0, c_r9 = 0, c_r10 = 0, c_r11 = 0,
                      c_r0 = arg 1, c_r1 = 0, c_r2 = 0, c_r3 = 0, c_r12 = 0,
                      c_lr = thread_exit_addr lk, c_pc = arg 0, c_xpsr = 0x01000000\<rparr>;
                 pri = (if init_priority arg > 32 then 32 else init_priority arg);
                 rt2 = rt1\<lparr>ctx := (ctx rt1)(th := Some c),
                           th_inf := (th_inf rt1)(th := arg 4),
                           sched_pri := (sched_pri rt1)(th := pri)\<rparr>;
                 rt3 = (if sched_limit rt2 < ucast pri then rt2\<lparr>sched_limit := ucast pri\<rparr> else rt2);
                 rt4 = rt3\<lparr>sched_val := (sched_val rt3)(th := ucast (sched_limit rt3 div 2))\<rparr>;
                 rt5 = (if init_paused arg then wq_wr THINKOS_WQ_PAUSED th True rt4
                        else thinkos_defer_sched (wq_wr THINKOS_WQ_READY th True rt4))
             in (arg(0 := of_nat th), rt5))))"

section \<open>Join, cancel and exit\<close>

definition thinkos_join_svc :: "svc_arg \<Rightarrow> thinkos_rt \<Rightarrow> svc_arg \<times> thinkos_rt" where
  "thinkos_join_svc arg rt =
    (let self = active rt;
         th = unat (arg 0)
     in if th \<ge> THINKOS_THREADS_MAX then (arg(0 := THINKOS_EINVAL), rt)
        else if \<not> bit_mem_rd (th_alloc rt) th then (arg(0 := THINKOS_EINVAL), rt)
        else (let rt1 = (if bit_mem_rd (wq_lst rt THINKOS_WQ_CANCELED) th
                         then wq_wr THINKOS_WQ_READY th True (wq_wr THINKOS_WQ_CANCELED th False rt)
                         else rt);
                  wq = THINKOS_JOIN_BASE + th
              in (arg(0 := - 1), thinkos_wait self (thinkos_wq_insert wq self rt1))))"

definition thinkos_cancel_svc :: "thinkos_link \<Rightarrow> svc_arg \<Rightarrow> thinkos_rt \<Rightarrow> svc_arg \<times> thinkos_rt" where
  "thinkos_cancel_svc lk arg rt =
    (let th = unat (arg 0);
         code = arg 1
     in if th \<ge> THINKOS_THREADS_MAX then (arg(0 := THINKOS_EINVAL), rt)
        else if \<not> bit_mem_rd (th_alloc rt) th then (arg(0 := THINKOS_EINVAL), rt)
        else (let stat = th_stat rt th;
                  rt1 = wq_wr (stat div 2) th False rt;
                  rt2 = thinkos_wq_insert THINKOS_WQ_CANCELED th rt1;
                  rt3 = wq_wr THINKOS_WQ_TMSHARE th False rt2;
                  rt4 = wq_wr THINKOS_WQ_CLOCK th False rt3;
                  rt5 = rt4\<lparr>ctx := (ctx rt4)(th :=
                          map_option (\<lambda>c. c\<lparr>c_pc := thread_exit_addr lk, c_r0 := code\<rparr>) (ctx rt4 th))\<rparr>
              in (arg(0 := 0), rt5)))"

definition thinkos_exit_svc :: "thinkos_link \<Rightarrow> svc_arg \<Rightarrow> thinkos_rt \<Rightarrow> svc_arg \<times> thinkos_rt" where
  "thinkos_exit_svc lk arg rt =
    (let self = active rt;
         code = arg 0;
         rt1 = thinkos_wq_insert THINKOS_WQ_CANCELED self rt
     in (arg(6 := thread_exit_addr lk, 0 := code), thinkos_defer_sched rt1))"

section \<open>Pause and resume\<close>

definition thinkos_resume_svc :: "svc_arg \<Rightarrow> thinkos_rt \<Rightarrow> svc_arg \<times> thinkos_rt" where
  "thinkos_resume_svc arg rt =
    (let th = unat (arg 0)
     in if th \<ge> THINKOS_THREADS_MAX then (arg(0 := THINKOS_EINVAL), rt)
        else if \<not> bit_mem_rd (th_alloc rt) th then (arg(0 := THINKOS_EINVAL), rt)
        else if \<not> bit_mem_rd (wq_lst rt THINKOS_WQ_PAUSED) th then (arg(0 := 0), rt)
        else (let rt1 = wq_wr THINKOS_WQ_PAUSED th False rt;
                  stat = th_stat rt1 th;
                  rt2 = wq_wr (stat div 2) th True rt1;
                  rt3 = wq_wr THINKOS_WQ_CLOCK th True rt2
              in (arg(0 := 0), thinkos_defer_sched rt3)))"

definition thinkos_pause_svc :: "svc_arg \<Rightarrow> thinkos_rt \<Rightarrow> svc_arg \<times> thinkos_rt" where
  "thinkos_pause_svc arg rt =
    (let th = unat (arg 0)
     in if th \<ge> THINKOS_THREADS_MAX then (arg(0 := THINKOS_EINVAL), rt)
        else if \<not> bit_mem_rd (th_alloc rt) th then (arg(0 := THINKOS_EINVAL), rt)
        else if bit_mem_rd (wq_lst rt THINKOS_WQ_PAUSED) th then (arg(0 := 0), rt)
        else (let rt1 = wq_wr THINKOS_WQ_PAUSED th True rt;
                  stat = th_stat rt1 th;
                  rt2 = wq_wr (stat div 2) th False rt1;
                  rt3 = wq_wr THINKOS_WQ_TMSHARE th False rt2;
                  rt4 = wq_wr THINKOS_WQ_CLOCK th False rt3
              in (arg(0 := 0), thinkos_defer_sched rt4)))"

section \<open>Sleep and alarm\<close>

definition thinkos_sleep_svc :: "svc_arg \<Rightarrow> thinkos_rt \<Rightarrow> svc_arg \<times> thinkos_rt" where
  "thinkos_sleep_svc arg rt =
    (let ms = arg 0;
         self = active rt;
         rt1 = rt\<lparr>clock := (clock rt)(self := ticks rt + ms)\<rparr>;
         rt2 = wq_wr THINKOS_WQ_CLOCK self True rt1;
         rt3 = rt2\<lparr>th_stat := (th_stat rt2)(self := THINKOS_WQ_CLOCK * 2 + 1)\<rparr>
     in (arg, thinkos_wait self rt3))"

definition thinkos_alarm_svc :: "svc_arg \<Rightarrow> thinkos_rt \<Rightarrow> svc_arg \<times> thinkos_rt" where
  "thinkos_alarm_svc arg rt =
    (let ms = arg 0;
         self = active rt;
         rt1 = rt\<lparr>clock := (clock rt)(self := ms)\<rparr>;
         rt2 = wq_wr THINKOS_WQ_CLOCK self True rt1;
         rt3 = rt2\<lparr>th_stat := (th_stat rt2)(self := THINKOS_WQ_CLOCK * 2 + 1)\<rparr>
     in (arg, thinkos_wait self rt3))"

section \<open>Interrupt threads\<close>

text \<open>\<open>None\<close>: an interrupt with no registered thread writes a bit outside the ready word.\<close>

definition cm3_default_isr :: "nat \<Rightarrow> thinkos_rt \<Rightarrow> thinkos_rt option" where
  "cm3_default_isr irq rt =
    (let rt1 = rt\<lparr>irq_en := (irq_en rt)(irq := False)\<rparr>;
         th = irq_th rt1 irq
     in if th < 0 then None
        else Some (thinkos_defer_sched (wq_wr THINKOS_WQ_READY (nat th) True rt1)))"

definition thinkos_irq_wait_svc :: "svc_arg \<Rightarrow> thinkos_rt \<Rightarrow> svc_arg \<times> thinkos_rt" where
  "thinkos_irq_wait_svc arg rt =
    (let irq = unat (arg 0);
         self = active rt
     in if irq \<ge> THINKOS_IRQ_MAX then (arg(0 := THINKOS_EINVAL), rt)
        else (arg, thinkos_wait self
                (rt\<lparr>irq_th := (irq_th rt)(irq := int self), irq_en := (irq_en rt)(irq := True)\<rparr>)))"

section \<open>Object tables and break\<close>

definition thinkos_obj_type_lut :: "nat list" where
  "thinkos_obj_type_lut =
     [0, 1, 2, 3, 4] @ replicate 8 5 @ replicate 8 6 @ replicate 8 7 @ replicate 8 8 @ replicate 8 9 @
     replicate 8 10"

text \<open>The allocation bitmap of a type; the table has no bitmap for mutexes although they are allocated.\<close>

definition thinkos_obj_alloc_lut :: "nat \<Rightarrow> thinkos_rt \<Rightarrow> u32 option" where
  "thinkos_obj_alloc_lut type rt =
    [None, None, None, None, None, None, Some (cond_alloc rt), Some (sem_alloc rt), Some (ev_alloc rt),
     Some (flag_alloc rt), Some (th_alloc rt), None] ! type"

definition thinkos_wq_base_lut :: "nat list" where
  "thinkos_wq_base_lut =
     [THINKOS_WQ_READY, THINKOS_WQ_TMSHARE, THINKOS_WQ_CANCELED, THINKOS_WQ_PAUSED, THINKOS_WQ_CLOCK,
      THINKOS_MUTEX_BASE, THINKOS_COND_BASE, THINKOS_SEM_BASE, THINKOS_EVENT_BASE, THINKOS_FLAG_BASE,
      THINKOS_JOIN_BASE, 0]"

definition thinkos_obj_type_get :: "nat \<Rightarrow> int" where
  "thinkos_obj_type_get oid =
    (if oid \<ge> THINKOS_WQ_LST_END then - 3 else int (thinkos_obj_type_lut ! oid))"

definition thinkos_break_svc :: "svc_arg \<Rightarrow> thinkos_rt \<Rightarrow> svc_arg \<times> thinkos_rt" where
  "thinkos_break_svc arg rt =
    (let wq = unat (arg 0)
     in if wq \<ge> THINKOS_WQ_LST_END then (arg(0 := THINKOS_EINVAL), rt)
        else (let type = thinkos_obj_type_lut ! wq;
                  alloc = thinkos_obj_alloc_lut type rt;
                  idx = wq - thinkos_wq_base_lut ! type
              in if (case alloc of None \<Rightarrow> False | Some w \<Rightarrow> \<not> bit_mem_rd w idx)
                 then (arg(0 := THINKOS_EINVAL), rt)
                 else (let th = thinkos_wq_head wq rt
                       in if th \<noteq> THINKOS_THREAD_NULL
                          then (arg(0 := 0),
                                thinkos_defer_sched (wakeup_return_all wq THINKOS_EINTR
                                  (thinkos_wakeup_return wq th THINKOS_EINTR rt)))
                          else (arg(0 := 0), rt))))"

lemmas thread_defs [kdefs] =
  thinkos_thread_create_svc_def thinkos_join_svc_def thinkos_cancel_svc_def thinkos_exit_svc_def
  thinkos_resume_svc_def thinkos_pause_svc_def thinkos_sleep_svc_def thinkos_alarm_svc_def
  thinkos_irq_wait_svc_def thinkos_break_svc_def

section \<open>Allocating a thread number\<close>

lemma thread_alloc_id: "id_alloc (thread_alloc id0) (if 8 \<le> id0 then {..8} else {..<32})"
proof (unfold_locales, goal_cases)
  case (1 w i w')
  show ?case
  proof (cases "8 \<le> id0")
    case True
    then show ?thesis using 1 alloc_hi.alloc_some [of 8 w i w'] by (simp add: thread_alloc_def)
  next
    case False
    obtain j v where l: "thinkos_alloc_lo id0 w = (j, v)" by fastforce
    show ?thesis
    proof (cases "j < 0")
      case True
      then have "v = w" using alloc_lo.alloc_none [OF l] by simp
      then show ?thesis
        using 1 False True l alloc_hi.alloc_some [of id0 w i w'] by (simp add: thread_alloc_def)
    next
      case nonneg: False
      then show ?thesis
        using 1 False l alloc_lo.alloc_some [OF l] by (auto simp: thread_alloc_def)
    qed
  qed
next
  case (2 w i w')
  show ?case
  proof (cases "8 \<le> id0")
    case True
    then show ?thesis using 2 alloc_hi.alloc_none [of 8 w i w'] by (simp add: thread_alloc_def)
  next
    case False
    obtain j v where l: "thinkos_alloc_lo id0 w = (j, v)" by fastforce
    then have j: "j < 0" using 2 False by (auto simp: thread_alloc_def split: if_splits)
    note lo = alloc_lo.alloc_none [OF l j]
    have hi: "thinkos_alloc_hi id0 w = (i, w')" using 2 False j l lo by (simp add: thread_alloc_def)
    have "bit w n" if "n < 32" for n
      using alloc_hi.alloc_none [OF hi 2(2)] lo False that by (cases "n \<le> id0") auto
    then show ?thesis using alloc_hi.alloc_none [OF hi 2(2)] False by auto
  qed
qed

interpretation thread_ids: id_alloc "thread_alloc id0" "if 8 \<le> id0 then {..8} else {..<32}" for id0
  by (rule thread_alloc_id)

text \<open>The bits of the thread bitmap that stand for no thread are always taken.\<close>

definition th_bmp_ok :: "thinkos_rt \<Rightarrow> bool" where
  "th_bmp_ok rt \<longleftrightarrow> (\<forall>n. 8 \<le> n \<and> n < 32 \<longrightarrow> bit (th_alloc rt) n)"

lemma thread_alloc_new:
  assumes "th_bmp_ok rt" "thread_alloc id0 (th_alloc rt) = (i, w)" "0 \<le> i"
  shows "nat i < 8" "\<not> bit (th_alloc rt) (nat i)" "w = bit_mem_wr (th_alloc rt) (nat i) True"
proof -
  have "i < int 8"
    by (rule thread_ids.alloc_bounded [OF assms(2,3)]) (use assms(1) in \<open>auto simp: th_bmp_ok_def\<close>)
  then show "nat i < 8" using assms(3) by linarith
  show "\<not> bit (th_alloc rt) (nat i)" "w = bit_mem_wr (th_alloc rt) (nat i) True"
    using thread_ids.alloc_some [OF assms(2,3)] by blast+
qed

section \<open>Thread services and the kernel invariant\<close>

lemma kinv_new_thread:
  assumes k: "kinv X rt"
  shows "kinv X (rt\<lparr>th_alloc := bit_mem_wr (th_alloc rt) t True\<rparr>)"
proof (rule kinv_realloc [OF k])
  fix q u assume "q \<le> 1 \<or> 4 \<le> q" "q < 53" "u < 8" "qbit rt q u"
  from kinv_alloc [OF k this] show "bit (th_alloc (rt\<lparr>th_alloc := bit_mem_wr (th_alloc rt) t True\<rparr>)) u" by simp
next
  fix u assume "u \<in> X"
  from kinv_exit [OF k this] show "bit (th_alloc (rt\<lparr>th_alloc := bit_mem_wr (th_alloc rt) t True\<rparr>)) u" by simp
next
  show "pendsv (rt\<lparr>th_alloc := bit_mem_wr (th_alloc rt) t True\<rparr>) \<or>
      running_ok X (rt\<lparr>th_alloc := bit_mem_wr (th_alloc rt) t True\<rparr>)"
    using kinv_running [OF k] by (auto simp: running_ok_def)
qed simp_all

text \<open>Changing the queues of one thread only, in a way the invariant allows.\<close>

lemma kinv_one_thread:
  assumes k: "kinv X rt" and t: "t < 8"
    and same: "\<And>q u. u \<noteq> t \<Longrightarrow> qbit rt' q u = qbit rt q u"
    and obj: "\<And>q. 4 \<le> q \<Longrightarrow> q < 53 \<Longrightarrow> \<not> qbit rt' q t"
    and tm: "qbit rt' 0 t \<Longrightarrow> qbit rt' 1 t \<Longrightarrow> t \<in> X'"
    and cn: "qbit rt' 2 t \<Longrightarrow> t \<in> X' \<and> s div 2 = 2"
    and al: "bit (th_alloc rt) t"
    and X: "X' - {t} = X - {t}"
    and f: "th_stat rt' = (th_stat rt)(t := s)" "s < 106" "th_alloc rt' = th_alloc rt"
    and p: "pendsv rt' \<or> running_ok X' rt'"
  shows "kinv X' rt'"
proof -
  have inX: "u \<in> X' \<longleftrightarrow> u \<in> X" if "u \<noteq> t" for u using X that by blast
  show ?thesis
  proof (rule kinvI, goal_cases)
    case 1
    then show ?case using kinv_idle [OF k] same [of 8 0] t by simp
  next
    case (2 q u)
    then show ?case using kinv_range [OF k, of q u] same t by (cases "u = t") auto
  next
    case (3 u)
    then show ?case using kinv_stat_lt [OF k] f by simp
  next
    case (4 q u)
    then show ?case using kinv_stat [OF k, of q u] obj [of q] same f by (cases "u = t") auto
  next
    case (5 u)
    then show ?case using kinv_clock [OF k, of u] obj [of 4] same f by (cases "u = t") auto
  next
    case (6 q u)
    then show ?case using kinv_wait [OF k, of q u] obj [of q] same inX by (cases "u = t") auto
  next
    case (7 u)
    then show ?case using kinv_tmshare [OF k, of u] tm same inX by (cases "u = t") auto
  next
    case (8 u)
    then show ?case using kinv_canceled [OF k, of u] cn same inX f by (cases "u = t") auto
  next
    case (9 q u)
    then show ?case using kinv_join [OF k, of q u] obj [of q] same by (cases "u = t") auto
  next
    case (10 q u)
    then show ?case using kinv_alloc [OF k, of q u] al same f by (cases "u = t") auto
  next
    case (11 u)
    then show ?case using kinv_exit [OF k, of u] t al inX f by (cases "u = t") auto
  qed (rule p)
qed

lemma kinv_make_ready:
  assumes k: "kinv X rt" and t: "t < 8" "bit (th_alloc rt) t"
    and n: "\<And>q. 4 \<le> q \<Longrightarrow> q < 53 \<Longrightarrow> \<not> qbit rt q t" and tm: "qbit rt 1 t \<Longrightarrow> t \<in> X"
  shows "kinv X (thinkos_defer_sched (wq_wr 0 t True rt))"
proof (rule kinv_one_thread [OF k t(1) _ _ _ _ t(2) refl, where s = "th_stat rt t"])
  show "th_stat rt t < 106" by (rule kinv_stat_lt [OF k])
qed (use n tm t kinv_canceled [OF k, of t] in auto)

lemma kinv_create:
  assumes k: "kinv X rt" and b: "th_bmp_ok rt"
  shows "kinv X (snd (thinkos_thread_create_svc lk arg rt))"
proof -
  obtain i w where a: "thread_alloc (init_id arg) (th_alloc rt) = (i, w)" by fastforce
  show ?thesis
  proof (cases "i < 0")
    case True
    then have "w = th_alloc rt" using thread_ids.alloc_none [OF a] by blast
    then show ?thesis using a True k by (simp add: thinkos_thread_create_svc_def)
  next
    case False
    let ?t = "nat i"
    let ?r = "rt\<lparr>th_alloc := bit_mem_wr (th_alloc rt) ?t True\<rparr>"
    note n = thread_alloc_new [OF b a] 
    have t: "?t < 8" "\<not> bit (th_alloc rt) ?t" "w = bit_mem_wr (th_alloc rt) ?t True" using n False by simp_all
    have k1: "kinv X ?r" by (rule kinv_new_thread [OF k])
    have nq: "\<not> qbit rt q ?t" if "q \<le> 1 \<or> 4 \<le> q" "q < 53" for q
      using kinv_alloc [OF k that t(1)] t(2) by blast
    have rdy: "kinv X (thinkos_defer_sched (wq_wr 0 ?t True r))"
      if "kinv X r" "wq_lst r = wq_lst rt" "th_alloc r = th_alloc ?r" for r
      using that nq t by (intro kinv_make_ready) auto
    have psd: "kinv X (wq_wr 3 ?t True r)"
      if "kinv X r" "wq_lst r = wq_lst rt" "th_alloc r = th_alloc ?r" "th_stat r = th_stat rt"
        "pendsv r = pendsv rt" "active r = active rt" for r
      by (rule kinv_one_thread [OF that(1) t(1), where s = "th_stat r ?t"])
        (use that nq t kinv_canceled [OF k, of ?t] kinv_stat_lt [OF k] kinv_running [OF that(1)] in
          \<open>auto simp: running_ok_def dest: kinv_exit [OF k]\<close>)
    show ?thesis
      using a False k1 t(3) rdy psd by (simp add: thinkos_thread_create_svc_def Let_def)
  qed
qed

lemma kinv_join_ready:
  assumes k: "kinv X rt" and c: "qbit rt 2 t" and a: "active rt \<noteq> t"
  shows "kinv X (wq_wr 0 t True (wq_wr 2 t False rt))"
proof -
  have t: "t \<in> X" "t < 8" "bit (th_alloc rt) t" using kinv_canceled [OF k c] kinv_exit [OF k] by auto
  have n: "\<not> qbit rt q t" if "4 \<le> q" "q < 53" for q using kinv_wait [OF k that] t(1) by blast
  have p: "pendsv rt \<or> running_ok X (wq_wr 0 t True (wq_wr 2 t False rt))"
    using kinv_running [OF k] a by (auto simp: running_ok_def)
  show ?thesis
    by (rule kinv_one_thread [OF k t(2) _ _ _ _ t(3) refl, where s = "th_stat rt t"])
      (use n t(1) p kinv_stat_lt [OF k] in auto)
qed

lemma kinv_join_svc [intro]:
  assumes k: "kinv X rt" and np: "\<not> pendsv rt" and a: "active rt < 8" "active rt \<notin> X"
  shows "kinv X (snd (thinkos_join_svc arg rt))"
proof -
  let ?t = "unat (arg 0)"
  let ?r = "if qbit rt 2 ?t then wq_wr 0 ?t True (wq_wr 2 ?t False rt) else rt"
  have "active rt \<noteq> ?t" if "qbit rt 2 ?t" using kinv_canceled [OF k that] a by auto
  then have r: "kinv X ?r" "\<not> pendsv ?r" "active ?r = active rt" using k np kinv_join_ready [OF k] by auto
  have "kinv X (thinkos_wait (active rt) (thinkos_wq_insert (45 + ?t) (active rt) ?r))" if "?t < 8"
    using kinv_block [OF r(1,2), of "45 + ?t"] that a r(3) by simp
  then show ?thesis
    using k by (simp add: thinkos_join_svc_def Let_def split: if_splits)
qed

lemma kinv_cancel:
  assumes k: "kinv X rt" and t: "unat (arg 0) \<noteq> active rt" and e: "fst (thinkos_cancel_svc lk arg rt) 0 = 0"
  shows "kinv (insert (unat (arg 0)) X) (snd (thinkos_cancel_svc lk arg rt))"
proof -
  let ?t = "unat (arg 0)"
  have v: "?t < 8" "bit (th_alloc rt) ?t"
    using e by (auto simp: thinkos_cancel_svc_def Let_def split: if_splits)
  let ?r = "snd (thinkos_cancel_svc lk arg rt)"
  have q: "qbit ?r q u \<longleftrightarrow>
      (qbit rt q u \<and> \<not> (u = ?t \<and> (q = th_stat rt ?t div 2 \<or> q = 1 \<or> q = 4))) \<or> (u = ?t \<and> q = 2)" for q u
    using v by (auto simp: thinkos_cancel_svc_def Let_def)
  have f: "th_stat ?r = (th_stat rt)(?t := 4)" "th_alloc ?r = th_alloc rt" "active ?r = active rt"
    "pendsv ?r = pendsv rt"
    using v by (simp_all add: thinkos_cancel_svc_def Let_def)
  have "running_ok X rt \<Longrightarrow> running_ok (insert ?t X) ?r"
    using t unfolding running_ok_def q f by auto
  then have p: "pendsv ?r \<or> running_ok (insert ?t X) ?r" using kinv_running [OF k] f(4) by auto
  have n: "\<not> qbit ?r q ?t" if "4 \<le> q" "q < 53" for q
    using that kinv_stat [OF k, of q ?t] unfolding q by (cases "q = 4") auto
  show ?thesis
    by (rule kinv_one_thread [OF k v(1) _ n _ _ v(2) _ f(1) _ f(2) p]) (auto simp: q)
qed

lemma cancel_error: "fst (thinkos_cancel_svc lk arg rt) 0 \<noteq> 0 \<Longrightarrow> snd (thinkos_cancel_svc lk arg rt) = rt"
  by (auto simp: thinkos_cancel_svc_def Let_def split: if_splits)

lemma kinv_exit_svc:
  assumes k: "kinv X rt" and np: "\<not> pendsv rt" and a: "active rt < 8"
  shows "kinv (insert (active rt) X) (snd (thinkos_exit_svc lk arg rt))"
proof -
  have r: "bit (th_alloc rt) (active rt)" "\<And>q. 4 \<le> q \<Longrightarrow> q < 53 \<Longrightarrow> \<not> qbit rt q (active rt)"
    using kinv_running [OF k np] a by (auto simp: running_ok_def)
  show ?thesis
    by (rule kinv_one_thread [OF k a _ _ _ _ r(1), where s = 4])
      (use r(2) a in \<open>auto simp: thinkos_exit_svc_def Let_def\<close>)
qed

lemma kinv_pause:
  assumes k: "kinv X rt"
  shows "kinv X (snd (thinkos_pause_svc arg rt))"
proof (cases "unat (arg 0) < 8 \<and> bit (th_alloc rt) (unat (arg 0)) \<and> \<not> qbit rt 3 (unat (arg 0))")
  case True
  let ?t = "unat (arg 0)" and ?r = "snd (thinkos_pause_svc arg rt)"
  have q: "qbit ?r q u \<longleftrightarrow>
      ((qbit rt q u \<or> (u = ?t \<and> q = 3)) \<and> \<not> (u = ?t \<and> (q = th_stat rt ?t div 2 \<or> q = 1 \<or> q = 4)))" for q u
    using True by (auto simp: thinkos_pause_svc_def Let_def)
  have n: "\<not> qbit ?r q ?t" if "4 \<le> q" "q < 53" for q
    using that kinv_stat [OF k, of q ?t] unfolding q by (cases "q = 4") auto
  show ?thesis
    by (rule kinv_one_thread [OF k, of ?t, where s = "th_stat rt ?t"])
      (use True n kinv_stat_lt [OF k] kinv_canceled [OF k, of ?t] in \<open>auto simp: q thinkos_pause_svc_def Let_def\<close>)
next
  case False
  then have "snd (thinkos_pause_svc arg rt) = rt" by (auto simp: thinkos_pause_svc_def Let_def)
  then show ?thesis using k by simp
qed

lemma sleep_blocks:
  assumes "kinv X rt" "active rt < 8"
  shows "blocks {4} 9 (active rt) rt (snd (thinkos_sleep_svc arg rt))"
    and "blocks {4} 9 (active rt) rt (snd (thinkos_alarm_svc arg rt))"
proof -
  let ?r = "\<lambda>c. (wq_wr 4 (active rt) True (rt\<lparr>clock := c\<rparr>))\<lparr>th_stat := (th_stat rt)(active rt := 9)\<rparr>"
  have w: "wq_lst (?r c) = wq_lst (wq_wr 4 (active rt) True rt)" for c by (simp add: wq_wr_def)
  have "blocks {4} 9 (active rt) rt (thinkos_wait (active rt) (?r c))" for c
    using wait_D [where th = "active rt" and rt = "?r c"] wait_ready_tmshare [where th = "active rt" and rt = "?r c"]
      kinv_idle [OF assms(1)] assms(2)
    unfolding blocks_def w by (auto simp: w)
  then show "blocks {4} 9 (active rt) rt (snd (thinkos_sleep_svc arg rt))"
    "blocks {4} 9 (active rt) rt (snd (thinkos_alarm_svc arg rt))"
    by (simp_all add: thinkos_sleep_svc_def thinkos_alarm_svc_def Let_def)
qed

lemma kinv_sleep [intro]:
  assumes "kinv X rt" "\<not> pendsv rt" "active rt < 8" "active rt \<notin> X"
  shows "kinv X (snd (thinkos_sleep_svc arg rt))" "kinv X (snd (thinkos_alarm_svc arg rt))"
  by (rule kinv_blocks [OF assms(1,2) refl assms(3,4)], rule sleep_blocks [OF assms(1,3)], simp_all)+

lemma kinv_irq_wait [intro]:
  assumes "kinv X rt" "\<not> pendsv rt" "active rt < 8" "active rt \<notin> X"
  shows "kinv X (snd (thinkos_irq_wait_svc arg rt))"
proof -
  have "kinv X (thinkos_wait (active rt) (rt\<lparr>irq_th := v, irq_en := e\<rparr>))" for v e
    using kinv_wait_only [of X "rt\<lparr>irq_th := v, irq_en := e\<rparr>"] assms by simp
  then show ?thesis using assms(1) by (simp add: thinkos_irq_wait_svc_def Let_def)
qed

text \<open>An interrupt may arrive for a registered thread that is not queued for anything else.\<close>

definition isr_ok :: "nat set \<Rightarrow> nat \<Rightarrow> thinkos_rt \<Rightarrow> bool" where
  "isr_ok X irq rt \<longleftrightarrow>
     0 \<le> irq_th rt irq \<and> irq_th rt irq < 8 \<and> bit (th_alloc rt) (nat (irq_th rt irq)) \<and>
     (\<forall>q. 4 \<le> q \<and> q < 53 \<longrightarrow> \<not> qbit rt q (nat (irq_th rt irq))) \<and>
     (qbit rt 1 (nat (irq_th rt irq)) \<longrightarrow> nat (irq_th rt irq) \<in> X)"

lemma kinv_isr:
  assumes "kinv X rt" "isr_ok X irq rt" "cm3_default_isr irq rt = Some rt'"
  shows "kinv X rt'"
proof -
  have "kinv X (thinkos_defer_sched (wq_wr 0 (nat (irq_th rt irq)) True (rt\<lparr>irq_en := e\<rparr>)))" for e
    using assms(1,2) by (intro kinv_make_ready) (auto simp: isr_ok_def nat_less_iff)
  then show ?thesis using assms(3) by (auto simp: cm3_default_isr_def Let_def split: if_splits)
qed

section \<open>The object tables\<close>

lemma obj_type_lut_length: "length thinkos_obj_type_lut = 53"
  by (simp add: thinkos_obj_type_lut_def)

text \<open>The queue numbers of a type are the base of the type plus an index.\<close>

lemma obj_type_base:
  "\<forall>wq\<in>set [0..<53]. thinkos_wq_base_lut ! (thinkos_obj_type_lut ! wq) \<le> wq \<and>
     wq - thinkos_wq_base_lut ! (thinkos_obj_type_lut ! wq) <
       (if thinkos_obj_type_lut ! wq < 5 then 1 else 8)"
  by code_simp

section \<open>Break\<close>

interpretation break_wake: wake_loop
  "\<lambda>t. thinkos_wakeup_return (THINKOS_MUTEX_BASE + i mod 48) t THINKOS_EINTR"
  "wakeup_return_all (THINKOS_MUTEX_BASE + i mod 48) THINKOS_EINTR"
  "THINKOS_MUTEX_BASE + i mod 48" THINKOS_EINTR for i
proof -
  have "i mod 48 < 48" by simp
  then have "5 + i mod 48 < 53" by linarith
  then show "wake_loop (\<lambda>t. thinkos_wakeup_return (5 + i mod 48) t (- 2)) (wakeup_return_all (5 + i mod 48) (- 2))
      (5 + i mod 48) (- 2)" by (intro wakeup_return_all_loop) simp_all
qed

lemma break_unfold:
  assumes "5 \<le> wq" "wq < 53"
  shows "wakeup_return_all wq THINKOS_EINTR rt =
    (if wq_lst rt wq = 0 then rt
     else wakeup_return_all wq THINKOS_EINTR (thinkos_wakeup_return wq (thinkos_wq_head wq rt) THINKOS_EINTR rt))"
  using break_wake.loop_unfold [of "wq - 5" rt] assms by simp

section \<open>Properties\<close>

text \<open>The clock ticks and context switches that follow one another: \<open>None\<close> is a tick, \<open>Some frame\<close> a switch
  away from a thread interrupted with this frame.\<close>

definition tick_or_switch :: "thinkos_context option \<Rightarrow> thinkos_rt \<Rightarrow> thinkos_rt" where
  "tick_or_switch e rt = (case e of None \<Rightarrow> cm3_systick_isr rt | Some frame \<Rightarrow> cm3_pendsv_isr frame rt)"

definition asleep :: "nat \<Rightarrow> u32 \<Rightarrow> thinkos_rt \<Rightarrow> bool" where
  "asleep t ms rt \<longleftrightarrow> qbit rt 4 t \<and> \<not> qbit rt 0 t \<and> \<not> qbit rt 1 t \<and> t \<noteq> active rt \<and> t < 8 \<and> clock rt t = ticks rt + ms"

lemma asleep_expires:
  assumes "asleep t ms rt" "0 < unat ms" "unat ms < 2 ^ 31"
  shows "expires (wq_lst rt 4) (ticks rt + 1) rt t \<longleftrightarrow> unat ms = 1"
proof -
  have "clock rt t - (ticks rt + 1) = ms - of_nat 1" using assms(1) by (simp add: asleep_def)
  then have "sint (clock rt t - (ticks rt + 1)) = int (unat ms) - int 1"
    using sint_countdown [OF assms(3), of 1] assms(2) by (simp only: Suc_leI One_nat_def)
  then have "sint (clock rt t - (ticks rt + 1)) \<le> 0 \<longleftrightarrow> unat ms = 1" using assms(2) by linarith
  then show ?thesis using assms(1) by (simp add: expires_def asleep_def)
qed

lemma asleep_step:
  assumes a: "asleep t ms rt" "1 < unat ms" "unat ms < 2 ^ 31"
  shows "asleep t (ms - 1) (cm3_systick_isr rt)"
proof -
  have n: "\<not> expires (wq_lst rt 4) (ticks rt + 1) rt t" using asleep_expires [OF a(1)] a by simp
  then show ?thesis
    using systick_other(2) [of t rt, OF _ n] a(1) by (auto simp: asleep_def systick_queue)
qed

lemma asleep_switch:
  assumes a: "asleep t ms rt"
  shows "asleep t ms (cm3_pendsv_isr frame rt)"
proof -
  have "first_bit (wq_lst rt 0) \<noteq> t"
  proof (cases "wq_lst rt 0 = 0")
    case False
    then show ?thesis using first_bit_bit [of "wq_lst rt 0"] a by (auto simp: asleep_def)
  next
    case True
    then have "first_bit (wq_lst rt 0) = 32" using first_bit_32_iff by blast
    then show ?thesis using a unfolding asleep_def by linarith
  qed
  then show ?thesis using a by (simp add: asleep_def pendsv_active)
qed

lemma asleep_run:
  "asleep t ms rt \<Longrightarrow> unat ms < 2 ^ 31 \<Longrightarrow> count_list evs None < unat ms \<Longrightarrow>
    asleep t (ms - of_nat (count_list evs None)) (fold tick_or_switch evs rt)"
proof (induction evs arbitrary: ms rt)
  case (Cons e evs)
  show ?case
  proof (cases e)
    case None
    have u: "unat (ms - 1) = unat ms - 1" using Cons.prems(3) by (intro unat_minus_one) auto
    have "asleep t (ms - 1) (cm3_systick_isr rt)" using asleep_step [OF Cons.prems(1)] Cons.prems None by simp
    from Cons.IH [OF this] show ?thesis using Cons.prems u None by (simp add: tick_or_switch_def diff_diff_eq)
  next
    case (Some frame)
    then show ?thesis using Cons asleep_switch [OF Cons.prems(1)] by (simp add: tick_or_switch_def)
  qed
qed simp

text \<open>C22: a sleeping thread wakes on time, for \<open>0 < ms < 2 ^ 31\<close>. After \<open>sleep(ms)\<close> and the context switch it
  requests, let only clock ticks and context switches follow, in any order (no service call and no
  other interrupt). As long as there were fewer than \<open>ms\<close> ticks the thread is not ready and is not
  running, and tick number \<open>ms\<close> makes it ready, also when the 32-bit tick counter wraps in between.
  (Longer sleeps end at the first tick: \<open>long_sleep_ends_at_once\<close>.)\<close>

theorem sleep_wakes_on_time:
  assumes k: "kinv X rt" and np: "\<not> pendsv rt" and a: "active rt < 8" "active rt \<notin> X"
    and ms: "0 < unat (arg 0)" "unat (arg 0) < 2 ^ 31"
    and r: "r = cm3_pendsv_isr frame (snd (thinkos_sleep_svc arg rt))"
  shows "(count_list evs None < unat (arg 0) \<longrightarrow> \<not> qbit (fold tick_or_switch evs r) 0 (active rt) \<and>
      active (fold tick_or_switch evs r) \<noteq> active rt) \<and>
    (count_list evs None = unat (arg 0) - 1 \<longrightarrow> qbit (cm3_systick_isr (fold tick_or_switch evs r)) 0 (active rt))"
proof -
  let ?s = "snd (thinkos_sleep_svc arg rt)"
  have ks: "kinv X ?s" by (rule kinv_sleep [OF k np a])
  have b: "blocks {4} 9 (active rt) rt ?s" by (rule sleep_blocks [OF k a(1)])
  have q: "qbit r 4 (active rt)" using b by (simp add: r blocks_def)
  then have n: "\<not> qbit r 0 (active rt)" "\<not> qbit r 1 (active rt)"
    using kinv_wait [OF ks, of 4 "active rt"] by (simp_all add: r)
  have "qbit r 0 (active r)"
    using pendsv_picks(1) [OF kinv_idle [OF ks]] by (simp add: r)
  then have "active rt \<noteq> active r" using n(1) by auto
  moreover have "clock r (active rt) = ticks r + arg 0" by (simp add: r thinkos_sleep_svc_def Let_def)
  ultimately have s: "asleep (active rt) (arg 0) r" using q n a(1) by (simp add: asleep_def)
  show ?thesis
  proof (intro conjI impI)
    assume "count_list evs None < unat (arg 0)"
    then show "\<not> qbit (fold tick_or_switch evs r) 0 (active rt)" "active (fold tick_or_switch evs r) \<noteq> active rt"
      using asleep_run [OF s ms(2), of evs] by (auto simp: asleep_def)
  next
    assume c: "count_list evs None = unat (arg 0) - 1"
    let ?m = "arg 0 - of_nat (count_list evs None)"
    have l: "asleep (active rt) ?m (fold tick_or_switch evs r)" by (rule asleep_run [OF s ms(2)]) (use c ms in simp)
    have "of_nat (unat (arg 0) - 1) = arg 0 - 1" using ms(1) by (simp add: of_nat_diff)
    then have "?m = 1" by (simp add: c)
    then show "qbit (cm3_systick_isr (fold tick_or_switch evs r)) 0 (active rt)"
      using systick_other(1) [of "active rt"] asleep_expires [OF l] l by (simp add: asleep_def)
  qed
qed

theorem sleep_wakes_on_time_witness:
  "qbit (cm3_systick_isr (fold tick_or_switch [None, Some undefined, None]
     (cm3_pendsv_isr undefined (snd (thinkos_sleep_svc (\<lambda>_. 3) boot_rt))))) 0 0"
  using sleep_wakes_on_time [of "{}" boot_rt "\<lambda>_. 3" _ undefined "[None, Some undefined, None]", OF kinv_boot _ _ _ _ _ refl]
  by simp

lemma sched_inv_create:
  assumes s: "sched_inv rt" and t: "t < 8" and p: "uint p \<le> 32"
    and l: "l = (if sched_limit rt < ucast p then ucast p else sched_limit rt)"
  shows "sched_inv (rt\<lparr>sched_pri := (sched_pri rt)(t := p), sched_limit := l,
    sched_val := (sched_val rt)(t := ucast (l div 2))\<rparr>)"
proof -
  have up: "uint (ucast p :: u32) = uint p" by (rule uint_up_ucast) (simp add: is_up)
  have lim: "1 \<le> uint (sched_limit rt)" "uint (sched_limit rt) \<le> 32" using s by (simp_all add: sched_inv_def)
  have ul: "uint l = max (uint (sched_limit rt)) (uint p)" by (simp add: l word_less_def up)
  have b: "1 \<le> uint l" "uint l \<le> 32" "uint (sched_limit rt) \<le> uint l" "uint p \<le> uint l"
    using ul lim p by auto
  have "(ucast (l div 2) :: u8) = of_int (uint l div 2)" by (simp add: uint_div_distrib ucast_eq)
  then have v: "sint (ucast (l div 2) :: u8) = uint l div 2"
    using sint8_small [of "uint l div 2"] b by simp
  have "0 \<le> uint l div 2 \<and> uint l div 2 < uint l" using b by auto
  then show ?thesis using s t b v unfolding sched_inv_def by auto
qed

lemma create_success:
  assumes a: "thread_alloc (init_id arg) (th_alloc rt) = (int t, w)" and z: "64 \<le> init_stack_size arg"
    and pr: "p = (if init_priority arg > 32 then 32 else init_priority arg)"
    and l: "l = (if sched_limit rt < ucast p then ucast p else sched_limit rt)"
  shows "thinkos_thread_create_svc lk arg rt =
    (arg(0 := of_nat t),
     (if init_paused arg then wq_wr 3 t True else (\<lambda>r. thinkos_defer_sched (wq_wr 0 t True r)))
       (rt\<lparr>th_alloc := w,
           ctx := (ctx rt)(t := Some \<lparr>c_r4 = 0, c_r5 = 0, c_r6 = 0, c_r7 = 0, c_r8 = 0, c_r9 = 0, c_r10 = 0,
             c_r11 = 0, c_r0 = arg 1, c_r1 = 0, c_r2 = 0, c_r3 = 0, c_r12 = 0,
             c_lr = thread_exit_addr lk, c_pc = arg 0, c_xpsr = 0x01000000\<rparr>),
           th_inf := (th_inf rt)(t := arg 4),
           sched_pri := (sched_pri rt)(t := p), sched_limit := l,
           sched_val := (sched_val rt)(t := ucast (l div 2))\<rparr>))"
  using a z by (simp add: thinkos_thread_create_svc_def pr l Let_def)

lemma sched_inv_create_svc:
  assumes s: "sched_inv rt" and b: "th_bmp_ok rt"
  shows "sched_inv (snd (thinkos_thread_create_svc lk arg rt))"
proof -
  obtain i w where a: "thread_alloc (init_id arg) (th_alloc rt) = (i, w)" by fastforce
  show ?thesis
  proof (cases "i < 0 \<or> init_stack_size arg < 64")
    case True
    then show ?thesis using a s by (auto simp: thinkos_thread_create_svc_def sched_inv_def Let_def)
  next
    case False
    define p where "p = (if init_priority arg > 32 then 32 else init_priority arg)"
    define l where "l = (if sched_limit rt < ucast p then ucast p else sched_limit rt)"
    have p: "uint p \<le> 32" by (simp add: p_def word_less_def)
    have t: "nat i < 8" "int (nat i) = i" using thread_alloc_new [OF b a] False by simp_all
    have "sched_inv (rt\<lparr>sched_pri := (sched_pri rt)(nat i := p), sched_limit := l,
        sched_val := (sched_val rt)(nat i := ucast (l div 2))\<rparr>)"
      by (rule sched_inv_create [OF s t(1) p l_def])
    then show ?thesis
      using create_success [of arg rt "nat i" w p l lk] a False t(2) p_def l_def by (simp add: sched_inv_def)
  qed
qed

text \<open>C23: creating a thread. With a free slot and a stack of at least one context, the service returns the
  number of a thread that was free, marks it allocated, and leaves it with a fresh context that starts
  the given function with the given argument and returns into the exit routine; it is ready, or paused
  when so requested, and waits for nothing. The kernel and share invariants are kept.\<close>

theorem thread_create_fresh:
  assumes k: "kinv X rt" and b: "th_bmp_ok rt" and s: "sched_inv rt"
    and z: "64 \<le> init_stack_size arg" and f: "n < 8" "\<not> bit (th_alloc rt) n"
  shows "\<exists>t<8. \<not> bit (th_alloc rt) t \<and> fst (thinkos_thread_create_svc lk arg rt) 0 = of_nat t \<and>
    (let rt' = snd (thinkos_thread_create_svc lk arg rt)
     in (\<forall>u. bit (th_alloc rt') u = (bit (th_alloc rt) u \<or> u = t)) \<and>
        (\<exists>c. ctx rt' t = Some c \<and> c_pc c = arg 0 \<and> c_r0 c = arg 1 \<and> c_lr c = thread_exit_addr lk) \<and>
        qbit rt' (if init_paused arg then 3 else 0) t \<and> (init_paused arg \<longrightarrow> \<not> qbit rt' 0 t) \<and>
        (\<forall>q. 4 \<le> q \<and> q < 53 \<longrightarrow> \<not> qbit rt' q t) \<and> kinv X rt' \<and> sched_inv rt')"
proof -
  obtain i w where a: "thread_alloc (init_id arg) (th_alloc rt) = (i, w)" by fastforce
  have i: "0 \<le> i" using thread_ids.alloc_none [OF a] f by (cases "i < 0") (auto split: if_splits)
  let ?t = "nat i"
  have t: "?t < 8" "\<not> bit (th_alloc rt) ?t" "w = bit_mem_wr (th_alloc rt) ?t True"
    using thread_alloc_new [OF b a i] by blast+
  have nq: "\<not> qbit rt q ?t" if "q \<le> 1 \<or> 4 \<le> q" "q < 53" for q
    using kinv_alloc [OF k that t(1)] t(2) by blast
  define rt' where "rt' = snd (thinkos_thread_create_svc lk arg rt)"
  have "thread_alloc (init_id arg) (th_alloc rt) = (int ?t, w)" using a i by simp
  note c = create_success [OF this z refl refl, of lk]
  have al: "th_alloc rt' = w" by (simp add: rt'_def c)
  have cx: "\<exists>x. ctx rt' ?t = Some x \<and> c_pc x = arg 0 \<and> c_r0 x = arg 1 \<and> c_lr x = thread_exit_addr lk"
    by (simp add: rt'_def c)
  have q: "qbit rt' q u \<longleftrightarrow> qbit rt q u \<or> (u = ?t \<and> q = (if init_paused arg then 3 else 0))" for q u
    using t(1) by (auto simp: rt'_def c)
  have inv: "kinv X rt'" "sched_inv rt'"
    using kinv_create [OF k b] sched_inv_create_svc [OF s b] by (simp_all add: rt'_def)
  have u: "bit (th_alloc rt') u = (bit (th_alloc rt) u \<or> u = ?t)" for u
    using t(1) by (simp add: al t(3))
  show ?thesis
    unfolding Let_def rt'_def [symmetric]
  proof (intro exI [of _ ?t] conjI)
    show "fst (thinkos_thread_create_svc lk arg rt) 0 = of_nat ?t" by (simp add: c)
    show "\<forall>u. bit (th_alloc rt') u = (bit (th_alloc rt) u \<or> u = ?t)" using u by blast
    show "qbit rt' (if init_paused arg then 3 else 0) ?t" by (simp add: q)
    show "init_paused arg \<longrightarrow> \<not> qbit rt' 0 ?t" using nq [of 0] by (simp add: q)
    show "\<forall>q. 4 \<le> q \<and> q < 53 \<longrightarrow> \<not> qbit rt' q ?t" using nq by (auto simp: q)
  qed (rule t cx inv)+
qed

lemma boot_th_bmp_ok: "th_bmp_ok boot_rt"
proof -
  have "bit (bit_mem_wr (push_bit 8 0xffffffff :: u32) 0 True) n" if "8 \<le> n" "n < 32" for n
    by (simp only: bit_mem_wr_bit bit_bmp_init that) simp
  then show ?thesis unfolding th_bmp_ok_def boot_fields by blast
qed

lemma boot_free_thread: "\<not> bit (th_alloc boot_rt) 1"
  unfolding boot_fields by (simp only: bit_mem_wr_bit bit_bmp_init) simp

theorem thread_create_fresh_witness:
  "\<exists>t<8. \<not> bit (th_alloc boot_rt) t \<and>
     fst (thinkos_thread_create_svc \<lparr>idle_task_addr = 0, thread_exit_addr = 8, ticks_addr = 0, main_inf_addr = 0\<rparr>
       ((\<lambda>_. 0)(3 := 0x200)) boot_rt) 0 = of_nat t"
proof -
  have z: "64 \<le> init_stack_size ((\<lambda>_. 0)(3 := 0x200))" by (simp add: init_stack_size_def take_bit_eq_mod)
  have "1 < (8 :: nat)" by simp
  from thread_create_fresh [OF kinv_boot boot_th_bmp_ok sched_inv_boot z this boot_free_thread]
  show ?thesis by blast
qed

text \<open>\<open>break\<close> on an object that exists interrupts every thread that waits for it: the queue is empty
  afterwards, each waiter is ready and its call returns \<open>EINTR\<close>, no other thread changes queues, and
  the kernel invariant is kept.\<close>

theorem break_interrupts_all:
  assumes k: "kinv X rt" and w: "wq = unat (arg 0)" "5 \<le> wq" "wq < 53"
    and v: "fst (thinkos_break_svc arg rt) 0 = 0"
  shows "let rt' = snd (thinkos_break_svc arg rt)
         in wq_lst rt' wq = 0 \<and>
            (\<forall>t. qbit rt wq t \<longrightarrow> qbit rt' 0 t \<and>
               ctx rt' t = map_option (\<lambda>c. c\<lparr>c_r0 := THINKOS_EINTR\<rparr>) (ctx rt t)) \<and>
            (\<forall>q t. \<not> qbit rt wq t \<longrightarrow> qbit rt' q t = qbit rt q t) \<and> kinv X rt'"
proof -
  define r where "r = wakeup_return_all wq THINKOS_EINTR rt"
  have i: "5 + (wq - 5) mod 48 = wq" using w by simp
  have "snd (thinkos_break_svc arg rt) = (if wq_lst rt wq = 0 then r else thinkos_defer_sched r)"
    using v break_unfold [OF w(2,3), of rt] w
    by (auto simp: thinkos_break_svc_def r_def Let_def split: if_splits option.splits)
  moreover have "kinv X r" using break_wake.loop_kinv [OF k, of "wq - 5"] i by (simp add: r_def)
  moreover have "wq_lst r wq = 0" using break_wake.loop_empties [of "wq - 5" rt] i by (simp add: r_def)
  moreover have "qbit r q t \<longleftrightarrow>
      (if qbit rt wq t then q = 0 \<or> (qbit rt q t \<and> q \<noteq> wq \<and> q \<noteq> 4) else qbit rt q t)" for q t
    using break_wake.loop_qbit [of "wq - 5" rt q t] i by (simp add: r_def)
  moreover have "ctx r t = (if qbit rt wq t then map_option (\<lambda>c. c\<lparr>c_r0 := THINKOS_EINTR\<rparr>) (ctx rt t) else ctx rt t)" for t
    using break_wake.loop_ctx [of "wq - 5" rt t] i by (simp add: r_def)
  ultimately show ?thesis by (simp add: Let_def)
qed

theorem break_interrupts_all_witness:
  "wq_lst (snd (thinkos_break_svc (\<lambda>_. 5) boot_rt)) 5 = 0"
proof -
  have "fst (thinkos_break_svc (\<lambda>_. 5) boot_rt) 0 = 0"
  proof -
    have "thinkos_obj_type_lut ! 5 = 5" by code_simp
    moreover have "thinkos_obj_alloc_lut 5 boot_rt = None" by (simp add: thinkos_obj_alloc_lut_def)
    ultimately show ?thesis by (simp add: thinkos_break_svc_def Let_def)
  qed
  then show ?thesis
    using break_interrupts_all [of "{}" boot_rt 5 "\<lambda>_. 5", OF kinv_boot] by (simp add: Let_def)
qed

lemma sint_big_minus_one:
  assumes "2 ^ 31 < unat (w :: u32)"
  shows "sint (w - 1) \<le> 0"
proof -
  have "w \<noteq> 0" using assms by auto
  then have u: "unat (w - 1) = unat w - 1" by (rule unat_minus_one)
  have "int (unat (w - 1)) < 2 ^ Suc 31" using unsigned_less [of "w - 1", where ?'a = int] by simp
  moreover have "2 ^ 31 \<le> unat (w - 1)" using assms u by simp
  then have "int (2 ^ 31) \<le> int (unat (w - 1))" by (simp only: of_nat_le_iff)
  then have "2 ^ 31 \<le> int (unat (w - 1))" by (simp only: of_nat_power of_nat_numeral)
  then have "signed_take_bit 31 (int (unat (w - 1))) \<le> int (unat (w - 1)) - 2 ^ Suc 31"
    by (rule signed_take_bit_int_less_eq)
  moreover have "sint (w - 1) = signed_take_bit 31 (int (unat (w - 1)))" by (simp add: sint_uint)
  ultimately show ?thesis by linarith
qed

section \<open>Where the code departs from its intent\<close>

text \<open>resuming a paused thread puts it into the clock queue whatever it was waiting for, so a thread
  that was paused while it waited without a time limit becomes ready at the next tick if its stale
  clock value has passed, although nothing it waited for has happened.\<close>

theorem resume_wakes_at_next_tick:
  assumes "unat (arg 0) = t" "t < 8" "bit (th_alloc rt) t" "qbit rt 3 t" "t \<noteq> active rt"
    and "sint (clock rt t - (ticks rt + 1)) \<le> 0"
  shows "qbit (cm3_systick_isr (snd (thinkos_resume_svc arg rt))) 0 t"
proof -
  let ?r = "snd (thinkos_resume_svc arg rt)"
  have "qbit ?r 4 t" "active ?r = active rt" "clock ?r = clock rt" "ticks ?r = ticks rt"
    using assms by (simp_all add: thinkos_resume_svc_def Let_def)
  then show ?thesis
    using assms by (intro systick_other(1)) (simp_all add: expires_def)
qed

theorem resume_wakes_at_next_tick_witness:
  "qbit (cm3_systick_isr (snd (thinkos_resume_svc (\<lambda>_. 1)
     (wq_wr 3 1 True (boot_rt\<lparr>th_alloc := 3, th_stat := (\<lambda>_. 0)(1 := 10)\<rparr>))))) 0 1"
  by (rule resume_wakes_at_next_tick) (simp_all add: numeral_3_eq_3)

text \<open>a create call with a stack smaller than one context fails with \<open>EINVAL\<close> and yet keeps the thread
  number it allocated, for good: the thread is in no queue.\<close>

theorem create_small_stack_leaks:
  assumes k: "kinv X rt" and b: "th_bmp_ok rt" and z: "init_stack_size arg < 64"
    and f: "n < 8" "\<not> bit (th_alloc rt) n"
  shows "\<exists>t<8. \<not> bit (th_alloc rt) t \<and> fst (thinkos_thread_create_svc lk arg rt) 0 = THINKOS_EINVAL \<and>
    bit (th_alloc (snd (thinkos_thread_create_svc lk arg rt))) t \<and>
    (\<forall>q<53. q \<noteq> 3 \<longrightarrow> \<not> qbit (snd (thinkos_thread_create_svc lk arg rt)) q t)"
proof -
  obtain i w where a: "thread_alloc (init_id arg) (th_alloc rt) = (i, w)" by fastforce
  have i: "0 \<le> i" using thread_ids.alloc_none [OF a] f by (cases "i < 0") (auto split: if_splits)
  note t = thread_alloc_new [OF b a i]
  have e: "thinkos_thread_create_svc lk arg rt = (arg(0 := THINKOS_EINVAL), rt\<lparr>th_alloc := w\<rparr>)"
    using a i z by (simp add: thinkos_thread_create_svc_def Let_def)
  have "\<not> qbit rt q (nat i)" if "q < 53" "q \<noteq> 3" for q
    using kinv_alloc [OF k _ that(1) t(1)] t(2) kinv_canceled [OF k, of "nat i"] kinv_exit [OF k, of "nat i"]
      exit_queue_cases [OF that(2)] by auto
  then show ?thesis using t e by (intro exI [of _ "nat i"]) simp
qed

theorem create_small_stack_leaks_witness:
  "\<exists>t<8. \<not> bit (th_alloc boot_rt) t \<and>
     bit (th_alloc (snd (thinkos_thread_create_svc
       \<lparr>idle_task_addr = 0, thread_exit_addr = 8, ticks_addr = 0, main_inf_addr = 0\<rparr> (\<lambda>_. 0) boot_rt))) t"
proof -
  have z: "init_stack_size (\<lambda>_. 0) < 64" by (simp add: init_stack_size_def)
  have "1 < (8 :: nat)" by simp
  from create_small_stack_leaks [OF kinv_boot boot_th_bmp_ok z this boot_free_thread]
  show ?thesis by blast
qed

text \<open>the comparison of clocks is signed, so a sleep of more than \<open>2 ^ 31\<close> milliseconds ends at the first
  tick.\<close>

theorem long_sleep_ends_at_once:
  assumes k: "kinv X rt" and np: "\<not> pendsv rt" and a: "active rt < 8" "active rt \<notin> X"
    and ms: "2 ^ 31 < unat (arg 0)"
    and r: "r = cm3_pendsv_isr frame (snd (thinkos_sleep_svc arg rt))"
  shows "qbit (cm3_systick_isr r) 0 (active rt)"
proof -
  let ?s = "snd (thinkos_sleep_svc arg rt)"
  have ks: "kinv X ?s" by (rule kinv_sleep [OF k np a])
  have b: "blocks {4} 9 (active rt) rt ?s" by (rule sleep_blocks [OF k a(1)])
  have q: "qbit r 4 (active rt)" using b by (simp add: r blocks_def)
  then have "\<not> qbit r 0 (active rt)" using kinv_wait [OF ks, of 4 "active rt"] by (simp add: r)
  moreover have "qbit r 0 (active r)" using pendsv_picks(1) [OF kinv_idle [OF ks]] by (simp add: r)
  ultimately have na: "active rt \<noteq> active r" by auto
  have c: "clock r (active rt) - (ticks r + 1) = arg 0 - 1" by (simp add: r thinkos_sleep_svc_def Let_def)
  have "sint (arg 0 - 1) \<le> 0" by (rule sint_big_minus_one [OF ms])
  then have "expires (wq_lst r 4) (ticks r + 1) r (active rt)"
    unfolding expires_def c using q by blast
  then show ?thesis by (rule systick_other(1) [OF na])
qed

theorem long_sleep_ends_at_once_witness:
  "qbit (cm3_systick_isr (cm3_pendsv_isr undefined (snd (thinkos_sleep_svc (\<lambda>_. 0x80000001) boot_rt)))) 0 0"
  using long_sleep_ends_at_once [of "{}" boot_rt "\<lambda>_. 0x80000001", OF kinv_boot _ _ _ _ refl] by simp

end
