(* ===== verification/ThinkOS_Mutex.thy ===== *)
theory ThinkOS_Mutex
  imports ThinkOS_Init
begin

text \<open>
  The mutex services of ThinkOS (\<^verbatim>\<open>src/src/sdk/libthinkos/thinkos_mutex.c\<close>): one definition per
  service, an abstract mutex (owner and set of waiters) that they implement, and the invariant
  that a free mutex has no waiters and an owner never waits for its own mutex.
\<close>

section \<open>Services\<close>

definition thinkos_mutex_alloc_svc :: "svc_arg \<Rightarrow> thinkos_rt \<Rightarrow> svc_arg \<times> thinkos_rt" where
  "thinkos_mutex_alloc_svc arg rt =
    (case thinkos_bmp_alloc [mutex_alloc rt] THINKOS_MUTEX_MAX of (idx, bmp) \<Rightarrow>
      (let rt1 = rt\<lparr>mutex_alloc := bmp ! 0\<rparr>
       in if idx \<ge> 0
          then (arg(0 := of_int idx + of_nat THINKOS_MUTEX_BASE),
                rt1\<lparr>lock := (lock rt1)(nat idx := - 1)\<rparr>)
          else (arg(0 := of_int idx), rt1)))"

definition thinkos_mutex_free_svc :: "svc_arg \<Rightarrow> thinkos_rt \<Rightarrow> svc_arg \<times> thinkos_rt" where
  "thinkos_mutex_free_svc arg rt =
    (let idx = obj_idx THINKOS_MUTEX_BASE (arg 0)
     in if idx \<ge> THINKOS_MUTEX_MAX then (arg(0 := THINKOS_EINVAL), rt)
        else (arg, rt\<lparr>mutex_alloc := bit_mem_wr (mutex_alloc rt) idx False\<rparr>))"

definition thinkos_mutex_lock_svc :: "svc_arg \<Rightarrow> thinkos_rt \<Rightarrow> svc_arg \<times> thinkos_rt" where
  "thinkos_mutex_lock_svc arg rt =
    (let wq = unat (arg 0);
         mutex = obj_idx THINKOS_MUTEX_BASE (arg 0);
         self = active rt
     in if mutex \<ge> THINKOS_MUTEX_MAX then (arg(0 := THINKOS_EINVAL), rt)
        else if \<not> bit_mem_rd (mutex_alloc rt) mutex then (arg(0 := THINKOS_EINVAL), rt)
        else if lock rt mutex = - 1
        then (arg(0 := 0), rt\<lparr>lock := (lock rt)(mutex := int self)\<rparr>)
        else if lock rt mutex = int self then (arg(0 := THINKOS_EDEADLK), rt)
        else (arg(0 := 0), thinkos_wait self (thinkos_wq_insert wq self rt)))"

definition thinkos_mutex_trylock_svc :: "svc_arg \<Rightarrow> thinkos_rt \<Rightarrow> svc_arg \<times> thinkos_rt" where
  "thinkos_mutex_trylock_svc arg rt =
    (let mutex = obj_idx THINKOS_MUTEX_BASE (arg 0);
         self = active rt
     in if mutex \<ge> THINKOS_MUTEX_MAX then (arg(0 := THINKOS_EINVAL), rt)
        else if \<not> bit_mem_rd (mutex_alloc rt) mutex then (arg(0 := THINKOS_EINVAL), rt)
        else if lock rt mutex = - 1
        then (arg(0 := 0), rt\<lparr>lock := (lock rt)(mutex := int self)\<rparr>)
        else if lock rt mutex = int self then (arg(0 := THINKOS_EDEADLK), rt)
        else (arg(0 := THINKOS_EAGAIN), rt))"

definition thinkos_mutex_timedlock_svc :: "svc_arg \<Rightarrow> thinkos_rt \<Rightarrow> svc_arg \<times> thinkos_rt" where
  "thinkos_mutex_timedlock_svc arg rt =
    (let wq = unat (arg 0);
         ms = arg 1;
         mutex = obj_idx THINKOS_MUTEX_BASE (arg 0);
         self = active rt
     in if mutex \<ge> THINKOS_MUTEX_MAX then (arg(0 := THINKOS_EINVAL), rt)
        else if \<not> bit_mem_rd (mutex_alloc rt) mutex then (arg(0 := THINKOS_EINVAL), rt)
        else if lock rt mutex = - 1
        then (arg(0 := 0), rt\<lparr>lock := (lock rt)(mutex := int self)\<rparr>)
        else if lock rt mutex = int self then (arg(0 := THINKOS_EDEADLK), rt)
        else (arg(0 := THINKOS_ETIMEDOUT), thinkos_wait self (thinkos_tmdwq_insert wq self ms rt)))"

definition thinkos_mutex_unlock_svc :: "svc_arg \<Rightarrow> thinkos_rt \<Rightarrow> svc_arg \<times> thinkos_rt" where
  "thinkos_mutex_unlock_svc arg rt =
    (let wq = unat (arg 0);
         mutex = obj_idx THINKOS_MUTEX_BASE (arg 0);
         self = active rt
     in if mutex \<ge> THINKOS_MUTEX_MAX then (arg(0 := THINKOS_EINVAL), rt)
        else if \<not> bit_mem_rd (mutex_alloc rt) mutex then (arg(0 := THINKOS_EINVAL), rt)
        else if lock rt mutex \<noteq> int self then (arg(0 := THINKOS_EPERM), rt)
        else (let th = thinkos_wq_head wq rt
              in if th = THINKOS_THREAD_NULL
                 then (arg(0 := 0), rt\<lparr>lock := (lock rt)(mutex := - 1)\<rparr>)
                 else (arg(0 := 0),
                       thinkos_defer_sched
                         (thinkos_wakeup wq th (rt\<lparr>lock := (lock rt)(mutex := int th)\<rparr>)))))"

section \<open>The abstract mutex\<close>

text \<open>An owner and a set of waiting threads. The second component of a result is the value the
  service returns to its caller, the third whether the caller is blocked or which thread is
  woken.\<close>

type_synonym amutex = "nat option \<times> nat set"

fun spec_lock :: "nat \<Rightarrow> amutex \<Rightarrow> amutex \<times> u32 \<times> bool" where
  "spec_lock t (None, W) = ((Some t, W), 0, False)"
| "spec_lock t (Some u, W) =
     (if u = t then ((Some u, W), THINKOS_EDEADLK, False) else ((Some u, insert t W), 0, True))"

fun spec_unlock :: "nat \<Rightarrow> amutex \<Rightarrow> amutex \<times> u32 \<times> nat option" where
  "spec_unlock t (u, W) =
     (if u \<noteq> Some t then ((u, W), THINKOS_EPERM, None)
      else if W = {} then ((None, {}), 0, None)
      else ((Some (Min W), W - {Min W}), 0, Some (Min W)))"

definition mutex_abs :: "nat \<Rightarrow> thinkos_rt \<Rightarrow> amutex" where
  "mutex_abs m rt =
     (if lock rt m = - 1 then None else Some (nat (lock rt m)), {t. qbit rt (THINKOS_MUTEX_BASE + m) t})"

definition mutex_ok :: "thinkos_rt \<Rightarrow> bool" where
  "mutex_ok rt \<longleftrightarrow>
     (\<forall>m<8. lock rt m = - 1 \<or> (0 \<le> lock rt m \<and> lock rt m < 8)) \<and>
     (\<forall>m<8. \<forall>t. qbit rt (THINKOS_MUTEX_BASE + m) t \<longrightarrow> lock rt m \<noteq> - 1 \<and> lock rt m \<noteq> int t)"

definition mutex_valid :: "svc_arg \<Rightarrow> thinkos_rt \<Rightarrow> bool" where
  "mutex_valid arg rt \<longleftrightarrow>
     obj_idx THINKOS_MUTEX_BASE (arg 0) < 8 \<and> bit (mutex_alloc rt) (obj_idx THINKOS_MUTEX_BASE (arg 0))"

lemmas mutex_defs [kdefs] =
  thinkos_mutex_alloc_svc_def thinkos_mutex_free_svc_def thinkos_mutex_lock_svc_def
  thinkos_mutex_trylock_svc_def thinkos_mutex_timedlock_svc_def thinkos_mutex_unlock_svc_def

section \<open>Preservation of the kernel invariant\<close>

lemma kinv_mutex_alloc [intro]: "kinv X rt \<Longrightarrow> kinv X (snd (thinkos_mutex_alloc_svc arg rt))"
  by (simp add: thinkos_mutex_alloc_svc_def Let_def split: prod.split)

lemma kinv_mutex_free [intro]: "kinv X rt \<Longrightarrow> kinv X (snd (thinkos_mutex_free_svc arg rt))"
  by (simp add: thinkos_mutex_free_svc_def Let_def)

lemma kinv_mutex_trylock [intro]: "kinv X rt \<Longrightarrow> kinv X (snd (thinkos_mutex_trylock_svc arg rt))"
  by (simp add: thinkos_mutex_trylock_svc_def Let_def)

lemma kinv_mutex_lock [intro]:
  assumes "kinv X rt" "\<not> pendsv rt" "active rt < 8" "active rt \<notin> X"
  shows "kinv X (snd (thinkos_mutex_lock_svc arg rt))"
    and "kinv X (snd (thinkos_mutex_timedlock_svc arg rt))"
  using assms kinv_obj_block [OF assms] mutex_class.obj_wq_range [of "arg 0"]
  by (simp_all add: thinkos_mutex_lock_svc_def thinkos_mutex_timedlock_svc_def Let_def)

lemma kinv_mutex_unlock [intro]:
  assumes "kinv X rt"
  shows "kinv X (snd (thinkos_mutex_unlock_svc arg rt))"
proof -
  have "kinv X (thinkos_wakeup (unat (arg 0)) (thinkos_wq_head (unat (arg 0)) rt) (rt\<lparr>lock := l\<rparr>))"
    if "wq_lst rt (unat (arg 0)) \<noteq> 0" "obj_idx THINKOS_MUTEX_BASE (arg 0) < 8" for l
    using that assms wq_head_member [of "unat (arg 0)" rt] mutex_class.obj_wq_range [of "arg 0"]
    by (intro kinv_wakeup) simp_all
  then show ?thesis
    using assms by (simp add: thinkos_mutex_unlock_svc_def Let_def)
qed

section \<open>The mutex invariant\<close>

lemma mutex_okI_frame:
  "mutex_ok rt \<Longrightarrow> shrinks Q rt rt' \<Longrightarrow> Q \<inter> {5..<13} = {} \<Longrightarrow> lock rt' = lock rt \<Longrightarrow> mutex_ok rt'"
  unfolding mutex_ok_def by (auto dest!: shrinksD)

lemma mutex_shrinks:
  "shrinks {5..<13} rt (snd (thinkos_mutex_alloc_svc arg rt))"
  "shrinks {5..<13} rt (snd (thinkos_mutex_free_svc arg rt))"
  "shrinks {5..<13} rt (snd (thinkos_mutex_lock_svc arg rt))"
  "shrinks {5..<13} rt (snd (thinkos_mutex_trylock_svc arg rt))"
  "shrinks {5..<13} rt (snd (thinkos_mutex_timedlock_svc arg rt))"
  "shrinks {5..<13} rt (snd (thinkos_mutex_unlock_svc arg rt))"
  using mutex_class.obj_wq [of "arg 0"]
  by (auto simp: mutex_defs Let_def wq_head_lt32 split: prod.split)

lemma mutex_ok_free: "mutex_ok rt \<Longrightarrow> mutex_ok (snd (thinkos_mutex_free_svc arg rt))"
  by (simp add: mutex_ok_def thinkos_mutex_free_svc_def Let_def)

lemma mutex_ok_acquire:
  assumes "mutex_ok rt" "m < 8" "lock rt m = - 1" "t < 8"
  shows "mutex_ok (rt\<lparr>lock := (lock rt)(m := int t)\<rparr>)"
  using assms unfolding mutex_ok_def by auto

lemma mutex_ok_block:
  assumes "mutex_ok rt" "m < 8" "lock rt m \<noteq> - 1" "lock rt m \<noteq> int t"
  shows "mutex_ok (thinkos_wait t (thinkos_wq_insert (5 + m) t rt))"
    and "mutex_ok (thinkos_wait t (thinkos_tmdwq_insert (5 + m) t ms rt))"
  using assms unfolding mutex_ok_def by auto

lemma mutex_ok_lock:
  assumes "mutex_ok rt" "active rt < 8"
  shows "mutex_ok (snd (thinkos_mutex_lock_svc arg rt))"
    and "mutex_ok (snd (thinkos_mutex_trylock_svc arg rt))"
    and "mutex_ok (snd (thinkos_mutex_timedlock_svc arg rt))"
  using assms mutex_class.obj_wq [of "arg 0"]
  by (simp_all add: mutex_defs Let_def mutex_ok_acquire mutex_ok_block)

text \<open>Handing a mutex to the head of its queue, or freeing it, keeps the invariant whoever
  releases it; \<open>cond_wait\<close> releases a mutex in the same way.\<close>

definition mutex_release :: "nat \<Rightarrow> nat \<Rightarrow> thinkos_rt \<Rightarrow> thinkos_rt" where
  "mutex_release m wq rt =
    (let th = thinkos_wq_head wq rt
     in if th = THINKOS_THREAD_NULL then rt\<lparr>lock := (lock rt)(m := - 1)\<rparr>
        else thinkos_wakeup wq th (rt\<lparr>lock := (lock rt)(m := int th)\<rparr>))"

lemma mutex_ok_release:
  assumes ok: "mutex_ok rt" and k: "\<And>q t. 5 \<le> q \<Longrightarrow> q < 13 \<Longrightarrow> qbit rt q t \<Longrightarrow> t < 8" and m: "m < 8"
  shows "mutex_ok (mutex_release m (5 + m) rt)"
proof (cases "wq_lst rt (5 + m) = 0")
  case True
  then have "\<And>t. \<not> qbit rt (5 + m) t" by simp
  with True ok show ?thesis
    by (auto simp: mutex_release_def Let_def mutex_ok_def)
next
  case False
  let ?th = "thinkos_wq_head (5 + m) rt"
  have th: "qbit rt (5 + m) ?th" using False by (intro wq_head_member) simp
  then have "?th < 8" using k [of "5 + m" ?th] m by simp
  with False ok m th show ?thesis
    by (auto simp: mutex_release_def Let_def mutex_ok_def)
qed

lemma mutex_unlock_release:
  "mutex_valid arg rt \<Longrightarrow> lock rt (obj_idx 5 (arg 0)) = int (active rt) \<Longrightarrow>
   snd (thinkos_mutex_unlock_svc arg rt) =
     (if wq_lst rt (unat (arg 0)) = 0 then mutex_release (obj_idx 5 (arg 0)) (unat (arg 0)) rt
      else thinkos_defer_sched (mutex_release (obj_idx 5 (arg 0)) (unat (arg 0)) rt))"
  by (simp add: thinkos_mutex_unlock_svc_def mutex_release_def mutex_valid_def Let_def)

lemma mutex_ok_defer [simp]: "mutex_ok (thinkos_defer_sched rt) = mutex_ok rt"
  by (simp add: mutex_ok_def)

lemma mutex_ok_unlock:
  assumes "mutex_ok rt" "kinv X rt"
  shows "mutex_ok (snd (thinkos_mutex_unlock_svc arg rt))"
proof (cases "mutex_valid arg rt \<and> lock rt (obj_idx 5 (arg 0)) = int (active rt)")
  case True
  then have i: "obj_idx 5 (arg 0) < 8" by (simp add: mutex_valid_def)
  have "mutex_ok (mutex_release (obj_idx 5 (arg 0)) (5 + obj_idx 5 (arg 0)) rt)"
    by (rule mutex_ok_release [OF assms(1) _ i]) (rule kinv_lt8 [OF assms(2)]; simp)
  then show ?thesis
    using True mutex_unlock_release [of arg rt] mutex_class.obj_wq [OF i] by simp
next
  case False
  then have "snd (thinkos_mutex_unlock_svc arg rt) = rt"
    by (auto simp: thinkos_mutex_unlock_svc_def mutex_valid_def Let_def)
  then show ?thesis using assms by simp
qed

section \<open>Properties\<close>

text \<open>The bitmap of a mutex allocation: a new mutex starts free and gets a queue number of the
  mutex range.\<close>

lemma mutex_alloc_result:
  assumes "\<And>n. 8 \<le> n \<Longrightarrow> n < 32 \<Longrightarrow> bit (mutex_alloc rt) n" and "\<not> bit (mutex_alloc rt) n" and "n < 8"
  shows "\<exists>m<8. \<not> bit (mutex_alloc rt) m \<and>
           thinkos_mutex_alloc_svc arg rt =
             (arg(0 := of_nat (5 + m)),
              rt\<lparr>mutex_alloc := bit_mem_wr (mutex_alloc rt) m True, lock := (lock rt)(m := - 1)\<rparr>)"
proof -
  obtain i w where a: "obj_bmp_alloc (mutex_alloc rt) = (i, w)" by fastforce
  have i: "0 \<le> i" using bmp8.alloc_none [OF a] assms(2,3) by (cases "i < 0") auto
  moreover have "i < int 8" by (rule bmp8.alloc_bounded [OF a i]) (use assms in blast)
  ultimately show ?thesis
    using bmp8.alloc_some [OF a i] a
    by (intro exI [of _ "nat i"])
      (auto simp: thinkos_mutex_alloc_svc_def obj_bmp_alloc_def split: prod.splits)
qed

lemma mutex_valid_queue:
  "mutex_valid arg rt \<Longrightarrow> obj_idx 5 (arg 0) < 8 \<and> unat (arg 0) = 5 + obj_idx 5 (arg 0) \<and>
    bit (mutex_alloc rt) (obj_idx 5 (arg 0))"
  using mutex_class.obj_wq [of "arg 0"] by (simp add: mutex_valid_def)

text \<open>C4: \<open>mutex_lock\<close> implements the abstract lock: a free mutex gets the caller as owner, an owner that
  locks again gets \<open>EDEADLK\<close>, and every other caller joins the waiters, leaves the ready queue and
  requests a context switch. Other mutexes stay as they are, and the kernel and mutex invariants hold
  afterwards.\<close>

theorem mutex_lock_refines:
  assumes k: "kinv X rt" and np: "\<not> pendsv rt" and a: "active rt < 8" "active rt \<notin> X"
    and ok: "mutex_ok rt" and v: "mutex_valid arg rt" and m: "m = obj_idx THINKOS_MUTEX_BASE (arg 0)"
  shows "mutex_abs m (snd (thinkos_mutex_lock_svc arg rt)) = fst (spec_lock (active rt) (mutex_abs m rt)) \<and>
    fst (thinkos_mutex_lock_svc arg rt) 0 = fst (snd (spec_lock (active rt) (mutex_abs m rt))) \<and>
    (\<forall>j<8. j \<noteq> m \<longrightarrow> mutex_abs j (snd (thinkos_mutex_lock_svc arg rt)) = mutex_abs j rt) \<and>
    (if snd (snd (spec_lock (active rt) (mutex_abs m rt)))
     then \<not> qbit (snd (thinkos_mutex_lock_svc arg rt)) 0 (active rt) \<and> pendsv (snd (thinkos_mutex_lock_svc arg rt))
     else wq_lst (snd (thinkos_mutex_lock_svc arg rt)) = wq_lst rt) \<and>
    kinv X (snd (thinkos_mutex_lock_svc arg rt)) \<and> mutex_ok (snd (thinkos_mutex_lock_svc arg rt))"
proof -
  have q: "m < 8" "unat (arg 0) = 5 + m" "bit (mutex_alloc rt) m" using mutex_valid_queue [OF v] m by simp_all
  have l: "lock rt m = - 1 \<or> (0 \<le> lock rt m \<and> lock rt m < 8)" using ok q(1) by (simp add: mutex_ok_def)
  have kk: "kinv X (snd (thinkos_mutex_lock_svc arg rt))" by (rule kinv_mutex_lock [OF k np a])
  have oo: "mutex_ok (snd (thinkos_mutex_lock_svc arg rt))" by (rule mutex_ok_lock [OF ok a(1)])
  have "\<not> qbit rt 1 (active rt)" using kinv_running [OF k np] a by (auto simp: running_ok_def)
  then have nr: "\<not> qbit (thinkos_wait (active rt) (thinkos_wq_insert (5 + m) (active rt) rt)) 0 (active rt)"
    by (intro wait_not_ready) simp
  consider "lock rt m = - 1" | "lock rt m = int (active rt)" |
    "lock rt m \<noteq> - 1" "lock rt m \<noteq> int (active rt)" by blast
  then show ?thesis
  proof cases
    case 1
    then show ?thesis using q m kk oo by (simp add: thinkos_mutex_lock_svc_def mutex_abs_def Let_def)
  next
    case 2
    then show ?thesis using q m kk oo by (simp add: thinkos_mutex_lock_svc_def mutex_abs_def Let_def)
  next
    case 3
    then have "nat (lock rt m) \<noteq> active rt" using l by auto
    with 3 nr show ?thesis
      using q m kk oo a by (auto simp: thinkos_mutex_lock_svc_def mutex_abs_def Let_def)
  qed
qed

text \<open>C5: \<open>mutex_unlock\<close> implements the abstract unlock: a caller that is not the owner gets \<open>EPERM\<close>; with
  no waiters the mutex becomes free; otherwise ownership passes to the waiter with the lowest number,
  which becomes ready with result 0. No waiter is lost and none is woken without owning the mutex.\<close>

theorem mutex_unlock_refines:
  assumes k: "kinv X rt" and ok: "mutex_ok rt" and v: "mutex_valid arg rt"
    and m: "m = obj_idx THINKOS_MUTEX_BASE (arg 0)"
  shows "mutex_abs m (snd (thinkos_mutex_unlock_svc arg rt)) = fst (spec_unlock (active rt) (mutex_abs m rt)) \<and>
    fst (thinkos_mutex_unlock_svc arg rt) 0 = fst (snd (spec_unlock (active rt) (mutex_abs m rt))) \<and>
    (\<forall>j<8. j \<noteq> m \<longrightarrow> mutex_abs j (snd (thinkos_mutex_unlock_svc arg rt)) = mutex_abs j rt) \<and>
    (case snd (snd (spec_unlock (active rt) (mutex_abs m rt))) of
       None \<Rightarrow> wq_lst (snd (thinkos_mutex_unlock_svc arg rt)) = wq_lst rt
     | Some t \<Rightarrow> qbit rt (5 + m) t \<and> qbit (snd (thinkos_mutex_unlock_svc arg rt)) 0 t \<and>
         ctx (snd (thinkos_mutex_unlock_svc arg rt)) t = map_option (\<lambda>c. c\<lparr>c_r0 := 0\<rparr>) (ctx rt t) \<and>
         pendsv (snd (thinkos_mutex_unlock_svc arg rt))) \<and>
    kinv X (snd (thinkos_mutex_unlock_svc arg rt)) \<and> mutex_ok (snd (thinkos_mutex_unlock_svc arg rt))"
proof -
  have q: "m < 8" "unat (arg 0) = 5 + m" "bit (mutex_alloc rt) m" using mutex_valid_queue [OF v] m by simp_all
  have l: "lock rt m = - 1 \<or> (0 \<le> lock rt m \<and> lock rt m < 8)" using ok q(1) by (simp add: mutex_ok_def)
  then have own: "lock rt m \<noteq> int (active rt) \<Longrightarrow> lock rt m \<noteq> - 1 \<Longrightarrow> nat (lock rt m) \<noteq> active rt" by auto
  have kk: "kinv X (snd (thinkos_mutex_unlock_svc arg rt))" by (rule kinv_mutex_unlock [OF k])
  have oo: "mutex_ok (snd (thinkos_mutex_unlock_svc arg rt))" by (rule mutex_ok_unlock [OF ok k])
  show ?thesis
  proof (cases "lock rt m = int (active rt)")
    case False
    then show ?thesis using q m kk oo own by (simp add: thinkos_mutex_unlock_svc_def mutex_abs_def Let_def)
  next
    case owner: True
    show ?thesis
    proof (cases "wq_lst rt (5 + m) = 0")
      case True
      then show ?thesis
        using q m kk oo owner by (simp add: thinkos_mutex_unlock_svc_def mutex_abs_def Let_def)
    next
      case False
      let ?t = "thinkos_wq_head (5 + m) rt"
      have ne: "{t. qbit rt (5 + m) t} \<noteq> {}" using False by (auto simp: word32_eq_0_iff)
      then have mn: "Min {t. qbit rt (5 + m) t} = ?t"
        using wq.headq_some [of "wq_lst rt (5 + m)"] by (simp add: thinkos_wq_head_def)
      have t: "?t < 32" "qbit rt (5 + m) ?t"
        using wq_head_lt32 [OF False] wq_head_member [of "5 + m" rt] False by simp_all
      have c: "ctx (thinkos_wakeup (5 + m) ?t r) ?t = map_option (\<lambda>c. c\<lparr>c_r0 := 0\<rparr>) (ctx r ?t)" for r
        by (simp add: thinkos_wakeup_def ctx_set_r0_def Let_def)
      show ?thesis
        using False q m kk oo owner ne mn t c
        by (auto simp: thinkos_mutex_unlock_svc_def mutex_abs_def Let_def)
    qed
  qed
qed

lemma mutex_ok_boot: "mutex_ok (boot_rt\<lparr>mutex_alloc := w\<rparr>)"
  by (simp add: mutex_ok_def)

theorem mutex_lock_refines_witness:
  "mutex_abs 0 (snd (thinkos_mutex_lock_svc (\<lambda>_. 5) (boot_rt\<lparr>mutex_alloc := 1\<rparr>))) = (Some 0, {})"
proof -
  have "mutex_abs 0 (snd (thinkos_mutex_lock_svc (\<lambda>_. 5) (boot_rt\<lparr>mutex_alloc := 1\<rparr>))) =
      fst (spec_lock (active (boot_rt\<lparr>mutex_alloc := 1\<rparr>)) (mutex_abs 0 (boot_rt\<lparr>mutex_alloc := 1\<rparr>)))"
    by (rule mutex_lock_refines [THEN conjunct1, of "{}"])
      (simp_all add: kinv_boot mutex_ok_boot mutex_valid_def obj_idx_def)
  then show ?thesis by (simp add: mutex_abs_def)
qed

theorem mutex_unlock_refines_witness:
  "fst (thinkos_mutex_unlock_svc (\<lambda>_. 5) (boot_rt\<lparr>mutex_alloc := 1\<rparr>)) 0 = THINKOS_EPERM"
proof -
  have "fst (thinkos_mutex_unlock_svc (\<lambda>_. 5) (boot_rt\<lparr>mutex_alloc := 1\<rparr>)) 0 =
      fst (snd (spec_unlock (active (boot_rt\<lparr>mutex_alloc := 1\<rparr>)) (mutex_abs 0 (boot_rt\<lparr>mutex_alloc := 1\<rparr>))))"
    by (rule mutex_unlock_refines [THEN conjunct2, THEN conjunct1, of "{}"])
      (simp_all add: kinv_boot mutex_ok_boot mutex_valid_def obj_idx_def)
  then show ?thesis by (simp add: mutex_abs_def)
qed

end
