(* ===== verification/ThinkOS_Cond.thy ===== *)
theory ThinkOS_Cond
  imports ThinkOS_Mutex ThinkOS_Wake
begin

text \<open>
  The condition-variable services of ThinkOS (\<^verbatim>\<open>src/src/sdk/libthinkos/thinkos_cond.c\<close>). A waiting thread
  releases its mutex exactly as \<open>mutex_unlock\<close> does and takes it again by a \<open>mutex_lock\<close> call of the user
  stub after it is woken.
\<close>

section \<open>Services\<close>

definition thinkos_cond_alloc_svc :: "svc_arg \<Rightarrow> thinkos_rt \<Rightarrow> svc_arg \<times> thinkos_rt" where
  "thinkos_cond_alloc_svc arg rt =
    (case thinkos_bmp_alloc [cond_alloc rt] THINKOS_COND_MAX of (idx, bmp) \<Rightarrow>
      (let rt1 = rt\<lparr>cond_alloc := bmp ! 0\<rparr>
       in if idx \<ge> 0 then (arg(0 := of_int idx + of_nat THINKOS_COND_BASE), rt1)
          else (arg(0 := of_int idx), rt1)))"

definition thinkos_cond_free_svc :: "svc_arg \<Rightarrow> thinkos_rt \<Rightarrow> svc_arg \<times> thinkos_rt" where
  "thinkos_cond_free_svc arg rt =
    (let cond = obj_idx THINKOS_COND_BASE (arg 0)
     in if cond \<ge> THINKOS_COND_MAX then (arg(0 := THINKOS_EINVAL), rt)
        else (arg, rt\<lparr>cond_alloc := bit_mem_wr (cond_alloc rt) cond False\<rparr>))"

definition thinkos_cond_wait_svc :: "svc_arg \<Rightarrow> thinkos_rt \<Rightarrow> svc_arg \<times> thinkos_rt" where
  "thinkos_cond_wait_svc arg rt =
    (let cwq = unat (arg 0);
         mwq = unat (arg 1);
         cond = obj_idx THINKOS_COND_BASE (arg 0);
         mutex = obj_idx THINKOS_MUTEX_BASE (arg 1);
         self = active rt
     in if cond \<ge> THINKOS_COND_MAX then (arg(0 := THINKOS_EINVAL), rt)
        else if mutex \<ge> THINKOS_MUTEX_MAX then (arg(0 := THINKOS_EINVAL), rt)
        else if \<not> bit_mem_rd (cond_alloc rt) cond then (arg(0 := THINKOS_EINVAL), rt)
        else if \<not> bit_mem_rd (mutex_alloc rt) mutex then (arg(0 := THINKOS_EINVAL), rt)
        else if lock rt mutex \<noteq> int self then (arg(0 := THINKOS_EPERM), rt)
        else (let rt1 = thinkos_wq_insert cwq self rt;
                  th = thinkos_wq_head mwq rt1;
                  rt2 = (if th = THINKOS_THREAD_NULL then rt1\<lparr>lock := (lock rt1)(mutex := - 1)\<rparr>
                         else thinkos_wakeup mwq th (rt1\<lparr>lock := (lock rt1)(mutex := int th)\<rparr>))
              in (arg(0 := 0), thinkos_wait self rt2)))"

definition thinkos_cond_timedwait_svc :: "svc_arg \<Rightarrow> thinkos_rt \<Rightarrow> svc_arg \<times> thinkos_rt" where
  "thinkos_cond_timedwait_svc arg rt =
    (let cwq = unat (arg 0);
         mwq = unat (arg 1);
         cond = obj_idx THINKOS_COND_BASE (arg 0);
         mutex = obj_idx THINKOS_MUTEX_BASE (arg 1);
         ms = arg 2;
         self = active rt
     in if mutex \<ge> THINKOS_MUTEX_MAX then (arg(0 := THINKOS_EINVAL), rt)
        else if cond \<ge> THINKOS_COND_MAX then (arg(0 := THINKOS_EINVAL), rt)
        else if \<not> bit_mem_rd (mutex_alloc rt) mutex then (arg(0 := THINKOS_EINVAL), rt)
        else if \<not> bit_mem_rd (cond_alloc rt) cond then (arg(0 := THINKOS_EINVAL), rt)
        else if lock rt mutex \<noteq> int self then (arg(0 := THINKOS_EPERM), rt)
        else (let rt1 = thinkos_tmdwq_insert cwq self ms rt;
                  th = thinkos_wq_head mwq rt1;
                  rt2 = (if th = THINKOS_THREAD_NULL then rt1\<lparr>lock := (lock rt1)(mutex := - 1)\<rparr>
                         else thinkos_wakeup mwq th (rt1\<lparr>lock := (lock rt1)(mutex := int th)\<rparr>))
              in (arg(0 := THINKOS_ETIMEDOUT), thinkos_wait self rt2)))"

definition thinkos_cond_signal_svc :: "svc_arg \<Rightarrow> thinkos_rt \<Rightarrow> svc_arg \<times> thinkos_rt" where
  "thinkos_cond_signal_svc arg rt =
    (let cwq = unat (arg 0);
         cond = obj_idx THINKOS_COND_BASE (arg 0)
     in if cond \<ge> THINKOS_COND_MAX then (arg(0 := THINKOS_EINVAL), rt)
        else if \<not> bit_mem_rd (cond_alloc rt) cond then (arg(0 := THINKOS_EINVAL), rt)
        else (let th = thinkos_wq_head cwq rt
              in if th \<noteq> THINKOS_THREAD_NULL
                 then (arg(0 := 0), thinkos_defer_sched (thinkos_wakeup cwq th rt))
                 else (arg(0 := 0), rt)))"

definition thinkos_cond_broadcast_svc :: "svc_arg \<Rightarrow> thinkos_rt \<Rightarrow> svc_arg \<times> thinkos_rt" where
  "thinkos_cond_broadcast_svc arg rt =
    (let cwq = unat (arg 0);
         cond = obj_idx THINKOS_COND_BASE (arg 0)
     in if cond \<ge> THINKOS_COND_MAX then (arg(0 := THINKOS_EINVAL), rt)
        else if \<not> bit_mem_rd (cond_alloc rt) cond then (arg(0 := THINKOS_EINVAL), rt)
        else (let th = thinkos_wq_head cwq rt
              in if th \<noteq> THINKOS_THREAD_NULL
                 then (arg(0 := 0), thinkos_defer_sched (wakeup_all cwq (thinkos_wakeup cwq th rt)))
                 else (arg(0 := 0), rt)))"

lemmas cond_defs [kdefs] =
  thinkos_cond_alloc_svc_def thinkos_cond_free_svc_def thinkos_cond_wait_svc_def
  thinkos_cond_timedwait_svc_def thinkos_cond_signal_svc_def thinkos_cond_broadcast_svc_def

definition cond_valid :: "svc_arg \<Rightarrow> thinkos_rt \<Rightarrow> bool" where
  "cond_valid arg rt \<longleftrightarrow>
     obj_idx THINKOS_COND_BASE (arg 0) < 8 \<and> bit (cond_alloc rt) (obj_idx THINKOS_COND_BASE (arg 0))"

text \<open>What \<open>cond_wait\<close> checks before it waits: both objects exist and the caller owns the mutex.\<close>

definition cond_wait_valid :: "svc_arg \<Rightarrow> thinkos_rt \<Rightarrow> bool" where
  "cond_wait_valid arg rt \<longleftrightarrow>
     cond_valid arg rt \<and> mutex_valid (\<lambda>_. arg 1) rt \<and> lock rt (obj_idx THINKOS_MUTEX_BASE (arg 1)) = int (active rt)"

section \<open>Waiting\<close>

lemma cond_wait_release:
  assumes "cond_wait_valid arg rt" "c = obj_idx THINKOS_COND_BASE (arg 0)" "m = obj_idx THINKOS_MUTEX_BASE (arg 1)"
  shows "c < 8" "m < 8"
    "thinkos_cond_wait_svc arg rt =
      (arg(0 := 0), thinkos_wait (active rt) (mutex_release m (5 + m) (thinkos_wq_insert (13 + c) (active rt) rt)))"
    "thinkos_cond_timedwait_svc arg rt =
      (arg(0 := THINKOS_ETIMEDOUT),
       thinkos_wait (active rt) (mutex_release m (5 + m) (thinkos_tmdwq_insert (13 + c) (active rt) (arg 2) rt)))"
  using assms cond_class.obj_wq [of "arg 0"] mutex_class.obj_wq [of "arg 1"]
  by (simp_all add: thinkos_cond_wait_svc_def thinkos_cond_timedwait_svc_def mutex_release_def
      cond_wait_valid_def cond_valid_def mutex_valid_def Let_def)

lemma cond_wait_invalid:
  "\<not> cond_wait_valid arg rt \<Longrightarrow> snd (thinkos_cond_wait_svc arg rt) = rt \<and> snd (thinkos_cond_timedwait_svc arg rt) = rt"
  by (auto simp: thinkos_cond_wait_svc_def thinkos_cond_timedwait_svc_def cond_wait_valid_def cond_valid_def
      mutex_valid_def Let_def)

lemma release_frame [simp]:
  "active (mutex_release m wq rt) = active rt" "pendsv (mutex_release m wq rt) = pendsv rt"
  "th_alloc (mutex_release m wq rt) = th_alloc rt" "sem_val (mutex_release m wq rt) = sem_val rt"
  "ev_pend (mutex_release m wq rt) = ev_pend rt" "ev_mask (mutex_release m wq rt) = ev_mask rt"
  "flag_sig (mutex_release m wq rt) = flag_sig rt" "flag_lock (mutex_release m wq rt) = flag_lock rt"
  "sched_val (mutex_release m wq rt) = sched_val rt" "sched_pri (mutex_release m wq rt) = sched_pri rt"
  "sched_limit (mutex_release m wq rt) = sched_limit rt" "irq_th (mutex_release m wq rt) = irq_th rt"
  by (simp_all add: mutex_release_def Let_def)

lemma qbit_release:
  "wq \<noteq> 0 \<Longrightarrow> qbit (mutex_release m wq rt) q t \<longleftrightarrow>
    (if wq_lst rt wq = 0 then qbit rt q t
     else (qbit rt q t \<and> \<not> (t = thinkos_wq_head wq rt \<and> (q = wq \<or> q = 4))) \<or>
       (t = thinkos_wq_head wq rt \<and> q = 0))"
  by (simp add: mutex_release_def Let_def wq_head_lt32)

lemma stat_release:
  "th_stat (mutex_release m wq rt) =
    (if wq_lst rt wq = 0 then th_stat rt else (th_stat rt)(thinkos_wq_head wq rt := 0))"
  by (simp add: mutex_release_def Let_def)

lemma kinv_release:
  "kinv X rt \<Longrightarrow> 5 \<le> wq \<Longrightarrow> wq < 53 \<Longrightarrow> kinv X (mutex_release m wq rt)"
  using wq_head_member [of wq rt]
  by (auto simp: mutex_release_def Let_def intro!: kinv_wakeup)

lemma insert_head:
  "q \<noteq> wq \<Longrightarrow> wq_lst (thinkos_wq_insert q t rt) wq = wq_lst rt wq"
  "q \<noteq> wq \<Longrightarrow> wq \<noteq> 4 \<Longrightarrow> wq_lst (thinkos_tmdwq_insert q t ms rt) wq = wq_lst rt wq"
  "q \<noteq> wq \<Longrightarrow> thinkos_wq_head wq (thinkos_wq_insert q t rt) = thinkos_wq_head wq rt"
  "q \<noteq> wq \<Longrightarrow> wq \<noteq> 4 \<Longrightarrow> thinkos_wq_head wq (thinkos_tmdwq_insert q t ms rt) = thinkos_wq_head wq rt"
  by (simp_all add: thinkos_wq_insert_def thinkos_tmdwq_insert_def wq_wr_def thinkos_wq_head_def)

text \<open>Queueing the caller and releasing the mutex can be done in either order; in the other order both
  steps keep the kernel invariant.\<close>

lemma kinv_wait_release:
  assumes k: "kinv X rt" and np: "\<not> pendsv rt" and a: "active rt < 8" "active rt \<notin> X"
    and c: "c < 8" and m: "m < 8"
  shows "kinv X (thinkos_wait (active rt) (mutex_release m (5 + m) (thinkos_wq_insert (13 + c) (active rt) rt)))"
    and "kinv X (thinkos_wait (active rt) (mutex_release m (5 + m) (thinkos_tmdwq_insert (13 + c) (active rt) ms rt)))"
proof -
  let ?a = "active rt" and ?h = "thinkos_wq_head (5 + m) rt"
  define r where "r = mutex_release m (5 + m) rt"
  have kr: "kinv X r" using kinv_release [OF k] m by (simp add: r_def)
  have f: "active r = ?a" "\<not> pendsv r" using np by (simp_all add: r_def)
  have na: "\<not> qbit rt (5 + m) ?a" using kinv_running [OF k np] m by (simp add: running_ok_def)
  have h: "?h \<noteq> ?a" if "wq_lst rt (5 + m) \<noteq> 0" using wq_head_member [of "5 + m" rt] na that by auto
  have b: "blocks Q s ?a r (thinkos_wait ?a (mutex_release m (5 + m) y))"
    if "wq_lst y (5 + m) = wq_lst rt (5 + m)" "thinkos_wq_head (5 + m) y = ?h"
      "\<And>q u. qbit y q u \<longleftrightarrow> qbit rt q u \<or> (q \<in> Q \<and> u = ?a)" "Q \<subseteq> {4..<53}"
      "th_stat y = (th_stat rt)(?a := s)" "th_alloc y = th_alloc rt" for y Q s
  proof -
    let ?y = "mutex_release m (5 + m) y"
    have q: "qbit ?y q u \<longleftrightarrow> qbit r q u \<or> (q \<in> Q \<and> u = ?a)" for q u
      using that(3) [of q u] that(4) h na by (auto simp: r_def qbit_release that(1,2))
    have 0: "0 \<notin> Q" "Suc 0 \<notin> Q" using that(4) by auto
    have "th_stat ?y = (th_stat r)(?a := s)"
      using h by (simp add: r_def stat_release that(1,2,5) fun_upd_twist)
    then show ?thesis
      unfolding blocks_def
      using q 0 wait_D [where th = ?a and rt = ?y] wait_ready_tmshare [where th = ?a and rt = ?y]
        kinv_idle [OF kr] a that(6) by (simp add: r_def)
  qed
  have 1: "blocks {13 + c} (((13 + c) * 2) mod 256) ?a r
      (thinkos_wait ?a (mutex_release m (5 + m) (thinkos_wq_insert (13 + c) ?a rt)))"
    by (rule b) (use c m a in \<open>auto simp: insert_head\<close>)
  have 2: "blocks {13 + c, 4} (((13 + c) * 2 + 1) mod 256) ?a r
      (thinkos_wait ?a (mutex_release m (5 + m) (thinkos_tmdwq_insert (13 + c) ?a ms rt)))"
    by (rule b) (use c m a in \<open>auto simp: insert_head\<close>)
  show "kinv X (thinkos_wait ?a (mutex_release m (5 + m) (thinkos_wq_insert (13 + c) ?a rt)))"
    by (rule kinv_blocks [OF kr f(2) f(1) [symmetric] a 1]) (use c in auto)
  show "kinv X (thinkos_wait ?a (mutex_release m (5 + m) (thinkos_tmdwq_insert (13 + c) ?a ms rt)))"
    by (rule kinv_blocks [OF kr f(2) f(1) [symmetric] a 2]) (use c in auto)
qed

lemma kinv_cond_wait [intro]:
  assumes "kinv X rt" "\<not> pendsv rt" "active rt < 8" "active rt \<notin> X"
  shows "kinv X (snd (thinkos_cond_wait_svc arg rt))" "kinv X (snd (thinkos_cond_timedwait_svc arg rt))"
proof -
  show "kinv X (snd (thinkos_cond_wait_svc arg rt))"
  proof (cases "cond_wait_valid arg rt")
    case True
    note w = cond_wait_release [OF True refl refl]
    show ?thesis using kinv_wait_release [OF assms w(1,2)] by (simp add: w(3))
  qed (simp add: cond_wait_invalid assms)
  show "kinv X (snd (thinkos_cond_timedwait_svc arg rt))"
  proof (cases "cond_wait_valid arg rt")
    case True
    note w = cond_wait_release [OF True refl refl]
    show ?thesis using kinv_wait_release [OF assms w(1,2)] by (simp add: w(4))
  qed (simp add: cond_wait_invalid assms)
qed

section \<open>Signalling\<close>

interpretation cond_wake: wake_loop
  "thinkos_wakeup (THINKOS_COND_BASE + i mod 8)" "wakeup_all (THINKOS_COND_BASE + i mod 8)"
  "THINKOS_COND_BASE + i mod 8" 0 for i
  by (rule wakeup_all_loop) simp_all

lemma cond_broadcast_eq:
  assumes "cond_valid arg rt" "i = obj_idx THINKOS_COND_BASE (arg 0)"
  shows "thinkos_cond_broadcast_svc arg rt =
    (arg(0 := 0), (if wq_lst rt (13 + i) = 0 then id else thinkos_defer_sched) (wakeup_all (13 + i mod 8) rt))"
proof -
  have q: "i < 8" "unat (arg 0) = 13 + i" "bit (cond_alloc rt) i"
    using assms cond_class.obj_wq [of "arg 0"] by (simp_all add: cond_valid_def)
  have "wakeup_all (13 + i mod 8) rt =
      (if wq_lst rt (13 + i) = 0 then rt else wakeup_all (13 + i) (thinkos_wakeup (13 + i) (thinkos_wq_head (13 + i) rt) rt))"
    using cond_wake.loop_unfold [of i rt] q by simp
  then show ?thesis using assms q by (simp add: thinkos_cond_broadcast_svc_def Let_def)
qed

lemma cond_broadcast_invalid:
  "\<not> cond_valid arg rt \<Longrightarrow> thinkos_cond_broadcast_svc arg rt = (arg(0 := THINKOS_EINVAL), rt)"
  by (auto simp: thinkos_cond_broadcast_svc_def cond_valid_def Let_def)

lemma kinv_cond_plain [intro]:
  assumes "kinv X rt"
  shows "kinv X (snd (thinkos_cond_alloc_svc arg rt))" "kinv X (snd (thinkos_cond_free_svc arg rt))"
  using assms by (simp_all add: cond_defs Let_def split: prod.split)

lemma kinv_cond_signal [intro]:
  assumes "kinv X rt"
  shows "kinv X (snd (thinkos_cond_signal_svc arg rt))"
proof -
  have "kinv X (thinkos_wakeup (unat (arg 0)) (thinkos_wq_head (unat (arg 0)) rt) rt)"
    if "wq_lst rt (unat (arg 0)) \<noteq> 0" "obj_idx THINKOS_COND_BASE (arg 0) < 8"
    using that assms wq_head_member [of "unat (arg 0)" rt] cond_class.obj_wq_range [of "arg 0"]
    by (intro kinv_wakeup) simp_all
  then show ?thesis using assms by (simp add: thinkos_cond_signal_svc_def Let_def)
qed

lemma kinv_cond_broadcast [intro]:
  assumes "kinv X rt"
  shows "kinv X (snd (thinkos_cond_broadcast_svc arg rt))"
proof (cases "cond_valid arg rt")
  case True
  show ?thesis using assms cond_wake.loop_kinv by (simp add: cond_broadcast_eq [OF True refl])
qed (simp add: cond_broadcast_invalid assms)

section \<open>Other invariants\<close>

lemma shrinks_release:
  "shrinks Q rt rt' \<Longrightarrow> 0 < wq \<Longrightarrow> shrinks Q rt (mutex_release m wq rt')"
  by (auto simp: shrinks_def qbit_release split: if_splits)

lemma shrinks_wait: "shrinks Q rt (thinkos_wait t rt') = shrinks Q rt rt'"
  by (auto simp: shrinks_def)

lemma shrinks_insert:
  "q \<in> Q \<Longrightarrow> shrinks Q rt (thinkos_wq_insert q t rt)" "q \<in> Q \<Longrightarrow> shrinks Q rt (thinkos_tmdwq_insert q t ms rt)"
  by (auto simp: shrinks_def)

lemma cond_shrinks:
  "shrinks {13..<21} rt (snd (thinkos_cond_alloc_svc arg rt))"
  "shrinks {13..<21} rt (snd (thinkos_cond_free_svc arg rt))"
  "shrinks {13..<21} rt (snd (thinkos_cond_signal_svc arg rt))"
  using cond_class.obj_wq [of "arg 0"]
  by (auto simp: cond_defs Let_def wq_head_lt32 split: prod.split)

lemma cond_wait_shrinks:
  "shrinks {13..<21} rt (snd (thinkos_cond_wait_svc arg rt))"
  "shrinks {13..<21} rt (snd (thinkos_cond_timedwait_svc arg rt))"
  using cond_wait_release [of arg rt, OF _ refl refl] cond_wait_invalid [of arg rt]
  by (cases "cond_wait_valid arg rt"; simp add: shrinks_wait shrinks_release shrinks_insert)+

lemma cond_broadcast_shrinks: "shrinks {13..<21} rt (snd (thinkos_cond_broadcast_svc arg rt))"
proof (cases "cond_valid arg rt")
  case True
  show ?thesis
    using cond_wake.loop_shrinks [of "{13..<21}" rt] by (simp add: cond_broadcast_eq [OF True refl])
qed (simp add: cond_broadcast_invalid)

lemma mutex_ok_insert:
  "mutex_ok rt \<Longrightarrow> 13 \<le> q \<Longrightarrow> mutex_ok (thinkos_wq_insert q t rt)"
  "mutex_ok rt \<Longrightarrow> 13 \<le> q \<Longrightarrow> mutex_ok (thinkos_tmdwq_insert q t ms rt)"
  "mutex_ok rt \<Longrightarrow> mutex_ok (thinkos_wait t rt)"
  unfolding mutex_ok_def by auto

lemma mutex_ok_cond_wait:
  assumes ok: "mutex_ok rt" and k: "kinv X rt"
  shows "mutex_ok (snd (thinkos_cond_wait_svc arg rt))" "mutex_ok (snd (thinkos_cond_timedwait_svc arg rt))"
proof -
  have l: "t < 8" if "5 \<le> q" "q < 13" "qbit rt q t" for q t
    using kinv_lt8 [OF k, of q t] that by simp
  have r: "mutex_ok (thinkos_wait u (mutex_release m (5 + m) (thinkos_wq_insert (13 + c) u rt)))"
    "mutex_ok (thinkos_wait u (mutex_release m (5 + m) (thinkos_tmdwq_insert (13 + c) u ms rt)))"
    if "m < 8" for u m c ms
    by (intro mutex_ok_insert(3) mutex_ok_release; use that l ok in \<open>auto intro: mutex_ok_insert\<close>)+
  show "mutex_ok (snd (thinkos_cond_wait_svc arg rt))" "mutex_ok (snd (thinkos_cond_timedwait_svc arg rt))"
    using cond_wait_release [of arg rt, OF _ refl refl] cond_wait_invalid [of arg rt] ok r
    by (cases "cond_wait_valid arg rt"; simp)+
qed

section \<open>Properties\<close>

text \<open>C8: \<open>cond_wait\<close> with a mutex the caller owns releases the mutex as an unlock does (its first waiter
  becomes the owner and ready, or the mutex becomes free) and leaves the caller waiting on the condition
  variable and not ready, in one step: no signal can come between the release and the wait. The kernel
  and mutex invariants hold afterwards.\<close>

theorem cond_wait_atomic:
  assumes k: "kinv X rt" and np: "\<not> pendsv rt" and a: "active rt < 8" "active rt \<notin> X"
    and ok: "mutex_ok rt" and v: "cond_wait_valid arg rt"
    and c: "c = obj_idx THINKOS_COND_BASE (arg 0)" and m: "m = obj_idx THINKOS_MUTEX_BASE (arg 1)"
  shows "let rt' = snd (thinkos_cond_wait_svc arg rt)
         in mutex_abs m rt' = fst (spec_unlock (active rt) (mutex_abs m rt)) \<and>
            (\<forall>t. snd (snd (spec_unlock (active rt) (mutex_abs m rt))) = Some t \<longrightarrow> qbit rt' 0 t) \<and>
            qbit rt' (13 + c) (active rt) \<and> \<not> qbit rt' 0 (active rt) \<and> pendsv rt' \<and>
            kinv X rt' \<and> mutex_ok rt'"
proof -
  let ?a = "active rt" and ?h = "thinkos_wq_head (5 + m) rt"
  let ?y = "thinkos_wq_insert (13 + c) ?a rt"
  define rt' where "rt' = snd (thinkos_cond_wait_svc arg rt)"
  have e: "c < 8" "m < 8" "rt' = thinkos_wait ?a (mutex_release m (5 + m) ?y)"
    using cond_wait_release [OF v c m] by (simp_all add: rt'_def)
  have o: "lock rt m = int ?a" using v m by (simp add: cond_wait_valid_def)
  have hd: "wq_lst ?y (5 + m) = wq_lst rt (5 + m)" "thinkos_wq_head (5 + m) ?y = ?h"
    using e by (simp_all add: insert_head)
  have run: "\<not> qbit rt 1 ?a" "\<not> qbit rt (5 + m) ?a"
    using kinv_running [OF k np] a e by (auto simp: running_ok_def)
  have na: "?h \<noteq> ?a" if "wq_lst rt (5 + m) \<noteq> 0" using wq_head_member [of "5 + m" rt] run(2) that by auto
  have nr: "\<not> qbit rt' 0 ?a"
    unfolding e(3) using run e na by (intro wait_not_ready) (auto simp: qbit_release hd)
  have qc: "qbit rt' (13 + c) ?a" using a e na by (auto simp: qbit_release hd)
  have inv: "kinv X rt'" "mutex_ok rt'"
    using kinv_cond_wait [OF k np a] mutex_ok_cond_wait [OF ok k] by (simp_all add: rt'_def)
  have ab: "mutex_abs m rt' = fst (spec_unlock ?a (mutex_abs m rt)) \<and>
      (\<forall>t. snd (snd (spec_unlock ?a (mutex_abs m rt))) = Some t \<longrightarrow> qbit rt' 0 t)"
  proof (cases "wq_lst rt (5 + m) = 0")
    case True
    then show ?thesis using e o by (auto simp: mutex_abs_def mutex_release_def hd Let_def)
  next
    case False
    have ne: "{t. qbit rt (5 + m) t} \<noteq> {}" using False by (auto simp: word32_eq_0_iff)
    then have mn: "Min {t. qbit rt (5 + m) t} = ?h"
      using wq.headq_some [of "wq_lst rt (5 + m)"] by (simp add: thinkos_wq_head_def)
    have lk: "lock rt' m = int ?h" using False e by (simp add: mutex_release_def hd Let_def)
    have q: "{t. qbit rt' (5 + m) t} = {t. qbit rt (5 + m) t} - {?h}"
      using False e by (auto simp: qbit_release hd)
    have "qbit (mutex_release m (5 + m) ?y) 0 ?h" using False by (simp add: qbit_release hd)
    then have "qbit rt' 0 ?h" unfolding e(3) using wait_D(3) na [OF False] by blast
    then show ?thesis using ne mn lk q o by (auto simp: mutex_abs_def)
  qed
  show ?thesis
    using ab nr qc inv e(3) by (simp add: rt'_def [symmetric] Let_def)
qed

theorem cond_wait_atomic_witness:
  "qbit (snd (thinkos_cond_wait_svc ((\<lambda>_. 13)(1 := 5))
     (boot_rt\<lparr>mutex_alloc := 1, cond_alloc := 1, lock := (\<lambda>_. - 1)(0 := 0)\<rparr>))) 13 0"
  using cond_wait_atomic [of "{}" "boot_rt\<lparr>mutex_alloc := 1, cond_alloc := 1, lock := (\<lambda>_. - 1)(0 := 0)\<rparr>"
      "(\<lambda>_. 13)(1 := 5)" 0 0]
  by (simp add: kinv_boot mutex_ok_def cond_wait_valid_def cond_valid_def mutex_valid_def obj_idx_def Let_def)

text \<open>C9: \<open>cond_broadcast\<close> empties the queue of the condition variable: every waiting thread becomes ready
  with result 0 and no other thread changes queues.\<close>

theorem cond_broadcast_wakes_all:
  assumes k: "kinv X rt" and v: "cond_valid arg rt" and i: "i = obj_idx THINKOS_COND_BASE (arg 0)"
  shows "let rt' = snd (thinkos_cond_broadcast_svc arg rt)
         in wq_lst rt' (13 + i) = 0 \<and>
            (\<forall>t. qbit rt (13 + i) t \<longrightarrow> qbit rt' 0 t \<and> ctx rt' t = map_option (\<lambda>c. c\<lparr>c_r0 := 0\<rparr>) (ctx rt t)) \<and>
            (\<forall>q t. \<not> qbit rt (13 + i) t \<longrightarrow> qbit rt' q t = qbit rt q t) \<and> kinv X rt'"
proof -
  have q: "i < 8" using v i by (simp add: cond_valid_def)
  have "kinv X (snd (thinkos_cond_broadcast_svc arg rt))" by (rule kinv_cond_broadcast [OF k])
  then show ?thesis
    using q cond_wake.loop_empties [of i rt] cond_wake.loop_qbit [of i rt] cond_wake.loop_ctx [of i rt]
    by (simp add: cond_broadcast_eq [OF v i] Let_def)
qed

theorem cond_broadcast_wakes_all_witness:
  "kinv {} (snd (thinkos_cond_broadcast_svc (\<lambda>_. 13) (boot_rt\<lparr>cond_alloc := 1\<rparr>)))"
  using cond_broadcast_wakes_all [of "{}" "boot_rt\<lparr>cond_alloc := 1\<rparr>" "\<lambda>_. 13" 0]
  by (simp add: kinv_boot cond_valid_def obj_idx_def Let_def)

end
