(* ===== verification/ThinkOS_Sem.thy ===== *)
theory ThinkOS_Sem
  imports ThinkOS_Wake
begin

text \<open>
  The semaphore services of ThinkOS (\<^verbatim>\<open>src/src/sdk/libthinkos/thinkos_semaphore.c\<close>), the counting
  semaphore they implement, and the invariant that a semaphore with a positive count has no waiters.
\<close>

section \<open>Services\<close>

definition thinkos_sem_alloc_svc :: "svc_arg \<Rightarrow> thinkos_rt \<Rightarrow> svc_arg \<times> thinkos_rt" where
  "thinkos_sem_alloc_svc arg rt =
    (let value = arg 0
     in case thinkos_bmp_alloc [sem_alloc rt] THINKOS_SEMAPHORE_MAX of (idx, bmp) \<Rightarrow>
      (let rt1 = rt\<lparr>sem_alloc := bmp ! 0\<rparr>
       in if idx \<ge> 0
          then (arg(0 := of_int idx + of_nat THINKOS_SEM_BASE),
                rt1\<lparr>sem_val := (sem_val rt1)(nat idx := value)\<rparr>)
          else (arg(0 := of_int idx), rt1)))"

definition thinkos_sem_free_svc :: "svc_arg \<Rightarrow> thinkos_rt \<Rightarrow> svc_arg \<times> thinkos_rt" where
  "thinkos_sem_free_svc arg rt =
    (let idx = obj_idx THINKOS_SEM_BASE (arg 0)
     in if idx \<ge> THINKOS_SEMAPHORE_MAX then (arg(0 := THINKOS_EINVAL), rt)
        else (arg, rt\<lparr>sem_alloc := bit_mem_wr (sem_alloc rt) idx False\<rparr>))"

definition thinkos_sem_init_svc :: "svc_arg \<Rightarrow> thinkos_rt \<Rightarrow> svc_arg \<times> thinkos_rt" where
  "thinkos_sem_init_svc arg rt =
    (let sem = obj_idx THINKOS_SEM_BASE (arg 0);
         value = arg 1
     in if sem \<ge> THINKOS_SEMAPHORE_MAX then (arg(0 := THINKOS_EINVAL), rt)
        else if \<not> bit_mem_rd (sem_alloc rt) sem then (arg(0 := THINKOS_EINVAL), rt)
        else (arg(0 := 0), rt\<lparr>sem_val := (sem_val rt)(sem := value)\<rparr>))"

definition thinkos_sem_wait_svc :: "svc_arg \<Rightarrow> thinkos_rt \<Rightarrow> svc_arg \<times> thinkos_rt" where
  "thinkos_sem_wait_svc arg rt =
    (let wq = unat (arg 0);
         sem = obj_idx THINKOS_SEM_BASE (arg 0);
         self = active rt
     in if sem \<ge> THINKOS_SEMAPHORE_MAX then (arg(0 := THINKOS_EINVAL), rt)
        else if \<not> bit_mem_rd (sem_alloc rt) sem then (arg(0 := THINKOS_EINVAL), rt)
        else if sem_val rt sem > 0
        then (arg(0 := 0), rt\<lparr>sem_val := (sem_val rt)(sem := sem_val rt sem - 1)\<rparr>)
        else (arg(0 := 0), block_self self (thinkos_wq_insert wq self rt)))"

definition thinkos_sem_trywait_svc :: "svc_arg \<Rightarrow> thinkos_rt \<Rightarrow> svc_arg \<times> thinkos_rt" where
  "thinkos_sem_trywait_svc arg rt =
    (let sem = obj_idx THINKOS_SEM_BASE (arg 0)
     in if sem \<ge> THINKOS_SEMAPHORE_MAX then (arg(0 := THINKOS_EINVAL), rt)
        else if \<not> bit_mem_rd (sem_alloc rt) sem then (arg(0 := THINKOS_EINVAL), rt)
        else if sem_val rt sem > 0
        then (arg(0 := 0), rt\<lparr>sem_val := (sem_val rt)(sem := sem_val rt sem - 1)\<rparr>)
        else (arg(0 := THINKOS_EAGAIN), rt))"

definition thinkos_sem_timedwait_svc :: "svc_arg \<Rightarrow> thinkos_rt \<Rightarrow> svc_arg \<times> thinkos_rt" where
  "thinkos_sem_timedwait_svc arg rt =
    (let wq = unat (arg 0);
         sem = obj_idx THINKOS_SEM_BASE (arg 0);
         ms = arg 1;
         self = active rt
     in if sem \<ge> THINKOS_SEMAPHORE_MAX then (arg(0 := THINKOS_EINVAL), rt)
        else if \<not> bit_mem_rd (sem_alloc rt) sem then (arg(0 := THINKOS_EINVAL), rt)
        else if sem_val rt sem > 0
        then (arg(0 := 0),
              thinkos_defer_sched (rt\<lparr>sem_val := (sem_val rt)(sem := sem_val rt sem - 1)\<rparr>))
        else (arg(0 := THINKOS_ETIMEDOUT), block_self self (thinkos_tmdwq_insert wq self ms rt)))"

definition thinkos_sem_post_svc :: "svc_arg \<Rightarrow> thinkos_rt \<Rightarrow> svc_arg \<times> thinkos_rt" where
  "thinkos_sem_post_svc arg rt =
    (let wq = unat (arg 0);
         sem = obj_idx THINKOS_SEM_BASE (arg 0)
     in if sem \<ge> THINKOS_SEMAPHORE_MAX then (arg(0 := THINKOS_EINVAL), rt)
        else if \<not> bit_mem_rd (sem_alloc rt) sem then (arg(0 := THINKOS_EINVAL), rt)
        else (let th = thinkos_wq_head wq rt
              in if th = THINKOS_THREAD_NULL
                 then (arg(0 := 0), rt\<lparr>sem_val := (sem_val rt)(sem := sem_val rt sem + 1)\<rparr>)
                 else (arg(0 := 0), thinkos_defer_sched (thinkos_wakeup wq th rt))))"

lemmas sem_defs [kdefs] =
  thinkos_sem_alloc_svc_def thinkos_sem_free_svc_def thinkos_sem_init_svc_def thinkos_sem_wait_svc_def
  thinkos_sem_trywait_svc_def thinkos_sem_timedwait_svc_def thinkos_sem_post_svc_def

section \<open>The counting semaphore\<close>

text \<open>A count and a set of waiting threads. A wait reports whether the caller blocks, a post which
  thread it releases; the count of the implementation has 32 bits.\<close>

type_synonym asem = "nat \<times> nat set"

fun spec_sem_wait :: "nat \<Rightarrow> asem \<Rightarrow> asem \<times> bool" where
  "spec_sem_wait t (n, W) = (if 0 < n then ((n - 1, W), False) else ((n, insert t W), True))"

fun spec_sem_post :: "asem \<Rightarrow> asem \<times> nat option" where
  "spec_sem_post (n, W) =
     (if W = {} then (((n + 1) mod 2 ^ 32, W), None) else ((n, W - {Min W}), Some (Min W)))"

definition sem_abs :: "nat \<Rightarrow> thinkos_rt \<Rightarrow> asem" where
  "sem_abs i rt = (unat (sem_val rt i), {t. qbit rt (THINKOS_SEM_BASE + i) t})"

definition sem_ok :: "thinkos_rt \<Rightarrow> bool" where
  "sem_ok rt \<longleftrightarrow> (\<forall>i<8. sem_val rt i \<noteq> 0 \<longrightarrow> wq_lst rt (THINKOS_SEM_BASE + i) = 0)"

definition sem_valid :: "svc_arg \<Rightarrow> thinkos_rt \<Rightarrow> bool" where
  "sem_valid arg rt \<longleftrightarrow>
     obj_idx THINKOS_SEM_BASE (arg 0) < 8 \<and> bit (sem_alloc rt) (obj_idx THINKOS_SEM_BASE (arg 0))"

section \<open>Preservation of the kernel invariant\<close>

lemma kinv_sem_plain [intro]:
  assumes "kinv X rt"
  shows "kinv X (snd (thinkos_sem_alloc_svc arg rt))" "kinv X (snd (thinkos_sem_free_svc arg rt))"
    "kinv X (snd (thinkos_sem_init_svc arg rt))" "kinv X (snd (thinkos_sem_trywait_svc arg rt))"
  using assms by (simp_all add: sem_defs Let_def split: prod.split)

lemma kinv_sem_wait [intro]:
  assumes "kinv X rt" "\<not> pendsv rt" "active rt < 8" "active rt \<notin> X"
  shows "kinv X (snd (thinkos_sem_wait_svc arg rt))"
    and "kinv X (snd (thinkos_sem_timedwait_svc arg rt))"
  using assms kinv_block_self [OF assms] sem_class.obj_wq_range [of "arg 0"]
  by (simp_all add: sem_defs Let_def)

lemma kinv_sem_post [intro]:
  assumes "kinv X rt"
  shows "kinv X (snd (thinkos_sem_post_svc arg rt))"
proof -
  have "kinv X (thinkos_wakeup (unat (arg 0)) (thinkos_wq_head (unat (arg 0)) rt) rt)"
    if "wq_lst rt (unat (arg 0)) \<noteq> 0" "obj_idx THINKOS_SEM_BASE (arg 0) < 8"
    using that assms wq_head_member [of "unat (arg 0)" rt] sem_class.obj_wq_range [of "arg 0"]
    by (intro kinv_wakeup) simp_all
  then show ?thesis
    using assms by (simp add: thinkos_sem_post_svc_def Let_def)
qed

section \<open>The semaphore invariant\<close>

lemma sem_okI_frame:
  "sem_ok rt \<Longrightarrow> shrinks Q rt rt' \<Longrightarrow> Q \<inter> {21..<29} = {} \<Longrightarrow> sem_val rt' = sem_val rt \<Longrightarrow> sem_ok rt'"
  unfolding sem_ok_def word32_eq_0_iff by (auto dest!: shrinksD)

lemma sem_shrinks:
  "shrinks {21..<29} rt (snd (thinkos_sem_alloc_svc arg rt))"
  "shrinks {21..<29} rt (snd (thinkos_sem_free_svc arg rt))"
  "shrinks {21..<29} rt (snd (thinkos_sem_init_svc arg rt))"
  "shrinks {21..<29} rt (snd (thinkos_sem_wait_svc arg rt))"
  "shrinks {21..<29} rt (snd (thinkos_sem_trywait_svc arg rt))"
  "shrinks {21..<29} rt (snd (thinkos_sem_timedwait_svc arg rt))"
  "shrinks {21..<29} rt (snd (thinkos_sem_post_svc arg rt))"
  using sem_class.obj_wq [of "arg 0"]
  by (auto simp: sem_defs Let_def wq_head_lt32 split: prod.split)

lemma sem_ok_free: "sem_ok rt \<Longrightarrow> sem_ok (snd (thinkos_sem_free_svc arg rt))"
  by (simp add: sem_ok_def thinkos_sem_free_svc_def Let_def)

lemma sem_ok_take:
  "sem_ok rt \<Longrightarrow> 0 < sem_val rt i \<Longrightarrow> sem_ok (rt\<lparr>sem_val := (sem_val rt)(i := v)\<rparr>)"
  by (auto simp: sem_ok_def word_neq_0_conv)

lemma sem_ok_block:
  assumes "sem_ok rt" "i < 8" "sem_val rt i = 0"
  shows "sem_ok (block_self t (thinkos_wq_insert (21 + i) t rt))"
    and "sem_ok (block_self t (thinkos_tmdwq_insert (21 + i) t ms rt))"
  using assms unfolding sem_ok_def word32_eq_0_iff by auto

lemma sem_ok_defer [simp]: "sem_ok (thinkos_defer_sched rt) = sem_ok rt"
  by (simp add: sem_ok_def)

lemma sem_ok_wait:
  assumes "sem_ok rt"
  shows "sem_ok (snd (thinkos_sem_wait_svc arg rt))"
    and "sem_ok (snd (thinkos_sem_trywait_svc arg rt))"
    and "sem_ok (snd (thinkos_sem_timedwait_svc arg rt))"
  using assms sem_class.obj_wq [of "arg 0"]
  by (simp_all add: sem_defs Let_def sem_ok_take sem_ok_block word_neq_0_conv [symmetric])

lemma sem_ok_post:
  assumes "sem_ok rt"
  shows "sem_ok (snd (thinkos_sem_post_svc arg rt))"
proof -
  have "sem_ok (thinkos_wakeup (unat (arg 0)) (thinkos_wq_head (unat (arg 0)) rt) rt)"
    if "wq_lst rt (unat (arg 0)) \<noteq> 0" "obj_idx THINKOS_SEM_BASE (arg 0) < 8"
    by (rule sem_okI_frame [OF assms, of "{}"])
      (use that wq_head_lt32 sem_class.obj_wq_range [of "arg 0"] in auto)
  moreover have "sem_ok (rt\<lparr>sem_val := (sem_val rt)(i := v)\<rparr>)" if "wq_lst rt (21 + i) = 0" for i v
    using assms that by (auto simp: sem_ok_def)
  ultimately show ?thesis
    using assms sem_class.obj_wq [of "arg 0"] by (simp add: thinkos_sem_post_svc_def Let_def)
qed

section \<open>Properties\<close>

lemma sem_valid_queue:
  "sem_valid arg rt \<Longrightarrow> obj_idx 21 (arg 0) < 8 \<and> unat (arg 0) = 21 + obj_idx 21 (arg 0) \<and>
    bit (sem_alloc rt) (obj_idx 21 (arg 0))"
  using sem_class.obj_wq [of "arg 0"] by (simp add: sem_valid_def)

text \<open>C6: \<open>sem_wait\<close> implements the wait of a counting semaphore: it takes a token when there is one and
  otherwise queues the caller, takes it off the ready queue and requests a context switch. It leaves
  the other semaphores alone and keeps the kernel invariant.\<close>

theorem sem_wait_refines:
  assumes k: "kinv X rt" and np: "\<not> pendsv rt" and a: "active rt < 8" "active rt \<notin> X"
    and v: "sem_valid arg rt" and i: "i = obj_idx THINKOS_SEM_BASE (arg 0)"
  shows "sem_abs i (snd (thinkos_sem_wait_svc arg rt)) = fst (spec_sem_wait (active rt) (sem_abs i rt)) \<and>
    (\<forall>j<8. j \<noteq> i \<longrightarrow> sem_abs j (snd (thinkos_sem_wait_svc arg rt)) = sem_abs j rt) \<and>
    (if snd (spec_sem_wait (active rt) (sem_abs i rt))
     then \<not> qbit (snd (thinkos_sem_wait_svc arg rt)) 0 (active rt) \<and> pendsv (snd (thinkos_sem_wait_svc arg rt))
     else wq_lst (snd (thinkos_sem_wait_svc arg rt)) = wq_lst rt) \<and>
    fst (thinkos_sem_wait_svc arg rt) 0 = 0 \<and> kinv X (snd (thinkos_sem_wait_svc arg rt))"
proof -
  have q: "i < 8" "unat (arg 0) = 21 + i" "bit (sem_alloc rt) i" using sem_valid_queue [OF v] i by simp_all
  have kk: "kinv X (snd (thinkos_sem_wait_svc arg rt))" by (rule kinv_sem_wait [OF k np a])
  show ?thesis
  proof (cases "0 < sem_val rt i")
    case True
    then have "0 < unat (sem_val rt i)" by (simp add: word_less_nat_alt)
    moreover have "unat (sem_val rt i - 1) = unat (sem_val rt i) - 1"
      using True by (intro unat_minus_one) (simp add: word_neq_0_conv)
    ultimately show ?thesis
      using True q i kk by (simp add: thinkos_sem_wait_svc_def sem_abs_def Let_def)
  next
    case False
    then have z: "sem_val rt i = 0" by (simp add: word_neq_0_conv [symmetric])
    then show ?thesis
      using q i kk a kinv_idle [OF k] by (auto simp: thinkos_sem_wait_svc_def sem_abs_def Let_def)
  qed
qed

theorem sem_wait_refines_witness:
  "kinv {} (snd (thinkos_sem_wait_svc (\<lambda>_. 21) (boot_rt\<lparr>sem_alloc := 1\<rparr>)))"
  by (rule sem_wait_refines [THEN conjunct2, THEN conjunct2, THEN conjunct2, THEN conjunct2, OF _ _ _ _ _ refl])
    (simp_all add: kinv_boot sem_valid_def obj_idx_def)

text \<open>C7: \<open>sem_post\<close> implements the post of a counting semaphore of 32 bits: with waiters it releases the
  one with the lowest number, which becomes ready with result 0, and the count stays; without
  waiters the count goes up by one and wraps at \<open>2 ^ 32\<close>.\<close>

theorem sem_post_refines:
  assumes k: "kinv X rt" and v: "sem_valid arg rt" and i: "i = obj_idx THINKOS_SEM_BASE (arg 0)"
  shows "sem_abs i (snd (thinkos_sem_post_svc arg rt)) = fst (spec_sem_post (sem_abs i rt)) \<and>
    (\<forall>j<8. j \<noteq> i \<longrightarrow> sem_abs j (snd (thinkos_sem_post_svc arg rt)) = sem_abs j rt) \<and>
    (case snd (spec_sem_post (sem_abs i rt)) of
       None \<Rightarrow> wq_lst (snd (thinkos_sem_post_svc arg rt)) = wq_lst rt
     | Some t \<Rightarrow> qbit rt (THINKOS_SEM_BASE + i) t \<and> qbit (snd (thinkos_sem_post_svc arg rt)) 0 t \<and>
         ctx (snd (thinkos_sem_post_svc arg rt)) t = map_option (\<lambda>c. c\<lparr>c_r0 := 0\<rparr>) (ctx rt t) \<and>
         pendsv (snd (thinkos_sem_post_svc arg rt))) \<and>
    fst (thinkos_sem_post_svc arg rt) 0 = 0 \<and> kinv X (snd (thinkos_sem_post_svc arg rt))"
proof -
  have q: "i < 8" "unat (arg 0) = 21 + i" "bit (sem_alloc rt) i" using sem_valid_queue [OF v] i by simp_all
  have kk: "kinv X (snd (thinkos_sem_post_svc arg rt))" by (rule kinv_sem_post [OF k])
  show ?thesis
  proof (cases "wq_lst rt (21 + i) = 0")
    case True
    then show ?thesis
      using q i kk by (simp add: thinkos_sem_post_svc_def sem_abs_def unat_word_ariths Let_def)
  next
    case False
    let ?t = "thinkos_wq_head (21 + i) rt"
    have "{t. qbit rt (21 + i) t} \<noteq> {}" using False by (auto simp: word32_eq_0_iff)
    then have m: "Min {t. qbit rt (21 + i) t} = ?t"
      using wq.headq_some [of "wq_lst rt (21 + i)"] by (simp add: thinkos_wq_head_def)
    have t: "?t < 32" "qbit rt (21 + i) ?t"
      using wq_head_lt32 [OF False] wq_head_member [of "21 + i" rt] False by simp_all
    have c: "ctx (thinkos_wakeup (21 + i) ?t rt) ?t = map_option (\<lambda>c. c\<lparr>c_r0 := 0\<rparr>) (ctx rt ?t)"
      by (simp add: thinkos_wakeup_def ctx_set_r0_def Let_def)
    show ?thesis
      using False q i kk m t c \<open>{t. qbit rt (21 + i) t} \<noteq> {}\<close>
      by (auto simp: thinkos_sem_post_svc_def sem_abs_def Let_def)
  qed
qed

theorem sem_post_refines_witness:
  "sem_abs 0 (snd (thinkos_sem_post_svc (\<lambda>_. 21) (boot_rt\<lparr>sem_alloc := 1\<rparr>))) = (1, {})"
proof -
  have "sem_abs 0 (snd (thinkos_sem_post_svc (\<lambda>_. 21) (boot_rt\<lparr>sem_alloc := 1\<rparr>))) =
      fst (spec_sem_post (sem_abs 0 (boot_rt\<lparr>sem_alloc := 1\<rparr>)))"
    by (rule sem_post_refines [THEN conjunct1, of "{}"])
      (simp_all add: kinv_boot sem_valid_def obj_idx_def)
  then show ?thesis by (simp add: sem_abs_def)
qed

end
