(* ===== verification/ThinkOS_Event.thy ===== *)
theory ThinkOS_Event
  imports ThinkOS_Wake
begin

text \<open>
  The event-set services of ThinkOS (\<^verbatim>\<open>src/src/sdk/libthinkos/thinkos_event.c\<close>) and the in-interrupt
  variant \<open>__thinkos_ev_raise\<close> (\<^verbatim>\<open>src/src/sdk/include/thinkos_irq.h\<close>). An event set has a word of pending
  events and a word of enabled ones; the invariant says that no thread waits while an enabled event
  is pending.
\<close>

section \<open>Services\<close>

definition thinkos_ev_alloc_svc :: "svc_arg \<Rightarrow> thinkos_rt \<Rightarrow> svc_arg \<times> thinkos_rt" where
  "thinkos_ev_alloc_svc arg rt =
    (case thinkos_bmp_alloc [ev_alloc rt] THINKOS_EVENT_MAX of (idx, bmp) \<Rightarrow>
      (let rt1 = rt\<lparr>ev_alloc := bmp ! 0\<rparr>
       in if idx \<ge> 0
          then (arg(0 := of_int idx + of_nat THINKOS_EVENT_BASE),
                rt1\<lparr>ev_mask := (ev_mask rt1)(nat idx := 0xffffffff),
                    ev_pend := (ev_pend rt1)(nat idx := 0)\<rparr>)
          else (arg(0 := of_int idx), rt1)))"

definition thinkos_ev_free_svc :: "svc_arg \<Rightarrow> thinkos_rt \<Rightarrow> svc_arg \<times> thinkos_rt" where
  "thinkos_ev_free_svc arg rt =
    (let wq = unat (arg 0)
     in if wq < THINKOS_EVENT_BASE \<or> wq \<ge> THINKOS_EVENT_BASE + THINKOS_EVENT_MAX
        then (arg(0 := THINKOS_EINVAL), rt)
        else (arg, rt\<lparr>ev_alloc := bit_mem_wr (ev_alloc rt) (wq - THINKOS_EVENT_BASE) False\<rparr>))"

definition thinkos_ev_wait_svc :: "svc_arg \<Rightarrow> thinkos_rt \<Rightarrow> svc_arg \<times> thinkos_rt" where
  "thinkos_ev_wait_svc arg rt =
    (let wq = unat (arg 0);
         no = obj_idx THINKOS_EVENT_BASE (arg 0);
         self = active rt
     in if no \<ge> THINKOS_EVENT_MAX then (arg(0 := THINKOS_EINVAL), rt)
        else if \<not> bit_mem_rd (ev_alloc rt) no then (arg(0 := THINKOS_EINVAL), rt)
        else (let ev = clz (rbit (ev_pend rt no AND ev_mask rt no))
              in if ev < 32
                 then (arg(0 := of_nat ev),
                       rt\<lparr>ev_pend := (ev_pend rt)(no := bit_mem_wr (ev_pend rt no) ev False)\<rparr>)
                 else (arg, block_self self (thinkos_wq_insert wq self rt))))"

definition thinkos_ev_timedwait_svc :: "svc_arg \<Rightarrow> thinkos_rt \<Rightarrow> svc_arg \<times> thinkos_rt" where
  "thinkos_ev_timedwait_svc arg rt =
    (let wq = unat (arg 0);
         ms = arg 1;
         no = obj_idx THINKOS_EVENT_BASE (arg 0);
         self = active rt
     in if no \<ge> THINKOS_EVENT_MAX then (arg(0 := THINKOS_EINVAL), rt)
        else if \<not> bit_mem_rd (ev_alloc rt) no then (arg(0 := THINKOS_EINVAL), rt)
        else (let ev = clz (rbit (ev_pend rt no AND ev_mask rt no))
              in if ev < 32
                 then (arg(0 := of_nat ev),
                       rt\<lparr>ev_pend := (ev_pend rt)(no := bit_mem_wr (ev_pend rt no) ev False)\<rparr>)
                 else (arg(0 := THINKOS_ETIMEDOUT), block_self self (thinkos_tmdwq_insert wq self ms rt))))"

definition thinkos_ev_raise_svc :: "svc_arg \<Rightarrow> thinkos_rt \<Rightarrow> svc_arg \<times> thinkos_rt" where
  "thinkos_ev_raise_svc arg rt =
    (let wq = unat (arg 0);
         ev = unat (arg 1);
         no = obj_idx THINKOS_EVENT_BASE (arg 0)
     in if ev > 31 then (arg(0 := THINKOS_EINVAL), rt)
        else if no \<ge> THINKOS_EVENT_MAX then (arg(0 := THINKOS_EINVAL), rt)
        else if \<not> bit_mem_rd (ev_alloc rt) no then (arg(0 := THINKOS_EINVAL), rt)
        else (let th = thinkos_wq_head wq rt
              in if bit_mem_rd (ev_mask rt no) ev \<and> th \<noteq> THINKOS_THREAD_NULL
                 then (arg, thinkos_defer_sched (thinkos_wakeup_return wq th (of_nat ev) rt))
                 else (arg, rt\<lparr>ev_pend := (ev_pend rt)(no := bit_mem_wr (ev_pend rt no) ev True)\<rparr>)))"

text \<open>The variant for interrupt handlers, which checks no argument.\<close>

definition thinkos_ev_raise_i :: "nat \<Rightarrow> nat \<Rightarrow> thinkos_rt \<Rightarrow> thinkos_rt" where
  "thinkos_ev_raise_i wq ev rt =
    (let no = wq - THINKOS_EVENT_BASE;
         th = thinkos_wq_head wq rt
     in if bit_mem_rd (ev_mask rt no) ev \<and> th \<noteq> THINKOS_THREAD_NULL
        then thinkos_defer_sched (thinkos_wakeup_return wq th (of_nat ev) rt)
        else rt\<lparr>ev_pend := (ev_pend rt)(no := bit_mem_wr (ev_pend rt no) ev True)\<rparr>)"

definition thinkos_ev_mask_svc :: "svc_arg \<Rightarrow> thinkos_rt \<Rightarrow> svc_arg \<times> thinkos_rt" where
  "thinkos_ev_mask_svc arg rt =
    (let msk = arg 1;
         no = obj_idx THINKOS_EVENT_BASE (arg 0)
     in if no \<ge> THINKOS_EVENT_MAX then (arg(0 := THINKOS_EINVAL), rt)
        else if \<not> bit_mem_rd (ev_alloc rt) no then (arg(0 := THINKOS_EINVAL), rt)
        else (arg, rt\<lparr>ev_mask := (ev_mask rt)(no := ev_mask rt no AND NOT msk)\<rparr>))"

text \<open>One pass of the unmask loops: hand the lowest pending event of the mask to the head of the
  queue.\<close>

definition ev_deliver :: "nat \<Rightarrow> nat \<Rightarrow> nat \<Rightarrow> nat \<Rightarrow> thinkos_rt \<Rightarrow> thinkos_rt" where
  "ev_deliver no wq ev th rt =
     thinkos_wakeup_return wq th (of_nat ev)
       (rt\<lparr>ev_pend := (ev_pend rt)(no := bit_mem_wr (ev_pend rt no) ev False)\<rparr>)"

function ev_unmask_loop :: "nat \<Rightarrow> nat \<Rightarrow> u32 \<Rightarrow> thinkos_rt \<Rightarrow> thinkos_rt" where
  "ev_unmask_loop no wq msk rt =
    (let ev = clz (rbit (ev_pend rt no AND msk))
     in if ev < 32
        then (let th = thinkos_wq_head wq rt
              in if th \<noteq> THINKOS_THREAD_NULL
                 then ev_unmask_loop no wq msk (ev_deliver no wq ev th rt)
                 else rt)
        else rt)"
  by pat_completeness auto

lemma ev_deliver_pend [simp]:
  "ev_pend (ev_deliver no wq ev th rt) = (ev_pend rt)(no := bit_mem_wr (ev_pend rt no) ev False)"
  by (simp add: ev_deliver_def)

lemma pend_clear_less:
  assumes "first_bit (p AND m) < 32"
  shows "bit_mem_wr p (first_bit (p AND m)) False AND m < p AND (m :: u32)"
proof -
  have "bit (p AND m) (first_bit (p AND m))" by (rule first_bit_bit [OF assms])
  moreover have "bit_mem_wr p (first_bit (p AND m)) False AND m = unset_bit (first_bit (p AND m)) (p AND m)"
    by (rule word32_eqI) (auto simp: bit_and_iff)
  ultimately show ?thesis using unset_bit_less by metis
qed

termination ev_unmask_loop
  by (relation "measure (\<lambda>(no, wq, msk, rt). unat (ev_pend rt no AND msk))")
    (use pend_clear_less in \<open>auto simp: word_less_nat_alt [symmetric] clz_rbit\<close>)

declare ev_unmask_loop.simps [simp del]

definition thinkos_ev_unmask_svc :: "svc_arg \<Rightarrow> thinkos_rt \<Rightarrow> svc_arg \<times> thinkos_rt" where
  "thinkos_ev_unmask_svc arg rt =
    (let wq = unat (arg 0);
         msk = arg 1;
         no = obj_idx THINKOS_EVENT_BASE (arg 0)
     in if no \<ge> THINKOS_EVENT_MAX then (arg(0 := THINKOS_EINVAL), rt)
        else if \<not> bit_mem_rd (ev_alloc rt) no then (arg(0 := THINKOS_EINVAL), rt)
        else (let rt1 = rt\<lparr>ev_mask := (ev_mask rt)(no := ev_mask rt no OR msk)\<rparr>;
                  ev = clz (rbit (ev_pend rt1 no AND msk));
                  th = thinkos_wq_head wq rt1
              in if ev < 32
                 then if th \<noteq> THINKOS_THREAD_NULL
                      then (arg, ev_unmask_loop no wq msk (thinkos_defer_sched (ev_deliver no wq ev th rt1)))
                      else (arg, rt1)
                 else (arg, ev_unmask_loop no wq msk rt1)))"

lemmas event_defs [kdefs] =
  thinkos_ev_alloc_svc_def thinkos_ev_free_svc_def thinkos_ev_wait_svc_def thinkos_ev_timedwait_svc_def
  thinkos_ev_raise_svc_def thinkos_ev_mask_svc_def thinkos_ev_unmask_svc_def

section \<open>Invariant and validity\<close>

definition event_ok :: "thinkos_rt \<Rightarrow> bool" where
  "event_ok rt \<longleftrightarrow>
     (\<forall>i<8. ev_pend rt i AND ev_mask rt i \<noteq> 0 \<longrightarrow> wq_lst rt (THINKOS_EVENT_BASE + i) = 0)"

definition event_valid :: "svc_arg \<Rightarrow> thinkos_rt \<Rightarrow> bool" where
  "event_valid arg rt \<longleftrightarrow>
     obj_idx THINKOS_EVENT_BASE (arg 0) < 8 \<and> bit (ev_alloc rt) (obj_idx THINKOS_EVENT_BASE (arg 0))"

section \<open>The delivery loop\<close>

lemma ev_deliver_frame [simp]:
  "ev_mask (ev_deliver no wq ev th rt) = ev_mask rt" "ev_alloc (ev_deliver no wq ev th rt) = ev_alloc rt"
  "lock (ev_deliver no wq ev th rt) = lock rt" "sem_val (ev_deliver no wq ev th rt) = sem_val rt"
  "flag_sig (ev_deliver no wq ev th rt) = flag_sig rt" "flag_lock (ev_deliver no wq ev th rt) = flag_lock rt"
  "th_alloc (ev_deliver no wq ev th rt) = th_alloc rt" "sched_val (ev_deliver no wq ev th rt) = sched_val rt"
  "sched_pri (ev_deliver no wq ev th rt) = sched_pri rt" "sched_limit (ev_deliver no wq ev th rt) = sched_limit rt"
  "irq_th (ev_deliver no wq ev th rt) = irq_th rt" "active (ev_deliver no wq ev th rt) = active rt"
  by (simp_all add: ev_deliver_def)

lemma qbit_deliver [simp]:
  "th < 32 \<Longrightarrow> wq \<noteq> 0 \<Longrightarrow> qbit (ev_deliver no wq ev th rt) q t \<longleftrightarrow>
     (qbit rt q t \<and> \<not> (t = th \<and> (q = wq \<or> q = 4))) \<or> (t = th \<and> q = 0)"
  by (simp add: ev_deliver_def)

lemma unmask_loop_step:
  "ev_unmask_loop no wq msk rt =
    (if ev_pend rt no AND msk = 0 \<or> wq_lst rt wq = 0 then rt
     else ev_unmask_loop no wq msk
       (ev_deliver no wq (first_bit (ev_pend rt no AND msk)) (thinkos_wq_head wq rt) rt))"
  by (subst ev_unmask_loop.simps) (simp add: clz_rbit Let_def)

lemma unmask_loop_induct [case_names empty step]:
  assumes "\<And>rt. ev_pend rt no AND msk = 0 \<or> wq_lst rt wq = 0 \<Longrightarrow> P rt"
    and "\<And>rt. ev_pend rt no AND msk \<noteq> 0 \<Longrightarrow> wq_lst rt wq \<noteq> 0 \<Longrightarrow>
      P (ev_deliver no wq (first_bit (ev_pend rt no AND msk)) (thinkos_wq_head wq rt) rt) \<Longrightarrow> P rt"
  shows "P rt"
proof (induction rt rule: measure_induct_rule [of "\<lambda>rt. unat (ev_pend rt no AND msk)"])
  case (less rt)
  show ?case
  proof (cases "ev_pend rt no AND msk = 0 \<or> wq_lst rt wq = 0")
    case False
    then have "P (ev_deliver no wq (first_bit (ev_pend rt no AND msk)) (thinkos_wq_head wq rt) rt)"
      using less pend_clear_less [of "ev_pend rt no" msk] by (simp add: word_less_nat_alt)
    then show ?thesis using assms(2) False by blast
  qed (rule assms(1))
qed

lemma kinv_deliver:
  "kinv X rt \<Longrightarrow> 5 \<le> wq \<and> wq < 45 \<Longrightarrow> wq_lst rt wq \<noteq> 0 \<Longrightarrow>
   kinv X (ev_deliver no wq ev (thinkos_wq_head wq rt) rt)"
  unfolding ev_deliver_def by (intro kinv_wakeup) (simp_all add: wq_head_member)

lemma kinv_unmask_loop: "kinv X rt \<Longrightarrow> 5 \<le> wq \<and> wq < 45 \<Longrightarrow> kinv X (ev_unmask_loop no wq msk rt)"
  by (induction rt rule: unmask_loop_induct [where no = no and msk = msk and wq = wq]) (subst unmask_loop_step, simp add: kinv_deliver)+

lemma unmask_loop_same:
  assumes "\<And>ev th r. F (ev_deliver no wq ev th r) = F r"
  shows "F (ev_unmask_loop no wq msk rt) = F rt"
  using assms
  by (induction rt rule: unmask_loop_induct [where no = no and msk = msk and wq = wq])
    (subst unmask_loop_step, simp)+

lemma unmask_loop_frame [simp]:
  "ev_mask (ev_unmask_loop no wq msk rt) = ev_mask rt" "ev_alloc (ev_unmask_loop no wq msk rt) = ev_alloc rt"
  "lock (ev_unmask_loop no wq msk rt) = lock rt" "sem_val (ev_unmask_loop no wq msk rt) = sem_val rt"
  "flag_sig (ev_unmask_loop no wq msk rt) = flag_sig rt" "flag_lock (ev_unmask_loop no wq msk rt) = flag_lock rt"
  "th_alloc (ev_unmask_loop no wq msk rt) = th_alloc rt" "sched_val (ev_unmask_loop no wq msk rt) = sched_val rt"
  "sched_pri (ev_unmask_loop no wq msk rt) = sched_pri rt"
  "sched_limit (ev_unmask_loop no wq msk rt) = sched_limit rt"
  "irq_th (ev_unmask_loop no wq msk rt) = irq_th rt" "active (ev_unmask_loop no wq msk rt) = active rt"
  by (rule unmask_loop_same; simp)+

lemma unmask_loop_pend_other: "i \<noteq> no \<Longrightarrow> ev_pend (ev_unmask_loop no wq msk rt) i = ev_pend rt i"
  by (rule unmask_loop_same) simp

lemma unmask_loop_shrinks: "5 \<le> wq \<Longrightarrow> shrinks Q rt (ev_unmask_loop no wq msk rt)"
proof (induction rt rule: unmask_loop_induct [where no = no and msk = msk and wq = wq])
  case (empty rt)
  then show ?case by (subst unmask_loop_step) simp
next
  case (step rt)
  let ?d = "ev_deliver no wq (first_bit (ev_pend rt no AND msk)) (thinkos_wq_head wq rt) rt"
  have "shrinks Q rt ?d"
    unfolding ev_deliver_def using step wq_head_lt32 by (intro shrinks_wakeup) auto
  then show ?case using step by (subst unmask_loop_step) (auto intro: shrinks_trans)
qed

lemma deliver_defer: "ev_deliver no wq ev th (thinkos_defer_sched rt) = thinkos_defer_sched (ev_deliver no wq ev th rt)"
  by (simp add: ev_deliver_def thinkos_defer_sched_def thinkos_wakeup_return_def wq_wr_def ctx_set_r0_def Let_def)

lemma unmask_loop_defer:
  "ev_unmask_loop no wq msk (thinkos_defer_sched rt) = thinkos_defer_sched (ev_unmask_loop no wq msk rt)"
proof (induction rt rule: unmask_loop_induct [where no = no and msk = msk and wq = wq])
  case (empty rt)
  then show ?case by (simp add: unmask_loop_step [of no wq msk rt] unmask_loop_step [of _ _ _ "thinkos_defer_sched rt"])
next
  case (step rt)
  have "thinkos_wq_head wq (thinkos_defer_sched rt) = thinkos_wq_head wq rt" by (simp add: thinkos_wq_head_def)
  with step show ?case
    by (simp add: unmask_loop_step [of no wq msk rt] unmask_loop_step [of _ _ _ "thinkos_defer_sched rt"] deliver_defer)
qed

lemma unmask_loop_drained:
  "ev_pend (ev_unmask_loop no wq msk rt) no AND msk = 0 \<or> wq_lst (ev_unmask_loop no wq msk rt) wq = 0"
proof (induction rt rule: unmask_loop_induct [where no = no and msk = msk and wq = wq])
  case (empty rt)
  then have "ev_unmask_loop no wq msk rt = rt" by (subst unmask_loop_step) simp
  with empty show ?case by simp
next
  case (step rt)
  then have "ev_unmask_loop no wq msk rt = ev_unmask_loop no wq msk
      (ev_deliver no wq (first_bit (ev_pend rt no AND msk)) (thinkos_wq_head wq rt) rt)"
    by (subst unmask_loop_step) simp
  with step show ?case by simp
qed

lemma unmask_loop_keeps_ready:
  "qbit rt 0 u \<Longrightarrow> 5 \<le> wq \<Longrightarrow> qbit (ev_unmask_loop no wq msk rt) 0 u"
  by (induction rt rule: unmask_loop_induct [where no = no and msk = msk and wq = wq]; subst unmask_loop_step) (simp_all add: wq_head_lt32)

text \<open>Every pending event the loop clears is one of the mask and goes to one waiter: as many events
  disappear as threads leave the queue, and nothing else happens to either.\<close>

definition served :: "nat \<Rightarrow> nat \<Rightarrow> u32 \<Rightarrow> thinkos_rt \<Rightarrow> thinkos_rt \<Rightarrow> bool" where
  "served no wq msk rt rt' \<longleftrightarrow>
     {e. bit (ev_pend rt' no) e} \<subseteq> {e. bit (ev_pend rt no) e} \<and>
     {e. bit (ev_pend rt no) e} - {e. bit (ev_pend rt' no) e} \<subseteq> {e. bit msk e} \<and>
     {t. qbit rt' wq t} \<subseteq> {t. qbit rt wq t} \<and>
     card {e. bit (ev_pend rt no) e} - card {e. bit (ev_pend rt' no) e} =
       card {t. qbit rt wq t} - card {t. qbit rt' wq t} \<and>
     (\<forall>t. qbit rt wq t \<and> \<not> qbit rt' wq t \<longrightarrow> qbit rt' 0 t)"

lemma served_cong:
  "served no wq msk rt rt' \<Longrightarrow> ev_pend s = ev_pend rt \<Longrightarrow> wq_lst s = wq_lst rt \<Longrightarrow>
   ev_pend s' = ev_pend rt' \<Longrightarrow> wq_lst s' = wq_lst rt' \<Longrightarrow> served no wq msk s s'"
  by (simp add: served_def)

lemma finite_bits [simp]: "finite {t. bit (w :: u32) t}"
  by (rule finite_subset [of _ "{..<32}"]) (auto dest: word32_bit_lt)

lemma unmask_loop_served: "5 \<le> wq \<Longrightarrow> wq < 53 \<Longrightarrow> served no wq msk rt (ev_unmask_loop no wq msk rt)"
proof (induction rt rule: unmask_loop_induct [where no = no and msk = msk and wq = wq])
  case (empty rt)
  then show ?case by (subst unmask_loop_step) (auto simp: served_def)
next
  case (step rt)
  define e t where "e = first_bit (ev_pend rt no AND msk)" and "t = thinkos_wq_head wq rt"
  let ?d = "ev_deliver no wq e t rt"
  let ?r = "ev_unmask_loop no wq msk ?d"
  have e: "bit (ev_pend rt no) e" "bit msk e"
    using step.hyps first_bit_bit [of "ev_pend rt no AND msk"] by (simp_all add: e_def bit_and_iff)
  then have e32: "e < 32" by (auto dest: word32_bit_lt)
  have t: "t < 32" "qbit rt wq t"
    using step.hyps wq_head_lt32 [of rt wq] wq_head_member [of wq rt] by (simp_all add: t_def)
  have P: "{x. bit (ev_pend ?d no) x} = {x. bit (ev_pend rt no) x} - {e}" using e32 by auto
  have Q: "{u. qbit ?d wq u} = {u. qbit rt wq u} - {t}" using t step.prems by auto
  have cP: "card {x. bit (ev_pend rt no) x} = Suc (card {x. bit (ev_pend ?d no) x})"
    unfolding P using e by (metis card_Suc_Diff1 finite_bits mem_Collect_eq)
  have cQ: "card {u. qbit rt wq u} = Suc (card {u. qbit ?d wq u})"
    unfolding Q using t by (metis card_Suc_Diff1 finite_bits mem_Collect_eq)
  have ih: "served no wq msk ?d ?r" using step by (simp add: e_def t_def)
  have le: "card {x. bit (ev_pend ?r no) x} \<le> card {x. bit (ev_pend ?d no) x}"
    "card {u. qbit ?r wq u} \<le> card {u. qbit ?d wq u}"
    using ih unfolding served_def by (blast intro: card_mono finite_bits)+
  have l: "ev_unmask_loop no wq msk rt = ?r"
    using step.hyps by (subst unmask_loop_step) (simp add: e_def t_def)
  have rdy: "qbit ?r 0 u" if "qbit rt wq u" "\<not> qbit ?r wq u" for u
  proof (cases "u = t")
    case True
    then show ?thesis using t step.prems by (auto intro!: unmask_loop_keeps_ready)
  next
    case False
    then show ?thesis using ih that t step.prems by (auto simp: served_def)
  qed
  show ?case
    unfolding l served_def
  proof (intro conjI allI impI; (elim conjE)?)
    show "{x. bit (ev_pend ?r no) x} \<subseteq> {x. bit (ev_pend rt no) x}" "{u. qbit ?r wq u} \<subseteq> {u. qbit rt wq u}"
      using ih P Q unfolding served_def by blast+
    show "{x. bit (ev_pend rt no) x} - {x. bit (ev_pend ?r no) x} \<subseteq> {x. bit msk x}"
      using ih P e(2) unfolding served_def by blast
    show "card {x. bit (ev_pend rt no) x} - card {x. bit (ev_pend ?r no) x} =
        card {u. qbit rt wq u} - card {u. qbit ?r wq u}"
      using ih cP cQ le unfolding served_def by linarith
  qed (rule rdy)
qed

section \<open>Preservation of the invariants\<close>

lemma kinv_event_plain [intro]:
  assumes "kinv X rt"
  shows "kinv X (snd (thinkos_ev_alloc_svc arg rt))" "kinv X (snd (thinkos_ev_free_svc arg rt))"
    "kinv X (snd (thinkos_ev_mask_svc arg rt))"
  using assms by (simp_all add: event_defs Let_def split: prod.split)

lemma kinv_event_wait [intro]:
  assumes "kinv X rt" "\<not> pendsv rt" "active rt < 8" "active rt \<notin> X"
  shows "kinv X (snd (thinkos_ev_wait_svc arg rt))"
    and "kinv X (snd (thinkos_ev_timedwait_svc arg rt))"
  using assms kinv_block_self [OF assms] event_class.obj_wq_range [of "arg 0"]
  by (simp_all add: event_defs Let_def)

lemma kinv_event_head:
  "kinv X rt \<Longrightarrow> wq_lst rt wq \<noteq> 0 \<Longrightarrow> 5 \<le> wq \<and> wq < 45 \<Longrightarrow>
   kinv X (thinkos_wakeup_return wq (thinkos_wq_head wq rt) v rt)"
  by (intro kinv_wakeup) (simp_all add: wq_head_member)

lemma kinv_event_raise [intro]:
  assumes "kinv X rt"
  shows "kinv X (snd (thinkos_ev_raise_svc arg rt))"
  using assms kinv_event_head [OF assms, of "unat (arg 0)"] event_class.obj_wq_range [of "arg 0"]
  by (simp add: thinkos_ev_raise_svc_def Let_def)

lemma kinv_event_unmask [intro]:
  assumes "kinv X rt"
  shows "kinv X (snd (thinkos_ev_unmask_svc arg rt))"
proof -
  let ?wq = "unat (arg 0)" and ?no = "obj_idx 29 (arg 0)" and ?r = "\<lambda>m. rt\<lparr>ev_mask := m\<rparr>"
  have "kinv X (thinkos_defer_sched (ev_deliver ?no ?wq e (thinkos_wq_head ?wq (?r m)) (?r m)))"
    if "wq_lst rt ?wq \<noteq> 0" "5 \<le> ?wq \<and> ?wq < 45" for e m
    using assms that by (intro kinv_defer kinv_deliver) simp_all
  moreover have "wq_lst rt ?wq \<noteq> 0 \<longleftrightarrow> thinkos_wq_head ?wq (?r m) \<noteq> 32" for m by simp
  ultimately show ?thesis
    using assms event_class.obj_wq_range [of "arg 0"]
    by (simp add: thinkos_ev_unmask_svc_def kinv_unmask_loop Let_def)
qed

lemma event_okI_frame:
  "event_ok rt \<Longrightarrow> shrinks Q rt rt' \<Longrightarrow> Q \<inter> {29..<37} = {} \<Longrightarrow> ev_pend rt' = ev_pend rt \<Longrightarrow>
   ev_mask rt' = ev_mask rt \<Longrightarrow> event_ok rt'"
  unfolding event_ok_def word32_eq_0_iff [of "wq_lst _ _"] by (auto dest!: shrinksD)

lemma event_shrinks:
  "shrinks {29..<37} rt (snd (thinkos_ev_alloc_svc arg rt))"
  "shrinks {29..<37} rt (snd (thinkos_ev_free_svc arg rt))"
  "shrinks {29..<37} rt (snd (thinkos_ev_wait_svc arg rt))"
  "shrinks {29..<37} rt (snd (thinkos_ev_timedwait_svc arg rt))"
  "shrinks {29..<37} rt (snd (thinkos_ev_raise_svc arg rt))"
  "shrinks {29..<37} rt (snd (thinkos_ev_mask_svc arg rt))"
  using event_class.obj_wq [of "arg 0"]
  by (auto simp: event_defs Let_def wq_head_lt32 split: prod.split)

text \<open>The condition the invariant puts on one event set.\<close>

definition set_quiet :: "nat \<Rightarrow> thinkos_rt \<Rightarrow> bool" where
  "set_quiet i rt \<longleftrightarrow> ev_pend rt i AND ev_mask rt i = 0 \<or> wq_lst rt (THINKOS_EVENT_BASE + i) = 0"

lemma event_ok_quiet: "event_ok rt \<longleftrightarrow> (\<forall>i<8. set_quiet i rt)"
  by (auto simp: event_ok_def set_quiet_def)

lemma set_quiet_frame:
  assumes "set_quiet i rt" "shrinks {29 + j} rt rt'" "i \<noteq> j" "i < 8"
    "ev_pend rt' i = ev_pend rt i" "ev_mask rt' i = ev_mask rt i"
  shows "set_quiet i rt'"
  using assms shrinksD [OF assms(2), of "29 + i"] unfolding set_quiet_def word32_eq_0_iff [of "wq_lst _ _"] by auto

lemma event_okI_one:
  assumes "event_ok rt" "shrinks {29 + j} rt rt'" "set_quiet j rt'"
    "\<And>i. i \<noteq> j \<Longrightarrow> ev_pend rt' i = ev_pend rt i \<and> ev_mask rt' i = ev_mask rt i"
  shows "event_ok rt'"
  unfolding event_ok_quiet
proof (intro allI impI)
  fix i :: nat assume "i < 8"
  then show "set_quiet i rt'"
    using assms set_quiet_frame [of i rt j rt'] by (cases "i = j") (auto simp: event_ok_quiet)
qed

lemma event_ok_free: "event_ok rt \<Longrightarrow> event_ok (snd (thinkos_ev_free_svc arg rt))"
  by (simp add: event_ok_def thinkos_ev_free_svc_def Let_def)

lemma event_ok_alloc: "event_ok rt \<Longrightarrow> event_ok (snd (thinkos_ev_alloc_svc arg rt))"
  by (simp add: event_ok_def thinkos_ev_alloc_svc_def Let_def split: prod.split)

lemma event_ok_wait:
  assumes ok: "event_ok rt"
  shows "event_ok (snd (thinkos_ev_wait_svc arg rt))" "event_ok (snd (thinkos_ev_timedwait_svc arg rt))"
proof -
  have b: "event_ok (block_self t (thinkos_wq_insert (29 + i) t rt))"
    "event_ok (block_self t (thinkos_tmdwq_insert (29 + i) t ms rt))"
    if "ev_pend rt i AND ev_mask rt i = 0" for t i ms
    using that by (intro event_okI_one [OF ok, of i]; simp add: set_quiet_def)+
  have c: "event_ok (rt\<lparr>ev_pend := (ev_pend rt)(i := bit_mem_wr (ev_pend rt i) e False)\<rparr>)"
    if "ev_pend rt i AND ev_mask rt i \<noteq> 0" "i < 8" for i e
    using that ok by (intro event_okI_one [OF ok, of i]) (auto simp: set_quiet_def event_ok_def)
  show "event_ok (snd (thinkos_ev_wait_svc arg rt))" "event_ok (snd (thinkos_ev_timedwait_svc arg rt))"
    using ok b c event_class.obj_wq [of "arg 0"] by (simp_all add: event_defs clz_rbit Let_def)
qed

lemma event_ok_mask:
  assumes ok: "event_ok rt"
  shows "event_ok (snd (thinkos_ev_mask_svc arg rt))"
proof -
  have "p AND (m AND NOT k) \<noteq> 0 \<Longrightarrow> p AND m \<noteq> (0 :: u32)" for p m k
    by (metis and.assoc and_zero_eq zero_and_eq)
  then have "event_ok (rt\<lparr>ev_mask := (ev_mask rt)(i := ev_mask rt i AND NOT k)\<rparr>)" for i k
    using ok unfolding event_ok_def by (auto simp: fun_upd_apply)
  then show ?thesis using ok by (simp add: thinkos_ev_mask_svc_def Let_def)
qed

lemma event_ok_raise:
  assumes ok: "event_ok rt"
  shows "event_ok (snd (thinkos_ev_raise_svc arg rt))"
proof -
  let ?wq = "unat (arg 0)" and ?no = "obj_idx 29 (arg 0)"
  have w: "event_ok (thinkos_defer_sched (thinkos_wakeup_return ?wq (thinkos_wq_head ?wq rt) v rt))"
    if "wq_lst rt ?wq \<noteq> 0" "?no < 8" for v
    by (rule event_okI_frame [OF ok, of "{}"])
      (use that wq_head_lt32 event_class.obj_wq_range [of "arg 0"] in auto)
  have p: "event_ok (rt\<lparr>ev_pend := (ev_pend rt)(?no := bit_mem_wr (ev_pend rt ?no) e True)\<rparr>)"
    if "\<not> bit (ev_mask rt ?no) e \<or> wq_lst rt (29 + ?no) = 0" "?no < 8" for e
  proof (rule event_okI_one [OF ok, of ?no])
    have "\<not> bit (ev_mask rt ?no) e \<Longrightarrow>
        bit_mem_wr (ev_pend rt ?no) e True AND ev_mask rt ?no = ev_pend rt ?no AND ev_mask rt ?no"
      by (rule word32_eqI) (auto simp: bit_and_iff)
    then show "set_quiet ?no (rt\<lparr>ev_pend := (ev_pend rt)(?no := bit_mem_wr (ev_pend rt ?no) e True)\<rparr>)"
      using that ok by (auto simp: set_quiet_def event_ok_def)
  qed simp_all
  show ?thesis
    using ok w p event_class.obj_wq [of "arg 0"] by (auto simp: thinkos_ev_raise_svc_def Let_def)
qed

text \<open>The result of \<open>ev_unmask\<close> on a valid event set, whichever of its branches ran.\<close>

lemma unmask_result:
  assumes v: "event_valid arg rt" and no: "no = obj_idx THINKOS_EVENT_BASE (arg 0)"
  obtains r where "snd (thinkos_ev_unmask_svc arg rt) = r"
    and "ev_mask r = (ev_mask rt)(no := ev_mask rt no OR arg 1)"
    and "ev_pend r no AND arg 1 = 0 \<or> wq_lst r (29 + no) = 0"
    and "served no (29 + no) (arg 1) rt r"
    and "shrinks {} rt r" and "\<And>i. i \<noteq> no \<Longrightarrow> ev_pend r i = ev_pend rt i"
    and "\<And>F. (\<And>ev th r. F (ev_deliver no (29 + no) ev th r) = F r) \<Longrightarrow> (\<And>r. F (thinkos_defer_sched r) = F r) \<Longrightarrow>
      (\<And>m. F (rt\<lparr>ev_mask := m\<rparr>) = F rt) \<Longrightarrow> F r = F rt"
proof -
  let ?rt1 = "rt\<lparr>ev_mask := (ev_mask rt)(no := ev_mask rt no OR arg 1)\<rparr>"
  let ?e = "first_bit (ev_pend rt no AND arg 1)" and ?t = "thinkos_wq_head (29 + no) ?rt1"
  let ?L = "ev_unmask_loop no (29 + no) (arg 1)"
  have q: "no < 8" "unat (arg 0) = 29 + no" "bit (ev_alloc rt) no"
    using v no event_class.obj_wq [of "arg 0"] by (simp_all add: event_valid_def)
  define r where "r = snd (thinkos_ev_unmask_svc arg rt)"
  have r: "r = (if ev_pend rt no AND arg 1 = 0 then ?L ?rt1
      else if wq_lst rt (29 + no) = 0 then ?rt1
      else ?L (thinkos_defer_sched (ev_deliver no (29 + no) ?e ?t ?rt1)))"
    using q no by (simp add: r_def thinkos_ev_unmask_svc_def clz_rbit Let_def)
  have dfr: "?L (thinkos_defer_sched d) = thinkos_defer_sched (?L d)" for d
    by (rule unmask_loop_defer)
  have r': "r = ?L ?rt1 \<or> r = thinkos_defer_sched (?L ?rt1)"
    unfolding r dfr using unmask_loop_step [of no "29 + no" "arg 1" ?rt1] by auto
  have L: "served no (29 + no) (arg 1) ?rt1 (?L ?rt1)" using q by (intro unmask_loop_served) simp_all
  show ?thesis
  proof (rule that [of r])
    show "snd (thinkos_ev_unmask_svc arg rt) = r" by (simp add: r_def)
    show "ev_mask r = (ev_mask rt)(no := ev_mask rt no OR arg 1)" using r' by (elim disjE) simp_all
    show "ev_pend r no AND arg 1 = 0 \<or> wq_lst r (29 + no) = 0"
      using r' unmask_loop_drained [of no "29 + no" "arg 1" ?rt1] by (elim disjE) simp_all
    show "served no (29 + no) (arg 1) rt r" by (rule served_cong [OF L]) (use r' in auto)
    show "shrinks {} rt r"
      using r' unmask_loop_shrinks [of "29 + no" "{}" ?rt1] by (elim disjE) (simp_all add: shrinks_def)
    show "ev_pend r i = ev_pend rt i" if "i \<noteq> no" for i
      using r' that by (elim disjE) (simp_all add: unmask_loop_pend_other)
    show "F r = F rt" if "\<And>ev th r. F (ev_deliver no (29 + no) ev th r) = F r"
      "\<And>r. F (thinkos_defer_sched r) = F r" "\<And>m. F (rt\<lparr>ev_mask := m\<rparr>) = F rt" for F
      using r' unmask_loop_same [of F no "29 + no" "arg 1" ?rt1] that by (elim disjE) simp_all
  qed
qed

lemma unmask_invalid: "\<not> event_valid arg rt \<Longrightarrow> snd (thinkos_ev_unmask_svc arg rt) = rt"
  by (auto simp: thinkos_ev_unmask_svc_def event_valid_def Let_def)

lemma event_unmask_shrinks: "shrinks {29..<37} rt (snd (thinkos_ev_unmask_svc arg rt))"
proof (cases "event_valid arg rt")
  case True
  show ?thesis by (rule unmask_result [OF True refl]) (auto intro: shrinks_mono)
qed (simp add: unmask_invalid)

lemma event_ok_unmask:
  assumes ok: "event_ok rt"
  shows "event_ok (snd (thinkos_ev_unmask_svc arg rt))"
proof (cases "event_valid arg rt")
  case True
  define no where "no = obj_idx 29 (arg 0)"
  have no: "no < 8" using True by (simp add: event_valid_def no_def)
  show ?thesis
  proof (rule unmask_result [OF True no_def])
    fix r assume e: "snd (thinkos_ev_unmask_svc arg rt) = r"
      and m: "ev_mask r = (ev_mask rt)(no := ev_mask rt no OR arg 1)"
      and d: "ev_pend r no AND arg 1 = 0 \<or> wq_lst r (29 + no) = 0"
      and s: "served no (29 + no) (arg 1) rt r" and sh: "shrinks {} rt r"
      and p: "\<And>i. i \<noteq> no \<Longrightarrow> ev_pend r i = ev_pend rt i"
    have "set_quiet no r"
    proof (cases "wq_lst r (29 + no) = 0")
      case False
      then obtain t where "qbit r (29 + no) t" by (auto simp: word32_eq_0_iff)
      then have "wq_lst rt (29 + no) \<noteq> 0" using shrinksD [OF sh, of "29 + no" t] no by auto
      then have z: "ev_pend rt no AND ev_mask rt no = 0" using ok no by (auto simp: event_ok_def)
      have "\<not> bit (ev_pend r no AND ev_mask r no) x" for x
      proof
        assume "bit (ev_pend r no AND ev_mask r no) x"
        then have x: "bit (ev_pend r no) x" "bit (ev_mask rt no) x \<or> bit (arg 1) x"
          by (simp_all add: m bit_and_iff bit_or_iff)
        then have "bit (ev_pend rt no) x" using s by (auto simp: served_def)
        then have "bit (ev_pend rt no AND ev_mask rt no) x \<or> bit (ev_pend r no AND arg 1) x"
          using x by (auto simp: bit_and_iff)
        then show False using z d False by auto
      qed
      then show ?thesis by (simp add: set_quiet_def word32_eq_0_iff [of "ev_pend r no AND ev_mask r no"])
    qed (simp add: set_quiet_def)
    then show ?thesis
      unfolding e using sh m p
      by (intro event_okI_one [OF ok, of no]) (auto intro: shrinks_mono)
  qed
qed (simp add: unmask_invalid ok)

section \<open>Properties\<close>

text \<open>C17: raising an event loses nothing. If the event is enabled and threads wait, the one with the
  lowest number becomes ready and its call returns the event number, and the pending word does not
  change; otherwise the event becomes pending and no queue changes.\<close>

theorem ev_raise_delivers:
  assumes k: "kinv X rt" and v: "event_valid arg rt" and e: "unat (arg 1) < 32"
    and no: "no = obj_idx THINKOS_EVENT_BASE (arg 0)"
  shows "let rt' = snd (thinkos_ev_raise_svc arg rt);
             t = thinkos_wq_head (29 + no) rt
         in (if bit (ev_mask rt no) (unat (arg 1)) \<and> (\<exists>u. qbit rt (29 + no) u)
             then qbit rt (29 + no) t \<and> (\<forall>u. qbit rt (29 + no) u \<longrightarrow> t \<le> u) \<and>
               qbit rt' 0 t \<and> (\<forall>u. qbit rt' (29 + no) u = (qbit rt (29 + no) u \<and> u \<noteq> t)) \<and>
               ctx rt' t = map_option (\<lambda>c. c\<lparr>c_r0 := arg 1\<rparr>) (ctx rt t) \<and>
               ev_pend rt' = ev_pend rt \<and> pendsv rt'
             else wq_lst rt' = wq_lst rt \<and>
               (\<forall>x. bit (ev_pend rt' no) x = (bit (ev_pend rt no) x \<or> x = unat (arg 1)))) \<and>
            kinv X rt'"
proof -
  have q: "no < 8" "unat (arg 0) = 29 + no" "bit (ev_alloc rt) no"
    using v no event_class.obj_wq [of "arg 0"] by (simp_all add: event_valid_def)
  have kk: "kinv X (snd (thinkos_ev_raise_svc arg rt))" by (rule kinv_event_raise [OF k])
  have nz: "(\<exists>u. qbit rt (29 + no) u) \<longleftrightarrow> wq_lst rt (29 + no) \<noteq> 0" by (auto simp: word32_eq_0_iff)
  show ?thesis
  proof (cases "bit (ev_mask rt no) (unat (arg 1)) \<and> wq_lst rt (29 + no) \<noteq> 0")
    case True
    have "ctx (thinkos_wakeup_return (29 + no) t v rt) t = map_option (\<lambda>c. c\<lparr>c_r0 := v\<rparr>) (ctx rt t)" for t v
      by (simp add: thinkos_wakeup_return_def ctx_set_r0_def Let_def)
    then show ?thesis
      using True q no kk e nz wq_head_lt32 [of rt "29 + no"] wq_head_member [of "29 + no" rt] wq_head_le [of rt "29 + no"]
      by (auto simp: thinkos_ev_raise_svc_def Let_def)
  next
    case False
    then show ?thesis
      using q no kk e nz by (auto simp: thinkos_ev_raise_svc_def Let_def)
  qed
qed

lemma boot_ev_valid: "event_valid ((\<lambda>_. 29)(1 := 4)) (boot_rt\<lparr>ev_alloc := 1\<rparr>)"
  by (simp add: event_valid_def obj_idx_def)

theorem ev_raise_delivers_witness:
  "\<forall>x. bit (ev_pend (snd (thinkos_ev_raise_svc ((\<lambda>_. 29)(1 := 4)) (boot_rt\<lparr>ev_alloc := 1\<rparr>))) 0) x = (x = 4)"
  using ev_raise_delivers [of "{}" "boot_rt\<lparr>ev_alloc := 1\<rparr>" "(\<lambda>_. 29)(1 := 4)" 0] boot_ev_valid
  by (simp add: kinv_boot obj_idx_def Let_def)

text \<open>C18: enabling events serves waiting threads. Afterwards either no enabled event of the given mask is
  pending or nobody waits; every event taken from the pending word belongs to the mask, and exactly as
  many threads leave the queue, all of them ready, as events are taken. The service always ends.\<close>

theorem ev_unmask_serves:
  assumes "kinv X rt" and v: "event_valid arg rt" and no: "no = obj_idx THINKOS_EVENT_BASE (arg 0)"
  shows "let rt' = snd (thinkos_ev_unmask_svc arg rt)
         in (ev_pend rt' no AND arg 1 = 0 \<or> wq_lst rt' (29 + no) = 0) \<and>
            {e. bit (ev_pend rt no) e} - {e. bit (ev_pend rt' no) e} \<subseteq> {e. bit (arg 1) e} \<and>
            {e. bit (ev_pend rt' no) e} \<subseteq> {e. bit (ev_pend rt no) e} \<and>
            card {e. bit (ev_pend rt no) e} - card {e. bit (ev_pend rt' no) e} =
              card {t. qbit rt (29 + no) t} - card {t. qbit rt' (29 + no) t} \<and>
            (\<forall>t. qbit rt (29 + no) t \<and> \<not> qbit rt' (29 + no) t \<longrightarrow> qbit rt' 0 t) \<and>
            ev_mask rt' no = ev_mask rt no OR arg 1 \<and> kinv X rt'"
proof (rule unmask_result [OF v no])
  fix r assume "snd (thinkos_ev_unmask_svc arg rt) = r"
    and "ev_mask r = (ev_mask rt)(no := ev_mask rt no OR arg 1)"
    and "ev_pend r no AND arg 1 = 0 \<or> wq_lst r (29 + no) = 0"
    and "served no (29 + no) (arg 1) rt r"
  then show ?thesis
    using kinv_event_unmask [OF assms(1), of arg] by (simp add: served_def Let_def)
qed

theorem ev_unmask_serves_witness:
  "ev_mask (snd (thinkos_ev_unmask_svc ((\<lambda>_. 29)(1 := 4)) (boot_rt\<lparr>ev_alloc := 1, ev_mask := \<lambda>_. 0\<rparr>))) 0 = 4"
  using ev_unmask_serves [of "{}" "boot_rt\<lparr>ev_alloc := 1, ev_mask := \<lambda>_. 0\<rparr>" "(\<lambda>_. 29)(1 := 4)" 0]
  by (simp add: kinv_boot event_valid_def obj_idx_def Let_def)

end
