(* ===== verification/ThinkOS_Flag.thy ===== *)
theory ThinkOS_Flag
  imports ThinkOS_Wake
begin

text \<open>
  The flag services of ThinkOS (\<^verbatim>\<open>src/src/sdk/libthinkos/thinkos_flag.c\<close>). A flag has a signal bit, a lock
  bit that \<open>flag_wait\<close> sets and \<open>flag_release\<close> clears, and a queue. The invariant says that nobody waits
  for a flag that is signalled and not locked.
\<close>

section \<open>Services\<close>

definition thinkos_flag_alloc_svc :: "svc_arg \<Rightarrow> thinkos_rt \<Rightarrow> svc_arg \<times> thinkos_rt" where
  "thinkos_flag_alloc_svc arg rt =
    (case thinkos_bmp_alloc [flag_alloc rt] THINKOS_FLAG_MAX of (idx, bmp) \<Rightarrow>
      (let rt1 = rt\<lparr>flag_alloc := bmp ! 0\<rparr>
       in if idx \<ge> 0
          then (arg(0 := of_int idx + of_nat THINKOS_FLAG_BASE),
                rt1\<lparr>flag_sig := bit_mem_wr (flag_sig rt1) (nat idx) False,
                    flag_lock := bit_mem_wr (flag_lock rt1) (nat idx) False\<rparr>)
          else (arg(0 := of_int idx), rt1)))"

definition thinkos_flag_free_svc :: "svc_arg \<Rightarrow> thinkos_rt \<Rightarrow> svc_arg \<times> thinkos_rt" where
  "thinkos_flag_free_svc arg rt =
    (let idx = obj_idx THINKOS_FLAG_BASE (arg 0)
     in if idx \<ge> THINKOS_FLAG_MAX then (arg(0 := THINKOS_EINVAL), rt)
        else (arg, rt\<lparr>flag_alloc := bit_mem_wr (flag_alloc rt) idx False\<rparr>))"

definition thinkos_flag_wait_svc :: "svc_arg \<Rightarrow> thinkos_rt \<Rightarrow> svc_arg \<times> thinkos_rt" where
  "thinkos_flag_wait_svc arg rt =
    (let wq = unat (arg 0);
         self = active rt;
         idx = obj_idx THINKOS_FLAG_BASE (arg 0)
     in if idx \<ge> THINKOS_FLAG_MAX then (arg(0 := THINKOS_EINVAL), rt)
        else if \<not> bit_mem_rd (flag_alloc rt) idx then (arg(0 := THINKOS_EINVAL), rt)
        else if bit_mem_rd (flag_sig rt) idx \<and> \<not> bit_mem_rd (flag_lock rt) idx
        then (arg(0 := 0),
              rt\<lparr>flag_lock := bit_mem_wr (flag_lock rt) idx True,
                 flag_sig := bit_mem_wr (flag_sig rt) idx False\<rparr>)
        else (arg, thinkos_wait self (thinkos_wq_insert wq self rt)))"

definition thinkos_flag_timedwait_svc :: "svc_arg \<Rightarrow> thinkos_rt \<Rightarrow> svc_arg \<times> thinkos_rt" where
  "thinkos_flag_timedwait_svc arg rt =
    (let wq = unat (arg 0);
         ms = arg 1;
         self = active rt;
         idx = obj_idx THINKOS_FLAG_BASE (arg 0)
     in if idx \<ge> THINKOS_FLAG_MAX then (arg(0 := THINKOS_EINVAL), rt)
        else if \<not> bit_mem_rd (flag_alloc rt) idx then (arg(0 := THINKOS_EINVAL), rt)
        else if bit_mem_rd (flag_sig rt) idx \<and> \<not> bit_mem_rd (flag_lock rt) idx
        then (arg(0 := 0),
              rt\<lparr>flag_lock := bit_mem_wr (flag_lock rt) idx True,
                 flag_sig := bit_mem_wr (flag_sig rt) idx False\<rparr>)
        else (arg(0 := THINKOS_ETIMEDOUT), thinkos_wait self (thinkos_tmdwq_insert wq self ms rt)))"

definition thinkos_flag_release_svc :: "svc_arg \<Rightarrow> thinkos_rt \<Rightarrow> svc_arg \<times> thinkos_rt" where
  "thinkos_flag_release_svc arg rt =
    (let wq = unat (arg 0);
         sig = arg 1;
         idx = obj_idx THINKOS_FLAG_BASE (arg 0)
     in if idx \<ge> THINKOS_FLAG_MAX then (arg(0 := THINKOS_EINVAL), rt)
        else if \<not> bit_mem_rd (flag_alloc rt) idx then (arg(0 := THINKOS_EINVAL), rt)
        else (let rt1 = rt\<lparr>flag_lock := bit_mem_wr (flag_lock rt) idx False\<rparr>;
                  rt2 = (if sig \<noteq> 0 then rt1\<lparr>flag_sig := bit_mem_wr (flag_sig rt1) idx True\<rparr> else rt1)
              in if \<not> bit_mem_rd (flag_sig rt2) idx then (arg(0 := 0), rt2)
                 else (let th = thinkos_wq_head wq rt2
                       in if th = THINKOS_THREAD_NULL then (arg(0 := 0), rt2)
                          else (let rt3 = thinkos_wakeup wq th rt2;
                                    rt4 = rt3\<lparr>flag_sig := bit_mem_wr (flag_sig rt3) idx False\<rparr>;
                                    rt5 = rt4\<lparr>flag_lock := bit_mem_wr (flag_lock rt4) idx True\<rparr>
                                in (arg(0 := 0), thinkos_defer_sched rt5)))))"

definition thinkos_flag_take_svc :: "svc_arg \<Rightarrow> thinkos_rt \<Rightarrow> svc_arg \<times> thinkos_rt" where
  "thinkos_flag_take_svc arg rt =
    (let wq = unat (arg 0);
         self = active rt;
         idx = obj_idx THINKOS_FLAG_BASE (arg 0)
     in if idx \<ge> THINKOS_FLAG_MAX then (arg(0 := THINKOS_EINVAL), rt)
        else if \<not> bit_mem_rd (flag_alloc rt) idx then (arg(0 := THINKOS_EINVAL), rt)
        else if bit_mem_rd (flag_sig rt) idx
        then (arg(0 := 0), rt\<lparr>flag_sig := bit_mem_wr (flag_sig rt) idx False\<rparr>)
        else (arg, thinkos_wait self (thinkos_wq_insert wq self rt)))"

definition thinkos_flag_timedtake_svc :: "svc_arg \<Rightarrow> thinkos_rt \<Rightarrow> svc_arg \<times> thinkos_rt" where
  "thinkos_flag_timedtake_svc arg rt =
    (let wq = unat (arg 0);
         ms = arg 1;
         self = active rt;
         idx = obj_idx THINKOS_FLAG_BASE (arg 0)
     in if idx \<ge> THINKOS_FLAG_MAX then (arg(0 := THINKOS_EINVAL), rt)
        else if \<not> bit_mem_rd (flag_alloc rt) idx then (arg(0 := THINKOS_EINVAL), rt)
        else if bit_mem_rd (flag_sig rt) idx
        then (arg(0 := 0), rt\<lparr>flag_sig := bit_mem_wr (flag_sig rt) idx False\<rparr>)
        else (arg(0 := THINKOS_ETIMEDOUT), thinkos_wait self (thinkos_tmdwq_insert wq self ms rt)))"

definition thinkos_flag_give_svc :: "svc_arg \<Rightarrow> thinkos_rt \<Rightarrow> svc_arg \<times> thinkos_rt" where
  "thinkos_flag_give_svc arg rt =
    (let wq = unat (arg 0);
         idx = obj_idx THINKOS_FLAG_BASE (arg 0)
     in if idx \<ge> THINKOS_FLAG_MAX then (arg(0 := THINKOS_EINVAL), rt)
        else if \<not> bit_mem_rd (flag_alloc rt) idx then (arg(0 := THINKOS_EINVAL), rt)
        else if bit_mem_rd (flag_sig rt) idx then (arg(0 := 1), rt)
        else (let th = thinkos_wq_head wq rt
              in if th = THINKOS_THREAD_NULL
                 then (arg(0 := 0), rt\<lparr>flag_sig := bit_mem_wr (flag_sig rt) idx True\<rparr>)
                 else (arg(0 := 0), thinkos_defer_sched (thinkos_wakeup wq th rt))))"

definition thinkos_flag_clr_svc :: "svc_arg \<Rightarrow> thinkos_rt \<Rightarrow> svc_arg \<times> thinkos_rt" where
  "thinkos_flag_clr_svc arg rt =
    (let idx = obj_idx THINKOS_FLAG_BASE (arg 0)
     in if idx \<ge> THINKOS_FLAG_MAX then (arg(0 := THINKOS_EINVAL), rt)
        else if \<not> bit_mem_rd (flag_alloc rt) idx then (arg(0 := THINKOS_EINVAL), rt)
        else (arg(0 := of_bool (bit_mem_rd (flag_sig rt) idx)),
              rt\<lparr>flag_sig := bit_mem_wr (flag_sig rt) idx False\<rparr>))"

definition thinkos_flag_set_svc :: "svc_arg \<Rightarrow> thinkos_rt \<Rightarrow> svc_arg \<times> thinkos_rt" where
  "thinkos_flag_set_svc arg rt =
    (let wq = unat (arg 0);
         idx = obj_idx THINKOS_FLAG_BASE (arg 0)
     in if idx \<ge> THINKOS_FLAG_MAX then (arg(0 := THINKOS_EINVAL), rt)
        else if \<not> bit_mem_rd (flag_alloc rt) idx then (arg(0 := THINKOS_EINVAL), rt)
        else (let arg' = arg(0 := of_bool (bit_mem_rd (flag_sig rt) idx));
                  rt1 = rt\<lparr>flag_sig := bit_mem_wr (flag_sig rt) idx True\<rparr>;
                  th = thinkos_wq_head wq rt1
              in if th \<noteq> THINKOS_THREAD_NULL
                 then (arg', thinkos_defer_sched (wakeup_all wq (thinkos_wakeup wq th rt1)))
                 else (arg', rt1)))"

text \<open>The variants for interrupt handlers (\<^verbatim>\<open>src/src/sdk/include/thinkos_irq.h\<close>).\<close>

definition thinkos_flag_give_i :: "nat \<Rightarrow> thinkos_rt \<Rightarrow> thinkos_rt" where
  "thinkos_flag_give_i flag rt =
    (if \<not> bit_mem_rd (flag_sig rt) (flag - THINKOS_FLAG_BASE)
     then (let th = thinkos_wq_head flag rt
           in if th \<noteq> THINKOS_THREAD_NULL then thinkos_defer_sched (thinkos_wakeup flag th rt)
              else rt\<lparr>flag_sig := bit_mem_wr (flag_sig rt) (flag - THINKOS_FLAG_BASE) True\<rparr>)
     else rt)"

definition thinkos_flag_clr_i :: "nat \<Rightarrow> thinkos_rt \<Rightarrow> thinkos_rt" where
  "thinkos_flag_clr_i flag rt =
     rt\<lparr>flag_sig := bit_mem_wr (flag_sig rt) (flag - THINKOS_FLAG_BASE) False\<rparr>"

definition thinkos_flag_set_i :: "nat \<Rightarrow> thinkos_rt \<Rightarrow> thinkos_rt" where
  "thinkos_flag_set_i flag rt =
    (let rt1 = rt\<lparr>flag_sig := bit_mem_wr (flag_sig rt) (flag - THINKOS_FLAG_BASE) True\<rparr>;
         th = thinkos_wq_head flag rt1
     in if th \<noteq> THINKOS_THREAD_NULL
        then thinkos_defer_sched (wakeup_all flag (thinkos_wakeup flag th rt1))
        else rt1)"

lemmas flag_defs [kdefs] =
  thinkos_flag_alloc_svc_def thinkos_flag_free_svc_def thinkos_flag_wait_svc_def
  thinkos_flag_timedwait_svc_def thinkos_flag_release_svc_def thinkos_flag_take_svc_def
  thinkos_flag_timedtake_svc_def thinkos_flag_give_svc_def thinkos_flag_clr_svc_def thinkos_flag_set_svc_def

section \<open>Invariant and validity\<close>

definition flag_ok :: "thinkos_rt \<Rightarrow> bool" where
  "flag_ok rt \<longleftrightarrow>
     (\<forall>i<8. bit (flag_sig rt) i \<and> \<not> bit (flag_lock rt) i \<longrightarrow> wq_lst rt (THINKOS_FLAG_BASE + i) = 0)"

definition flag_valid :: "svc_arg \<Rightarrow> thinkos_rt \<Rightarrow> bool" where
  "flag_valid arg rt \<longleftrightarrow>
     obj_idx THINKOS_FLAG_BASE (arg 0) < 8 \<and> bit (flag_alloc rt) (obj_idx THINKOS_FLAG_BASE (arg 0))"

section \<open>Waking everyone\<close>

interpretation flag_wake: wake_loop
  "thinkos_wakeup (THINKOS_FLAG_BASE + i mod 8)" "wakeup_all (THINKOS_FLAG_BASE + i mod 8)"
  "THINKOS_FLAG_BASE + i mod 8" 0 for i
  by (rule wakeup_all_loop) simp_all

lemma flag_set_eq:
  assumes "flag_valid arg rt" "i = obj_idx THINKOS_FLAG_BASE (arg 0)"
  shows "thinkos_flag_set_svc arg rt =
    (arg(0 := of_bool (bit (flag_sig rt) i)),
     (if wq_lst rt (37 + i) = 0 then id else thinkos_defer_sched)
       (wakeup_all (37 + i mod 8) (rt\<lparr>flag_sig := bit_mem_wr (flag_sig rt) i True\<rparr>)))"
proof -
  let ?r = "rt\<lparr>flag_sig := bit_mem_wr (flag_sig rt) i True\<rparr>"
  have q: "i < 8" "unat (arg 0) = 37 + i" "bit (flag_alloc rt) i"
    using assms flag_class.obj_wq [of "arg 0"] by (simp_all add: flag_valid_def)
  have "wakeup_all (37 + i mod 8) ?r =
      (if wq_lst rt (37 + i) = 0 then ?r else wakeup_all (37 + i) (thinkos_wakeup (37 + i) (thinkos_wq_head (37 + i) ?r) ?r))"
    using flag_wake.loop_unfold [of i ?r] q by simp
  then show ?thesis using assms q by (simp add: thinkos_flag_set_svc_def Let_def)
qed

lemma flag_invalid:
  "\<not> flag_valid arg rt \<Longrightarrow> thinkos_flag_set_svc arg rt = (arg(0 := THINKOS_EINVAL), rt)"
  by (auto simp: thinkos_flag_set_svc_def flag_valid_def Let_def)

section \<open>Preservation of the kernel invariant\<close>

lemma kinv_flag_plain [intro]:
  assumes "kinv X rt"
  shows "kinv X (snd (thinkos_flag_alloc_svc arg rt))" "kinv X (snd (thinkos_flag_free_svc arg rt))"
    "kinv X (snd (thinkos_flag_clr_svc arg rt))"
  using assms by (simp_all add: flag_defs Let_def split: prod.split)

lemma kinv_flag_wait [intro]:
  assumes "kinv X rt" "\<not> pendsv rt" "active rt < 8" "active rt \<notin> X"
  shows "kinv X (snd (thinkos_flag_wait_svc arg rt))"
    and "kinv X (snd (thinkos_flag_timedwait_svc arg rt))"
    and "kinv X (snd (thinkos_flag_take_svc arg rt))"
    and "kinv X (snd (thinkos_flag_timedtake_svc arg rt))"
  using assms kinv_obj_block [OF assms] flag_class.obj_wq_range [of "arg 0"]
  by (simp_all add: flag_defs Let_def)

lemma kinv_head:
  "kinv X rt \<Longrightarrow> wq_lst rt wq \<noteq> 0 \<Longrightarrow> 5 \<le> wq \<and> wq < 45 \<Longrightarrow> kinv X (thinkos_wakeup wq (thinkos_wq_head wq rt) rt)"
  by (intro kinv_wakeup) (simp_all add: wq_head_member)

lemma kinv_flag_give [intro]:
  assumes "kinv X rt"
  shows "kinv X (snd (thinkos_flag_give_svc arg rt))"
  using assms kinv_head [OF assms, of "unat (arg 0)"] flag_class.obj_wq_range [of "arg 0"]
  by (simp add: thinkos_flag_give_svc_def Let_def)

lemma kinv_flag_release [intro]:
  assumes "kinv X rt"
  shows "kinv X (snd (thinkos_flag_release_svc arg rt))"
proof -
  let ?wq = "unat (arg 0)"
  have "kinv X (thinkos_wakeup ?wq (thinkos_wq_head ?wq r) r)"
    if "obj_idx 37 (arg 0) < 8" "wq_lst r ?wq \<noteq> 0" "kinv X r" for r
    using that flag_class.obj_wq_range [of "arg 0"] by (intro kinv_head) simp_all
  then show ?thesis
    using assms by (simp add: thinkos_flag_release_svc_def Let_def)
qed

lemma kinv_flag_set [intro]:
  assumes "kinv X rt"
  shows "kinv X (snd (thinkos_flag_set_svc arg rt))"
proof (cases "flag_valid arg rt")
  case True
  show ?thesis using assms flag_wake.loop_kinv by (simp add: flag_set_eq [OF True refl])
qed (simp add: flag_invalid assms)

section \<open>The flag invariant\<close>

lemma flag_okI_frame:
  "flag_ok rt \<Longrightarrow> shrinks Q rt rt' \<Longrightarrow> Q \<inter> {37..<45} = {} \<Longrightarrow> flag_sig rt' = flag_sig rt \<Longrightarrow>
   flag_lock rt' = flag_lock rt \<Longrightarrow> flag_ok rt'"
  unfolding flag_ok_def word32_eq_0_iff [of "wq_lst _ _"] by (auto dest!: shrinksD)

lemma flag_okI_one:
  assumes "flag_ok rt" "shrinks {37 + j} rt rt'"
    "bit (flag_sig rt') j \<and> \<not> bit (flag_lock rt') j \<longrightarrow> wq_lst rt' (37 + j) = 0"
    "\<And>i. i \<noteq> j \<Longrightarrow> bit (flag_sig rt') i = bit (flag_sig rt) i \<and> bit (flag_lock rt') i = bit (flag_lock rt) i"
  shows "flag_ok rt'"
  unfolding flag_ok_def
proof (intro allI impI)
  fix i :: nat assume i: "i < 8" "bit (flag_sig rt') i \<and> \<not> bit (flag_lock rt') i"
  show "wq_lst rt' (37 + i) = 0"
  proof (cases "i = j")
    case False
    then have "wq_lst rt (37 + i) = 0" using assms(1,4) i by (auto simp: flag_ok_def)
    then show ?thesis
      using shrinksD [OF assms(2), of "37 + i"] i False by (auto simp: word32_eq_0_iff)
  qed (use assms(3) i in simp)
qed

lemma flag_ok_free: "flag_ok rt \<Longrightarrow> flag_ok (snd (thinkos_flag_free_svc arg rt))"
  by (simp add: flag_ok_def thinkos_flag_free_svc_def Let_def)

lemma flag_ok_alloc: "flag_ok rt \<Longrightarrow> flag_ok (snd (thinkos_flag_alloc_svc arg rt))"
  by (simp add: flag_ok_def thinkos_flag_alloc_svc_def Let_def split: prod.split)

lemma flag_ok_clr: "flag_ok rt \<Longrightarrow> flag_ok (snd (thinkos_flag_clr_svc arg rt))"
  by (simp add: flag_ok_def thinkos_flag_clr_svc_def Let_def)

lemma flag_shrinks:
  "shrinks {37..<45} rt (snd (thinkos_flag_alloc_svc arg rt))"
  "shrinks {37..<45} rt (snd (thinkos_flag_free_svc arg rt))"
  "shrinks {37..<45} rt (snd (thinkos_flag_wait_svc arg rt))"
  "shrinks {37..<45} rt (snd (thinkos_flag_timedwait_svc arg rt))"
  "shrinks {37..<45} rt (snd (thinkos_flag_take_svc arg rt))"
  "shrinks {37..<45} rt (snd (thinkos_flag_timedtake_svc arg rt))"
  "shrinks {37..<45} rt (snd (thinkos_flag_give_svc arg rt))"
  "shrinks {37..<45} rt (snd (thinkos_flag_clr_svc arg rt))"
  using flag_class.obj_wq [of "arg 0"]
  by (auto simp: flag_defs Let_def wq_head_lt32 split: prod.split)

lemma shrinks_upd [simp]:
  "shrinks Q rt (rt'\<lparr>flag_sig := s\<rparr>) = shrinks Q rt rt'" "shrinks Q rt (rt'\<lparr>flag_lock := l\<rparr>) = shrinks Q rt rt'"
  "shrinks Q (rt\<lparr>flag_sig := s\<rparr>) rt' = shrinks Q rt rt'" "shrinks Q (rt\<lparr>flag_lock := l\<rparr>) rt' = shrinks Q rt rt'"
  by (simp_all add: shrinks_def)

lemma flag_release_shrinks: "shrinks {37..<45} rt (snd (thinkos_flag_release_svc arg rt))"
  using flag_class.obj_wq [of "arg 0"]
  by (auto simp: thinkos_flag_release_svc_def Let_def wq_head_lt32)

lemma flag_set_shrinks: "shrinks Q rt (snd (thinkos_flag_set_svc arg rt))"
proof (cases "flag_valid arg rt")
  case True
  have "shrinks Q rt (wakeup_all (37 + i mod 8) (rt\<lparr>flag_sig := s\<rparr>))" for i s
    using flag_wake.loop_shrinks [of Q "rt\<lparr>flag_sig := s\<rparr>" i] by simp
  then show ?thesis by (simp add: flag_set_eq [OF True refl])
qed (simp add: flag_invalid)

lemma flag_ok_wait:
  assumes ok: "flag_ok rt"
  shows "flag_ok (snd (thinkos_flag_wait_svc arg rt))" "flag_ok (snd (thinkos_flag_timedwait_svc arg rt))"
    "flag_ok (snd (thinkos_flag_take_svc arg rt))" "flag_ok (snd (thinkos_flag_timedtake_svc arg rt))"
proof -
  have b: "flag_ok (thinkos_wait t (thinkos_wq_insert (37 + i) t rt))"
    "flag_ok (thinkos_wait t (thinkos_tmdwq_insert (37 + i) t ms rt))"
    if "\<not> (bit (flag_sig rt) i \<and> \<not> bit (flag_lock rt) i)" for t i ms
    using that by (intro flag_okI_one [OF ok, of i]; auto)+
  have c: "flag_ok (rt\<lparr>flag_sig := bit_mem_wr (flag_sig rt) i False\<rparr>)"
    "flag_ok (rt\<lparr>flag_sig := bit_mem_wr (flag_sig rt) i False, flag_lock := bit_mem_wr (flag_lock rt) i True\<rparr>)"
    "flag_ok (rt\<lparr>flag_lock := bit_mem_wr (flag_lock rt) i True, flag_sig := bit_mem_wr (flag_sig rt) i False\<rparr>)" for i
    using ok by (simp_all add: flag_ok_def)
  show "flag_ok (snd (thinkos_flag_wait_svc arg rt))" "flag_ok (snd (thinkos_flag_timedwait_svc arg rt))"
    "flag_ok (snd (thinkos_flag_take_svc arg rt))" "flag_ok (snd (thinkos_flag_timedtake_svc arg rt))"
    using ok b c flag_class.obj_wq [of "arg 0"] by (simp_all add: flag_defs Let_def)
qed

lemma flag_ok_give:
  assumes ok: "flag_ok rt"
  shows "flag_ok (snd (thinkos_flag_give_svc arg rt))"
proof -
  let ?wq = "unat (arg 0)"
  have w: "flag_ok (thinkos_defer_sched (thinkos_wakeup ?wq (thinkos_wq_head ?wq rt) rt))"
    if "wq_lst rt ?wq \<noteq> 0" "obj_idx 37 (arg 0) < 8"
    by (rule flag_okI_frame [OF ok, of "{}"])
      (use that wq_head_lt32 flag_class.obj_wq_range [of "arg 0"] in auto)
  have s: "flag_ok (rt\<lparr>flag_sig := bit_mem_wr (flag_sig rt) i True\<rparr>)" if "wq_lst rt (37 + i) = 0" for i
    using ok that by (intro flag_okI_one [OF ok, of i]) simp_all
  show ?thesis
    using ok w s flag_class.obj_wq [of "arg 0"] by (simp add: thinkos_flag_give_svc_def Let_def)
qed

lemma flag_ok_release:
  assumes ok: "flag_ok rt"
  shows "flag_ok (snd (thinkos_flag_release_svc arg rt))"
proof (cases "flag_valid arg rt")
  case True
  define i where "i = obj_idx 37 (arg 0)"
  have q: "i < 8" "unat (arg 0) = 37 + i" using True flag_class.obj_wq [of "arg 0"] by (simp_all add: flag_valid_def i_def)
  show ?thesis
  proof (rule flag_okI_one [OF ok, of i])
    show "shrinks {37 + i} rt (snd (thinkos_flag_release_svc arg rt))"
      using q by (auto simp: thinkos_flag_release_svc_def Let_def wq_head_lt32 i_def)
  qed (use True q in \<open>auto simp: thinkos_flag_release_svc_def flag_valid_def Let_def i_def\<close>)
next
  case False
  then have "snd (thinkos_flag_release_svc arg rt) = rt"
    by (auto simp: thinkos_flag_release_svc_def flag_valid_def Let_def)
  then show ?thesis using ok by simp
qed

lemma flag_set_fields:
  assumes "flag_valid arg rt" "i = obj_idx THINKOS_FLAG_BASE (arg 0)"
  shows "flag_sig (snd (thinkos_flag_set_svc arg rt)) = bit_mem_wr (flag_sig rt) i True"
    and "flag_lock (snd (thinkos_flag_set_svc arg rt)) = flag_lock rt"
    and "lock (snd (thinkos_flag_set_svc arg rt)) = lock rt"
    and "sem_val (snd (thinkos_flag_set_svc arg rt)) = sem_val rt"
    and "ev_pend (snd (thinkos_flag_set_svc arg rt)) = ev_pend rt"
    and "ev_mask (snd (thinkos_flag_set_svc arg rt)) = ev_mask rt"
    and "sched_val (snd (thinkos_flag_set_svc arg rt)) = sched_val rt"
    and "sched_pri (snd (thinkos_flag_set_svc arg rt)) = sched_pri rt"
    and "sched_limit (snd (thinkos_flag_set_svc arg rt)) = sched_limit rt"
    and "irq_th (snd (thinkos_flag_set_svc arg rt)) = irq_th rt"
    and "active (snd (thinkos_flag_set_svc arg rt)) = active rt"
proof -
  define r where "r = wakeup_all (37 + i mod 8) (rt\<lparr>flag_sig := bit_mem_wr (flag_sig rt) i True\<rparr>)"
  have "\<exists>c w s. r = rt\<lparr>flag_sig := bit_mem_wr (flag_sig rt) i True, ctx := c, wq_lst := w, th_stat := s\<rparr>"
    unfolding r_def
    by (intro exI) (rule trans [OF flag_wake.loop_rest], rule refl)
  then obtain c w s where
    r: "r = rt\<lparr>flag_sig := bit_mem_wr (flag_sig rt) i True, ctx := c, wq_lst := w, th_stat := s\<rparr>" by blast
  show "flag_sig (snd (thinkos_flag_set_svc arg rt)) = bit_mem_wr (flag_sig rt) i True"
    "flag_lock (snd (thinkos_flag_set_svc arg rt)) = flag_lock rt"
    "lock (snd (thinkos_flag_set_svc arg rt)) = lock rt"
    "sem_val (snd (thinkos_flag_set_svc arg rt)) = sem_val rt"
    "ev_pend (snd (thinkos_flag_set_svc arg rt)) = ev_pend rt"
    "ev_mask (snd (thinkos_flag_set_svc arg rt)) = ev_mask rt"
    "sched_val (snd (thinkos_flag_set_svc arg rt)) = sched_val rt"
    "sched_pri (snd (thinkos_flag_set_svc arg rt)) = sched_pri rt"
    "sched_limit (snd (thinkos_flag_set_svc arg rt)) = sched_limit rt"
    "irq_th (snd (thinkos_flag_set_svc arg rt)) = irq_th rt"
    "active (snd (thinkos_flag_set_svc arg rt)) = active rt"
    by (simp_all add: flag_set_eq [OF assms] r_def [symmetric] r)
qed

lemma flag_ok_set:
  assumes ok: "flag_ok rt"
  shows "flag_ok (snd (thinkos_flag_set_svc arg rt))"
proof (cases "flag_valid arg rt")
  case True
  define i where "i = obj_idx 37 (arg 0)"
  have i: "i < 8" using True by (simp add: flag_valid_def i_def)
  have "wq_lst (snd (thinkos_flag_set_svc arg rt)) (37 + i) = 0"
    using flag_wake.loop_empties [of i "rt\<lparr>flag_sig := bit_mem_wr (flag_sig rt) i True\<rparr>"] i
    by (simp add: flag_set_eq [OF True i_def])
  then show ?thesis
    by (intro flag_okI_one [OF ok, of i])
      (use flag_set_shrinks in \<open>auto simp: flag_set_fields(1,2) [OF True i_def]\<close>)
qed (simp add: flag_invalid ok)

section \<open>Properties\<close>

text \<open>C19: \<open>flag_set\<close> wakes everybody. It returns the previous state of the flag and leaves the flag set;
  every thread that waited is ready with result 0, the queue is empty, no other queue but the clock
  loses a thread, and the kernel invariant is kept.\<close>

theorem flag_set_wakes_all:
  assumes k: "kinv X rt" and v: "flag_valid arg rt" and i: "i = obj_idx THINKOS_FLAG_BASE (arg 0)"
  shows "let rt' = snd (thinkos_flag_set_svc arg rt)
         in fst (thinkos_flag_set_svc arg rt) 0 = of_bool (bit (flag_sig rt) i) \<and>
            bit (flag_sig rt') i \<and> wq_lst rt' (37 + i) = 0 \<and>
            (\<forall>t. qbit rt (37 + i) t \<longrightarrow> qbit rt' 0 t \<and> ctx rt' t = map_option (\<lambda>c. c\<lparr>c_r0 := 0\<rparr>) (ctx rt t)) \<and>
            (\<forall>q t. \<not> qbit rt (37 + i) t \<longrightarrow> qbit rt' q t = qbit rt q t) \<and> kinv X rt'"
proof -
  let ?r = "rt\<lparr>flag_sig := bit_mem_wr (flag_sig rt) i True\<rparr>"
  have q: "i < 8" using v i by (simp add: flag_valid_def)
  have "kinv X (snd (thinkos_flag_set_svc arg rt))" by (rule kinv_flag_set [OF k])
  then show ?thesis
    using q flag_wake.loop_empties [of i ?r] flag_wake.loop_qbit [of i ?r] flag_wake.loop_ctx [of i ?r]
      flag_set_fields(1) [OF v i]
    by (simp add: flag_set_eq [OF v i] Let_def)
qed

theorem flag_set_wakes_all_witness:
  "bit (flag_sig (snd (thinkos_flag_set_svc (\<lambda>_. 37) (boot_rt\<lparr>flag_alloc := 1\<rparr>)))) 0"
  using flag_set_wakes_all [of "{}" "boot_rt\<lparr>flag_alloc := 1\<rparr>" "\<lambda>_. 37" 0]
  by (simp add: kinv_boot flag_valid_def obj_idx_def Let_def)

text \<open>a flag given and then taken by another thread hands over exactly one signal: if nobody waited
  the signal is stored by \<open>flag_give\<close> and consumed by the first \<open>flag_take\<close>, which returns 0 at once and
  restores the state.\<close>

theorem flag_give_take:
  assumes "flag_valid arg rt" and i: "i = obj_idx THINKOS_FLAG_BASE (arg 0)"
    and "wq_lst rt (37 + i) = 0" and "\<not> bit (flag_sig rt) i"
  shows "\<exists>rt1. thinkos_flag_give_svc arg rt = (arg(0 := 0), rt1) \<and> bit (flag_sig rt1) i \<and>
    thinkos_flag_give_svc arg rt1 = (arg(0 := 1), rt1) \<and> thinkos_flag_take_svc arg rt1 = (arg(0 := 0), rt)"
proof -
  have q: "i < 8" "unat (arg 0) = 37 + i" "bit (flag_alloc rt) i"
    using assms(1) i flag_class.obj_wq [of "arg 0"] by (simp_all add: flag_valid_def)
  have "bit_mem_wr (bit_mem_wr (flag_sig rt) i True) i False = flag_sig rt"
    by (rule word32_eqI) (use assms(4) in auto)
  then show ?thesis
    using assms q by (simp add: thinkos_flag_give_svc_def thinkos_flag_take_svc_def Let_def)
qed

theorem flag_give_take_witness:
  "\<exists>rt1. thinkos_flag_give_svc (\<lambda>_. 37) (boot_rt\<lparr>flag_alloc := 1\<rparr>) = ((\<lambda>_. 37)(0 := 0), rt1) \<and>
     thinkos_flag_take_svc (\<lambda>_. 37) rt1 = ((\<lambda>_. 37)(0 := 0), boot_rt\<lparr>flag_alloc := 1\<rparr>)"
  using flag_give_take [of "\<lambda>_. 37" "boot_rt\<lparr>flag_alloc := 1\<rparr>" 0]
  by (auto simp: flag_valid_def obj_idx_def word32_eq_0_iff)

end
