(* ===== verification/ThinkOS_Svc.thy ===== *)
theory ThinkOS_Svc
  imports ThinkOS_Thread ThinkOS_Mutex ThinkOS_Cond ThinkOS_Sem ThinkOS_Event ThinkOS_Flag
begin

text \<open>
  The service dispatcher of ThinkOS (\<^verbatim>\<open>src/src/sdk/libthinkos/thinkos_svc.c\<close>) and the kernel as a whole:
  the step relation \<open>kstep\<close> interleaves service calls, context switches, clock ticks, the end of threads
  and interrupts, and \<open>sys_inv\<close> is the invariant of everything they reach.

  The service number is the byte before the return address of the call; the snapshot service is
  compiled out in the default configuration. The steps have conditions, which leave orders out that the
  code allows. A service call or the end of a thread starts with no context switch pending (the PendSV
  that a service requests runs before the thread continues) and, for a call, in a thread that is not
  exiting. A tick may come at any moment except between the service in which a thread blocks and the
  context switch when it also ends the thread's share (\<open>tick_ok\<close>; lemma \<open>late_tick_breaks\<close> is that order). \<open>resume\<close>
  is called for a thread that is not paused, or that was paused in a wait with a time limit for
  something that is still not available (\<open>resume_ok\<close>; \<open>resume_exact\<close> and \<open>ThinkOS_Thread.resume_wakes_at_next_tick\<close>
  have the other orders). A thread does not cancel itself; semaphores and mutexes are allocated, and
  semaphores set, only while nobody waits in their queue (\<open>alloc_breaks\<close>).
\<close>

section \<open>The dispatcher\<close>

abbreviation (input) THINKOS_THREAD_SELF :: nat where "THINKOS_THREAD_SELF \<equiv> 0"
abbreviation (input) THINKOS_THREAD_CREATE :: nat where "THINKOS_THREAD_CREATE \<equiv> 1"
abbreviation (input) THINKOS_CLOCK :: nat where "THINKOS_CLOCK \<equiv> 2"
abbreviation (input) THINKOS_ALARM :: nat where "THINKOS_ALARM \<equiv> 3"
abbreviation (input) THINKOS_SLEEP :: nat where "THINKOS_SLEEP \<equiv> 4"
abbreviation (input) THINKOS_MUTEX_LOCK :: nat where "THINKOS_MUTEX_LOCK \<equiv> 5"
abbreviation (input) THINKOS_MUTEX_TRYLOCK :: nat where "THINKOS_MUTEX_TRYLOCK \<equiv> 6"
abbreviation (input) THINKOS_MUTEX_TIMEDLOCK :: nat where "THINKOS_MUTEX_TIMEDLOCK \<equiv> 7"
abbreviation (input) THINKOS_MUTEX_UNLOCK :: nat where "THINKOS_MUTEX_UNLOCK \<equiv> 8"
abbreviation (input) THINKOS_SEM_INIT :: nat where "THINKOS_SEM_INIT \<equiv> 9"
abbreviation (input) THINKOS_SEM_WAIT :: nat where "THINKOS_SEM_WAIT \<equiv> 10"
abbreviation (input) THINKOS_SEM_TRYWAIT :: nat where "THINKOS_SEM_TRYWAIT \<equiv> 11"
abbreviation (input) THINKOS_SEM_TIMEDWAIT :: nat where "THINKOS_SEM_TIMEDWAIT \<equiv> 12"
abbreviation (input) THINKOS_SEM_POST :: nat where "THINKOS_SEM_POST \<equiv> 13"
abbreviation (input) THINKOS_COND_WAIT :: nat where "THINKOS_COND_WAIT \<equiv> 14"
abbreviation (input) THINKOS_COND_TIMEDWAIT :: nat where "THINKOS_COND_TIMEDWAIT \<equiv> 15"
abbreviation (input) THINKOS_COND_SIGNAL :: nat where "THINKOS_COND_SIGNAL \<equiv> 16"
abbreviation (input) THINKOS_COND_BROADCAST :: nat where "THINKOS_COND_BROADCAST \<equiv> 17"
abbreviation (input) THINKOS_FLAG_CLR :: nat where "THINKOS_FLAG_CLR \<equiv> 18"
abbreviation (input) THINKOS_FLAG_SET :: nat where "THINKOS_FLAG_SET \<equiv> 19"
abbreviation (input) THINKOS_FLAG_WAIT :: nat where "THINKOS_FLAG_WAIT \<equiv> 20"
abbreviation (input) THINKOS_FLAG_TIMEDWAIT :: nat where "THINKOS_FLAG_TIMEDWAIT \<equiv> 21"
abbreviation (input) THINKOS_FLAG_RELEASE :: nat where "THINKOS_FLAG_RELEASE \<equiv> 22"
abbreviation (input) THINKOS_FLAG_TAKE :: nat where "THINKOS_FLAG_TAKE \<equiv> 23"
abbreviation (input) THINKOS_FLAG_TIMEDTAKE :: nat where "THINKOS_FLAG_TIMEDTAKE \<equiv> 24"
abbreviation (input) THINKOS_FLAG_GIVE :: nat where "THINKOS_FLAG_GIVE \<equiv> 25"
abbreviation (input) THINKOS_EVENT_WAIT :: nat where "THINKOS_EVENT_WAIT \<equiv> 26"
abbreviation (input) THINKOS_EVENT_TIMEDWAIT :: nat where "THINKOS_EVENT_TIMEDWAIT \<equiv> 27"
abbreviation (input) THINKOS_EVENT_RAISE :: nat where "THINKOS_EVENT_RAISE \<equiv> 28"
abbreviation (input) THINKOS_EVENT_MASK :: nat where "THINKOS_EVENT_MASK \<equiv> 29"
abbreviation (input) THINKOS_EVENT_UNMASK :: nat where "THINKOS_EVENT_UNMASK \<equiv> 30"
abbreviation (input) THINKOS_IRQ_WAIT :: nat where "THINKOS_IRQ_WAIT \<equiv> 31"
abbreviation (input) THINKOS_MUTEX_ALLOC :: nat where "THINKOS_MUTEX_ALLOC \<equiv> 32"
abbreviation (input) THINKOS_MUTEX_FREE :: nat where "THINKOS_MUTEX_FREE \<equiv> 33"
abbreviation (input) THINKOS_SEM_ALLOC :: nat where "THINKOS_SEM_ALLOC \<equiv> 34"
abbreviation (input) THINKOS_SEM_FREE :: nat where "THINKOS_SEM_FREE \<equiv> 35"
abbreviation (input) THINKOS_COND_ALLOC :: nat where "THINKOS_COND_ALLOC \<equiv> 36"
abbreviation (input) THINKOS_COND_FREE :: nat where "THINKOS_COND_FREE \<equiv> 37"
abbreviation (input) THINKOS_FLAG_ALLOC :: nat where "THINKOS_FLAG_ALLOC \<equiv> 38"
abbreviation (input) THINKOS_FLAG_FREE :: nat where "THINKOS_FLAG_FREE \<equiv> 39"
abbreviation (input) THINKOS_EVENT_ALLOC :: nat where "THINKOS_EVENT_ALLOC \<equiv> 40"
abbreviation (input) THINKOS_EVENT_FREE :: nat where "THINKOS_EVENT_FREE \<equiv> 41"
abbreviation (input) THINKOS_YIELD :: nat where "THINKOS_YIELD \<equiv> 42"
abbreviation (input) THINKOS_PAUSE :: nat where "THINKOS_PAUSE \<equiv> 43"
abbreviation (input) THINKOS_RESUME :: nat where "THINKOS_RESUME \<equiv> 44"
abbreviation (input) THINKOS_CANCEL :: nat where "THINKOS_CANCEL \<equiv> 45"
abbreviation (input) THINKOS_JOIN :: nat where "THINKOS_JOIN \<equiv> 46"
abbreviation (input) THINKOS_EXIT :: nat where "THINKOS_EXIT \<equiv> 48"

definition cm3_svc_isr :: "thinkos_link \<Rightarrow> nat \<Rightarrow> svc_arg \<Rightarrow> thinkos_rt \<Rightarrow> svc_arg \<times> thinkos_rt" where
  "cm3_svc_isr lk svc arg rt =
    (if svc = THINKOS_THREAD_SELF then (arg(0 := of_nat (active rt)), rt)
     else if svc = THINKOS_THREAD_CREATE then thinkos_thread_create_svc lk arg rt
     else if svc = THINKOS_YIELD then (arg, thinkos_defer_sched rt)
     else if svc = THINKOS_PAUSE then thinkos_pause_svc arg rt
     else if svc = THINKOS_RESUME then thinkos_resume_svc arg rt
     else if svc = THINKOS_CANCEL then thinkos_cancel_svc lk arg rt
     else if svc = THINKOS_JOIN then thinkos_join_svc arg rt
     else if svc = THINKOS_SLEEP then thinkos_sleep_svc arg rt
     else if svc = THINKOS_ALARM then thinkos_alarm_svc arg rt
     else if svc = THINKOS_CLOCK then (arg(0 := ticks rt), rt)
     else if svc = THINKOS_MUTEX_ALLOC then thinkos_mutex_alloc_svc arg rt
     else if svc = THINKOS_MUTEX_FREE then thinkos_mutex_free_svc arg rt
     else if svc = THINKOS_MUTEX_LOCK then thinkos_mutex_lock_svc arg rt
     else if svc = THINKOS_MUTEX_TRYLOCK then thinkos_mutex_trylock_svc arg rt
     else if svc = THINKOS_MUTEX_TIMEDLOCK then thinkos_mutex_timedlock_svc arg rt
     else if svc = THINKOS_MUTEX_UNLOCK then thinkos_mutex_unlock_svc arg rt
     else if svc = THINKOS_COND_ALLOC then thinkos_cond_alloc_svc arg rt
     else if svc = THINKOS_COND_FREE then thinkos_cond_free_svc arg rt
     else if svc = THINKOS_COND_WAIT then thinkos_cond_wait_svc arg rt
     else if svc = THINKOS_COND_TIMEDWAIT then thinkos_cond_timedwait_svc arg rt
     else if svc = THINKOS_COND_SIGNAL then thinkos_cond_signal_svc arg rt
     else if svc = THINKOS_COND_BROADCAST then thinkos_cond_broadcast_svc arg rt
     else if svc = THINKOS_SEM_ALLOC then thinkos_sem_alloc_svc arg rt
     else if svc = THINKOS_SEM_FREE then thinkos_sem_free_svc arg rt
     else if svc = THINKOS_SEM_INIT then thinkos_sem_init_svc arg rt
     else if svc = THINKOS_SEM_WAIT then thinkos_sem_wait_svc arg rt
     else if svc = THINKOS_SEM_TRYWAIT then thinkos_sem_trywait_svc arg rt
     else if svc = THINKOS_SEM_TIMEDWAIT then thinkos_sem_timedwait_svc arg rt
     else if svc = THINKOS_SEM_POST then thinkos_sem_post_svc arg rt
     else if svc = THINKOS_EVENT_ALLOC then thinkos_ev_alloc_svc arg rt
     else if svc = THINKOS_EVENT_FREE then thinkos_ev_free_svc arg rt
     else if svc = THINKOS_EVENT_WAIT then thinkos_ev_wait_svc arg rt
     else if svc = THINKOS_EVENT_TIMEDWAIT then thinkos_ev_timedwait_svc arg rt
     else if svc = THINKOS_EVENT_RAISE then thinkos_ev_raise_svc arg rt
     else if svc = THINKOS_EVENT_MASK then thinkos_ev_mask_svc arg rt
     else if svc = THINKOS_EVENT_UNMASK then thinkos_ev_unmask_svc arg rt
     else if svc = THINKOS_FLAG_ALLOC then thinkos_flag_alloc_svc arg rt
     else if svc = THINKOS_FLAG_FREE then thinkos_flag_free_svc arg rt
     else if svc = THINKOS_FLAG_CLR then thinkos_flag_clr_svc arg rt
     else if svc = THINKOS_FLAG_SET then thinkos_flag_set_svc arg rt
     else if svc = THINKOS_FLAG_WAIT then thinkos_flag_wait_svc arg rt
     else if svc = THINKOS_FLAG_TIMEDWAIT then thinkos_flag_timedwait_svc arg rt
     else if svc = THINKOS_FLAG_RELEASE then thinkos_flag_release_svc arg rt
     else if svc = THINKOS_FLAG_TAKE then thinkos_flag_take_svc arg rt
     else if svc = THINKOS_FLAG_TIMEDTAKE then thinkos_flag_timedtake_svc arg rt
     else if svc = THINKOS_FLAG_GIVE then thinkos_flag_give_svc arg rt
     else if svc = THINKOS_IRQ_WAIT then thinkos_irq_wait_svc arg rt
     else if svc = THINKOS_EXIT then thinkos_exit_svc lk arg rt
     else (arg(0 := THINKOS_ENOSYS), rt))"

section \<open>The system invariant\<close>

definition sys_inv :: "nat set \<Rightarrow> thinkos_rt \<Rightarrow> bool" where
  "sys_inv X rt \<longleftrightarrow>
     kinv X rt \<and> sched_inv rt \<and> th_bmp_ok rt \<and> mutex_ok rt \<and> sem_ok rt \<and> event_ok rt \<and> flag_ok rt"

text \<open>Whether what the threads of a queue wait for is still not available to thread \<open>t\<close>.\<close>

definition still_waits :: "nat \<Rightarrow> nat \<Rightarrow> thinkos_rt \<Rightarrow> bool" where
  "still_waits q t rt =
    (if q < THINKOS_WQ_CLOCK then False
     else if q = THINKOS_WQ_CLOCK then True
     else if q < THINKOS_COND_BASE then lock rt (q - THINKOS_MUTEX_BASE) \<noteq> - 1 \<and> lock rt (q - THINKOS_MUTEX_BASE) \<noteq> int t
     else if q < THINKOS_SEM_BASE then True
     else if q < THINKOS_EVENT_BASE then sem_val rt (q - THINKOS_SEM_BASE) = 0
     else if q < THINKOS_FLAG_BASE then ev_pend rt (q - THINKOS_EVENT_BASE) AND ev_mask rt (q - THINKOS_EVENT_BASE) = 0
     else if q < THINKOS_JOIN_BASE then bit (flag_sig rt) (q - THINKOS_FLAG_BASE) \<longrightarrow> bit (flag_lock rt) (q - THINKOS_FLAG_BASE)
     else False)"

definition resume_ok :: "nat set \<Rightarrow> nat \<Rightarrow> thinkos_rt \<Rightarrow> bool" where
  "resume_ok X t rt \<longleftrightarrow> \<not> (t < 8 \<and> bit (th_alloc rt) t \<and> qbit rt THINKOS_WQ_PAUSED t) \<or>
     (odd (th_stat rt t) \<and> still_waits (th_stat rt t div 2) t rt \<and> \<not> qbit rt THINKOS_WQ_READY t \<and>
      \<not> qbit rt THINKOS_WQ_TMSHARE t \<and> t \<notin> X)"














section \<open>What the services leave alone\<close>





















section \<open>Every service keeps the system invariant\<close>


lemma sys_invD:
  assumes "sys_inv X rt"
  shows "kinv X rt" "sched_inv rt" "th_bmp_ok rt" "mutex_ok rt" "sem_ok rt" "event_ok rt" "flag_ok rt"
  using assms by (simp_all add: sys_inv_def)











text \<open>The exiting threads after a service call.\<close>

text \<open>A thread that is resumed into a wait that goes on.\<close>

lemma resume_queues:
  assumes "t < 8"
  shows "qbit (wq_wr 4 t True (wq_wr q t True (wq_wr 3 t False rt))) p u \<longleftrightarrow>
    (if u = t \<and> (p = 4 \<or> p = q) then True else if u = t \<and> p = 3 then False else qbit rt p u)"
  using assms by auto

lemma kinv_resume:
  assumes k: "kinv X rt" and t: "t < 8" "bit (th_alloc rt) t" and s: "odd (th_stat rt t)"
    and q: "q = th_stat rt t div 2" "4 \<le> q" "q < 45"
    and n: "\<not> qbit rt 0 t" "\<not> qbit rt 1 t" "t \<notin> X"
  shows "kinv X (thinkos_defer_sched (wq_wr 4 t True (wq_wr q t True (wq_wr 3 t False rt))))"
proof -
  let ?r = "wq_wr 4 t True (wq_wr q t True (wq_wr 3 t False rt))"
  note r = resume_queues [OF t(1), of q rt]
  show ?thesis
    unfolding kinv_def wq_lst_frame defer_sched_frame
  proof (intro conjI allI impI; (elim conjE)?)
    show "qbit ?r 0 8" using kinv_idle [OF k] t(1) q by (simp only: r) simp
  next
    fix p u assume "p < 53" "qbit ?r p u"
    then show "u < 8 \<or> (p = 0 \<and> u = 8)" using kinv_range [OF k, of p u] t(1) unfolding r by (auto split: if_splits)
  next
    fix u show "th_stat ?r u < 106" using kinv_stat_lt [OF k] by simp
  next
    fix p u assume "5 \<le> p" "p < 53" "qbit ?r p u"
    then show "th_stat ?r u div 2 = p" using kinv_stat [OF k, of p u] q unfolding r by (auto split: if_splits)
  next
    fix u assume "qbit ?r 4 u"
    then show "odd (th_stat ?r u)" using kinv_clock [OF k, of u] s unfolding r by (auto split: if_splits)
  next
    fix p u assume "4 \<le> p" "p < 53" "qbit ?r p u"
    then show "\<not> qbit ?r 0 u" "\<not> qbit ?r 1 u" "u \<notin> X"
      using kinv_wait [OF k, of p u] n q unfolding r by (auto split: if_splits)
  next
    fix u assume "qbit ?r 0 u" "qbit ?r 1 u"
    then show "u \<in> X" using kinv_tmshare [OF k, of u] q unfolding r by (auto split: if_splits)
  next
    fix u assume "qbit ?r 2 u"
    then show "u \<in> X" "th_stat ?r u div 2 = 2" using kinv_canceled [OF k, of u] q unfolding r by (auto split: if_splits)
  next
    fix p u assume p: "45 \<le> p" "p < 53" "qbit ?r p u"
    then have "qbit rt p u" using q unfolding r by (auto split: if_splits)
    then show "\<not> qbit ?r 4 u"
      using p kinv_join [OF k, of p u] kinv_stat [OF k, of p u] q unfolding r by (auto split: if_splits)
  next
    fix p u assume "p \<le> 1 \<or> 4 \<le> p" "p < 53" "u < 8" "qbit ?r p u"
    then show "bit (th_alloc ?r) u" using kinv_alloc [OF k, of p u] t unfolding r by (auto split: if_splits)
  next
    fix u assume "u \<in> X"
    then show "u < 8" "bit (th_alloc ?r) u" using kinv_exit [OF k, of u] by auto
  next
    show "pendsv (thinkos_defer_sched ?r) \<or> running_ok X (thinkos_defer_sched ?r)" by simp
  qed
qed

lemma sys_resume:
  assumes s: "sys_inv X rt" and a: "resume_ok X (unat (arg 0)) rt"
  shows "sys_inv X (snd (thinkos_resume_svc arg rt))"
proof (cases "unat (arg 0) < 8 \<and> bit (th_alloc rt) (unat (arg 0)) \<and> qbit rt 3 (unat (arg 0))")
  case False
  then have "snd (thinkos_resume_svc arg rt) = rt" by (auto simp: thinkos_resume_svc_def Let_def)
  then show ?thesis using s by simp
next
  case True
  define t q where "t = unat (arg 0)" and "q = th_stat rt t div 2"
  note i = sys_invD [OF s]
  have ws: "odd (th_stat rt t)" "still_waits q t rt" "\<not> qbit rt 0 t" "\<not> qbit rt 1 t" "t \<notin> X"
    using a True by (auto simp: resume_ok_def t_def q_def)
  have t: "t < 8" "bit (th_alloc rt) t" using True by (simp_all add: t_def)
  have q: "4 \<le> q" "q < 45" using ws(2) by (auto simp: still_waits_def split: if_splits)
  define w where "w = wq_wr 4 t True (wq_wr q t True (wq_wr 3 t False rt))"
  let ?r = "thinkos_defer_sched w"
  have e: "snd (thinkos_resume_svc arg rt) = ?r"
    using True by (simp add: thinkos_resume_svc_def Let_def t_def q_def w_def)
  have r: "qbit ?r p u \<longleftrightarrow> qbit rt p u \<or> (p = q \<and> u = t)" if "5 \<le> p" for p u
    using resume_queues [OF t(1), of q rt p u] that by (auto simp: w_def)
  have z: "wq_lst ?r p = 0 \<longleftrightarrow> wq_lst rt p = 0 \<and> p \<noteq> q" if "5 \<le> p" for p
    unfolding word32_eq_0_iff r [OF that] by blast
  have f: "lock ?r = lock rt" "sem_val ?r = sem_val rt" "ev_pend ?r = ev_pend rt" "ev_mask ?r = ev_mask rt"
    "flag_sig ?r = flag_sig rt" "flag_lock ?r = flag_lock rt" by (simp_all add: w_def)
  have m: "mutex_ok ?r" using i(4) ws(2) unfolding mutex_ok_def f by (auto simp: r [simplified] still_waits_def split: if_splits)
  have se: "sem_ok ?r" using i(5) ws(2) unfolding sem_ok_def f by (auto simp: z [simplified] still_waits_def split: if_splits)
  have ev: "event_ok ?r" using i(6) ws(2) unfolding event_ok_def f by (auto simp: z [simplified] still_waits_def split: if_splits)
  have fl: "flag_ok ?r" using i(7) ws(2) unfolding flag_ok_def f by (auto simp: z [simplified] still_waits_def split: if_splits)
  have "kinv X ?r" unfolding w_def by (rule kinv_resume [OF i(1) t ws(1) q_def q ws(3-5)])
  moreover have "sched_inv ?r" "th_bmp_ok ?r" using i(2,3) by (simp_all add: sched_inv_def th_bmp_ok_def w_def)
  ultimately show ?thesis using m se ev fl by (simp add: e sys_inv_def)
qed




section \<open>The kernel as a transition system\<close>












text \<open>The orders the steps leave out do break the invariant. \<open>resume\<close> keeps it exactly in the cases of
  \<open>resume_ok\<close>; a tick that ends the share of a thread that has just blocked puts it among the ready or
  time-sharing threads while it waits; a semaphore that is set, and a mutex that is allocated, while
  threads wait in its queue leaves them waiting for something that is available.\<close>

lemma qbit_nonempty: "qbit rt q t \<Longrightarrow> wq_lst rt q \<noteq> 0"
  by auto

lemma resume_exact:
  assumes s: "sys_inv X rt" and n: "th_stat rt (unat (arg 0)) div 2 \<noteq> THINKOS_WQ_PAUSED"
  shows "sys_inv X (snd (thinkos_resume_svc arg rt)) \<longleftrightarrow> resume_ok X (unat (arg 0)) rt"
proof
  assume "resume_ok X (unat (arg 0)) rt"
  then show "sys_inv X (snd (thinkos_resume_svc arg rt))" by (rule sys_resume [OF s])
next
  assume r: "sys_inv X (snd (thinkos_resume_svc arg rt))"
  define t q where "t = unat (arg 0)" and "q = th_stat rt t div 2"
  show "resume_ok X (unat (arg 0)) rt"
  proof (rule ccontr)
    assume "\<not> resume_ok X (unat (arg 0)) rt"
    then have t: "t < 8" "bit (th_alloc rt) t" "qbit rt 3 t"
      and no: "\<not> (odd (th_stat rt t) \<and> still_waits q t rt \<and> \<not> qbit rt 0 t \<and> \<not> qbit rt 1 t \<and> t \<notin> X)"
      by (auto simp: resume_ok_def t_def q_def)
    let ?r = "thinkos_defer_sched (wq_wr 4 t True (wq_wr q t True (wq_wr 3 t False rt)))"
    have "snd (thinkos_resume_svc arg rt) = ?r" using t by (simp add: thinkos_resume_svc_def Let_def t_def q_def)
    then have i: "kinv X ?r" "mutex_ok ?r" "sem_ok ?r" "event_ok ?r" "flag_ok ?r" using r by (simp_all add: sys_inv_def)
    have b: "qbit ?r p t \<longleftrightarrow> p = 4 \<or> p = q \<or> (p \<noteq> 3 \<and> qbit rt p t)" for p
      using resume_queues [OF t(1), of q rt p t] by auto
    have "q < 53" using kinv_stat_lt [OF sys_invD(1) [OF s], of t] by (simp add: q_def)
    moreover have "odd (th_stat rt t)" using kinv_clock [OF i(1), of t] b [of 4] by simp
    moreover have w: "\<not> qbit ?r 0 t" "\<not> qbit ?r 1 t" "t \<notin> X" using kinv_wait [OF i(1), of 4 t] b [of 4] by auto
    moreover have "q \<noteq> 0" "q \<noteq> 1" using b [of 0] b [of 1] w by auto
    moreover have "q \<noteq> 2" using kinv_canceled [OF i(1), of t] b [of 2] w by auto
    moreover have "q \<noteq> 3" using n by (simp add: q_def t_def)
    moreover have "\<not> 45 \<le> q" using kinv_join [OF i(1), of q t] b [of q] b [of 4] \<open>q < 53\<close> by auto
    ultimately have d: "\<not> still_waits q t rt" "4 \<le> q" "q < 45" using no b [of 0] b [of 1] by auto
    have nz: "wq_lst ?r q \<noteq> 0" by (rule qbit_nonempty [of ?r q t]) (use b [of q] in blast)
    consider "q = 4" | "5 \<le> q" "q < 13" | "13 \<le> q" "q < 21" | "21 \<le> q" "q < 29" | "29 \<le> q" "q < 37" | "37 \<le> q" "q < 45"
      using d by linarith
    then show False
    proof cases
      case 2
      then have "\<forall>u. qbit ?r (5 + (q - 5)) u \<longrightarrow> lock ?r (q - 5) \<noteq> - 1 \<and> lock ?r (q - 5) \<noteq> int u"
        using i(2) unfolding mutex_ok_def by auto
      then show ?thesis using d(1) 2 b [of q] by (auto simp: still_waits_def)
    next
      case 4
      then have l: "q - 21 < 8" "21 + (q - 21) = q" by auto
      have "sem_val ?r (q - 21) \<noteq> 0" using d(1) 4 by (auto simp: still_waits_def)
      then have "wq_lst ?r (21 + (q - 21)) = 0" using i(3) l(1) unfolding sem_ok_def by blast
      with nz show ?thesis unfolding l(2) by contradiction
    next
      case 5
      then have l: "q - 29 < 8" "29 + (q - 29) = q" by auto
      have "ev_pend ?r (q - 29) AND ev_mask ?r (q - 29) \<noteq> 0" using d(1) 5 by (auto simp: still_waits_def)
      then have "wq_lst ?r (29 + (q - 29)) = 0" using i(4) l(1) unfolding event_ok_def by blast
      with nz show ?thesis unfolding l(2) by contradiction
    next
      case 6
      then have l: "q - 37 < 8" "37 + (q - 37) = q" by auto
      have "bit (flag_sig ?r) (q - 37) \<and> \<not> bit (flag_lock ?r) (q - 37)" using d(1) 6 by (auto simp: still_waits_def)
      then have "wq_lst ?r (37 + (q - 37)) = 0" using i(5) l(1) unfolding flag_ok_def by blast
      with nz show ?thesis unfolding l(2) by contradiction
    qed (use d(1) in \<open>simp_all add: still_waits_def\<close>)
  qed
qed

lemma late_tick_breaks:
  assumes k: "kinv X rt" and t: "active rt < 8" and n: "\<not> tick_ok rt" and q: "4 \<le> q" "q < 53" "qbit rt q (active rt)"
    and e: "\<not> expires (wq_lst rt 4) (ticks rt + 1) rt (active rt)"
  shows "\<not> kinv X (cm3_systick_isr rt)"
proof (rule systick_split [of rt])
  fix rt2 m rt3 m'
  assume l: "systick_loop (rbit (wq_lst rt 4)) (ticks rt + 1) (rt\<lparr>ticks := ticks rt + 1\<rparr>) 0 = (rt2, m)"
    and s: "systick_timeshare rt2 m = (rt3, m')"
    and i: "cm3_systick_isr rt = (if m' \<noteq> 0 then thinkos_defer_sched rt3 else rt3)"
  have "active rt2 = active rt" "sched_val rt2 = sched_val rt" "sched_pri rt2 = sched_pri rt"
    by (subst loop_frame [OF l], simp)+
  then have neg: "sint (sched_val rt2 (active rt2) - sched_pri rt2 (active rt2)) < 0" and a: "active rt2 = active rt"
    using n t by (auto simp: tick_ok_def)
  let ?v = "(sched_val rt2)(active rt := sched_val rt2 (active rt) - sched_pri rt2 (active rt) + ucast (sched_limit rt2))"
  have "rt3 = tmshare_collect (wq_wr 0 (active rt) False (wq_wr 1 (active rt) True (rt2\<lparr>sched_val := ?v\<rparr>)))"
    using s neg by (auto simp: systick_timeshare_def Let_def a)
  then have "qbit rt3 0 (active rt) \<or> qbit rt3 1 (active rt)"
    using requeue_dest [OF t, of "rt2\<lparr>sched_val := ?v\<rparr>"] by (auto split: if_splits)
  moreover have "qbit (cm3_systick_isr rt) q (active rt)" using systick_queue [of q rt "active rt"] q e by simp
  ultimately show ?thesis using kinv_wait [of X "cm3_systick_isr rt" q "active rt"] q(1,2) i by auto
qed

lemma alloc_breaks:
  "sem_valid arg rt \<Longrightarrow> arg 1 \<noteq> 0 \<Longrightarrow> wq_lst rt (THINKOS_SEM_BASE + obj_idx THINKOS_SEM_BASE (arg 0)) \<noteq> 0 \<Longrightarrow>
    \<not> sem_ok (snd (thinkos_sem_init_svc arg rt))"
  "fst (thinkos_bmp_alloc [mutex_alloc rt] THINKOS_MUTEX_MAX) = int i \<Longrightarrow> i < 8 \<Longrightarrow> qbit rt (THINKOS_MUTEX_BASE + i) t \<Longrightarrow>
    \<not> mutex_ok (snd (thinkos_mutex_alloc_svc arg rt))"
  by (auto simp: thinkos_sem_init_svc_def sem_valid_def sem_ok_def Let_def)
    (auto simp: mutex_ok_def thinkos_mutex_alloc_svc_def Let_def split: prod.splits)



text \<open>Addresses of the linked program, for the instances below.\<close>

definition sample_link :: thinkos_link where
  "sample_link = \<lparr>idle_task_addr = 1, thread_exit_addr = 2, ticks_addr = 3, main_inf_addr = 4\<rparr>"

section \<open>Properties\<close>





text \<open>The calls whose argument check fails: services that take the number of an existing object get one
  that is out of range or not allocated (for the waits on a condition variable, of either object); the
  five free services check only the range; \<open>raise\<close> also checks the event number and \<open>irq_wait\<close> the interrupt.\<close>

definition bad_arg :: "nat \<Rightarrow> svc_arg \<Rightarrow> thinkos_rt \<Rightarrow> bool" where
  "bad_arg svc arg rt \<longleftrightarrow>
    (svc \<in> {THINKOS_MUTEX_LOCK, THINKOS_MUTEX_TRYLOCK, THINKOS_MUTEX_TIMEDLOCK, THINKOS_MUTEX_UNLOCK} \<and> \<not> mutex_valid arg rt) \<or>
    (svc \<in> {THINKOS_COND_WAIT, THINKOS_COND_TIMEDWAIT} \<and> \<not> (cond_valid arg rt \<and> mutex_valid (arg(0 := arg 1)) rt)) \<or>
    (svc \<in> {THINKOS_COND_SIGNAL, THINKOS_COND_BROADCAST} \<and> \<not> cond_valid arg rt) \<or>
    (svc \<in> {THINKOS_SEM_INIT, THINKOS_SEM_WAIT, THINKOS_SEM_TRYWAIT, THINKOS_SEM_TIMEDWAIT, THINKOS_SEM_POST} \<and> \<not> sem_valid arg rt) \<or>
    (svc \<in> {THINKOS_EVENT_WAIT, THINKOS_EVENT_TIMEDWAIT, THINKOS_EVENT_RAISE, THINKOS_EVENT_MASK, THINKOS_EVENT_UNMASK} \<and>
      \<not> event_valid arg rt) \<or>
    (svc = THINKOS_EVENT_RAISE \<and> unat (arg 1) > 31) \<or>
    (svc \<in> {THINKOS_FLAG_CLR, THINKOS_FLAG_SET, THINKOS_FLAG_WAIT, THINKOS_FLAG_TIMEDWAIT, THINKOS_FLAG_RELEASE,
      THINKOS_FLAG_TAKE, THINKOS_FLAG_TIMEDTAKE, THINKOS_FLAG_GIVE} \<and> \<not> flag_valid arg rt) \<or>
    (svc \<in> {THINKOS_JOIN, THINKOS_CANCEL, THINKOS_PAUSE, THINKOS_RESUME} \<and>
      \<not> (unat (arg 0) < THINKOS_THREADS_MAX \<and> bit (th_alloc rt) (unat (arg 0)))) \<or>
    (svc = THINKOS_MUTEX_FREE \<and> obj_idx THINKOS_MUTEX_BASE (arg 0) \<ge> THINKOS_MUTEX_MAX) \<or>
    (svc = THINKOS_COND_FREE \<and> obj_idx THINKOS_COND_BASE (arg 0) \<ge> THINKOS_COND_MAX) \<or>
    (svc = THINKOS_SEM_FREE \<and> obj_idx THINKOS_SEM_BASE (arg 0) \<ge> THINKOS_SEMAPHORE_MAX) \<or>
    (svc = THINKOS_EVENT_FREE \<and> unat (arg 0) \<notin> {THINKOS_EVENT_BASE..<THINKOS_EVENT_BASE + THINKOS_EVENT_MAX}) \<or>
    (svc = THINKOS_FLAG_FREE \<and> obj_idx THINKOS_FLAG_BASE (arg 0) \<ge> THINKOS_FLAG_MAX) \<or>
    (svc = THINKOS_IRQ_WAIT \<and> unat (arg 0) \<ge> THINKOS_IRQ_MAX)"

text \<open>C24: the argument checks of the services. A call with a number the dispatcher does not know returns
  \<open>ENOSYS\<close>; a call whose argument is not an allocated object of the right kind (\<open>bad_arg\<close>) returns \<open>EINVAL\<close>, for
  every mutex, condition variable (with its mutex), semaphore, event, flag, thread and interrupt
  service. The five free services are checked for the range alone: within it they accept a number
  that is not allocated. In all these cases the kernel state is as it was.\<close>

theorem bad_calls_change_nothing:
  assumes "svc > 48 \<or> svc = 47 \<or> bad_arg svc arg rt"
  shows "cm3_svc_isr lk svc arg rt = (arg(0 := if svc > 48 \<or> svc = 47 then THINKOS_ENOSYS else THINKOS_EINVAL), rt)"
proof (cases "svc > 48 \<or> svc = 47")
  case True
  then show ?thesis by (elim disjE) (simp_all add: cm3_svc_isr_def)
next
  case False
  then have "bad_arg svc arg rt" using assms by blast
  then consider
      "svc \<in> {5, 6, 7, 8}" "\<not> mutex_valid arg rt" | "svc \<in> {14, 15}" "\<not> (cond_valid arg rt \<and> mutex_valid (arg(0 := arg 1)) rt)"
    | "svc \<in> {16, 17}" "\<not> cond_valid arg rt" | "svc \<in> {9, 10, 11, 12, 13}" "\<not> sem_valid arg rt"
    | "svc \<in> {26, 27, 28, 29, 30}" "\<not> event_valid arg rt" | "svc = 28" "unat (arg 1) > 31"
    | "svc \<in> {18, 19, 20, 21, 22, 23, 24, 25}" "\<not> flag_valid arg rt"
    | "svc \<in> {46, 45, 43, 44}" "\<not> (unat (arg 0) < 8 \<and> bit (th_alloc rt) (unat (arg 0)))"
    | "svc = 33" "obj_idx 5 (arg 0) \<ge> 8" | "svc = 37" "obj_idx 13 (arg 0) \<ge> 8" | "svc = 35" "obj_idx 21 (arg 0) \<ge> 8"
    | "svc = 41" "\<not> (29 \<le> unat (arg 0) \<and> unat (arg 0) < 37)" | "svc = 39" "obj_idx 37 (arg 0) \<ge> 8"
    | "svc = 31" "unat (arg 0) \<ge> THINKOS_IRQ_MAX"
    unfolding bad_arg_def by auto
  then have "cm3_svc_isr lk svc arg rt = (arg(0 := THINKOS_EINVAL), rt)"
  proof cases
    case 1
    then show ?thesis by (elim insertE emptyE) (simp_all add: cm3_svc_isr_def mutex_defs mutex_valid_def Let_def)
  next
    case 2
    then consider "svc \<in> {14, 15}" "\<not> cond_valid arg rt" | "svc \<in> {14, 15}" "\<not> mutex_valid (arg(0 := arg 1)) rt" by blast
    then show ?thesis
      by cases (elim insertE emptyE; auto simp: cm3_svc_isr_def cond_defs cond_valid_def mutex_valid_def Let_def not_less)+
  next
    case 3
    then show ?thesis by (elim insertE emptyE) (simp_all add: cm3_svc_isr_def cond_defs cond_valid_def Let_def)
  next
    case 4
    then show ?thesis by (elim insertE emptyE) (simp_all add: cm3_svc_isr_def sem_defs sem_valid_def Let_def)
  next
    case 5
    then show ?thesis by (elim insertE emptyE) (simp_all add: cm3_svc_isr_def event_defs event_valid_def Let_def)
  next
    case 7
    then show ?thesis by (elim insertE emptyE) (simp_all add: cm3_svc_isr_def flag_defs flag_valid_def Let_def)
  next
    case 8
    then show ?thesis by (elim insertE emptyE) (simp_all add: cm3_svc_isr_def thread_defs Let_def)
  next
    case 12
    then have "thinkos_ev_free_svc arg rt = (arg(0 := THINKOS_EINVAL), rt)"
      unfolding thinkos_ev_free_svc_def Let_def by (intro if_P) linarith
    then show ?thesis using 12 by (simp add: cm3_svc_isr_def)
  qed (simp_all add: cm3_svc_isr_def mutex_defs cond_defs sem_defs event_defs flag_defs thread_defs Let_def not_less)
  then show ?thesis using False by simp
qed

theorem bad_calls_change_nothing_witness:
  "cm3_svc_isr sample_link 47 (\<lambda>_. 0) boot_rt = ((\<lambda>_. 0)(0 := THINKOS_ENOSYS), boot_rt) \<and>
   cm3_svc_isr sample_link THINKOS_COND_WAIT ((\<lambda>_. 13)(1 := 5)) (boot_rt\<lparr>cond_alloc := 1\<rparr>) =
     (((\<lambda>_. 13)(1 := 5))(0 := THINKOS_EINVAL), boot_rt\<lparr>cond_alloc := 1\<rparr>) \<and>
   cm3_svc_isr sample_link THINKOS_JOIN (\<lambda>_. 3) boot_rt = ((\<lambda>_. 3)(0 := THINKOS_EINVAL), boot_rt)"
proof (intro conjI)
  show "cm3_svc_isr sample_link 47 (\<lambda>_. 0) boot_rt = ((\<lambda>_. 0)(0 := THINKOS_ENOSYS), boot_rt)"
    using bad_calls_change_nothing [of 47 "\<lambda>_. 0" boot_rt sample_link] by (simp only: refl simp_thms if_True)
  have "bad_arg 14 ((\<lambda>_. 13)(1 := 5)) (boot_rt\<lparr>cond_alloc := 1\<rparr>)"
    by (simp add: bad_arg_def mutex_valid_def obj_idx_def alloc_bmp_init_8)
  then show "cm3_svc_isr sample_link 14 ((\<lambda>_. 13)(1 := 5)) (boot_rt\<lparr>cond_alloc := 1\<rparr>) =
     (((\<lambda>_. 13)(1 := 5))(0 := THINKOS_EINVAL), boot_rt\<lparr>cond_alloc := 1\<rparr>)"
    using bad_calls_change_nothing [of 14 "(\<lambda>_. 13)(1 := 5)" "boot_rt\<lparr>cond_alloc := 1\<rparr>" sample_link] by simp
  have "bad_arg 46 (\<lambda>_. 3) boot_rt" by (simp add: bad_arg_def)
  then show "cm3_svc_isr sample_link 46 (\<lambda>_. 3) boot_rt = ((\<lambda>_. 3)(0 := THINKOS_EINVAL), boot_rt)"
    using bad_calls_change_nothing [of 46 "\<lambda>_. 3" boot_rt sample_link] by simp
qed

end
