(* ===== verification/Crc.thy ===== *)
theory Crc
  imports Prelude
begin

text \<open>
  The cyclic redundancy checks of \<^verbatim>\<open>src/src/sdk/libcrc\<close>. Every file of that library computes one of four
  codes by a different amount of table: \<open>bwe\<close> by a bit-wise expression, \<open>tbl4\<close> by two tables of sixteen
  entries, \<open>tbl8\<close> by a table of 256. The buffer \<open>(buf, len)\<close> of the C functions is the list of its \<open>len\<close> bytes,
  \<open>unsigned int\<close> is \<open>u32\<close>, and the loop over the bytes is a \<open>foldl\<close> of its body.

  The reference is the shift register: one bit is \<open>lfsr_bit\<close>, a byte is eight of them. The register is linear
  over exclusive or, and a linear function is known from its values on the powers of two: this is how the
  bit-wise expressions are checked. The locale \<open>crc_engine\<close> states what one loop body promises (it is the
  register for one byte); its lemmas are the equality of whole checksums, the range of the result, and the
  detection of errors. It is interpreted on the loop bodies of the library.
\<close>

section \<open>The routines of the library\<close>

subsection \<open>Sixteen bits\<close>

definition crc16bwe_step :: "u32 \<Rightarrow> u8 \<Rightarrow> u32" where
  "crc16bwe_step crc c = (
     let crc = drop_bit 8 crc OR push_bit 8 (crc AND 0xff);
         crc = crc XOR push_bit 8 (ucast c);
         crc = crc XOR (push_bit 4 crc AND 0xf000);
         crc = crc XOR (drop_bit 12 crc AND 0x000f)
     in crc XOR (drop_bit 5 crc AND 0x07f8))"

definition crc16bwe :: "u8 list \<Rightarrow> u32" where
  "crc16bwe buf = foldl crc16bwe_step 0xffff buf XOR 0xffff"

definition crc16ccitt_step :: "u32 \<Rightarrow> u8 \<Rightarrow> u32" where
  "crc16ccitt_step crc c = (
     let crc = drop_bit 8 crc OR push_bit 8 (crc AND 0xff);
         crc = crc XOR ucast c;
         crc = crc XOR drop_bit 4 (crc AND 0xff);
         crc = crc XOR push_bit 12 (crc AND 0x0f)
     in crc XOR push_bit 5 (crc AND 0xff))"

definition crc16ccitt :: "u32 \<Rightarrow> u8 list \<Rightarrow> u32" where
  "crc16ccitt crc buf = foldl crc16ccitt_step crc buf"

definition crc16_table4 :: "u32 list" where
  "crc16_table4 = [
    0x0000, 0x1081, 0x2102, 0x3183, 0x4204, 0x5285, 0x6306, 0x7387,
    0x8408, 0x9489, 0xa50a, 0xb58b, 0xc60c, 0xd68d, 0xe70e, 0xf78f,
    0x0000, 0x1189, 0x2312, 0x329b, 0x4624, 0x57ad, 0x6536, 0x74bf,
    0x8c48, 0x9dc1, 0xaf5a, 0xbed3, 0xca6c, 0xdbe5, 0xe97e, 0xf8f7]"

definition crc16tbl4_step :: "u32 \<Rightarrow> u8 \<Rightarrow> u32" where
  "crc16tbl4_step crc c = (
     let crc = crc XOR ucast c
     in drop_bit 8 crc XOR crc16_table4 ! unat (drop_bit 4 crc AND 15) XOR crc16_table4 ! (unat (crc AND 15) + 16))"

definition crc16tbl4 :: "u8 list \<Rightarrow> u32" where
  "crc16tbl4 data = foldl crc16tbl4_step 0xffff data XOR 0xffff"

definition crc16lut :: "u32 list" where
  "crc16lut = [
    0x0000, 0x1189, 0x2312, 0x329b, 0x4624, 0x57ad, 0x6536, 0x74bf,
    0x8c48, 0x9dc1, 0xaf5a, 0xbed3, 0xca6c, 0xdbe5, 0xe97e, 0xf8f7,
    0x1081, 0x0108, 0x3393, 0x221a, 0x56a5, 0x472c, 0x75b7, 0x643e,
    0x9cc9, 0x8d40, 0xbfdb, 0xae52, 0xdaed, 0xcb64, 0xf9ff, 0xe876,
    0x2102, 0x308b, 0x0210, 0x1399, 0x6726, 0x76af, 0x4434, 0x55bd,
    0xad4a, 0xbcc3, 0x8e58, 0x9fd1, 0xeb6e, 0xfae7, 0xc87c, 0xd9f5,
    0x3183, 0x200a, 0x1291, 0x0318, 0x77a7, 0x662e, 0x54b5, 0x453c,
    0xbdcb, 0xac42, 0x9ed9, 0x8f50, 0xfbef, 0xea66, 0xd8fd, 0xc974,
    0x4204, 0x538d, 0x6116, 0x709f, 0x0420, 0x15a9, 0x2732, 0x36bb,
    0xce4c, 0xdfc5, 0xed5e, 0xfcd7, 0x8868, 0x99e1, 0xab7a, 0xbaf3,
    0x5285, 0x430c, 0x7197, 0x601e, 0x14a1, 0x0528, 0x37b3, 0x263a,
    0xdecd, 0xcf44, 0xfddf, 0xec56, 0x98e9, 0x8960, 0xbbfb, 0xaa72,
    0x6306, 0x728f, 0x4014, 0x519d, 0x2522, 0x34ab, 0x0630, 0x17b9,
    0xef4e, 0xfec7, 0xcc5c, 0xddd5, 0xa96a, 0xb8e3, 0x8a78, 0x9bf1,
    0x7387, 0x620e, 0x5095, 0x411c, 0x35a3, 0x242a, 0x16b1, 0x0738,
    0xffcf, 0xee46, 0xdcdd, 0xcd54, 0xb9eb, 0xa862, 0x9af9, 0x8b70,
    0x8408, 0x9581, 0xa71a, 0xb693, 0xc22c, 0xd3a5, 0xe13e, 0xf0b7,
    0x0840, 0x19c9, 0x2b52, 0x3adb, 0x4e64, 0x5fed, 0x6d76, 0x7cff,
    0x9489, 0x8500, 0xb79b, 0xa612, 0xd2ad, 0xc324, 0xf1bf, 0xe036,
    0x18c1, 0x0948, 0x3bd3, 0x2a5a, 0x5ee5, 0x4f6c, 0x7df7, 0x6c7e,
    0xa50a, 0xb483, 0x8618, 0x9791, 0xe32e, 0xf2a7, 0xc03c, 0xd1b5,
    0x2942, 0x38cb, 0x0a50, 0x1bd9, 0x6f66, 0x7eef, 0x4c74, 0x5dfd,
    0xb58b, 0xa402, 0x9699, 0x8710, 0xf3af, 0xe226, 0xd0bd, 0xc134,
    0x39c3, 0x284a, 0x1ad1, 0x0b58, 0x7fe7, 0x6e6e, 0x5cf5, 0x4d7c,
    0xc60c, 0xd785, 0xe51e, 0xf497, 0x8028, 0x91a1, 0xa33a, 0xb2b3,
    0x4a44, 0x5bcd, 0x6956, 0x78df, 0x0c60, 0x1de9, 0x2f72, 0x3efb,
    0xd68d, 0xc704, 0xf59f, 0xe416, 0x90a9, 0x8120, 0xb3bb, 0xa232,
    0x5ac5, 0x4b4c, 0x79d7, 0x685e, 0x1ce1, 0x0d68, 0x3ff3, 0x2e7a,
    0xe70e, 0xf687, 0xc41c, 0xd595, 0xa12a, 0xb0a3, 0x8238, 0x93b1,
    0x6b46, 0x7acf, 0x4854, 0x59dd, 0x2d62, 0x3ceb, 0x0e70, 0x1ff9,
    0xf78f, 0xe606, 0xd49d, 0xc514, 0xb1ab, 0xa022, 0x92b9, 0x8330,
    0x7bc7, 0x6a4e, 0x58d5, 0x495c, 0x3de3, 0x2c6a, 0x1ef1, 0x0f78]"

definition crc16tbl8_step :: "u32 \<Rightarrow> u8 \<Rightarrow> u32" where
  "crc16tbl8_step crc c = (
     let idx = (crc XOR ucast c) AND 0xff
     in crc16lut ! unat idx XOR drop_bit 8 crc)"

definition crc16tbl8 :: "u8 list \<Rightarrow> u32" where
  "crc16tbl8 data = foldl crc16tbl8_step 0xffff data XOR 0xffff"

subsection \<open>Five bits\<close>

definition crc5_step :: "u32 \<Rightarrow> u8 \<Rightarrow> u32" where
  "crc5_step crc c = (
     let crc = crc XOR ucast c;
         a = push_bit 2 crc XOR push_bit 3 crc;
         crc = crc XOR (drop_bit 3 crc XOR a XOR push_bit 4 a)
     in (crc AND 0x18) OR (drop_bit 5 crc AND 0x07))"

definition crc5 :: "u8 list \<Rightarrow> u32" where
  "crc5 data = foldl crc5_step 0x1f data XOR 0x1f"

definition crc5bwe_step :: "u32 \<Rightarrow> u8 \<Rightarrow> u32" where
  "crc5bwe_step crc c = (
     let crc = crc XOR ucast c;
         a = push_bit 2 crc XOR push_bit 3 crc;
         crc = crc XOR (drop_bit 3 crc XOR a XOR push_bit 4 a)
     in (crc AND 0x18) OR (drop_bit 5 crc AND 0x07))"

definition crc5bwe :: "u8 list \<Rightarrow> u32" where
  "crc5bwe data = foldl crc5bwe_step 0x1f data XOR 0x1f"

definition crc5_table4 :: "u32 list" where
  "crc5_table4 = [
    0x00, 0x16, 0x05, 0x13, 0x0a, 0x1c, 0x0f, 0x19,
    0x14, 0x02, 0x11, 0x07, 0x1e, 0x08, 0x1b, 0x0d,
    0x00, 0x0e, 0x1c, 0x12, 0x11, 0x1f, 0x0d, 0x03,
    0x0b, 0x05, 0x17, 0x19, 0x1a, 0x14, 0x06, 0x08]"

text \<open>The table functions of five bits return \<open>uint8_t\<close>. An index outside the table is \<open>None\<close>.\<close>

definition lut_get :: "u32 list \<Rightarrow> nat \<Rightarrow> u32 option" where
  "lut_get t i = (if i < length t then Some (t ! i) else None)"

definition crc5tbl4_step :: "u32 option \<Rightarrow> u8 \<Rightarrow> u32 option" where
  "crc5tbl4_step st c = (case st of None \<Rightarrow> None | Some crc \<Rightarrow>
     let idx = crc XOR ucast c
     in case (lut_get crc5_table4 (unat (idx AND 0x0f) + 16), lut_get crc5_table4 (unat (drop_bit 4 idx))) of
          (Some x, Some y) \<Rightarrow> Some (x XOR y) | _ \<Rightarrow> None)"

definition crc5tbl4 :: "u8 list \<Rightarrow> u8 option" where
  "crc5tbl4 data = map_option (\<lambda>crc. ucast (crc XOR 0x1f)) (foldl crc5tbl4_step (Some 0x1f) data)"

definition crc5lut :: "u32 list" where
  "crc5lut = [
    0x00, 0x0e, 0x1c, 0x12, 0x11, 0x1f, 0x0d, 0x03,
    0x0b, 0x05, 0x17, 0x19, 0x1a, 0x14, 0x06, 0x08,
    0x16, 0x18, 0x0a, 0x04, 0x07, 0x09, 0x1b, 0x15,
    0x1d, 0x13, 0x01, 0x0f, 0x0c, 0x02, 0x10, 0x1e,
    0x05, 0x0b, 0x19, 0x17, 0x14, 0x1a, 0x08, 0x06,
    0x0e, 0x00, 0x12, 0x1c, 0x1f, 0x11, 0x03, 0x0d,
    0x13, 0x1d, 0x0f, 0x01, 0x02, 0x0c, 0x1e, 0x10,
    0x18, 0x16, 0x04, 0x0a, 0x09, 0x07, 0x15, 0x1b,
    0x0a, 0x04, 0x16, 0x18, 0x1b, 0x15, 0x07, 0x09,
    0x01, 0x0f, 0x1d, 0x13, 0x10, 0x1e, 0x0c, 0x02,
    0x1c, 0x12, 0x00, 0x0e, 0x0d, 0x03, 0x11, 0x1f,
    0x17, 0x19, 0x0b, 0x05, 0x06, 0x08, 0x1a, 0x14,
    0x0f, 0x01, 0x13, 0x1d, 0x1e, 0x10, 0x02, 0x0c,
    0x04, 0x0a, 0x18, 0x16, 0x15, 0x1b, 0x09, 0x07,
    0x19, 0x17, 0x05, 0x0b, 0x08, 0x06, 0x14, 0x1a,
    0x12, 0x1c, 0x0e, 0x00, 0x03, 0x0d, 0x1f, 0x11,
    0x14, 0x1a, 0x08, 0x06, 0x05, 0x0b, 0x19, 0x17,
    0x1f, 0x11, 0x03, 0x0d, 0x0e, 0x00, 0x12, 0x1c,
    0x02, 0x0c, 0x1e, 0x10, 0x13, 0x1d, 0x0f, 0x01,
    0x09, 0x07, 0x15, 0x1b, 0x18, 0x16, 0x04, 0x0a,
    0x11, 0x1f, 0x0d, 0x03, 0x00, 0x0e, 0x1c, 0x12,
    0x1a, 0x14, 0x06, 0x08, 0x0b, 0x05, 0x17, 0x19,
    0x07, 0x09, 0x1b, 0x15, 0x16, 0x18, 0x0a, 0x04,
    0x0c, 0x02, 0x10, 0x1e, 0x1d, 0x13, 0x01, 0x0f,
    0x1e, 0x10, 0x02, 0x0c, 0x0f, 0x01, 0x13, 0x1d,
    0x15, 0x1b, 0x09, 0x07, 0x04, 0x0a, 0x18, 0x16,
    0x08, 0x06, 0x14, 0x1a, 0x19, 0x17, 0x05, 0x0b,
    0x03, 0x0d, 0x1f, 0x11, 0x12, 0x1c, 0x0e, 0x00,
    0x1b, 0x15, 0x07, 0x09, 0x0a, 0x04, 0x16, 0x18,
    0x10, 0x1e, 0x0c, 0x02, 0x01, 0x0f, 0x1d, 0x13,
    0x0d, 0x03, 0x11, 0x1f, 0x1c, 0x12, 0x00, 0x0e,
    0x06, 0x08, 0x1a, 0x14, 0x17, 0x19, 0x0b, 0x05]"

definition crc5tbl8_step :: "u32 option \<Rightarrow> u8 \<Rightarrow> u32 option" where
  "crc5tbl8_step st c = (case st of None \<Rightarrow> None | Some crc \<Rightarrow> lut_get crc5lut (unat (crc XOR ucast c)))"

definition crc5tbl8 :: "u8 list \<Rightarrow> u8 option" where
  "crc5tbl8 data = map_option (\<lambda>crc. ucast (crc XOR 0x1f)) (foldl crc5tbl8_step (Some 0x1f) data)"

subsection \<open>Eight bits\<close>

definition crc_bitwise_expression :: "u32 \<Rightarrow> u32" where
  "crc_bitwise_expression bits =
     ((drop_bit 2 bits XOR drop_bit 1 bits XOR bits) AND 0x0f) OR
     ((drop_bit 2 bits XOR drop_bit 1 bits XOR bits XOR push_bit 4 bits) AND 0x30) OR
     ((drop_bit 1 bits XOR bits XOR push_bit 5 bits) AND 0x40) OR
     ((bits XOR push_bit 6 bits XOR push_bit 7 bits) AND 0x80)"

definition crc8bwe_step :: "u32 \<Rightarrow> u8 \<Rightarrow> u32" where
  "crc8bwe_step crc c = crc_bitwise_expression (crc XOR ucast c)"

definition crc8bwe :: "u8 list \<Rightarrow> u32" where
  "crc8bwe data = foldl crc8bwe_step 0xff data XOR 0xff"

definition crc8_lut4 :: "u32 list" where
  "crc8_lut4 = [
    0x00, 0x1c, 0x38, 0x24, 0x70, 0x6c, 0x48, 0x54,
    0xe0, 0xfc, 0xd8, 0xc4, 0x90, 0x8c, 0xa8, 0xb4,
    0x00, 0x91, 0xe3, 0x72, 0x07, 0x96, 0xe4, 0x75,
    0x0e, 0x9f, 0xed, 0x7c, 0x09, 0x98, 0xea, 0x7b]"

definition crc8tbl4_step :: "u32 option \<Rightarrow> u8 \<Rightarrow> u32 option" where
  "crc8tbl4_step st c = (case st of None \<Rightarrow> None | Some crc \<Rightarrow>
     let idx = crc XOR ucast c
     in case (lut_get crc8_lut4 (unat (idx AND 0x0f) + 16), lut_get crc8_lut4 (unat (drop_bit 4 idx))) of
          (Some x, Some y) \<Rightarrow> Some (x XOR y) | _ \<Rightarrow> None)"

definition crc8tbl4 :: "u8 list \<Rightarrow> u32 option" where
  "crc8tbl4 data = map_option (\<lambda>crc. crc XOR 0xff) (foldl crc8tbl4_step (Some 0xff) data)"

definition crc8_table :: "u32 list" where
  "crc8_table = [
    0x00, 0x91, 0xe3, 0x72, 0x07, 0x96, 0xe4, 0x75,
    0x0e, 0x9f, 0xed, 0x7c, 0x09, 0x98, 0xea, 0x7b,
    0x1c, 0x8d, 0xff, 0x6e, 0x1b, 0x8a, 0xf8, 0x69,
    0x12, 0x83, 0xf1, 0x60, 0x15, 0x84, 0xf6, 0x67,
    0x38, 0xa9, 0xdb, 0x4a, 0x3f, 0xae, 0xdc, 0x4d,
    0x36, 0xa7, 0xd5, 0x44, 0x31, 0xa0, 0xd2, 0x43,
    0x24, 0xb5, 0xc7, 0x56, 0x23, 0xb2, 0xc0, 0x51,
    0x2a, 0xbb, 0xc9, 0x58, 0x2d, 0xbc, 0xce, 0x5f,
    0x70, 0xe1, 0x93, 0x02, 0x77, 0xe6, 0x94, 0x05,
    0x7e, 0xef, 0x9d, 0x0c, 0x79, 0xe8, 0x9a, 0x0b,
    0x6c, 0xfd, 0x8f, 0x1e, 0x6b, 0xfa, 0x88, 0x19,
    0x62, 0xf3, 0x81, 0x10, 0x65, 0xf4, 0x86, 0x17,
    0x48, 0xd9, 0xab, 0x3a, 0x4f, 0xde, 0xac, 0x3d,
    0x46, 0xd7, 0xa5, 0x34, 0x41, 0xd0, 0xa2, 0x33,
    0x54, 0xc5, 0xb7, 0x26, 0x53, 0xc2, 0xb0, 0x21,
    0x5a, 0xcb, 0xb9, 0x28, 0x5d, 0xcc, 0xbe, 0x2f,
    0xe0, 0x71, 0x03, 0x92, 0xe7, 0x76, 0x04, 0x95,
    0xee, 0x7f, 0x0d, 0x9c, 0xe9, 0x78, 0x0a, 0x9b,
    0xfc, 0x6d, 0x1f, 0x8e, 0xfb, 0x6a, 0x18, 0x89,
    0xf2, 0x63, 0x11, 0x80, 0xf5, 0x64, 0x16, 0x87,
    0xd8, 0x49, 0x3b, 0xaa, 0xdf, 0x4e, 0x3c, 0xad,
    0xd6, 0x47, 0x35, 0xa4, 0xd1, 0x40, 0x32, 0xa3,
    0xc4, 0x55, 0x27, 0xb6, 0xc3, 0x52, 0x20, 0xb1,
    0xca, 0x5b, 0x29, 0xb8, 0xcd, 0x5c, 0x2e, 0xbf,
    0x90, 0x01, 0x73, 0xe2, 0x97, 0x06, 0x74, 0xe5,
    0x9e, 0x0f, 0x7d, 0xec, 0x99, 0x08, 0x7a, 0xeb,
    0x8c, 0x1d, 0x6f, 0xfe, 0x8b, 0x1a, 0x68, 0xf9,
    0x82, 0x13, 0x61, 0xf0, 0x85, 0x14, 0x66, 0xf7,
    0xa8, 0x39, 0x4b, 0xda, 0xaf, 0x3e, 0x4c, 0xdd,
    0xa6, 0x37, 0x45, 0xd4, 0xa1, 0x30, 0x42, 0xd3,
    0xb4, 0x25, 0x57, 0xc6, 0xb3, 0x22, 0x50, 0xc1,
    0xba, 0x2b, 0x59, 0xc8, 0xbd, 0x2c, 0x5e, 0xcf]"

definition crc8tbl8_step :: "u32 option \<Rightarrow> u8 \<Rightarrow> u32 option" where
  "crc8tbl8_step st c = (case st of None \<Rightarrow> None | Some crc \<Rightarrow> lut_get crc8_table (unat (crc XOR ucast c)))"

definition crc8tbl8 :: "u8 list \<Rightarrow> u32 option" where
  "crc8tbl8 data = map_option (\<lambda>crc. crc XOR 0xff) (foldl crc8tbl8_step (Some 0xff) data)"

section \<open>The shift register\<close>

definition lfsr_bit :: "u32 \<Rightarrow> u32 \<Rightarrow> u32" where
  "lfsr_bit poly r = (if bit r 0 then drop_bit 1 r XOR poly else drop_bit 1 r)"

definition lfsr_byte :: "u32 \<Rightarrow> u32 \<Rightarrow> u8 \<Rightarrow> u32" where
  "lfsr_byte poly r c = (lfsr_bit poly ^^ 8) (r XOR ucast c)"

definition lfsr_crc :: "u32 \<Rightarrow> u32 \<Rightarrow> u8 list \<Rightarrow> u32" where
  "lfsr_crc poly ones data = foldl (lfsr_byte poly) ones data XOR ones"

subsection \<open>Linear functions on words\<close>

named_theorems lin_intros \<open>closure of the linear functions on words\<close>

definition lin :: "(u32 \<Rightarrow> u32) \<Rightarrow> bool" where
  "lin f \<longleftrightarrow> (\<forall>x y. f (x XOR y) = f x XOR f y)"

lemma linD: "lin f \<Longrightarrow> f (x XOR y) = f x XOR f y"
  by (simp add: lin_def)

lemma lin_0: "lin f \<Longrightarrow> f 0 = 0"
  using linD [of f 0 0] by simp

lemma lin_id [lin_intros]: "lin (\<lambda>x. x)"
  by (simp add: lin_def)

lemma lin_comp: "lin f \<Longrightarrow> lin g \<Longrightarrow> lin (\<lambda>x. f (g x))"
  by (simp add: lin_def)

lemma lin_xor [lin_intros]: "lin f \<Longrightarrow> lin g \<Longrightarrow> lin (\<lambda>x. f x XOR g x)"
  by (simp add: lin_def ac_simps xor.left_commute)

lemma lin_and [lin_intros]: "lin f \<Longrightarrow> lin (\<lambda>x. f x AND m)"
  by (simp add: lin_def bit.conj_xor_distrib2)

lemma lin_drop [lin_intros]: "lin f \<Longrightarrow> lin (\<lambda>x. drop_bit n (f x))"
  by (simp add: lin_def drop_bit_xor)

lemma lin_push [lin_intros]: "lin f \<Longrightarrow> lin (\<lambda>x. push_bit n (f x))"
  by (simp add: lin_def push_bit_xor)

lemma or_disjoint: "x AND y = 0 \<Longrightarrow> x OR y = x XOR (y :: u32)"
  by (rule word32_eqI) (auto simp: word32_eq_iff bit_or_iff bit_xor_iff bit_and_iff)

lemma lin_or_masked [lin_intros]:
  assumes "m AND k = 0" and "lin f" and "lin g"
  shows "lin (\<lambda>x. (f x AND m) OR (g x AND k))"
proof -
  have "(f x AND m) AND (g x AND k) = 0" for x
    using assms(1) by (auto simp: word32_eq_0_iff bit_and_iff)
  then have "(f x AND m) OR (g x AND k) = (f x AND m) XOR (g x AND k)" for x
    by (rule or_disjoint)
  then show ?thesis using assms(2,3) by (auto intro: lin_intros)
qed

lemma lin_funpow: "lin f \<Longrightarrow> lin (f ^^ n)"
  by (induction n) (auto simp: lin_def)

text \<open>Two linear functions that agree on the powers of two agree.\<close>

lemma lin_eqI:
  assumes f: "lin f" and g: "lin g" and basis: "\<And>i. i < n \<Longrightarrow> f (push_bit i 1) = g (push_bit i 1)"
    and x: "\<And>i. bit x i \<Longrightarrow> i < n"
  shows "f x = g x"
  using basis x
proof (induction n arbitrary: x)
  case 0
  then have "x = 0" by (auto simp: word32_eq_0_iff)
  then show ?case using f g by (simp add: lin_0)
next
  case (Suc n)
  define y where "y = unset_bit n x"
  have y: "f y = g y"
  proof (rule Suc.IH)
    show "f (push_bit i 1) = g (push_bit i 1)" if "i < n" for i
      using that by (intro Suc.prems(1)) simp
    show "i < n" if "bit y i" for i
      using that Suc.prems(2) [of i] by (auto simp: y_def)
  qed
  show ?case
  proof (cases "bit x n")
    case False
    then have "y = x" unfolding y_def by (intro word32_eqI) auto
    then show ?thesis using y by simp
  next
    case True
    then have "x = y XOR push_bit n 1"
      unfolding y_def by (intro word32_eqI) (auto simp: bit_xor_iff bit_exp_iff)
    then have "f x = f y XOR f (push_bit n 1)" and "g x = g y XOR g (push_bit n 1)"
      using linD [OF f, of y "push_bit n 1"] linD [OF g, of y "push_bit n 1"] by simp_all
    then show ?thesis using y Suc.prems(1) [of n] by simp
  qed
qed

subsection \<open>The register is linear\<close>

lemma lfsr_lin [lin_intros]: "lin (lfsr_bit p)"
  unfolding lin_def lfsr_bit_def
  by (auto simp: bit_xor_iff drop_bit_xor ac_simps xor.left_commute)

lemma lfsrs_lin [lin_intros]: "lin (lfsr_bit p ^^ n)"
  by (intro lin_funpow lfsr_lin)

lemma lfsr_even: "\<not> bit r 0 \<Longrightarrow> lfsr_bit p r = drop_bit 1 r"
  by (simp add: lfsr_bit_def)

lemma lfsrs_shift:
  assumes "\<And>i. i < n \<Longrightarrow> \<not> bit r i"
  shows "(lfsr_bit p ^^ n) r = drop_bit n r"
  using assms
proof (induction n)
  case (Suc n)
  then have "(lfsr_bit p ^^ n) r = drop_bit n r" by simp
  moreover have "\<not> bit (drop_bit n r) 0" using Suc.prems [of n] by (simp add: bit_drop_bit_eq)
  ultimately show ?case by (simp add: lfsr_even)
qed simp

text \<open>The register for \<open>n\<close> bits only feeds back its low \<open>n\<close> bits: the rest moves down.\<close>

lemma lfsrs_split: "(lfsr_bit p ^^ n) r = (lfsr_bit p ^^ n) (take_bit n r) XOR drop_bit n r"
proof -
  have "r = take_bit n r XOR push_bit n (drop_bit n r)"
    by (rule word32_eqI) (auto simp: bit_xor_iff bit_push_bit_iff bit_take_bit_iff bit_drop_bit_eq)
  then have "(lfsr_bit p ^^ n) r =
      (lfsr_bit p ^^ n) (take_bit n r) XOR (lfsr_bit p ^^ n) (push_bit n (drop_bit n r))"
    using linD [OF lfsrs_lin] by metis
  moreover have "(lfsr_bit p ^^ n) (push_bit n (drop_bit n r)) = drop_bit n (push_bit n (drop_bit n r))"
    by (rule lfsrs_shift) (simp add: bit_push_bit_iff)
  moreover have "drop_bit n (push_bit n (drop_bit n r)) = drop_bit n r"
    by (rule word32_eqI) (auto simp: bit_push_bit_iff bit_drop_bit_eq dest: word32_bit_lt)
  ultimately show ?thesis by simp
qed

subsection \<open>The width of the register\<close>

definition in_width :: "nat \<Rightarrow> u32 \<Rightarrow> bool" where
  "in_width w r \<longleftrightarrow> (\<forall>i. bit r i \<longrightarrow> i < w)"

lemma in_widthD: "in_width w r \<Longrightarrow> bit r i \<Longrightarrow> i < w"
  by (simp add: in_width_def)

lemma in_width_mono: "in_width v r \<Longrightarrow> v \<le> w \<Longrightarrow> in_width w r"
  by (auto simp: in_width_def)

lemma in_width_xor: "in_width w r \<Longrightarrow> in_width w s \<Longrightarrow> in_width w (r XOR s)"
  by (auto simp: in_width_def bit_xor_iff)

lemma in_width_byte: "8 \<le> w \<Longrightarrow> in_width w (ucast (c :: u8) :: u32)"
  by (auto simp: in_width_def bit_simps dest: bit_imp_le_length)

lemma in_width_take: "in_width w (take_bit w r)"
  by (simp add: in_width_def bit_take_bit_iff)

lemma in_width_take_eq: "in_width w r \<longleftrightarrow> take_bit w r = r"
  by (auto simp: in_width_def word32_eq_iff bit_take_bit_iff dest: word32_bit_lt)

lemma in_width_drop: "in_width w r \<Longrightarrow> drop_bit w r = 0"
  by (auto simp: in_width_def word32_eq_0_iff bit_drop_bit_eq)

lemma in_width_unat: "w \<le> 32 \<Longrightarrow> in_width w r \<Longrightarrow> unat r < 2 ^ w"
  by (metis in_width_take_eq take_bit_nat_less_exp unsigned_take_bit_eq)

lemma in_width_of_unat: "unat r < 2 ^ w \<Longrightarrow> in_width w r"
  unfolding in_width_take_eq
  by (metis take_bit_nat_eq_self_iff unsigned_take_bit_eq unsigned_word_eqI)

lemma lfsr_width: "in_width w p \<Longrightarrow> in_width (max w v) r \<Longrightarrow> in_width (max w (v - 1)) (lfsr_bit p r)"
  by (fastforce simp: in_width_def lfsr_bit_def bit_xor_iff bit_drop_bit_eq less_max_iff_disj)

lemma lfsrs_width: "in_width w p \<Longrightarrow> in_width (max w v) r \<Longrightarrow> in_width (max w (v - n)) ((lfsr_bit p ^^ n) r)"
proof (induction n)
  case (Suc n)
  then show ?case using lfsr_width [of w p "v - n"] by simp
qed simp

lemma lfsr_byte_width: "in_width w p \<Longrightarrow> in_width w r \<Longrightarrow> in_width w (lfsr_byte p r c)"
  using lfsrs_width [of w p 8 "r XOR ucast c" 8] in_width_mono [of w r "max w 8"]
  by (simp add: lfsr_byte_def in_width_xor in_width_byte)

text \<open>With the top bit of the polynomial set, the register loses nothing.\<close>

lemma lfsr_eq_0:
  assumes "in_width (Suc w) r" and "bit p w" and "lfsr_bit p r = 0"
  shows "r = 0"
proof -
  have "\<not> bit r 0"
  proof
    assume "bit r 0"
    then have "bit (lfsr_bit p r) w"
      using assms(1,2) by (auto simp: lfsr_bit_def bit_xor_iff bit_drop_bit_eq in_width_def)
    then show False using assms(3) by simp
  qed
  then have "drop_bit 1 r = 0" using assms(3) by (simp add: lfsr_even)
  then have "\<not> bit r i" for i
    using \<open>\<not> bit r 0\<close> by (cases i) (auto simp: word32_eq_0_iff bit_drop_bit_eq)
  then show ?thesis by (simp add: word32_eq_0_iff)
qed

lemma lfsrs_eq_0:
  assumes "in_width (Suc w) r" and "in_width (Suc w) p" and "bit p w" and "(lfsr_bit p ^^ n) r = 0"
  shows "r = 0"
  using assms
proof (induction n)
  case (Suc n)
  have "in_width (Suc w) ((lfsr_bit p ^^ n) r)"
    using lfsrs_width [of "Suc w" p 0 r n] Suc.prems by simp
  then show ?case using Suc lfsr_eq_0 [of w "(lfsr_bit p ^^ n) r" p] by simp
qed simp

lemma xor_eq_0: "(x :: u32) XOR y = 0 \<longleftrightarrow> x = y"
  by (auto simp: word32_eq_iff bit_xor_iff)

lemma xor_right_cancel: "(x :: u32) XOR z = y XOR z \<Longrightarrow> x = y"
  by (auto simp: word32_eq_iff bit_xor_iff)

lemma lfsrs_inj:
  assumes "in_width (Suc w) r" "in_width (Suc w) s" and "in_width (Suc w) p" and "bit p w"
    and "(lfsr_bit p ^^ n) r = (lfsr_bit p ^^ n) s"
  shows "r = s"
proof -
  have "(lfsr_bit p ^^ n) (r XOR s) = 0"
    using assms(5) by (simp add: linD [OF lfsrs_lin])
  then show ?thesis using lfsrs_eq_0 assms by (metis in_width_xor xor_eq_0)
qed

section \<open>Engines\<close>

text \<open>A polynomial of \<open>w + 1\<close> bits with its top bit set: messages that leave the register in different states
  stay apart.\<close>

locale crc_poly =
  fixes w :: nat and poly :: u32
  assumes poly_width: "in_width (Suc w) poly"
    and poly_top: "bit poly w"
begin

lemma fold_width: "in_width (Suc w) r \<Longrightarrow> in_width (Suc w) (foldl (lfsr_byte poly) r data)"
  by (induction data arbitrary: r) (auto intro: lfsr_byte_width poly_width)

lemma byte_inj:
  assumes "7 \<le> w" and "in_width (Suc w) r" "in_width (Suc w) s" "lfsr_byte poly r c = lfsr_byte poly s c"
  shows "r = s"
proof -
  have "in_width (Suc w) (r XOR ucast c)" "in_width (Suc w) (s XOR ucast c)"
    using assms by (simp_all add: in_width_xor in_width_byte)
  then have "r XOR ucast c = s XOR ucast c"
    using assms(4) lfsrs_inj [OF _ _ poly_width poly_top] unfolding lfsr_byte_def by blast
  then show ?thesis by (rule xor_right_cancel)
qed

lemma fold_inj:
  assumes "7 \<le> w"
  shows "in_width (Suc w) r \<Longrightarrow> in_width (Suc w) s \<Longrightarrow>
     foldl (lfsr_byte poly) r data = foldl (lfsr_byte poly) s data \<Longrightarrow> r = s"
proof (induction data arbitrary: r s)
  case (Cons c data)
  have "lfsr_byte poly r c = lfsr_byte poly s c"
  proof (rule Cons.IH)
    show "in_width (Suc w) (lfsr_byte poly r c)" "in_width (Suc w) (lfsr_byte poly s c)"
      using Cons.prems(1,2) by (simp_all add: lfsr_byte_width poly_width)
    show "foldl (lfsr_byte poly) (lfsr_byte poly r c) data = foldl (lfsr_byte poly) (lfsr_byte poly s c) data"
      using Cons.prems(3) by simp
  qed
  then show ?case by (rule byte_inj [OF assms Cons.prems(1,2)])
qed simp

end

text \<open>A loop body, in whatever type it keeps its register, is the shift register for one byte.\<close>

locale crc_engine = crc_poly +
  fixes emb :: "u32 \<Rightarrow> 's" and step :: "'s \<Rightarrow> u8 \<Rightarrow> 's"
  assumes step_lfsr: "in_width (Suc w) r \<Longrightarrow> step (emb r) c = emb (lfsr_byte poly r c)"
begin

lemma fold_lfsr: "in_width (Suc w) r \<Longrightarrow> foldl step (emb r) data = emb (foldl (lfsr_byte poly) r data)"
  by (induction data arbitrary: r) (simp_all add: step_lfsr lfsr_byte_width poly_width)

end

text \<open>A pair of tables of a code: the nibble tables hold the register after eight bits of each nibble, the
  byte table their sums.\<close>

lemma nth_pairs:
  "i < length hs \<Longrightarrow> j < length ls \<Longrightarrow>
     concat (map (\<lambda>h. map (f h) ls) hs) ! (length ls * i + j) = f (hs ! i) (ls ! j)"
proof (induction hs arbitrary: i)
  case (Cons h hs)
  then show ?case by (cases i) (simp_all add: nth_append algebra_simps)
qed simp

lemma word_unat_eq: "of_nat (unat x) = (x :: u32)"
  by simp

lemma nibbles:
  assumes "in_width 8 (x :: u32)"
  shows "unat (drop_bit 4 x) < 16" "unat (x AND 15) < 16"
    "unat x = 16 * unat (drop_bit 4 x) + unat (x AND 15)"
    "x = push_bit 4 (drop_bit 4 x) XOR (x AND 15)"
proof -
  have m: "x AND 15 = take_bit 4 x"
    by (simp add: take_bit_eq_mask mask_eq_exp_minus_1)
  have "unat x < 2 ^ 8" using in_width_unat [OF _ assms] by simp
  moreover have d: "unat (drop_bit 4 x) = unat x div 16" by (simp add: drop_bit_eq_div unat_div)
  moreover have t: "unat (take_bit 4 x) = unat x mod 16" by (simp add: take_bit_eq_mod unat_mod)
  ultimately show "unat (drop_bit 4 x) < 16" "unat (x AND 15) < 16" unfolding m by simp_all
  show "unat x = 16 * unat (drop_bit 4 x) + unat (x AND 15)" unfolding m d t by simp
  show "x = push_bit 4 (drop_bit 4 x) XOR (x AND 15)"
    unfolding m by (rule word32_eqI) (auto simp: bit_xor_iff bit_push_bit_iff bit_take_bit_iff bit_drop_bit_eq)
qed

locale crc_tables =
  fixes poly :: u32 and t4 :: "u32 list" and t8 :: "u32 list"
  assumes t4_length: "length t4 = 32"
    and t4_hi: "list_all (\<lambda>i. t4 ! i = (lfsr_bit poly ^^ 8) (push_bit 4 (of_nat i))) [0..<16]"
    and t4_lo: "list_all (\<lambda>i. t4 ! (i + 16) = (lfsr_bit poly ^^ 8) (of_nat i)) [0..<16]"
    and t8_pairs: "t8 = concat (map (\<lambda>h. map (\<lambda>l. h XOR l) (drop 16 t4)) (take 16 t4))"
begin

lemma t8_length: "length t8 = 256"
  by (simp add: t8_pairs t4_length length_concat comp_def map_replicate_const sum_list_replicate)

lemma t4_lookup:
  assumes "in_width 8 x"
  shows "t4 ! unat (drop_bit 4 x) XOR t4 ! (unat (x AND 15) + 16) = (lfsr_bit poly ^^ 8) x"
proof -
  have "t4 ! unat (drop_bit 4 x) = (lfsr_bit poly ^^ 8) (push_bit 4 (of_nat (unat (drop_bit 4 x))))"
    using t4_hi nibbles(1) [OF assms] unfolding list_all_iff set_upt by simp
  moreover have "t4 ! (unat (x AND 15) + 16) = (lfsr_bit poly ^^ 8) (of_nat (unat (x AND 15)))"
    using t4_lo nibbles(2) [OF assms] unfolding list_all_iff set_upt by simp
  ultimately have "t4 ! unat (drop_bit 4 x) XOR t4 ! (unat (x AND 15) + 16) =
      (lfsr_bit poly ^^ 8) (push_bit 4 (drop_bit 4 x) XOR (x AND 15))"
    by (simp only: linD [OF lfsrs_lin] word_unat_eq)
  then show ?thesis by (simp only: nibbles(4) [OF assms, symmetric])
qed

lemma t8_lookup:
  assumes "in_width 8 x"
  shows "t8 ! unat x = (lfsr_bit poly ^^ 8) x"
proof -
  have "t8 ! unat x = take 16 t4 ! unat (drop_bit 4 x) XOR drop 16 t4 ! unat (x AND 15)"
    using nth_pairs [of "unat (drop_bit 4 x)" "take 16 t4" "unat (x AND 15)" "drop 16 t4" "\<lambda>h l. h XOR l"]
      nibbles [OF assms] by (simp add: t8_pairs t4_length)
  then show ?thesis
    using nibbles [OF assms] t4_lookup [OF assms] by (simp add: t4_length add.commute)
qed

end

section \<open>The codes of the library\<close>

abbreviation CRC16_POLY :: u32 where "CRC16_POLY \<equiv> 0x8408"
abbreviation CRC8_POLY :: u32 where "CRC8_POLY \<equiv> 0xe0"
abbreviation CRC5_POLY :: u32 where "CRC5_POLY \<equiv> 0x14"

lemma funpow_8: "(f ^^ 8) x = f (f (f (f (f (f (f (f x)))))))"
  by (simp add: eval_nat_numeral)

lemma in_width_of_take: "take_bit w r = r \<Longrightarrow> in_width w r"
  by (simp add: in_width_take_eq)

lemma list_all_16: "list_all P [0..<16] \<longleftrightarrow>
    P 0 \<and> P 1 \<and> P 2 \<and> P 3 \<and> P 4 \<and> P 5 \<and> P 6 \<and> P 7 \<and>
    P 8 \<and> P 9 \<and> P 10 \<and> P 11 \<and> P 12 \<and> P 13 \<and> P 14 \<and> P 15"
  by (simp add: upt_rec eval_nat_numeral)

lemmas table_eval = funpow_8 lfsr_bit_def

interpretation tab16: crc_tables CRC16_POLY crc16_table4 crc16lut
proof
  show "length crc16_table4 = 32" by (simp add: crc16_table4_def)
  show "list_all (\<lambda>i. crc16_table4 ! i = (lfsr_bit CRC16_POLY ^^ 8) (push_bit 4 (of_nat i))) [0..<16]"
    unfolding list_all_16 crc16_table4_def by (simp add: table_eval)
  show "list_all (\<lambda>i. crc16_table4 ! (i + 16) = (lfsr_bit CRC16_POLY ^^ 8) (of_nat i)) [0..<16]"
    unfolding list_all_16 crc16_table4_def by (simp add: table_eval)
  show "crc16lut = concat (map (\<lambda>h. map (\<lambda>l. h XOR l) (drop 16 crc16_table4)) (take 16 crc16_table4))"
    by (simp add: crc16_table4_def crc16lut_def)
qed

interpretation tab8: crc_tables CRC8_POLY crc8_lut4 crc8_table
proof
  show "length crc8_lut4 = 32" by (simp add: crc8_lut4_def)
  show "list_all (\<lambda>i. crc8_lut4 ! i = (lfsr_bit CRC8_POLY ^^ 8) (push_bit 4 (of_nat i))) [0..<16]"
    unfolding list_all_16 crc8_lut4_def by (simp add: table_eval)
  show "list_all (\<lambda>i. crc8_lut4 ! (i + 16) = (lfsr_bit CRC8_POLY ^^ 8) (of_nat i)) [0..<16]"
    unfolding list_all_16 crc8_lut4_def by (simp add: table_eval)
  show "crc8_table = concat (map (\<lambda>h. map (\<lambda>l. h XOR l) (drop 16 crc8_lut4)) (take 16 crc8_lut4))"
    by (simp add: crc8_lut4_def crc8_table_def)
qed

interpretation tab5: crc_tables CRC5_POLY crc5_table4 crc5lut
proof
  show "length crc5_table4 = 32" by (simp add: crc5_table4_def)
  show "list_all (\<lambda>i. crc5_table4 ! i = (lfsr_bit CRC5_POLY ^^ 8) (push_bit 4 (of_nat i))) [0..<16]"
    unfolding list_all_16 crc5_table4_def by (simp add: table_eval)
  show "list_all (\<lambda>i. crc5_table4 ! (i + 16) = (lfsr_bit CRC5_POLY ^^ 8) (of_nat i)) [0..<16]"
    unfolding list_all_16 crc5_table4_def by (simp add: table_eval)
  show "crc5lut = concat (map (\<lambda>h. map (\<lambda>l. h XOR l) (drop 16 crc5_table4)) (take 16 crc5_table4))"
    by (simp add: crc5_table4_def crc5lut_def)
qed

subsection \<open>Sixteen bits\<close>

interpretation ccitt: crc_poly 15 CRC16_POLY
  by unfold_locales (simp_all add: in_width_take_eq)

lemma take_8_mask: "x AND 0xff = take_bit 8 (x :: u32)"
  by (simp add: take_bit_eq_mask mask_eq_exp_minus_1)

lemma tbl8_lfsr: "crc16tbl8_step r c = lfsr_byte CRC16_POLY r c"
proof -
  have "drop_bit 8 (r XOR ucast c) = drop_bit 8 r"
    using in_width_drop [OF in_width_byte [of 8 c]] by (simp add: drop_bit_xor)
  moreover have "crc16lut ! unat (take_bit 8 (r XOR ucast c)) = (lfsr_bit CRC16_POLY ^^ 8) (take_bit 8 (r XOR ucast c))"
    by (rule tab16.t8_lookup [OF in_width_take])
  ultimately show ?thesis
    using lfsrs_split [where p = CRC16_POLY and n = 8 and r = "r XOR ucast c"]
    by (simp only: crc16tbl8_step_def lfsr_byte_def take_8_mask Let_def)
qed

lemma nibbles_take:
  "drop_bit 4 (take_bit 8 x) = drop_bit 4 x AND 15" "take_bit 8 x AND 15 = x AND (15 :: u32)"
proof -
  have m: "y AND 15 = take_bit 4 y" for y :: u32
    by (simp add: take_bit_eq_mask mask_eq_exp_minus_1)
  show "drop_bit 4 (take_bit 8 x) = drop_bit 4 x AND 15" "take_bit 8 x AND 15 = x AND (15 :: u32)"
    unfolding m by (rule word32_eqI, auto simp: bit_take_bit_iff bit_drop_bit_eq)+
qed

lemma tbl4_lfsr: "crc16tbl4_step r c = lfsr_byte CRC16_POLY r c"
proof -
  let ?x = "r XOR ucast c"
  have "crc16_table4 ! unat (drop_bit 4 ?x AND 15) XOR crc16_table4 ! (unat (?x AND 15) + 16) =
      (lfsr_bit CRC16_POLY ^^ 8) (take_bit 8 ?x)"
    using tab16.t4_lookup [OF in_width_take [of 8 ?x]] by (simp only: nibbles_take)
  then show ?thesis
    using lfsrs_split [where p = CRC16_POLY and n = 8 and r = ?x]
    by (simp add: crc16tbl4_step_def lfsr_byte_def Let_def xor.assoc xor.commute xor.left_commute)
qed

text \<open>The bit-wise expression, with its byte swap written as a sum, is linear and agrees with the register on
  the sixteen powers of two.\<close>

definition crc16bwe_lin :: "u32 \<Rightarrow> u32" where
  "crc16bwe_lin = (\<lambda>x.
     let crc = (drop_bit 8 x AND 0xff) XOR push_bit 8 (x AND 0xff);
         crc = crc XOR (push_bit 4 crc AND 0xf000);
         crc = crc XOR (drop_bit 12 crc AND 0x000f)
     in crc XOR (drop_bit 5 crc AND 0x07f8))"

lemma lin_eq16:
  assumes "lin f" "lin g" "list_all (\<lambda>i. f (push_bit i 1) = g (push_bit i 1)) [0..<16]" "in_width 16 x"
  shows "f x = g x"
proof (rule lin_eqI [OF assms(1,2)])
  show "f (push_bit i 1) = g (push_bit i 1)" if "i < 16" for i
    using assms(3) that unfolding list_all_iff set_upt by simp
  show "i < 16" if "bit x i" for i by (rule in_widthD [OF assms(4) that])
qed

lemma crc16bwe_lin_lfsr: "in_width 16 x \<Longrightarrow> crc16bwe_lin x = (lfsr_bit CRC16_POLY ^^ 8) x"
proof (rule lin_eq16 [where f = crc16bwe_lin and g = "lfsr_bit CRC16_POLY ^^ 8"])
  show "lin crc16bwe_lin" unfolding crc16bwe_lin_def Let_def by (intro lin_intros)
  show "lin (lfsr_bit CRC16_POLY ^^ 8)" by (rule lfsrs_lin)
  show "list_all (\<lambda>i. crc16bwe_lin (push_bit i 1) = (lfsr_bit CRC16_POLY ^^ 8) (push_bit i 1)) [0..<16]"
    unfolding list_all_16 by (simp add: crc16bwe_lin_def table_eval)
qed

lemma swap16:
  assumes "in_width 16 r"
  shows "(drop_bit 8 r OR push_bit 8 (r AND 0xff)) XOR push_bit 8 (ucast (c :: u8)) =
    (drop_bit 8 (r XOR ucast c) AND 0xff) XOR push_bit 8 ((r XOR ucast c) AND 0xff)"
  using assms unfolding take_8_mask in_width_def
  by (intro word32_eqI) (auto simp: bit_simps dest: bit_imp_le_length)

lemma bwe_lfsr:
  assumes "in_width 16 r"
  shows "crc16bwe_step r c = lfsr_byte CRC16_POLY r c"
proof -
  have "crc16bwe_step r c = crc16bwe_lin (r XOR ucast c)"
    by (simp only: crc16bwe_step_def crc16bwe_lin_def Let_def swap16 [OF assms])
  then show ?thesis
    using crc16bwe_lin_lfsr assms by (simp add: lfsr_byte_def in_width_xor in_width_byte)
qed

interpretation bwe16: crc_engine 15 CRC16_POLY "\<lambda>r. r" crc16bwe_step
  by unfold_locales (simp add: bwe_lfsr)

interpretation nibble16: crc_engine 15 CRC16_POLY "\<lambda>r. r" crc16tbl4_step
  by unfold_locales (simp add: tbl4_lfsr)

interpretation byte16: crc_engine 15 CRC16_POLY "\<lambda>r. r" crc16tbl8_step
  by unfold_locales (simp add: tbl8_lfsr)

lemmas crc16_engines = bwe16.fold_lfsr nibble16.fold_lfsr byte16.fold_lfsr

subsection \<open>Sixteen bits, most significant bit first\<close>

text \<open>The routine \<open>crc16ccitt\<close> keeps the register the other way round: bits enter at the top.\<close>

definition msb_bit :: "u32 \<Rightarrow> u32" where
  "msb_bit r = take_bit 16 (if bit r 15 then push_bit 1 r XOR 0x1021 else push_bit 1 r)"

definition msb_byte :: "u32 \<Rightarrow> u8 \<Rightarrow> u32" where
  "msb_byte r c = (msb_bit ^^ 8) (r XOR push_bit 8 (ucast c))"

lemma msb_lin: "lin msb_bit"
  unfolding lin_def msb_bit_def
  by (auto simp: bit_xor_iff push_bit_xor take_bit_xor ac_simps xor.left_commute)

definition crc16ccitt_lin :: "u32 \<Rightarrow> u32" where
  "crc16ccitt_lin = (\<lambda>x.
     let crc = (drop_bit 8 x AND 0xff) XOR push_bit 8 (x AND 0xff);
         crc = crc XOR drop_bit 4 (crc AND 0xff);
         crc = crc XOR push_bit 12 (crc AND 0x0f)
     in crc XOR push_bit 5 (crc AND 0xff))"

lemma crc16ccitt_lin_msb: "in_width 16 x \<Longrightarrow> crc16ccitt_lin x = (msb_bit ^^ 8) x"
proof (rule lin_eq16 [where f = crc16ccitt_lin and g = "msb_bit ^^ 8"])
  show "lin crc16ccitt_lin" unfolding crc16ccitt_lin_def Let_def by (intro lin_intros)
  show "lin (msb_bit ^^ 8)" by (rule lin_funpow [OF msb_lin])
  show "list_all (\<lambda>i. crc16ccitt_lin (push_bit i 1) = (msb_bit ^^ 8) (push_bit i 1)) [0..<16]"
    unfolding list_all_16 by (simp add: crc16ccitt_lin_def funpow_8 msb_bit_def)
qed

lemma swap16_low:
  assumes "in_width 16 r"
  shows "(drop_bit 8 r OR push_bit 8 (r AND 0xff)) XOR ucast (c :: u8) =
    (drop_bit 8 (r XOR push_bit 8 (ucast c)) AND 0xff) XOR push_bit 8 ((r XOR push_bit 8 (ucast c)) AND 0xff)"
  using assms unfolding take_8_mask in_width_def
  by (intro word32_eqI) (auto simp: bit_simps dest: bit_imp_le_length)

lemma in_width_high: "in_width 16 (push_bit 8 (ucast (c :: u8) :: u32))"
  by (auto simp: in_width_def bit_simps dest: bit_imp_le_length)

lemma ccitt_msb:
  assumes "in_width 16 r"
  shows "crc16ccitt_step r c = msb_byte r c" and "in_width 16 (crc16ccitt_step r c)"
proof -
  have "crc16ccitt_step r c = crc16ccitt_lin (r XOR push_bit 8 (ucast c))"
    by (simp only: crc16ccitt_step_def crc16ccitt_lin_def Let_def swap16_low [OF assms])
  then show e: "crc16ccitt_step r c = msb_byte r c"
    using crc16ccitt_lin_msb [OF in_width_xor [OF assms in_width_high]] by (simp add: msb_byte_def)
  show "in_width 16 (crc16ccitt_step r c)"
    unfolding e msb_byte_def funpow_8 by (subst msb_bit_def) (rule in_width_take)
qed

lemma ccitt_fold: "in_width 16 r \<Longrightarrow> crc16ccitt r data = foldl msb_byte r data \<and> in_width 16 (crc16ccitt r data)"
  unfolding crc16ccitt_def
proof (induction data arbitrary: r)
  case (Cons c data)
  have "foldl crc16ccitt_step (crc16ccitt_step r c) data = foldl msb_byte (crc16ccitt_step r c) data"
    "in_width 16 (foldl crc16ccitt_step (crc16ccitt_step r c) data)"
    using Cons.IH [OF ccitt_msb(2) [OF Cons.prems]] by blast+
  then show ?case by (simp add: ccitt_msb(1) [OF Cons.prems])
qed simp

subsection \<open>Eight bits\<close>

lemma in_width_idx: "w \<le> 8 \<Longrightarrow> in_width w r \<Longrightarrow> in_width 8 (r XOR ucast (c :: u8))"
  by (intro in_width_xor in_width_byte in_width_mono [of w r 8]) simp_all

lemma in_width_idx_less: "w \<le> 8 \<Longrightarrow> in_width w r \<Longrightarrow> unat (r XOR ucast (c :: u8)) < 256"
  using in_width_unat [OF _ in_width_idx [of w r c]] by simp

lemma crc8_expression_lfsr: "in_width 8 x \<Longrightarrow> crc_bitwise_expression x = (lfsr_bit CRC8_POLY ^^ 8) x"
proof -
  let ?f = "\<lambda>x. ((drop_bit 2 x XOR drop_bit 1 x XOR x) AND 0x0f) XOR
     ((drop_bit 2 x XOR drop_bit 1 x XOR x XOR push_bit 4 x) AND 0x30) XOR
     ((drop_bit 1 x XOR x XOR push_bit 5 x) AND 0x40) XOR ((x XOR push_bit 6 x XOR push_bit 7 x) AND (0x80 :: u32))"
  have disj: "(p AND 0x0f) OR (q AND 0x30) OR (r AND 0x40) OR (s AND 0x80) =
      (p AND 0x0f) XOR (q AND 0x30) XOR (r AND 0x40) XOR (s AND (0x80 :: u32))" for p q r s
  proof -
    have "(r AND 0x40) OR (s AND (0x80 :: u32)) = (r AND 0x40) XOR (s AND 0x80)"
      by (rule or_disjoint) (simp add: and.left_commute and.assoc)
    moreover have "(q AND 0x30) OR ((r AND 0x40) XOR (s AND (0x80 :: u32))) = (q AND 0x30) XOR (r AND 0x40) XOR (s AND 0x80)"
      by (rule or_disjoint) (simp add: bit.conj_xor_distrib and.left_commute and.assoc)
    moreover have "(p AND 0x0f) OR ((q AND 0x30) XOR (r AND 0x40) XOR (s AND (0x80 :: u32))) =
        (p AND 0x0f) XOR (q AND 0x30) XOR (r AND 0x40) XOR (s AND 0x80)"
      by (rule or_disjoint) (simp add: bit.conj_xor_distrib and.left_commute and.assoc)
    ultimately show ?thesis by simp
  qed
  assume x: "in_width 8 x"
  have "?f x = (lfsr_bit CRC8_POLY ^^ 8) x"
  proof (rule lin_eqI [where f = ?f and g = "lfsr_bit CRC8_POLY ^^ 8" and n = 8])
    show "lin ?f" by (intro lin_intros)
    show "lin (lfsr_bit CRC8_POLY ^^ 8)" by (rule lfsrs_lin)
    show "?f (push_bit i 1) = (lfsr_bit CRC8_POLY ^^ 8) (push_bit i 1)" if "i < 8" for i
    proof -
      have "i = 0 \<or> i = 1 \<or> i = 2 \<or> i = 3 \<or> i = 4 \<or> i = 5 \<or> i = 6 \<or> i = 7" using that by linarith
      then show ?thesis by (elim disjE) (simp_all add: table_eval)
    qed
  qed (rule in_widthD [OF x])
  then show ?thesis unfolding crc_bitwise_expression_def disj .
qed

interpretation bwe8: crc_engine 7 CRC8_POLY "\<lambda>r. r" crc8bwe_step
proof unfold_locales
  show "in_width (Suc 7) CRC8_POLY" "bit CRC8_POLY 7" by (simp_all add: in_width_take_eq)
  show "crc8bwe_step r c = lfsr_byte CRC8_POLY r c" if "in_width (Suc 7) r" for r c
    using that in_width_idx [of 8 r c] by (simp add: crc8bwe_step_def crc8_expression_lfsr lfsr_byte_def)
qed

lemma lut_get_tab:
  "length t = 32 \<Longrightarrow> i < 16 \<Longrightarrow> lut_get t i = Some (t ! i)"
  "length t = 32 \<Longrightarrow> i < 16 \<Longrightarrow> lut_get t (i + 16) = Some (t ! (i + 16))"
  by (simp_all add: lut_get_def)

interpretation nibble8: crc_engine 7 CRC8_POLY Some crc8tbl4_step
proof unfold_locales
  fix r :: u32 and c :: u8
  assume "in_width (Suc 7) r"
  then have w: "in_width 8 (r XOR ucast c)" using in_width_idx [of 8 r c] by simp
  show "crc8tbl4_step (Some r) c = Some (lfsr_byte CRC8_POLY r c)"
    using tab8.t4_lookup [OF w] nibbles(1,2) [OF w]
    by (simp add: crc8tbl4_step_def lfsr_byte_def Let_def lut_get_tab [OF tab8.t4_length] xor.commute)
qed

interpretation byte8: crc_engine 7 CRC8_POLY Some crc8tbl8_step
proof unfold_locales
  fix r :: u32 and c :: u8
  assume "in_width (Suc 7) r"
  then have r: "in_width 8 r" by simp
  show "crc8tbl8_step (Some r) c = Some (lfsr_byte CRC8_POLY r c)"
    using tab8.t8_lookup [OF in_width_idx [OF _ r, of c]] in_width_idx_less [OF _ r, of c]
    by (simp add: crc8tbl8_step_def lut_get_def lfsr_byte_def tab8.t8_length)
qed

subsection \<open>Five bits\<close>

lemma crc5_step_lfsr:
  assumes r: "in_width 5 r"
  shows "crc5bwe_step r c = lfsr_byte CRC5_POLY r c"
proof -
  let ?g = "\<lambda>x. x XOR (drop_bit 3 x XOR (push_bit 2 x XOR push_bit 3 x) XOR push_bit 4 (push_bit 2 x XOR push_bit 3 x))"
  let ?f = "\<lambda>x. (?g x AND 0x18) OR (drop_bit 5 (?g x) AND (0x07 :: u32))"
  have x: "in_width 8 (r XOR ucast c)" by (rule in_width_idx [OF _ r]) simp
  have "?f (r XOR ucast c) = (lfsr_bit CRC5_POLY ^^ 8) (r XOR ucast c)"
  proof (rule lin_eqI [where f = ?f and g = "lfsr_bit CRC5_POLY ^^ 8" and n = 8])
    show "lin ?f" by (intro lin_intros) simp
    show "lin (lfsr_bit CRC5_POLY ^^ 8)" by (rule lfsrs_lin)
    show "?f (push_bit i 1) = (lfsr_bit CRC5_POLY ^^ 8) (push_bit i 1)" if "i < 8" for i
    proof -
      have "i = 0 \<or> i = 1 \<or> i = 2 \<or> i = 3 \<or> i = 4 \<or> i = 5 \<or> i = 6 \<or> i = 7" using that by linarith
      then show ?thesis by (elim disjE) (simp_all add: table_eval)
    qed
  qed (rule in_widthD [OF x])
  then show ?thesis by (simp only: crc5bwe_step_def lfsr_byte_def Let_def)
qed

interpretation bwe5: crc_engine 4 CRC5_POLY "\<lambda>r. r" crc5bwe_step
proof unfold_locales
  show "in_width (Suc 4) CRC5_POLY" "bit CRC5_POLY 4" by (simp_all add: in_width_take_eq)
  show "crc5bwe_step r c = lfsr_byte CRC5_POLY r c" if "in_width (Suc 4) r" for r c
    using that by (simp add: crc5_step_lfsr)
qed

interpretation nibble5: crc_engine 4 CRC5_POLY Some crc5tbl4_step
proof unfold_locales
  fix r :: u32 and c :: u8
  assume "in_width (Suc 4) r"
  then have w: "in_width 8 (r XOR ucast c)" using in_width_idx [of 5 r c] by simp
  show "crc5tbl4_step (Some r) c = Some (lfsr_byte CRC5_POLY r c)"
    using tab5.t4_lookup [OF w] nibbles(1,2) [OF w]
    by (simp add: crc5tbl4_step_def lfsr_byte_def Let_def lut_get_tab [OF tab5.t4_length] xor.commute)
qed

interpretation byte5: crc_engine 4 CRC5_POLY Some crc5tbl8_step
proof unfold_locales
  fix r :: u32 and c :: u8
  assume "in_width (Suc 4) r"
  then have r: "in_width 5 r" by simp
  show "crc5tbl8_step (Some r) c = Some (lfsr_byte CRC5_POLY r c)"
    using tab5.t8_lookup [OF in_width_idx [OF _ r, of c]] in_width_idx_less [OF _ r, of c]
    by (simp add: crc5tbl8_step_def lut_get_def lfsr_byte_def tab5.t8_length)
qed

section \<open>Properties\<close>

text \<open>C25: the three implementations of the 16-bit code (a bit-wise expression, two tables of sixteen entries,
  one of 256) compute the same checksum, that of the shift register of the reflected CCITT polynomial \<open>0x8408\<close>.\<close>

theorem crc16_implementations_agree:
  "crc16bwe data = lfsr_crc 0x8408 0xffff data \<and> crc16tbl4 data = lfsr_crc 0x8408 0xffff data \<and>
   crc16tbl8 data = lfsr_crc 0x8408 0xffff data"
proof -
  have "in_width (Suc 15) 0xffff" by (simp add: in_width_take_eq)
  from crc16_engines [OF this, of data] show ?thesis
    by (simp add: crc16bwe_def crc16tbl4_def crc16tbl8_def lfsr_crc_def)
qed

text \<open>C26: the codes of eight and five bits: the table versions never index outside their tables, and they
  return what the bit-wise versions return, the checksum of the shift registers of \<open>0xe0\<close> and \<open>0x14\<close>.\<close>

theorem crc8_crc5_implementations_agree:
  "crc8bwe data = lfsr_crc 0xe0 0xff data \<and> crc8tbl4 data = Some (crc8bwe data) \<and> crc8tbl8 data = Some (crc8bwe data) \<and>
   crc5 data = lfsr_crc 0x14 0x1f data \<and> crc5bwe data = crc5 data \<and> unat (crc5 data) < 32 \<and>
   crc5tbl4 data = Some (ucast (crc5 data)) \<and> crc5tbl8 data = Some (ucast (crc5 data))"
proof -
  have e: "in_width (Suc 7) 0xff" by (simp add: in_width_take_eq)
  have f: "in_width (Suc 4) 0x1f" by (simp add: in_width_take_eq)
  have s: "crc5_step = crc5bwe_step" by (intro ext) (simp only: crc5_step_def crc5bwe_step_def)
  have "in_width 5 (lfsr_crc CRC5_POLY 0x1f data)"
    using in_width_xor [OF bwe5.fold_width [OF f] f] by (simp add: lfsr_crc_def)
  then have "unat (lfsr_crc CRC5_POLY 0x1f data) < 32" using in_width_unat [of 5] by force
  then show ?thesis
    using bwe8.fold_lfsr [OF e, of data] nibble8.fold_lfsr [OF e, of data] byte8.fold_lfsr [OF e, of data]
      bwe5.fold_lfsr [OF f, of data] nibble5.fold_lfsr [OF f, of data] byte5.fold_lfsr [OF f, of data]
    by (simp add: crc8bwe_def crc8tbl4_def crc8tbl8_def crc5_def crc5bwe_def crc5tbl4_def crc5tbl8_def lfsr_crc_def s)
qed

text \<open>\<open>crc16ccitt\<close> started from a register of 16 bits computes the CCITT code most significant bit first (the
  polynomial \<open>0x1021\<close>), stays inside 16 bits, and can be continued over the pieces of a message.\<close>

theorem crc16ccitt_msb_first:
  assumes "unat r < 2 ^ 16"
  shows "crc16ccitt r data = foldl msb_byte r data \<and> unat (crc16ccitt r data) < 2 ^ 16 \<and>
    crc16ccitt r (data @ more) = crc16ccitt (crc16ccitt r data) more"
proof -
  have "in_width 16 r" by (rule in_width_of_unat [OF assms])
  then have "crc16ccitt r data = foldl msb_byte r data" "in_width 16 (crc16ccitt r data)"
    using ccitt_fold by blast+
  then show ?thesis using in_width_unat [of 16 "crc16ccitt r data"] by (simp add: crc16ccitt_def)
qed

theorem crc16ccitt_msb_first_witness:
  "unat (0xffff :: u32) < 2 ^ 16 \<and> unat (crc16ccitt 0xffff [0x31, 0x32]) < 2 ^ 16"
proof -
  have "unat (0xffff :: u32) < 2 ^ 16" by simp
  from this crc16ccitt_msb_first [OF this] show ?thesis by blast
qed

text \<open>Two bytes are sixteen bits of the register.\<close>

lemma lfsr_two_bytes:
  "lfsr_byte p (lfsr_byte p r a) b = (lfsr_bit p ^^ 16) (r XOR (ucast a XOR push_bit 8 (ucast b)))"
proof -
  have "(lfsr_bit p ^^ 8) (push_bit 8 (ucast b :: u32)) = drop_bit 8 (push_bit 8 (ucast b))"
    by (rule lfsrs_shift) (simp add: bit_push_bit_iff)
  also have "\<dots> = ucast b"
    by (rule word32_eqI) (auto simp: bit_simps dest: bit_imp_le_length)
  finally have b: "(lfsr_bit p ^^ 8) (push_bit 8 (ucast b)) = ucast b" .
  have "(lfsr_bit p ^^ 16) z = (lfsr_bit p ^^ 8) ((lfsr_bit p ^^ 8) z)" for z
    using funpow_add [of 8 8 "lfsr_bit p"] by simp
  then show ?thesis
    by (simp only: lfsr_byte_def linD [OF lfsrs_lin] b xor.assoc [symmetric])
qed

lemma bytes_join:
  assumes "in_width 16 c"
  shows "ucast (ucast c :: u8) XOR push_bit 8 (ucast (ucast (drop_bit 8 c) :: u8)) = (c :: u32)"
  using assms unfolding in_width_def
  by (intro word32_eqI) (auto simp: bit_simps)

lemma bytes_join_inj:
  assumes "ucast (a :: u8) XOR push_bit 8 (ucast (b :: u8)) = (ucast a' XOR push_bit 8 (ucast b') :: u32)"
  shows "a = a' \<and> b = b'"
proof (intro conjI bit_word_eqI)
  fix n
  assume n: "n < LENGTH(8)"
  have e: "bit (ucast a XOR push_bit 8 (ucast b) :: u32) m = bit (ucast a' XOR push_bit 8 (ucast b') :: u32) m" for m
    using assms by simp
  show "bit a n = bit a' n" using e [of n] n by (auto simp: bit_simps)
  show "bit b n = bit b' n" using e [of "n + 8"] n by (auto simp: bit_simps dest: bit_imp_le_length)
qed

lemma crc16_fold: "crc16bwe data = foldl (lfsr_byte CRC16_POLY) 0xffff data XOR 0xffff"
  "in_width 16 (foldl (lfsr_byte CRC16_POLY) 0xffff data)"
proof -
  have "in_width (Suc 15) 0xffff" by (simp add: in_width_take_eq)
  then show "crc16bwe data = foldl (lfsr_byte CRC16_POLY) 0xffff data XOR 0xffff"
    "in_width 16 (foldl (lfsr_byte CRC16_POLY) 0xffff data)"
    using bwe16.fold_lfsr [of "0xffff" data] ccitt.fold_width [of "0xffff" data] by (simp_all add: crc16bwe_def)
qed

lemma ccitt_ones: "(lfsr_bit CRC16_POLY ^^ 16) 0xffff = 0xf0b8"
  using funpow_add [of 8 8 "lfsr_bit CRC16_POLY"] by (simp add: table_eval)

text \<open>the check a receiver makes. A message followed by its own checksum, low byte first, has the same
  checksum whatever the message is: the residue \<open>0x0f47\<close> of the code.\<close>

theorem crc16_residue:
  "crc16bwe (data @ [ucast (crc16bwe data), ucast (drop_bit 8 (crc16bwe data))]) = 0x0f47"
proof -
  let ?r = "foldl (lfsr_byte CRC16_POLY) 0xffff data"
  let ?c = "?r XOR 0xffff"
  have "in_width 16 ?c" by (intro in_width_xor crc16_fold(2)) (simp add: in_width_take_eq)
  then have "lfsr_byte CRC16_POLY (lfsr_byte CRC16_POLY ?r (ucast ?c)) (ucast (drop_bit 8 ?c)) =
      (lfsr_bit CRC16_POLY ^^ 16) (?r XOR ?c)"
    by (simp only: lfsr_two_bytes bytes_join)
  also have "?r XOR ?c = 0xffff" by (simp add: xor.assoc [symmetric])
  finally show ?thesis
    unfolding crc16_fold(1) foldl_append by (simp add: ccitt_ones)
qed

text \<open>error detection. Two messages that differ only inside two neighbouring bytes have different 16-bit
  checksums: every burst of errors within two bytes is noticed, wherever it is.\<close>

theorem crc16_detects_bursts:
  assumes "(a, b) \<noteq> (a', b')"
  shows "crc16tbl8 (xs @ [a, b] @ ys) \<noteq> crc16tbl8 (xs @ [a', b'] @ ys)"
proof
  let ?L = "foldl (lfsr_byte CRC16_POLY)"
  let ?r = "?L 0xffff xs"
  have ones: "in_width (Suc 15) 0xffff" by (simp add: in_width_take_eq)
  have r: "in_width 16 ?r" by (rule crc16_fold(2))
  have w: "in_width (Suc 15) (lfsr_byte CRC16_POLY (lfsr_byte CRC16_POLY ?r c) d)" for c d
    using r ccitt.poly_width by (simp add: lfsr_byte_width)
  have z: "in_width (Suc 15) (?r XOR (ucast c XOR push_bit 8 (ucast d)))" for c d :: u8
    using in_width_xor [OF r in_width_xor [OF in_width_byte in_width_high]] by simp
  assume "crc16tbl8 (xs @ [a, b] @ ys) = crc16tbl8 (xs @ [a', b'] @ ys)"
  then have "?L 0xffff (xs @ [a, b] @ ys) = ?L 0xffff (xs @ [a', b'] @ ys)"
    unfolding crc16tbl8_def byte16.fold_lfsr [OF ones] by (rule xor_right_cancel)
  then have "?L (lfsr_byte CRC16_POLY (lfsr_byte CRC16_POLY ?r a) b) ys =
      ?L (lfsr_byte CRC16_POLY (lfsr_byte CRC16_POLY ?r a') b') ys" by simp
  then have "lfsr_byte CRC16_POLY (lfsr_byte CRC16_POLY ?r a) b = lfsr_byte CRC16_POLY (lfsr_byte CRC16_POLY ?r a') b'"
    using ccitt.fold_inj [OF _ w w] by simp
  then have "?r XOR (ucast a XOR push_bit 8 (ucast b)) = ?r XOR (ucast a' XOR push_bit 8 (ucast b'))"
    unfolding lfsr_two_bytes by (rule lfsrs_inj [OF z z ccitt.poly_width ccitt.poly_top])
  then have "ucast a XOR push_bit 8 (ucast b) = (ucast a' XOR push_bit 8 (ucast b') :: u32)"
    by (metis xor.commute xor_right_cancel)
  then show False using bytes_join_inj assms by blast
qed

theorem crc16_detects_bursts_witness:
  "crc16tbl8 [1, 2, 3, 4] \<noteq> crc16tbl8 [1, 2, 7, 4]"
  using crc16_detects_bursts [of 2 3 2 7 "[1]" "[4]"] by simp

end
