(* ===== verification/Util.thy ===== *)
theory Util
  imports Prelude
begin

text \<open>
  The arithmetic helpers of \<^verbatim>\<open>src/src/sdk/libutil\<close>: the integer square root by digits (\<open>isqrt\<close>), the base two
  logarithm by a de Bruijn table (\<open>ilog2\<close>) and the byte swaps. All of them work on machine words; the shift of
  a signed number is arithmetic. The lemmas give the mathematical function each computes. The delay loops of
  the directory are timing only.
\<close>

section \<open>Definitions\<close>

text \<open>The loop counts its 16 iterations down.\<close>

fun isqrt_loop :: "nat \<Rightarrow> u32 \<Rightarrow> u32 \<Rightarrow> u32 \<Rightarrow> u32" where
  "isqrt_loop 0 x rm root = root"
| "isqrt_loop (Suc n) x rm root = (
     let root = push_bit 1 root;
         rm = push_bit 2 rm + drop_bit 30 x;
         x = push_bit 2 x;
         root = root + 1
     in if root \<le> rm then isqrt_loop n x (rm - root) (root + 1)
        else isqrt_loop n x rm (root - 1))"

definition isqrt :: "u32 \<Rightarrow> u32" where
  "isqrt x = drop_bit 1 (isqrt_loop 16 x 0 0)"

definition log2_debruijn_index :: "nat list" where
  "log2_debruijn_index =
    [0, 1, 28, 2, 29, 14, 24, 3, 30, 22, 20, 15, 25, 17, 4, 8,
     31, 27, 13, 23, 21, 19, 16, 7, 26, 12, 18, 6, 11, 5, 10, 9]"

definition ilog2 :: "u32 \<Rightarrow> nat" where
  "ilog2 v = (
     let v = v OR signed_drop_bit 1 v;
         v = v OR signed_drop_bit 2 v;
         v = v OR signed_drop_bit 4 v;
         v = v OR signed_drop_bit 8 v;
         v = v OR signed_drop_bit 16 v;
         v = signed_drop_bit 1 v + 1;
         x = drop_bit 27 (v * 0x077cb531)
     in log2_debruijn_index ! unat x)"

definition bswap_16 :: "u16 \<Rightarrow> u16" where
  "bswap_16 v = push_bit 8 (v AND 0xff) OR drop_bit 8 (v AND 0xff00)"

definition bswap_32 :: "u32 \<Rightarrow> u32" where
  "bswap_32 v = push_bit 24 (v AND 0xff) OR push_bit 8 (v AND 0xff00) OR
     drop_bit 8 (v AND 0xff0000) OR drop_bit 24 (v AND 0xff000000)"

section \<open>The square root\<close>

text \<open>With \<open>n\<close> digits to go, the argument is \<open>a * 4 ^ n + low\<close>, \<open>root\<close> is twice the root \<open>s\<close> of \<open>a\<close> and \<open>rem\<close> what is
  left of \<open>a\<close>.\<close>

definition isqrt_inv :: "nat \<Rightarrow> nat \<Rightarrow> u32 \<Rightarrow> u32 \<Rightarrow> u32 \<Rightarrow> bool" where
  "isqrt_inv n x0 x rm root \<longleftrightarrow> (\<exists>a low s. x0 = a * 4 ^ n + low \<and> low < 4 ^ n \<and> a < 4 ^ (16 - n) \<and>
     s * s \<le> a \<and> a < (s + 1) * (s + 1) \<and>
     unat x = low * 4 ^ (16 - n) \<and> unat rm = a - s * s \<and> unat root = 2 * s)"

lemma square_less: "s * s < m * m \<Longrightarrow> s < (m :: nat)"
  by (meson linorder_not_less mult_le_mono)

lemma isqrt_digit:
  fixes x :: u32
  assumes "unat x = low * 4 ^ (15 - m)" and "m \<le> 15" and "low < 4 ^ Suc m"
  shows "unat (drop_bit 30 x) = low div 4 ^ m" and "unat (push_bit 2 x) = (low mod 4 ^ m) * 4 ^ (16 - m)"
proof -
  have p: "(4 :: nat) ^ 15 = 4 ^ m * 4 ^ (15 - m)" "(4 :: nat) ^ 16 = 4 ^ m * 4 ^ (16 - m)"
    using assms(2) by (simp_all add: power_add [symmetric])
  have "unat (drop_bit 30 x) = unat x div 2 ^ 30" by (simp add: drop_bit_eq_div unat_div)
  also have "(2 :: nat) ^ 30 = 4 ^ m * 4 ^ (15 - m)" using p(1) by simp
  finally show "unat (drop_bit 30 x) = low div 4 ^ m" using assms(1) by simp
  have "unat (push_bit 2 x) = (unat x * 4) mod 2 ^ 32"
    by (simp add: push_bit_eq_mult unat_word_ariths(2))
  also have "(2 :: nat) ^ 32 = 4 ^ m * 4 ^ (16 - m)" using p(2) by simp
  also have "unat x * 4 = low * 4 ^ (16 - m)"
  proof -
    have "16 - m = Suc (15 - m)" using assms(2) by simp
    then show ?thesis using assms(1) by (simp only: power_Suc ac_simps)
  qed
  finally show "unat (push_bit 2 x) = (low mod 4 ^ m) * 4 ^ (16 - m)"
    by (simp add: mod_mult_mult2)
qed

lemma isqrt_words:
  fixes rm root x :: u32
  assumes "unat root = 2 * s" "unat rm < 2 ^ 17" "s < 2 ^ 15" "unat (drop_bit 30 x) < 4"
  shows "unat (push_bit 1 root + 1) = 4 * s + 1" "unat (push_bit 2 rm + drop_bit 30 x) = 4 * unat rm + unat (drop_bit 30 x)"
    "unat (push_bit 1 root + 1 + 1) = 4 * s + 2" "unat (push_bit 1 root + 1 - 1) = 4 * s"
proof -
  have r: "unat (push_bit 1 root) = 4 * s"
    using assms by (simp add: push_bit_eq_mult unat_word_ariths(2))
  show "unat (push_bit 1 root + 1) = 4 * s + 1"
    using assms by (simp only: unat_word_ariths(1) r) simp
  show "unat (push_bit 1 root + 1 + 1) = 4 * s + 2"
    using assms by (simp only: unat_word_ariths(1) r) simp
  show "unat (push_bit 1 root + 1 - 1) = 4 * s" using r by simp
  have "unat (push_bit 2 rm) = 4 * unat rm"
    using assms by (simp add: push_bit_eq_mult unat_word_ariths(2))
  then show "unat (push_bit 2 rm + drop_bit 30 x) = 4 * unat rm + unat (drop_bit 30 x)"
    using assms by (simp only: unat_word_ariths(1)) simp
qed

lemma isqrt_step:
  assumes i: "isqrt_inv (Suc m) x0 x rm root" and m: "m \<le> 15"
    and rm': "rm' = push_bit 2 rm + drop_bit 30 x" and root': "root' = push_bit 1 root + 1"
  shows "if root' \<le> rm' then isqrt_inv m x0 (push_bit 2 x) (rm' - root') (root' + 1)
    else isqrt_inv m x0 (push_bit 2 x) rm' (root' - 1)"
proof -
  obtain a low s where
    x0: "x0 = a * 4 ^ Suc m + low" "low < 4 ^ Suc m" and a: "a < 4 ^ (15 - m)" "s * s \<le> a" "a < (s + 1) * (s + 1)"
    and x: "unat x = low * 4 ^ (15 - m)" and rm: "unat rm = a - s * s" and root: "unat root = 2 * s"
    using i unfolding isqrt_inv_def by auto
  define d where "d = low div 4 ^ m"
  define a' where "a' = 4 * a + d"
  note dig = isqrt_digit [OF x m x0(2)]
  have d: "d < 4" using x0(2) by (simp add: d_def less_mult_imp_div_less)
  have low: "low = d * 4 ^ m + low mod 4 ^ m" unfolding d_def by (simp only: div_mult_mod_eq)
  have "(4 :: nat) ^ (15 - m) \<le> 4 ^ 15" by (rule power_increasing) simp_all
  then have "s * s < 2 ^ 15 * 2 ^ 15" using a by simp
  then have s: "s < 2 ^ 15" by (rule square_less)
  have rms: "unat rm \<le> 2 * s" using a rm by (simp add: algebra_simps)
  have dx: "unat (drop_bit 30 x) = d" using dig(1) by (simp add: d_def)
  note w = isqrt_words [OF root _ s, of rm x, unfolded dx, folded root' rm']
  have w': "unat root' = 4 * s + 1" "unat rm' = 4 * unat rm + d" "unat (root' + 1) = 4 * s + 2" "unat (root' - 1) = 4 * s"
    using w rms s d by simp_all
  have rm4: "unat rm' = a' - 4 * (s * s)" using w'(2) rm a by (simp add: a'_def algebra_simps)
  have a4: "4 * (s * s) \<le> a'" using a by (simp add: a'_def)
  have up: "a' < (2 * s + 2) * (2 * s + 2)"
    using a(3) d by (simp add: a'_def algebra_simps)
  have p: "(4 :: nat) ^ (16 - m) = 4 * 4 ^ (15 - m)" 
  proof -
    have "16 - m = Suc (15 - m)" using m by simp
    then show ?thesis by (simp only: power_Suc)
  qed
  have "a' < 4 * 4 ^ (15 - m)" using a(1) d by (simp add: a'_def)
  then have common: "x0 = a' * 4 ^ m + low mod 4 ^ m" "low mod 4 ^ m < 4 ^ m" "a' < 4 ^ (16 - m)"
    "unat (push_bit 2 x) = (low mod 4 ^ m) * 4 ^ (16 - m)"
    unfolding p using x0(1) low dig(2) by (simp_all add: a'_def algebra_simps p)
  show ?thesis
  proof (cases "root' \<le> rm'")
    case True
    then have le: "4 * s + 1 \<le> a' - 4 * (s * s)" using w' rm4 by (simp add: word_le_nat_alt)
    have "unat (rm' - root') = a' - (2 * s + 1) * (2 * s + 1)"
      using True rm4 w'(1) a4 by (simp add: unat_sub_if' word_le_nat_alt algebra_simps)
    moreover have "(2 * s + 1) * (2 * s + 1) \<le> a'" using le a4 by (simp add: algebra_simps)
    moreover have "a' < (2 * s + 1 + 1) * (2 * s + 1 + 1)" using up by simp
    ultimately have "isqrt_inv m x0 (push_bit 2 x) (rm' - root') (root' + 1)"
      unfolding isqrt_inv_def using common w'(3)
      by (intro exI [of _ a'] exI [of _ "low mod 4 ^ m"] exI [of _ "2 * s + 1"]) simp
    then show ?thesis using True by simp
  next
    case False
    then have "a' - 4 * (s * s) < 4 * s + 1" using w' rm4 by (simp add: word_le_nat_alt)
    then have "a' < (2 * s + 1) * (2 * s + 1)" using a4 by (simp add: algebra_simps)
    then have "isqrt_inv m x0 (push_bit 2 x) rm' (root' - 1)"
      unfolding isqrt_inv_def using common w'(4) rm4 a4
      by (intro exI [of _ a'] exI [of _ "low mod 4 ^ m"] exI [of _ "2 * s"]) simp
    then show ?thesis using False by simp
  qed
qed

lemma isqrt_loop_inv: "isqrt_inv n x0 x rm root \<Longrightarrow> n \<le> 16 \<Longrightarrow> \<exists>y z. isqrt_inv 0 x0 y z (isqrt_loop n x rm root)"
proof (induction n x rm root rule: isqrt_loop.induct)
  case (2 n x rm root)
  let ?rm = "push_bit 2 rm + drop_bit 30 x" and ?root = "push_bit 1 root + 1"
  note st = isqrt_step [OF 2(3) _ refl refl]
  show ?case
  proof (cases "?root \<le> ?rm")
    case True
    then show ?thesis using 2(1) [OF refl refl refl refl] st 2(4) by (simp add: Let_def)
  next
    case False
    then show ?thesis using 2(2) [OF refl refl refl refl] st 2(4) by (simp add: Let_def)
  qed
qed auto

text \<open>C27: \<open>isqrt\<close> computes the integer square root of every 32-bit number; no intermediate value overflows.\<close>

theorem isqrt_floor:
  "unat (isqrt x) * unat (isqrt x) \<le> unat x \<and> unat x < (unat (isqrt x) + 1) * (unat (isqrt x) + 1)"
proof -
  have "isqrt_inv 16 (unat x) x 0 0"
    using unsigned_less [of x] by (auto simp: isqrt_inv_def)
  then obtain y z where "isqrt_inv 0 (unat x) y z (isqrt_loop 16 x 0 0)" using isqrt_loop_inv by blast
  then obtain s where "s * s \<le> unat x" "unat x < (s + 1) * (s + 1)" and r: "unat (isqrt_loop 16 x 0 0) = 2 * s"
    unfolding isqrt_inv_def by auto
  moreover have "unat (isqrt x) = s"
    unfolding isqrt_def by (simp add: drop_bit_eq_div unat_div r)
  ultimately show ?thesis by simp
qed

section \<open>The logarithm\<close>

text \<open>After the shifts by 1, 2, 4, ... a bit is set when one of the bits above it was.\<close>

definition smeared :: "nat \<Rightarrow> u32 \<Rightarrow> u32 \<Rightarrow> bool" where
  "smeared k v w \<longleftrightarrow> (\<forall>i. bit w i \<longleftrightarrow> (\<exists>j<k. bit v (i + j)))"

lemma signed_drop_nonneg: "\<not> bit (w :: u32) 31 \<Longrightarrow> signed_drop_bit n w = drop_bit n w"
  by (rule word32_eqI) (auto simp: bit_simps dest: word32_bit_lt)

lemma smeared_step:
  assumes "smeared k v w" and "\<not> bit v 31"
  shows "smeared (2 * k) v (w OR signed_drop_bit k w)"
proof -
  have "bit (w OR drop_bit k w) i \<longleftrightarrow> (\<exists>j<2 * k. bit v (i + j))" for i
  proof
    assume "bit (w OR drop_bit k w) i"
    then consider j where "j < k" "bit v (i + j)" | j where "j < k" "bit v (k + i + j)"
      using assms(1) by (auto simp: bit_or_iff bit_drop_bit_eq smeared_def)
    then show "\<exists>j<2 * k. bit v (i + j)"
    proof cases
      case 1
      then show ?thesis by (intro exI [of _ j]) simp
    next
      case 2
      then show ?thesis by (intro exI [of _ "k + j"]) (simp add: ac_simps)
    qed
  next
    assume "\<exists>j<2 * k. bit v (i + j)"
    then obtain j where j: "j < 2 * k" "bit v (i + j)" by blast
    show "bit (w OR drop_bit k w) i"
    proof (cases "j < k")
      case True
      then show ?thesis using j assms(1) by (auto simp: bit_or_iff smeared_def)
    next
      case False
      then have "j - k < k" "bit v (k + i + (j - k))" using j by (simp_all add: ac_simps)
      then show ?thesis using assms(1) by (auto simp: bit_or_iff bit_drop_bit_eq smeared_def)
    qed
  qed
  moreover have "\<not> bit w 31"
  proof
    assume "bit w 31"
    then obtain j where "bit v (31 + j)" using assms(1) by (auto simp: smeared_def)
    then show False using assms(2) word32_bit_lt [of v "31 + j"] by (cases j) auto
  qed
  ultimately show ?thesis by (simp add: smeared_def signed_drop_nonneg)
qed

lemma smeared_all:
  assumes "smeared 32 v w" and "bit v n" and "\<And>i. bit v i \<Longrightarrow> i \<le> n"
  shows "w = mask (Suc n)"
proof (rule word32_eqI)
  fix i :: nat
  assume "i < 32"
  have "(\<exists>j<32. bit v (i + j)) \<longleftrightarrow> i \<le> n"
  proof
    assume "i \<le> n"
    then show "\<exists>j<32. bit v (i + j)" using assms(2) word32_bit_lt [OF assms(2)] by (intro exI [of _ "n - i"]) auto
  qed (use assms(3) in force)
  then show "bit w i = bit (mask (Suc n) :: u32) i"
    using assms(1) \<open>i < 32\<close> by (auto simp: smeared_def bit_mask_iff)
qed

lemma ilog2_power:
  assumes n: "bit v n" "\<And>i. bit v i \<Longrightarrow> i \<le> n" and v: "\<not> bit v 31"
  shows "ilog2 v = log2_debruijn_index ! unat (drop_bit 27 (2 ^ n * 0x077cb531 :: u32))"
proof -
  define v1 where "v1 = v OR signed_drop_bit 1 v"
  define v2 where "v2 = v1 OR signed_drop_bit 2 v1"
  define v3 where "v3 = v2 OR signed_drop_bit 4 v2"
  define v4 where "v4 = v3 OR signed_drop_bit 8 v3"
  define w where "w = v4 OR signed_drop_bit 16 v4"
  have "smeared 1 v v" by (auto simp: smeared_def)
  from smeared_step [OF this v] have "smeared 2 v v1" by (simp add: v1_def)
  from smeared_step [OF this v] have "smeared 4 v v2" by (simp add: v2_def)
  from smeared_step [OF this v] have "smeared 8 v v3" by (simp add: v3_def)
  from smeared_step [OF this v] have "smeared 16 v v4" by (simp add: v4_def)
  from smeared_step [OF this v] have "smeared 32 v w" by (simp add: w_def)
  then have w: "w = mask (Suc n)" using n by (rule smeared_all)
  have n31: "n < 31" using n(1) v word32_bit_lt [of v n] by (cases "n = 31") auto
  have "signed_drop_bit 1 (mask (Suc n) :: u32) = mask n"
    using n31 by (subst signed_drop_nonneg) (auto simp: bit_mask_iff intro!: word32_eqI simp: bit_simps)
  then have "signed_drop_bit 1 w + 1 = 2 ^ n" unfolding w by (simp add: mask_eq_exp_minus_1)
  then show ?thesis
    by (simp only: ilog2_def Let_def v1_def [symmetric] v2_def [symmetric] v3_def [symmetric] v4_def [symmetric]
        w_def [symmetric])
qed

lemma debruijn:
  assumes "n < 31"
  shows "log2_debruijn_index ! unat (drop_bit 27 (2 ^ n * 0x077cb531 :: u32)) = n"
proof -
  have "list_all (\<lambda>n. log2_debruijn_index ! unat (drop_bit 27 (2 ^ n * 0x077cb531 :: u32)) = n) [0..<31]"
    by (simp add: upt_rec log2_debruijn_index_def)
  then show ?thesis using assms by (simp add: list_all_iff)
qed

lemma power_interval: "1 \<le> (k :: nat) \<Longrightarrow> \<exists>n. 2 ^ n \<le> k \<and> k < 2 ^ (n + 1)"
proof (induction k rule: less_induct)
  case (less k)
  show ?case
  proof (cases "k = 1")
    case False
    then have "k div 2 < k" "1 \<le> k div 2" using less.prems by auto
    then obtain n where "2 ^ n \<le> k div 2" "k div 2 < 2 ^ (n + 1)" using less.IH by blast
    then show ?thesis by (intro exI [of _ "Suc n"]) auto
  qed (intro exI [of _ 0], simp)
qed

text \<open>\<open>ilog2\<close> of a positive \<open>int\<close> is the position of its highest bit, \<open>2 ^ n \<le> v < 2 ^ (n + 1)\<close>; the index into the
  table is always below its length.\<close>

theorem ilog2_floor:
  assumes "0 < sint v"
  shows "2 ^ ilog2 v \<le> unat v \<and> unat v < 2 ^ (ilog2 v + 1) \<and> ilog2 v < length log2_debruijn_index"
proof -
  have v31: "\<not> bit v 31" using assms bit_last_iff [of v] by simp
  have "v \<noteq> 0" using assms by auto
  then have "1 \<le> unat v" by (simp add: unat_gt_0 Suc_leI)
  then obtain n where n: "2 ^ n \<le> unat v" "unat v < 2 ^ (n + 1)" using power_interval by blast
  have b: "bit v i \<longleftrightarrow> odd (unat v div 2 ^ i)" for i
    using bit_unsigned_iff [of v i, where 'a = nat] by (auto simp: bit_iff_odd dest: word32_bit_lt)
  have "unat v div 2 ^ n = 1" using n by (intro div_nat_eqI) simp_all
  then have bn: "bit v n" by (simp add: b)
  have le: "i \<le> n" if "bit v i" for i
  proof (rule ccontr)
    assume "\<not> i \<le> n"
    then have "(2 :: nat) ^ (n + 1) \<le> 2 ^ i" by (intro power_increasing) simp_all
    then have "unat v div 2 ^ i = 0" using n by simp
    then show False using that b by simp
  qed
  have "n < 31" using bn v31 word32_bit_lt [OF bn] by (cases "n = 31") auto
  then have "ilog2 v = n" using ilog2_power [OF bn le v31] debruijn by simp
  then show ?thesis using n \<open>n < 31\<close> by (simp add: log2_debruijn_index_def)
qed

theorem ilog2_floor_witness: "0 < sint (1000 :: u32) \<and> 2 ^ ilog2 1000 \<le> unat (1000 :: u32)"
proof -
  have "0 < sint (1000 :: u32)" by simp
  from this ilog2_floor [OF this] show ?thesis by blast
qed

section \<open>Byte swaps\<close>

lemma bit_byte_mask: "bit (v AND push_bit k (mask 8)) i \<longleftrightarrow> bit v i \<and> k \<le> i \<and> i < k + 8"
  for v :: "'a :: len word"
  by (auto simp: bit_and_iff bit_push_bit_iff bit_mask_iff dest: bit_imp_le_length)

lemma bit_bswap_32:
  assumes "i < 4" "j < 8"
  shows "bit (bswap_32 v) (8 * i + j) = bit v (8 * (3 - i) + j)"
proof -
  have e: "bswap_32 v = push_bit 24 (v AND push_bit 0 (mask 8)) OR push_bit 8 (v AND push_bit 8 (mask 8)) OR
      drop_bit 8 (v AND push_bit 16 (mask 8)) OR drop_bit 24 (v AND push_bit 24 (mask 8))"
    by (simp add: bswap_32_def mask_eq_exp_minus_1)
  have "bit (bswap_32 v) n \<longleftrightarrow> (24 \<le> n \<and> n < 32 \<and> bit v (n - 24)) \<or> (16 \<le> n \<and> n < 24 \<and> bit v (n - 8)) \<or>
      (8 \<le> n \<and> n < 16 \<and> bit v (n + 8)) \<or> (n < 8 \<and> bit v (n + 24))" for n
    unfolding e by (simp only: bit_or_iff bit_push_bit_iff bit_drop_bit_eq comp_apply bit_byte_mask) (auto simp: add.commute)
  moreover have "i = 0 \<or> i = 1 \<or> i = 2 \<or> i = 3" using assms(1) by linarith
  ultimately show ?thesis using assms(2) by (elim disjE) (simp_all add: ac_simps)
qed

lemma bit_bswap_16:
  assumes "i < 2" "j < 8"
  shows "bit (bswap_16 v) (8 * i + j) = bit v (8 * (1 - i) + j)"
proof -
  have e: "bswap_16 v = push_bit 8 (v AND push_bit 0 (mask 8)) OR drop_bit 8 (v AND push_bit 8 (mask 8))"
    by (simp add: bswap_16_def mask_eq_exp_minus_1)
  have "bit (bswap_16 v) n \<longleftrightarrow> (8 \<le> n \<and> n < 16 \<and> bit v (n - 8)) \<or> (n < 8 \<and> bit v (n + 8))" for n
    unfolding e by (simp only: bit_or_iff bit_push_bit_iff bit_drop_bit_eq comp_apply bit_byte_mask) (auto simp: add.commute)
  moreover have "i = 0 \<or> i = 1" using assms(1) by linarith
  ultimately show ?thesis using assms(2) by (elim disjE) (simp_all add: ac_simps)
qed

text \<open>swapping the bytes of a word twice gives the word back, and the swap reverses its bytes.\<close>

theorem bswap_roundtrip:
  "bswap_32 (bswap_32 v) = v \<and> bswap_16 (bswap_16 u) = u \<and>
   (\<forall>i<4. \<forall>j<8. bit (bswap_32 v) (8 * i + j) = bit v (8 * (3 - i) + j)) \<and>
   (\<forall>i<2. \<forall>j<8. bit (bswap_16 u) (8 * i + j) = bit u (8 * (1 - i) + j))"
proof (intro conjI allI impI)
  show "bit (bswap_32 v) (8 * i + j) = bit v (8 * (3 - i) + j)" if "i < 4" "j < 8" for i j
    by (rule bit_bswap_32 [OF that])
  show "bit (bswap_16 u) (8 * i + j) = bit u (8 * (1 - i) + j)" if "i < 2" "j < 8" for i j
    by (rule bit_bswap_16 [OF that])
  show "bswap_32 (bswap_32 v) = v"
  proof (rule word32_eqI)
    fix n :: nat
    assume "n < 32"
    then have n: "n div 8 < 4" "3 - n div 8 < 4" "n mod 8 < 8" "3 - (3 - n div 8) = n div 8" by auto
    show "bit (bswap_32 (bswap_32 v)) n = bit v n"
      using bit_bswap_32 [OF n(1,3), of "bswap_32 v"] bit_bswap_32 [OF n(2,3), of v] by (simp add: n(4))
  qed
  show "bswap_16 (bswap_16 u) = u"
  proof (rule bit_word_eqI)
    fix n :: nat
    assume "n < LENGTH(16)"
    then have n: "n div 8 < 2" "1 - n div 8 < 2" "n mod 8 < 8" "Suc 0 - (Suc 0 - n div 8) = n div 8" by auto
    show "bit (bswap_16 (bswap_16 u)) n = bit u n"
      using bit_bswap_16 [OF n(1,3), of "bswap_16 u"] bit_bswap_16 [OF n(2,3), of u] by (simp add: n(4))
  qed
qed

theorem bswap_roundtrip_witness:
  "bit (bswap_32 0x80) (8 * 3 + 7) = bit (0x80 :: u32) (8 * (3 - 3) + 7)"
proof -
  have "\<forall>i<4. \<forall>j<8. bit (bswap_32 0x80) (8 * i + j) = bit (0x80 :: u32) (8 * (3 - i) + j)"
    using bswap_roundtrip [where v = "0x80"] by blast
  then show ?thesis by (elim allE [of _ "3 :: nat"] impE allE [of _ "7 :: nat"]) simp_all
qed

end
