(* ===== verification/Libc_Conv.thy ===== *)
theory Libc_Conv
  imports Util
begin

text \<open>
  Numbers in the C library (\<^verbatim>\<open>src/src/sdk/libc\<close>): \<open>ffs\<close>, \<open>rand\<close> and \<open>div\<close>, and the conversions between numbers and
  strings, \<open>uint2dec\<close>, \<open>uint2hex\<close>, \<open>ull2dec\<close>, \<open>ull2hex\<close>, \<open>int2dec\<close>, \<open>ll2dec\<close> in one direction and \<open>atoi\<close>, \<open>strtoul\<close>,
  \<open>strtol\<close> in the other. A NUL-terminated string is the list of its characters before the NUL; a function that
  writes a string and returns its length is the pair of both; a function that stores an end pointer returns
  the rest of the string. The numbers that are read are added up in 32-bit words that wrap. The additions
  of \<open>atoi\<close> are signed in the code, so C defines them below \<open>2 ^ 31\<close> only; above, the words say what the processor does.

  The printing routines subtract multiples of a power of ten by halving a table entry; the proofs relate them to
  a positional system, the locale \<open>positional\<close>, interpreted for decimal and hexadecimal digits.
\<close>

section \<open>Definitions\<close>

definition ffs_debruijn_index :: "nat list" where
  "ffs_debruijn_index =
    [1, 2, 29, 3, 30, 15, 25, 4, 31, 23, 21, 16, 26, 18, 5, 9,
     32, 28, 14, 24, 22, 20, 17, 8, 27, 13, 19, 7, 12, 6, 11, 10]"

definition ffs :: "u32 \<Rightarrow> nat" where
  "ffs i = (if i \<noteq> 0 then ffs_debruijn_index ! unat (drop_bit 27 ((i AND - i) * 0x077cb531)) else 0)"

definition rand :: "64 word \<Rightarrow> u32 \<times> 64 word" where
  "rand seed = (let seed = seed * 6364136223846793005 + 1 in (ucast (drop_bit 32 seed AND 0x7fffffff), seed))"

definition srand :: "u32 \<Rightarrow> 64 word" where
  "srand seed = ucast (seed AND 0x7fffffff)"

subsection \<open>Printing\<close>

text \<open>The inner loop: one decimal digit, from the multiple \<open>dv\<close> with weight \<open>i\<close> down.\<close>

function dec_digit :: "nat \<Rightarrow> 'a :: len word \<Rightarrow> 'a word \<Rightarrow> nat \<Rightarrow> nat \<times> 'a word" where
  "dec_digit i val dv c =
    (if i = 0 then (c, val)
     else if dv \<le> val then dec_digit (i div 2) (val - dv) (drop_bit 1 dv) (c + i)
     else dec_digit (i div 2) val (drop_bit 1 dv) c)"
  by pat_completeness auto

termination dec_digit
  by (relation "measure (\<lambda>(i, _). i)") simp_all

declare dec_digit.simps [simp del]

text \<open>The outer loop, over the table up to its zero entry.\<close>

fun dec_loop :: "'a :: len word list \<Rightarrow> nat \<Rightarrow> 'a word \<Rightarrow> nat \<Rightarrow> nat \<times> string" where
  "dec_loop [] i val n = (n, [])"
| "dec_loop (dv # dvp) i val n =
    (if dv = 0 then (n, [])
     else case dec_digit i val dv 0 of (c, val) \<Rightarrow>
       if c \<noteq> 0 \<or> n \<noteq> 0
       then (case dec_loop dvp 8 val (n + 1) of (m, s) \<Rightarrow> (m, char_of (c + 48) # s))
       else dec_loop dvp 8 val n)"

definition div_tab :: "u32 list" where
  "div_tab = [4000000000, 800000000, 80000000, 8000000, 800000, 80000, 8000, 800, 80, 8, 0]"

definition uint2dec :: "u32 \<Rightarrow> nat \<times> string" where
  "uint2dec val = (if val = 0 then (1, ''0'') else dec_loop div_tab 4 val 0)"

definition ull_div_tab :: "64 word list" where
  "ull_div_tab = [10000000000000000000, 8000000000000000000, 800000000000000000, 80000000000000000,
     8000000000000000, 800000000000000, 80000000000000, 8000000000000, 800000000000, 80000000000, 8000000000,
     800000000, 80000000, 8000000, 800000, 80000, 8000, 800, 80, 8, 0]"

definition ull2dec :: "64 word \<Rightarrow> nat \<times> string" where
  "ull2dec val = (if val = 0 then (1, ''0'') else dec_loop ull_div_tab 4 val 0)"

definition int2dec :: "u32 \<Rightarrow> nat \<times> string" where
  "int2dec val =
    (if sint val < 0 then (case uint2dec (- val) of (n, s) \<Rightarrow> (n + 1, CHR ''-'' # s)) else uint2dec val)"

definition ll2dec :: "64 word \<Rightarrow> nat \<times> string" where
  "ll2dec val =
    (if sint val < 0 then (case ull2dec (- val) of (n, s) \<Rightarrow> (n + 1, CHR ''-'' # s)) else ull2dec val)"

definition hextab :: string where
  "hextab = ''0123456789abcdef''"

text \<open>The loop over the nibbles of a word, counted down.\<close>

fun hex_loop :: "nat \<Rightarrow> 'a :: len word \<Rightarrow> nat \<Rightarrow> nat \<times> string" where
  "hex_loop 0 val n = (n, [])"
| "hex_loop (Suc k) val n =
    (let c = unat (drop_bit (LENGTH('a) - 4) val);
         val = push_bit 4 val
     in if c \<noteq> 0 \<or> n \<noteq> 0 then (case hex_loop k val (n + 1) of (m, s) \<Rightarrow> (m, hextab ! c # s))
        else hex_loop k val n)"

definition uint2hex :: "u32 \<Rightarrow> nat \<times> string" where
  "uint2hex val = (if val = 0 then (1, ''0'') else hex_loop 8 val 0)"

definition ull2hex :: "64 word \<Rightarrow> nat \<times> string" where
  "ull2hex val = (if val = 0 then (1, ''0'') else hex_loop 16 val 0)"

subsection \<open>Reading\<close>

abbreviation byte :: "char \<Rightarrow> u32" where
  "byte c \<equiv> of_char c"

definition is_dec :: "char \<Rightarrow> bool" where
  "is_dec c \<longleftrightarrow> \<not> (byte c < byte CHR ''0'' \<or> byte CHR ''9'' < byte c)"

fun atoi_loop :: "u32 \<Rightarrow> string \<Rightarrow> u32" where
  "atoi_loop n [] = n"
| "atoi_loop n (c # s) =
    (if is_dec c then atoi_loop (push_bit 1 (push_bit 2 n + n) + (byte c - byte CHR ''0'')) s else n)"

definition atoi :: "string \<Rightarrow> u32" where
  "atoi s = atoi_loop 0 s"

fun strtoul_dec :: "u32 \<Rightarrow> string \<Rightarrow> u32 \<times> string" where
  "strtoul_dec val [] = (val, [])"
| "strtoul_dec val (c # s) =
    (if is_dec c then strtoul_dec (push_bit 1 (push_bit 2 val + val) + (byte c - byte CHR ''0'')) s
     else (val, c # s))"

definition hex_val :: "char \<Rightarrow> u32 option" where
  "hex_val ch = (
     let c = byte ch;
         c = (if byte CHR ''a'' \<le> c then c AND NOT (byte CHR ''a'' - byte CHR ''A'') else c)
     in if byte CHR ''A'' \<le> c \<and> c \<le> byte CHR ''F'' then Some (c - (byte CHR ''A'' - 10))
        else if byte CHR ''0'' \<le> c \<and> c \<le> byte CHR ''9'' then Some (c - byte CHR ''0'')
        else None)"

fun strtoul_hex :: "u32 \<Rightarrow> string \<Rightarrow> u32 \<times> string" where
  "strtoul_hex val [] = (val, [])"
| "strtoul_hex val (c # s) =
    (case hex_val c of Some d \<Rightarrow> strtoul_hex (push_bit 4 val + d) s | None \<Rightarrow> (val, c # s))"

definition peek :: "string \<Rightarrow> u32" where
  "peek s = (case s of [] \<Rightarrow> 0 | c # _ \<Rightarrow> byte c)"

text \<open>The \<open>switch\<close> has the cases 10 and 16; the octal loop stands before the first label and is never reached.\<close>

definition strtoul :: "string \<Rightarrow> int \<Rightarrow> u32 \<times> string" where
  "strtoul s base = (
     let cp = dropWhile (\<lambda>c. c = CHR '' '') s;
         c = peek cp;
         pre = (base = 0 \<or> base = 16) \<and> c = byte CHR ''0'';
         cp = (if pre then tl cp else cp);
         isx = pre \<and> peek cp AND NOT (byte CHR ''a'' - byte CHR ''A'') = byte CHR ''X'';
         cp = (if isx then tl cp else cp);
         base = (if isx then 16 else base);
         base = (if base = 0 then if c = byte CHR ''0'' then 8 else 10 else base)
     in if base = 10 then strtoul_dec 0 cp
        else if base = 16 then strtoul_hex 0 cp
        else (0, cp))"

definition strtol :: "string \<Rightarrow> int \<Rightarrow> u32 \<times> string" where
  "strtol s base = (
     let cp = dropWhile (\<lambda>c. c = CHR '' '') s;
         inv = peek cp = byte CHR ''-'';
         cp = (if inv then tl cp else cp)
     in case strtoul cp base of (val, e) \<Rightarrow> (if inv then - val else val, e))"

section \<open>Positional systems\<close>

primrec digits :: "nat \<Rightarrow> (nat \<Rightarrow> char) \<Rightarrow> nat \<Rightarrow> nat \<Rightarrow> string" where
  "digits b dig 0 v = []"
| "digits b dig (Suc k) v = dig (v div b ^ k) # digits b dig k (v mod b ^ k)"

definition strip :: "(nat \<Rightarrow> char) \<Rightarrow> string \<Rightarrow> string" where
  "strip dig s = dropWhile (\<lambda>c. c = dig 0) s"

definition numval :: "nat \<Rightarrow> (char \<Rightarrow> nat) \<Rightarrow> nat \<Rightarrow> string \<Rightarrow> nat" where
  "numval b f a s = foldl (\<lambda>a c. a * b + f c) a s"

lemma numval_Nil [simp]: "numval b f a [] = a"
  and numval_Cons [simp]: "numval b f a (c # s) = numval b f (a * b + f c) s"
  by (simp_all add: numval_def)

text \<open>A base with a character for each digit, and a way to read the characters back.\<close>

locale positional =
  fixes b :: nat and dig :: "nat \<Rightarrow> char" and rd :: "char \<Rightarrow> nat"
  assumes base: "2 \<le> b"
    and rd_dig: "d < b \<Longrightarrow> rd (dig d) = d"
begin

lemma dig_eq_0: "d < b \<Longrightarrow> dig d = dig 0 \<longleftrightarrow> d = 0"
  using rd_dig [of d] rd_dig [of 0] base by fastforce

lemma digit_less: "v < b ^ Suc k \<Longrightarrow> v div b ^ k < b"
  by (simp add: less_mult_imp_div_less mult.commute)

lemma length_digits [simp]: "length (digits b dig k v) = k"
  by (induction k arbitrary: v) simp_all

lemma digits_value: "v < b ^ k \<Longrightarrow> numval b rd a (digits b dig k v) = a * b ^ k + v"
proof (induction k arbitrary: a v)
  case (Suc k)
  have "v mod b ^ k < b ^ k" using base by simp
  then have "numval b rd a (digits b dig (Suc k) v) = (a * b + v div b ^ k) * b ^ k + v mod b ^ k"
    using Suc.IH rd_dig [OF digit_less [OF Suc.prems]] by simp
  then show ?case by (simp add: algebra_simps)
qed simp

lemma digits_set: "v < b ^ k \<Longrightarrow> c \<in> set (digits b dig k v) \<Longrightarrow> \<exists>d<b. c = dig d"
proof (induction k arbitrary: v)
  case (Suc k)
  have "v mod b ^ k < b ^ k" using base by simp
  from Suc.IH [OF this] show ?case using Suc.prems digit_less [OF Suc.prems(1)] by auto
qed simp

lemma strip_value: "numval b rd 0 (strip dig s) = numval b rd 0 s"
proof (induction s)
  case (Cons c s)
  have "rd (dig 0) = 0" using rd_dig [of 0] base by simp
  then show ?case using Cons by (simp add: strip_def)
qed (simp add: strip_def)

lemma strip_digits:
  assumes "v < b ^ k"
  shows "numval b rd 0 (strip dig (digits b dig k v)) = v"
    and "\<forall>c \<in> set (strip dig (digits b dig k v)). \<exists>d<b. c = dig d"
    and "length (strip dig (digits b dig k v)) \<le> k"
    and "strip dig (digits b dig k v) \<noteq> [] \<Longrightarrow> hd (strip dig (digits b dig k v)) \<noteq> dig 0"
    and "strip dig (digits b dig k v) = [] \<Longrightarrow> v = 0"
proof -
  show *: "numval b rd 0 (strip dig (digits b dig k v)) = v"
    using digits_value [OF assms, of 0] by (simp add: strip_value)
  show "\<forall>c \<in> set (strip dig (digits b dig k v)). \<exists>d<b. c = dig d"
    using digits_set [OF assms] by (auto simp: strip_def dest: set_dropWhileD)
  show "length (strip dig (digits b dig k v)) \<le> k"
    using length_dropWhile_le [of "\<lambda>c. c = dig 0" "digits b dig k v"] by (simp add: strip_def)
  show "hd (strip dig (digits b dig k v)) \<noteq> dig 0" if "strip dig (digits b dig k v) \<noteq> []"
    using that hd_dropWhile unfolding strip_def by blast
  show "v = 0" if "strip dig (digits b dig k v) = []" using * that by simp
qed

end

definition dec_chr :: "nat \<Rightarrow> char" where "dec_chr d = char_of (d + 48)"
definition dec_rd :: "char \<Rightarrow> nat" where "dec_rd c = of_char c - 48"
definition hex_chr :: "nat \<Rightarrow> char" where "hex_chr d = hextab ! d"
definition hex_rd :: "char \<Rightarrow> nat" where "hex_rd c = (case hex_val c of Some d \<Rightarrow> unat d | None \<Rightarrow> 0)"

lemma less_16: "d < 16 \<Longrightarrow> d \<in> {0, 1, 2, 3, 4, 5, 6, 7, 8, 9, 10, 11, 12, 13, 14, 15 :: nat}"
  by (simp only: insert_iff empty_iff simp_thms) presburger

lemma hex_val_chr: "d < 16 \<Longrightarrow> hex_val (hex_chr d) = Some (of_nat d)"
  by (drule less_16) (auto simp: hex_chr_def hextab_def hex_val_def)

interpretation dec: positional 10 dec_chr dec_rd
  by unfold_locales (simp_all add: dec_chr_def dec_rd_def)

interpretation hex: positional 16 hex_chr hex_rd
  by unfold_locales (simp_all add: hex_rd_def hex_val_chr)

section \<open>Printing in decimal\<close>

lemma dec_digit_correct:
  fixes val dv :: "'a :: len word"
  assumes "unat dv = 2 ^ a * p" and "unat val < 2 * (2 ^ a * p)" and "dec_digit (2 ^ a) val dv c = (c', val')"
  shows "unat val' < p \<and> c' * p + unat val' = c * p + unat val"
  using assms
proof (induction a arbitrary: val dv c)
  case 0
  have e: "dec_digit 1 val dv c = (if dv \<le> val then (c + 1, val - dv) else (c, val))"
    by (subst dec_digit.simps) (simp add: dec_digit.simps [of 0])
  show ?case
  proof (cases "dv \<le> val")
    case True
    then have "unat (val - dv) = unat val - unat dv" "unat dv \<le> unat val" by (simp_all add: unat_sub word_le_nat_alt)
    then show ?thesis using 0 True e by (auto simp: algebra_simps)
  next
    case False
    then show ?thesis using 0 e by (simp add: word_le_nat_alt)
  qed
next
  case (Suc a)
  have h: "unat (drop_bit 1 dv) = 2 ^ a * p"
    by (simp only: unat_drop_bit_eq Suc.prems(1)) (simp add: drop_bit_eq_div)
  have e: "dec_digit (2 ^ Suc a) val dv c =
      (if dv \<le> val then dec_digit (2 ^ a) (val - dv) (drop_bit 1 dv) (c + 2 ^ Suc a)
       else dec_digit (2 ^ a) val (drop_bit 1 dv) c)"
    by (subst dec_digit.simps) simp
  show ?case
  proof (cases "dv \<le> val")
    case True
    then have "unat (val - dv) = unat val - unat dv" "unat dv \<le> unat val" by (simp_all add: unat_sub word_le_nat_alt)
    then show ?thesis
      using Suc.IH [OF h, of "val - dv" "c + 2 ^ Suc a"] Suc.prems True e by (simp add: algebra_simps)
  next
    case False
    then show ?thesis using Suc.IH [OF h, of val c] Suc.prems e by (simp add: word_le_nat_alt)
  qed
qed

lemma dec_digit_div_mod:
  fixes val dv :: "'a :: len word"
  assumes "unat dv = 2 ^ a * p" and "unat val < 2 * (2 ^ a * p)"
  shows "\<exists>val'. dec_digit (2 ^ a) val dv 0 = (unat val div p, val') \<and> unat val' = unat val mod p"
proof -
  obtain c val' where r: "dec_digit (2 ^ a) val dv 0 = (c, val')" by fastforce
  from dec_digit_correct [OF assms r] have *: "unat val' < p" "unat val = c * p + unat val'" by simp_all
  then have "unat val div p = c" "unat val mod p = unat val'" by simp_all
  then show ?thesis using r by auto
qed

definition tab10 :: "nat \<Rightarrow> 'a :: len word list" where
  "tab10 k = map (\<lambda>j. of_nat (8 * 10 ^ j)) (rev [0..<k]) @ [0]"

lemma tab10_simps: "tab10 0 = [0]" "tab10 (Suc k) = of_nat (8 * 10 ^ k) # tab10 k"
  by (simp_all add: tab10_def)

lemma dec_loop_digits:
  fixes val :: "'a :: len word"
  assumes "2 ^ a * 10 ^ k < (2 :: nat) ^ LENGTH('a)" and "unat val < 2 * (2 ^ a * 10 ^ k)" and "unat val < 10 ^ Suc k"
  shows "dec_loop (of_nat (2 ^ a * 10 ^ k) # tab10 k) (2 ^ a) val n =
    (let s = digits 10 dec_chr (Suc k) (unat val); s = (if n = 0 then strip dec_chr s else s) in (n + length s, s))"
  using assms
proof (induction k arbitrary: a val n)
  case 0
  let ?dv = "of_nat (2 ^ a * 10 ^ 0) :: 'a word"
  have dv: "unat ?dv = 2 ^ a * 1" using 0(1) by (simp only: unat_of_nat mod_less power_0)
  from dec_digit_div_mod [OF dv] 0(2) obtain v' where
    d: "dec_digit (2 ^ a) val ?dv 0 = (unat val, v')" by auto
  have "?dv \<noteq> 0" using dv by (metis mult_1_right power_not_zero unsigned_0 zero_neq_numeral)
  then show ?case using d 0(3)
    by (simp add: tab10_simps Let_def strip_def dec_chr_def [symmetric] dec.dig_eq_0 del: of_nat_power of_nat_mult)
next
  case (Suc k)
  let ?p = "10 ^ Suc k :: nat"
  let ?dv = "of_nat (2 ^ a * ?p) :: 'a word"
  have dv: "unat ?dv = 2 ^ a * ?p" using Suc.prems(1) by (simp only: unat_of_nat mod_less)
  from dec_digit_div_mod [OF dv Suc.prems(2)] obtain v' where
    d: "dec_digit (2 ^ a) val ?dv 0 = (unat val div ?p, v')" and v': "unat v' = unat val mod ?p" by blast
  have "?dv \<noteq> 0" using dv by (metis mult_is_0 power_not_zero unsigned_0 zero_neq_numeral)
  have "(2 :: nat) ^ 3 * 10 ^ k \<le> 1 * ?p" by simp
  also have "\<dots> \<le> 2 ^ a * ?p" by (rule mult_le_mono1) simp
  finally have "(2 :: nat) ^ 3 * 10 ^ k \<le> 2 ^ a * ?p" .
  then have "2 ^ 3 * 10 ^ k < (2 :: nat) ^ LENGTH('a)" using Suc.prems(1) by linarith
  moreover have "unat v' < ?p" using v' by simp
  ultimately have ih: "dec_loop (tab10 (Suc k)) 8 v' m =
      (let s = digits 10 dec_chr (Suc k) (unat v'); s = (if m = 0 then strip dec_chr s else s) in (m + length s, s))" for m
    using Suc.IH [of 3 v' m] by (simp add: tab10_simps)
  have c: "unat val div ?p < 10" using Suc.prems(3) by (rule dec.digit_less)
  show ?case
    using d \<open>?dv \<noteq> 0\<close> c
    by (simp add: ih v' Let_def strip_def dec_chr_def [symmetric] dec.dig_eq_0 del: of_nat_power of_nat_mult power_Suc)
qed

lemma div_tab_eq: "div_tab = of_nat (2 ^ 2 * 10 ^ 9) # tab10 9"
  by (simp add: div_tab_def tab10_def upt_rec)

lemma ull_div_tab_eq: "ull_div_tab = of_nat (2 ^ 0 * 10 ^ 19) # tab10 19"
  by (simp add: ull_div_tab_def tab10_def upt_rec)

lemma uint2dec_digits:
  assumes "v \<noteq> 0"
  shows "uint2dec v = (let s = strip dec_chr (digits 10 dec_chr 10 (unat v)) in (length s, s))"
proof -
  have v: "unat v < 4294967296" using unsigned_less [of v] by simp
  have "dec_loop (of_nat (2 ^ 2 * 10 ^ 9) # tab10 9) (2 ^ 2) v 0 = (let s = digits 10 dec_chr (Suc 9) (unat v);
      s = (if (0 :: nat) = 0 then strip dec_chr s else s) in (0 + length s, s))"
    by (rule dec_loop_digits) (use v in \<open>simp_all del: of_nat_power\<close>)
  moreover have "(2 :: nat) ^ 2 = 4" "Suc 9 = 10" by simp_all
  ultimately show ?thesis using assms unfolding uint2dec_def div_tab_eq
    by (simp only: Let_def if_False simp_thms if_True add_0)
qed

section \<open>Reading decimal numbers\<close>

lemma less_10: "d < 10 \<Longrightarrow> d \<in> {0, 1, 2, 3, 4, 5, 6, 7, 8, 9 :: nat}"
  by (simp only: insert_iff empty_iff simp_thms) presburger

lemma dec_chrs:
  "dec_chr 0 = CHR ''0''" "dec_chr (Suc 0) = CHR ''1''" "dec_chr 2 = CHR ''2''" "dec_chr 3 = CHR ''3''" "dec_chr 4 = CHR ''4''"
  "dec_chr 5 = CHR ''5''" "dec_chr 6 = CHR ''6''" "dec_chr 7 = CHR ''7''" "dec_chr 8 = CHR ''8''" "dec_chr 9 = CHR ''9''"
  by (simp_all add: dec_chr_def char_of_def bit_Suc_0_iff)

lemma byte_dec_chr: "d < 10 \<Longrightarrow> byte (dec_chr d) = of_nat d + 48"
  by (drule less_10) (auto simp: dec_chrs)

lemma is_dec_chr [simp]: "d < 10 \<Longrightarrow> is_dec (dec_chr d)"
  by (drule less_10) (auto simp: dec_chrs is_dec_def)

definition dec_string :: "string \<Rightarrow> bool" where
  "dec_string s \<longleftrightarrow> (\<forall>c \<in> set s. \<exists>d<10. c = dec_chr d)"

lemma dec_string_Cons [simp]: "dec_string (c # s) \<longleftrightarrow> (\<exists>d<10. c = dec_chr d) \<and> dec_string s"
  by (simp add: dec_string_def)

definition not_dec :: "string \<Rightarrow> bool" where
  "not_dec rest \<longleftrightarrow> (case rest of [] \<Rightarrow> True | c # _ \<Rightarrow> \<not> is_dec c)"

lemma times_10: "push_bit 1 (push_bit 2 n + n) = n * (10 :: u32)"
  by (simp add: push_bit_eq_mult algebra_simps)

lemma atoi_loop_value:
  assumes "dec_string s" and "not_dec rest"
  shows "atoi_loop (of_nat a) (s @ rest) = of_nat (numval 10 dec_rd a s)"
  using assms(1)
proof (induction s arbitrary: a)
  case Nil
  then show ?case using assms(2) by (cases rest) (simp_all add: not_dec_def)
next
  case (Cons c s)
  then obtain d where d: "d < 10" "c = dec_chr d" by auto
  have "atoi_loop (of_nat a) ((c # s) @ rest) = atoi_loop (of_nat (a * 10 + d)) (s @ rest)"
    using d by (simp only: append_Cons atoi_loop.simps is_dec_chr if_True times_10 byte_dec_chr) simp
  then show ?case using Cons d by (simp add: dec.rd_dig del: of_nat_add of_nat_mult)
qed

lemma strtoul_dec_value:
  assumes "dec_string s" and "not_dec rest"
  shows "strtoul_dec (of_nat a) (s @ rest) = (of_nat (numval 10 dec_rd a s), rest)"
  using assms(1)
proof (induction s arbitrary: a)
  case Nil
  then show ?case using assms(2) by (cases rest) (simp_all add: not_dec_def)
next
  case (Cons c s)
  then obtain d where d: "d < 10" "c = dec_chr d" by auto
  have "strtoul_dec (of_nat a) ((c # s) @ rest) = strtoul_dec (of_nat (a * 10 + d)) (s @ rest)"
    using d by (simp only: append_Cons strtoul_dec.simps is_dec_chr if_True times_10 byte_dec_chr) simp
  then show ?case using Cons d by (simp add: dec.rd_dig del: of_nat_add of_nat_mult)
qed

definition not_x :: "string \<Rightarrow> bool" where
  "not_x rest \<longleftrightarrow> peek rest AND NOT (byte CHR ''a'' - byte CHR ''A'') \<noteq> byte CHR ''X''"

text \<open>What \<open>uint2dec\<close> prints: digits, no leading zero but in the number zero, and the value of the number.\<close>

lemma uint2dec_string:
  assumes "uint2dec v = (n, s)"
  shows "n = length s" "0 < n" "n \<le> 10" "dec_string s" "numval 10 dec_rd 0 s = unat v"
    "hd s = CHR ''0'' \<Longrightarrow> s = ''0''"
proof -
  have *: "n = length s \<and> 0 < n \<and> n \<le> 10 \<and> dec_string s \<and> numval 10 dec_rd 0 s = unat v \<and>
      (hd s = CHR ''0'' \<longrightarrow> s = ''0'')"
  proof (cases "v = 0")
    case True
    have "dec_string ''0''" by (auto simp: dec_chrs dec_string_def intro!: exI [of _ 0])
    moreover have "numval 10 dec_rd 0 ''0'' = 0" by (simp add: dec_rd_def)
    moreover have "n = 1" "s = ''0''" using True assms by (simp_all add: uint2dec_def)
    ultimately show ?thesis using True by simp
  next
    case False
    have "unat v < 2 ^ 32" using unsigned_less [of v] by simp
    then have "unat v < 10 ^ 10" by simp
    note d = dec.strip_digits [OF this]
    have "s = strip dec_chr (digits 10 dec_chr 10 (unat v))" "n = length s"
      using uint2dec_digits [OF False] assms by (simp_all add: Let_def)
    moreover have "CHR ''0'' = dec_chr 0" by (simp add: dec_chrs)
    moreover have "unat v \<noteq> 0" using False by (simp add: unat_eq_0)
    ultimately show ?thesis using d by (auto simp: dec_string_def)
  qed
  then show "n = length s" "0 < n" "n \<le> 10" "dec_string s" "numval 10 dec_rd 0 s = unat v"
    "hd s = CHR ''0'' \<Longrightarrow> s = ''0''" by blast+
qed

lemma dec_chr_facts:
  "d < 10 \<Longrightarrow> dec_chr d \<noteq> CHR '' ''" "d < 10 \<Longrightarrow> dec_chr d \<noteq> CHR ''-''" "d < 10 \<Longrightarrow> byte (dec_chr d) \<noteq> 45"
  "d < 10 \<Longrightarrow> byte (dec_chr d) = 48 \<longleftrightarrow> dec_chr d = CHR ''0''"
  by (drule less_10, auto simp: dec_chrs)+

lemma strtoul_uint2dec:
  assumes s: "uint2dec v = (n, s)" and rest: "not_dec rest"
  shows "strtoul (s @ rest) 10 = (v, rest)" and "not_x rest \<Longrightarrow> strtoul (s @ rest) 0 = (v, rest)"
    and "atoi (s @ rest) = v"
proof -
  note u = uint2dec_string [OF s]
  then obtain c t where ct: "s = c # t" by (cases s) auto
  then obtain d where d: "d < 10" "c = dec_chr d" using u(4) by auto
  have v: "strtoul_dec 0 (s @ rest) = (v, rest)"
    using strtoul_dec_value [OF u(4) rest, of 0] u(5) by simp
  show "atoi (s @ rest) = v"
    using atoi_loop_value [OF u(4) rest, of 0] u(5) by (simp add: atoi_def)
  have skip: "dropWhile (\<lambda>c. c = CHR '' '') (s @ rest) = s @ rest"
    using dec_chr_facts(1) [OF d(1)] d(2) ct by simp
  show "strtoul (s @ rest) 10 = (v, rest)"
    unfolding strtoul_def skip Let_def using v by simp
  show "strtoul (s @ rest) 0 = (v, rest)" if x: "not_x rest"
  proof (cases "c = CHR ''0''")
    case True
    then have "s = ''0''" using u(6) ct by simp
    moreover from this have "v = 0" using u(5) by (simp add: dec_rd_def unat_eq_0)
    ultimately show ?thesis using x unfolding strtoul_def skip Let_def not_x_def by (simp add: peek_def)
  next
    case False
    then have "peek (s @ rest) \<noteq> byte CHR ''0''" using dec_chr_facts(4) [OF d(1)] d(2) ct by (simp add: peek_def)
    then show ?thesis using v unfolding strtoul_def skip Let_def by simp
  qed
qed

section \<open>Printing and reading hexadecimal numbers\<close>

lemma nibble_step:
  fixes val :: "'a :: len word"
  assumes l: "LENGTH('a) = 4 * m" and v: "unat val = x * 16 ^ (m - Suc k)" "x < 16 ^ Suc k" and k: "Suc k \<le> m"
  shows "unat (drop_bit (LENGTH('a) - 4) val) = x div 16 ^ k" and "unat (push_bit 4 val) = (x mod 16 ^ k) * 16 ^ (m - k)"
proof -
  have p: "(16 :: nat) ^ (m - Suc 0) = 16 ^ k * 16 ^ (m - Suc k)" "(16 :: nat) ^ m = 16 ^ k * 16 ^ (m - k)"
    "(16 :: nat) ^ (m - k) = 16 ^ (m - Suc k) * 16"
    using k by (simp_all add: power_add [symmetric] power_Suc2 [symmetric] Suc_diff_Suc del: power_Suc)
  have "LENGTH('a) - 4 = 4 * (m - Suc 0)" using l by simp
  then have "(2 :: nat) ^ (LENGTH('a) - 4) = 16 ^ (m - Suc 0)" by (simp add: power_mult)
  then show "unat (drop_bit (LENGTH('a) - 4) val) = x div 16 ^ k"
    using v(1) by (simp only: unat_drop_bit_eq) (simp add: drop_bit_eq_div p)
  have "(2 :: nat) ^ LENGTH('a) = 16 ^ m" using l by (simp add: power_mult)
  moreover have "unat (push_bit 4 val) = (unat val * 16) mod 2 ^ LENGTH('a)"
    by (simp add: push_bit_eq_mult unat_word_ariths(2) take_bit_eq_mod mod_mult_right_eq)
  ultimately have "unat (push_bit 4 val) = (x * 16 ^ (m - k)) mod (16 ^ k * 16 ^ (m - k))"
    using v(1) p by (simp add: mult.assoc)
  then show "unat (push_bit 4 val) = (x mod 16 ^ k) * 16 ^ (m - k)" by (simp add: mod_mult_mult2)
qed

lemma hex_loop_digits:
  fixes val :: "'a :: len word"
  assumes "LENGTH('a) = 4 * m" and "unat val = x * 16 ^ (m - k)" "x < 16 ^ k" and "k \<le> m"
  shows "hex_loop k val n =
    (let s = digits 16 hex_chr k x; s = (if n = 0 then strip hex_chr s else s) in (n + length s, s))"
  using assms(2-)
proof (induction k arbitrary: x val n)
  case 0
  then show ?case by (simp add: strip_def)
next
  case (Suc k)
  note st = nibble_step [OF assms(1) Suc.prems]
  have "hex_loop k (push_bit 4 val) i =
      (let s = digits 16 hex_chr k (x mod 16 ^ k); s = (if i = 0 then strip hex_chr s else s) in (i + length s, s))" for i
    by (rule Suc.IH [OF st(2)]) (use Suc.prems(3) in simp_all)
  moreover have "x div 16 ^ k < 16" by (rule hex.digit_less [OF Suc.prems(2)])
  ultimately show ?case
    by (simp add: st(1) Let_def strip_def hex_chr_def [symmetric] hex.dig_eq_0)
qed

definition not_hex :: "string \<Rightarrow> bool" where
  "not_hex rest \<longleftrightarrow> (case rest of [] \<Rightarrow> True | c # _ \<Rightarrow> hex_val c = None)"

lemma strtoul_hex_value:
  assumes "\<forall>c \<in> set s. \<exists>d<16. c = hex_chr d" and "not_hex rest"
  shows "strtoul_hex (of_nat a) (s @ rest) = (of_nat (numval 16 hex_rd a s), rest)"
  using assms(1)
proof (induction s arbitrary: a)
  case Nil
  then show ?case using assms(2) by (cases rest) (simp_all add: not_hex_def)
next
  case (Cons c s)
  then obtain d where d: "d < 16" "c = hex_chr d" by auto
  have "strtoul_hex (of_nat a) ((c # s) @ rest) = strtoul_hex (of_nat (a * 16 + d)) (s @ rest)"
    using d by (simp add: hex_val_chr push_bit_eq_mult)
  then show ?case using Cons d by (simp add: hex.rd_dig del: of_nat_add of_nat_mult)
qed

lemma hex_chr_facts:
  "d < 16 \<Longrightarrow> hex_chr d \<noteq> CHR '' ''" "d < 16 \<Longrightarrow> byte (hex_chr d) = 48 \<longleftrightarrow> d = 0"
  by (drule less_16, auto simp: hex_chr_def hextab_def)+

lemma uint2hex_string:
  assumes "uint2hex v = (n, s)"
  shows "n = length s \<and> 0 < n \<and> n \<le> 8 \<and> (\<forall>c \<in> set s. \<exists>d<16. c = hex_chr d) \<and> numval 16 hex_rd 0 s = unat v \<and>
    (hd s = CHR ''0'' \<longrightarrow> s = ''0'')"
proof (cases "v = 0")
  case True
  then show ?thesis using assms by (auto simp: uint2hex_def hex_rd_def hex_val_def hex_chr_def hextab_def intro!: exI [of _ 0])
next
  case False
  have v: "unat v < 16 ^ 8" using unsigned_less [of v] by simp
  note d = hex.strip_digits [OF v]
  have "s = strip hex_chr (digits 16 hex_chr 8 (unat v))" "n = length s"
    using hex_loop_digits [of 8 v "unat v" 8 0] v assms False by (auto simp: uint2hex_def Let_def)
  moreover have "CHR ''0'' = hex_chr 0" by (simp add: hex_chr_def hextab_def)
  moreover have "unat v \<noteq> 0" using False by (simp add: unat_eq_0)
  ultimately show ?thesis using d by auto
qed

section \<open>Bit positions and random numbers\<close>

lemma and_minus_low:
  assumes "bit i n" and "\<And>j. j < n \<Longrightarrow> \<not> bit i j"
  shows "i AND - i = (2 ^ n :: u32)"
proof (rule word32_eqI)
  fix k :: nat
  assume k: "k < 32"
  have i: "i = push_bit n (drop_bit n i)"
  proof (rule word32_eqI)
    fix j :: nat
    assume "j < 32"
    then show "bit i j = bit (push_bit n (drop_bit n i)) j"
      using assms(2) [of j] by (cases "j < n") (simp_all add: bit_push_bit_iff bit_drop_bit_eq)
  qed
  have o: "bit (drop_bit n i) 0" using assms(1) by (simp add: bit_drop_bit_eq)
  have mi: "- i = push_bit n (- drop_bit n i)"
    by (subst (1) i) (simp only: push_bit_eq_mult minus_mult_left)
  have "- drop_bit n i = NOT (drop_bit n i - 1)" by (simp add: minus_eq_not_minus_1)
  also have "drop_bit n i - 1 = drop_bit n i AND NOT 1"
    by (rule disjunctive_diff_eq_and_not) (use o in \<open>auto simp: word32_eq_0_iff bit_and_iff bit_not_iff bit_1_iff\<close>)
  finally have m: "- drop_bit n i = NOT (drop_bit n i AND NOT 1)" .
  have b: "bit (- drop_bit n i) 0" "bit (- drop_bit n i) (Suc m) = (Suc m < 32 \<and> \<not> bit (drop_bit n i) (Suc m))" for m
    unfolding m by (auto simp: bit_or_iff bit_not_iff bit_1_iff)
  have c: "bit (- i) j = (n \<le> j \<and> j < 32 \<and> bit (- drop_bit n i) (j - n))" for j
    by (subst mi) (simp only: bit_push_bit_iff, simp)
  consider "k < n" | "k = n" | l where "k = Suc (n + l)"
    by (metis less_imp_Suc_add linorder_neqE_nat)
  then show "bit (i AND - i) k = bit (2 ^ n :: u32) k"
    using k assms by cases (simp_all add: bit_and_iff c b bit_exp_iff bit_drop_bit_eq)
qed

lemma ffs_debruijn:
  assumes "n < 32"
  shows "ffs_debruijn_index ! unat (drop_bit 27 (2 ^ n * 0x077cb531 :: u32)) = Suc n"
proof -
  have "list_all (\<lambda>n. ffs_debruijn_index ! unat (drop_bit 27 (2 ^ n * 0x077cb531 :: u32)) = Suc n) [0..<32]"
    by (simp add: upt_rec ffs_debruijn_index_def)
  then show ?thesis using assms by (simp add: list_all_iff)
qed

lemma ffs_lowest:
  assumes "bit i n" and "\<And>j. j < n \<Longrightarrow> \<not> bit i j"
  shows "ffs i = Suc n"
proof -
  have "i \<noteq> 0" using assms(1) by auto
  then show ?thesis
    using ffs_debruijn [OF word32_bit_lt [OF assms(1)]] by (simp add: ffs_def and_minus_low [OF assms])
qed

lemma ffs_eq_0: "ffs i = 0 \<longleftrightarrow> i = 0"
proof
  assume z: "ffs i = 0"
  show "i = 0"
  proof (rule ccontr)
    assume "i \<noteq> 0"
    then have "\<exists>n. bit i n" by (simp add: word32_eq_0_iff)
    then obtain n where "bit i n" "\<And>j. j < n \<Longrightarrow> \<not> bit i j"
      using exists_least_iff [of "bit i"] by blast
    then show False using ffs_lowest z by fastforce
  qed
qed (simp add: ffs_def)

section \<open>Properties\<close>

text \<open>C29: a decimal number printed by \<open>uint2dec\<close> (the conversion behind \<open>%u\<close> and \<open>%d\<close>) and followed by anything that is not
  a digit is read back by \<open>strtoul\<close> and \<open>atoi\<close> as the same 32-bit number, with the end pointer right behind it; the
  string has one to ten characters, as the length returned says, and no leading zero.\<close>

theorem decimal_roundtrip:
  assumes "uint2dec v = (n, s)" and "not_dec rest"
  shows "strtoul (s @ rest) 10 = (v, rest) \<and> atoi (s @ rest) = v \<and> (not_x rest \<longrightarrow> strtoul (s @ rest) 0 = (v, rest)) \<and>
    n = length s \<and> 0 < n \<and> n \<le> 10 \<and> (hd s = CHR ''0'' \<longrightarrow> s = ''0'')"
  using strtoul_uint2dec [OF assms] uint2dec_string [OF assms(1)] by blast

theorem decimal_roundtrip_witness:
  "\<exists>n s. uint2dec 4294967295 = (n, s) \<and> strtoul (s @ '', '') 10 = (4294967295, '', '')"
proof -
  obtain n s where s: "uint2dec 4294967295 = (n, s)" by fastforce
  have "not_dec '', ''" by (simp add: not_dec_def is_dec_def)
  from decimal_roundtrip [OF s this] s show ?thesis by blast
qed

text \<open>the same for the hexadecimal digits of \<open>uint2hex\<close> (\<open>%x\<close>), of which there are at most eight.\<close>

theorem hex_roundtrip:
  assumes "uint2hex v = (n, s)" and "not_hex rest" and "not_x rest"
  shows "strtoul (s @ rest) 16 = (v, rest) \<and> n = length s \<and> 0 < n \<and> n \<le> 8 \<and> (hd s = CHR ''0'' \<longrightarrow> s = ''0'')"
proof -
  note u = uint2hex_string [OF assms(1)]
  then obtain c t where ct: "s = c # t" by (cases s) auto
  then obtain d where d: "d < 16" "c = hex_chr d" using u by auto
  have v: "strtoul_hex 0 (s @ rest) = (v, rest)"
    using strtoul_hex_value [of s rest 0] assms(2) u by simp
  have skip: "dropWhile (\<lambda>c. c = CHR '' '') (s @ rest) = s @ rest"
    using hex_chr_facts(1) [OF d(1)] d(2) ct by simp
  have "strtoul (s @ rest) 16 = (v, rest)"
  proof (cases "d = 0")
    case True
    then have "s = ''0''" using u ct d by (simp add: hex_chr_def hextab_def)
    moreover from this have "v = 0" using u by (simp add: hex_rd_def hex_val_def unat_eq_0)
    ultimately show ?thesis
      using strtoul_hex_value [of "[]" rest 0] assms(2,3) unfolding strtoul_def skip Let_def not_x_def by (simp add: peek_def)
  next
    case False
    then have "peek (s @ rest) \<noteq> byte CHR ''0''" using hex_chr_facts(2) [OF d(1)] d(2) ct by (simp add: peek_def)
    then show ?thesis using v unfolding strtoul_def skip Let_def by simp
  qed
  then show ?thesis using u by blast
qed

theorem hex_roundtrip_witness:
  "\<exists>n s. uint2hex 0xdeadbeef = (n, s) \<and> strtoul (s @ '' '') 16 = (0xdeadbeef, '' '')"
proof -
  obtain n s where s: "uint2hex 0xdeadbeef = (n, s)" by fastforce
  have "not_hex '' ''" "not_x '' ''" by (simp_all add: not_hex_def not_x_def hex_val_def peek_def)
  from hex_roundtrip [OF s this] s show ?thesis by blast
qed

text \<open>\<open>ffs\<close> finds the lowest set bit: 0 for the number 0, otherwise one more than the position of that bit.\<close>

theorem ffs_correct:
  "(i = 0 \<longrightarrow> ffs i = 0) \<and> (i \<noteq> 0 \<longrightarrow> 0 < ffs i \<and> bit i (ffs i - 1) \<and> (\<forall>j<ffs i - 1. \<not> bit i j))"
proof (intro conjI impI)
  show "ffs i = 0" if "i = 0" using that by (simp add: ffs_def)
  assume "i \<noteq> 0"
  then obtain n where n: "bit i n" "\<And>j. j < n \<Longrightarrow> \<not> bit i j"
    using exists_least_iff [of "bit i"] word32_eq_0_iff by blast
  note f = ffs_lowest [OF n]
  show "0 < ffs i" "bit i (ffs i - 1)" "\<forall>j<ffs i - 1. \<not> bit i j" using f n by auto
qed

theorem ffs_correct_witness: "0 < ffs 40"
  using ffs_correct [of 40] by simp

text \<open>\<open>strtoul\<close> with base 0 does not read octal numbers: the loop for them has no label in the \<open>switch\<close>, so behind a
  leading zero that no \<open>x\<close> follows nothing is converted, the value is 0 and the end pointer stays behind the zero.\<close>

theorem strtoul_octal_lost:
  assumes "not_x s"
  shows "strtoul (CHR ''0'' # s) 0 = (0, s)"
  using assms by (simp add: strtoul_def not_x_def Let_def peek_def)

theorem strtoul_octal_lost_witness: "strtoul ''0755'' 0 = (0, ''755'')"
  by (rule strtoul_octal_lost) (simp add: not_x_def peek_def)

text \<open>\<open>ull2dec\<close> prints 64-bit numbers below \<open>25 * 10 ^ 17\<close> correctly, and no number from there on up to the next
  digit: the first table entry is used with the weights 4, 2, 1 although it stands for a single digit 1.\<close>

theorem ull2dec_range:
  assumes "unat v < 2500000000000000000"
  shows "ull2dec v = (let s = (if v = 0 then ''0'' else strip dec_chr (digits 10 dec_chr 19 (unat v))) in (length s, s)) \<and>
    ull2dec 2500000000000000000 = (20, ''10000000000000000000'')"
proof
  show "ull2dec 2500000000000000000 = (20, ''10000000000000000000'')"
    by (simp add: ull2dec_def ull_div_tab_def dec_digit.simps char_of_def bit_Suc_0_iff)
  have t: "ull_div_tab = 10000000000000000000 # of_nat (2 ^ 3 * 10 ^ 18) # tab10 18"
    by (simp add: ull_div_tab_def tab10_def upt_rec)
  have d: "dec_digit 4 v 10000000000000000000 0 = (0, v)"
    using assms by (simp add: dec_digit.simps word_le_nat_alt)
  have "dec_loop (of_nat (2 ^ 3 * 10 ^ 18) # tab10 18) (2 ^ 3) v 0 = (let s = digits 10 dec_chr (Suc 18) (unat v);
      s = (if (0 :: nat) = 0 then strip dec_chr s else s) in (0 + length s, s))"
    by (rule dec_loop_digits) (use assms in \<open>simp_all del: of_nat_power\<close>)
  moreover have "(2 :: nat) ^ 3 = 8" "Suc 18 = 19" by simp_all
  ultimately have "dec_loop (of_nat (2 ^ 3 * 10 ^ 18) # tab10 18) 8 v 0 =
      (let s = strip dec_chr (digits 10 dec_chr 19 (unat v)) in (length s, s))"
    by (simp only: Let_def simp_thms if_True add_0)
  then show "ull2dec v = (let s = (if v = 0 then ''0'' else strip dec_chr (digits 10 dec_chr 19 (unat v))) in (length s, s))"
    unfolding ull2dec_def t by (simp add: d Let_def del: of_nat_power of_nat_mult)
qed

theorem ull2dec_range_witness:
  "ull2dec 7 = (let s = strip dec_chr (digits 10 dec_chr 19 7) in (length s, s))"
proof -
  have "unat (7 :: 64 word) < 2500000000000000000" by simp
  from ull2dec_range [OF this] have "ull2dec 7 =
      (let s = (if (7 :: 64 word) = 0 then ''0'' else strip dec_chr (digits 10 dec_chr 19 (unat (7 :: 64 word)))) in (length s, s))"
    by blast
  then show ?thesis by simp
qed

end
