(* ===== verification/Bitvec.thy ===== *)
theory Bitvec
  imports Libc_Conv
begin

text \<open>
  Bit vectors (\<^verbatim>\<open>src/src/sdk/libbitvec\<close>), which hold the JTAG scan chains. A vector of bytes is a function of the
  byte index; bit \<open>i\<close> of it is bit \<open>i mod 8\<close> of byte \<open>i div 8\<close>. The two shift routines work on words of 32 bits in
  a shared memory, so that their behaviour on overlapping arguments (shifting in place) can be stated: \<open>d\<close> and \<open>s\<close>
  are the word addresses of destination and source. The \<open>int\<close> lengths are natural numbers; shift counts are
  between 1 and 31, as C leaves the others undefined.
\<close>

section \<open>Definitions\<close>

type_synonym bytes = "nat \<Rightarrow> u8"
type_synonym wmem = "nat \<Rightarrow> u32"

fun vec_cat_loop :: "nat \<Rightarrow> nat \<Rightarrow> bytes \<Rightarrow> nat \<Rightarrow> u8 \<Rightarrow> nat \<Rightarrow> bytes \<Rightarrow> bytes" where
  "vec_cat_loop 0 r src si a di dst = dst"
| "vec_cat_loop (Suc k) r src si a di dst =
    (let a = a OR push_bit r (src si);
         dst = dst(di := a);
         a = drop_bit (8 - r) (src si)
     in vec_cat_loop k r src (si + 1) a (di + 1) dst)"

definition vec_cat :: "bytes \<Rightarrow> nat \<Rightarrow> bytes \<Rightarrow> nat \<Rightarrow> nat \<times> bytes" where
  "vec_cat dst dst_len src src_len =
    (let q = dst_len div 8;
         r = dst_len mod 8;
         n = 8 - r;
         m = (src_len + r + 7) div 8;
         a = dst q AND drop_bit n 0xff
     in (dst_len + src_len, vec_cat_loop m r src 0 a q dst))"

fun vec_cmp_loop :: "nat \<Rightarrow> nat \<Rightarrow> bytes \<Rightarrow> bytes \<Rightarrow> nat option" where
  "vec_cmp_loop 0 i pa pb = None"
| "vec_cmp_loop (Suc k) i pa pb =
    (let x = pa i XOR pb i
     in if x \<noteq> 0 then Some (i + ffs (ucast x)) else vec_cmp_loop k (i + 1) pa pb)"

definition vec_cmp :: "bytes \<Rightarrow> bytes \<Rightarrow> nat \<Rightarrow> nat" where
  "vec_cmp pa pb len =
    (case vec_cmp_loop (len div 8) 0 pa pb of
       Some r \<Rightarrow> r
     | None \<Rightarrow>
        (let i = len div 8;
             rem = len mod 8;
             mask = push_bit rem 1 - 1;
             x = (pa i AND mask) XOR (pb i AND mask)
         in if rem \<noteq> 0 \<and> x \<noteq> 0 then i + ffs (ucast x) else 0))"

fun vec_fmt_loop :: "nat \<Rightarrow> nat \<Rightarrow> u32 \<Rightarrow> bytes \<Rightarrow> string" where
  "vec_fmt_loop 0 i x vec = []"
| "vec_fmt_loop (Suc k) i x vec =
    (let x = (if i mod 8 = 0 then ucast (vec (i div 8)) else x)
     in (if x AND 1 \<noteq> 0 then CHR ''1'' else CHR ''0'') # vec_fmt_loop k (i + 1) (drop_bit 1 x) vec)"

definition vec_fmt :: "bytes \<Rightarrow> nat \<Rightarrow> string" where
  "vec_fmt vec len = vec_fmt_loop len 0 0 vec"

fun vec_fill :: "nat \<Rightarrow> nat \<Rightarrow> u8 \<Rightarrow> bytes \<Rightarrow> bytes" where
  "vec_fill 0 i v dst = dst"
| "vec_fill (Suc k) i v dst = vec_fill k (i + 1) v (dst(i := v))"

definition vec_ones :: "bytes \<Rightarrow> nat \<Rightarrow> nat \<times> bytes" where
  "vec_ones vec len = (len, vec_fill ((len + 7) div 8) 0 0xff vec)"

definition vec_zeros :: "bytes \<Rightarrow> nat \<Rightarrow> nat \<times> bytes" where
  "vec_zeros vec len = (len, vec_fill ((len + 7) div 8) 0 0 vec)"

fun vec_rand_loop :: "nat \<Rightarrow> nat \<Rightarrow> 64 word \<Rightarrow> bytes \<Rightarrow> 64 word \<times> bytes" where
  "vec_rand_loop 0 i seed ptr = (seed, ptr)"
| "vec_rand_loop (Suc k) i seed ptr =
    (case rand seed of (v, seed) \<Rightarrow> vec_rand_loop k (i + 1) seed (ptr(i := ucast (v AND 0xff))))"

definition vec_rand :: "64 word \<Rightarrow> bytes \<Rightarrow> nat \<Rightarrow> 64 word \<times> bytes" where
  "vec_rand seed vec len = vec_rand_loop ((len + 7) div 8) 0 seed vec"

fun vec_lshift_loop :: "nat \<Rightarrow> nat \<Rightarrow> nat \<Rightarrow> nat \<Rightarrow> nat \<Rightarrow> u32 \<Rightarrow> wmem \<Rightarrow> wmem" where
  "vec_lshift_loop 0 i d s bits x0 mem = mem"
| "vec_lshift_loop (Suc k) i d s bits x0 mem =
    (let x1 = mem (s + i);
         mem = mem(d + i := push_bit bits x1 OR drop_bit (32 - bits) x0)
     in vec_lshift_loop k (i + 1) d s bits x1 mem)"

definition vec_lshift :: "nat \<Rightarrow> nat \<Rightarrow> nat \<Rightarrow> nat \<Rightarrow> wmem \<Rightarrow> wmem" where
  "vec_lshift d s len bits mem = vec_lshift_loop ((len + 31) div 32) 0 d s bits 0 mem"

text \<open>The last word is written behind the loop, with the value \<open>i\<close> has there.\<close>

fun vec_rshift_loop :: "nat \<Rightarrow> nat \<Rightarrow> nat \<Rightarrow> nat \<Rightarrow> nat \<Rightarrow> u32 \<Rightarrow> wmem \<Rightarrow> wmem" where
  "vec_rshift_loop 0 i d s bits x0 mem = mem(d + (i - 1) := drop_bit bits x0)"
| "vec_rshift_loop (Suc k) i d s bits x0 mem =
    (let x1 = mem (s + i);
         mem = mem(d + (i - 1) := drop_bit bits x0 OR push_bit (32 - bits) x1)
     in vec_rshift_loop k (i + 1) d s bits x1 mem)"

definition vec_rshift :: "nat \<Rightarrow> nat \<Rightarrow> nat \<Rightarrow> nat \<Rightarrow> wmem \<Rightarrow> wmem" where
  "vec_rshift d s len bits mem = vec_rshift_loop ((len + 31) div 32 - 1) 1 d s bits (mem s) mem"

section \<open>Bits of vectors\<close>

definition vbit :: "bytes \<Rightarrow> nat \<Rightarrow> bool" where
  "vbit v i = bit (v (i div 8)) (i mod 8)"

definition wbit :: "wmem \<Rightarrow> nat \<Rightarrow> nat \<Rightarrow> bool" where
  "wbit mem p i = bit (mem (p + i div 32)) (i mod 32)"

subsection \<open>Concatenation\<close>

lemma vec_cat_loop_at:
  "vec_cat_loop k r src si a di dst j =
    (if di \<le> j \<and> j < di + k
     then (if j = di then a else drop_bit (8 - r) (src (si + (j - di) - 1))) OR push_bit r (src (si + (j - di)))
     else dst j)"
proof (induction k arbitrary: si a di dst)
  case (Suc k)
  show ?case
  proof (cases "di < j \<and> j < di + Suc k")
    case True
    then have "j - di = Suc (j - Suc di)" by linarith
    then show ?thesis using True by (auto simp: Suc.IH Let_def)
  next
    case False
    then show ?thesis by (auto simp: Suc.IH Let_def)
  qed
qed auto

lemma bit_u8_lt: "bit (w :: u8) n \<Longrightarrow> n < 8"
  by (drule bit_imp_le_length) simp

lemma first_mask: "bit (x AND drop_bit (8 - r) (0xff :: u8)) j \<longleftrightarrow> bit x j \<and> j < r" if "r < 8"
proof -
  have "(0xff :: u8) = - 1" by simp
  then show ?thesis using that bit_u8_lt [of x j] by (auto simp only: bit_and_iff bit_drop_bit_eq bit_minus_1_iff) auto
qed

lemma vec_cat_at:
  assumes "dst_len div 8 \<le> j" "j < dst_len div 8 + (src_len + dst_len mod 8 + 7) div 8" "b < 8"
  shows "bit (snd (vec_cat dst dst_len src src_len) j) b =
    (if b < dst_len mod 8
     then if j = dst_len div 8 then bit (dst j) b else bit (src (j - dst_len div 8 - 1)) (8 - dst_len mod 8 + b)
     else bit (src (j - dst_len div 8)) (b - dst_len mod 8))"
proof -
  have r: "dst_len mod 8 < 8" by simp
  have out: "\<not> bit (w :: u8) (8 + b - dst_len mod 8)" if "\<not> b < dst_len mod 8" for w
    using that bit_u8_lt [of w "8 + b - dst_len mod 8"] by linarith
  show ?thesis
    using assms first_mask [OF r] out
    by (auto simp: vec_cat_def Let_def vec_cat_loop_at bit_or_iff bit_push_bit_iff bit_drop_bit_eq)
qed

lemma div_mod_add8:
  fixes d i :: nat
  shows "(d + i) div 8 = d div 8 + (d mod 8 + i) div 8" "(d + i) mod 8 = (d mod 8 + i) mod 8"
proof -
  have "d + i = d div 8 * 8 + (d mod 8 + i)" by simp
  then show "(d + i) div 8 = d div 8 + (d mod 8 + i) div 8" by (metis div_mult_self4 zero_neq_numeral mult.commute add.commute)
  show "(d + i) mod 8 = (d mod 8 + i) mod 8" by (simp add: mod_simps)
qed

lemma split8:
  fixes r i t b :: nat
  assumes "t = (r + i) div 8" "b = (r + i) mod 8" "r < 8"
  shows "b < r \<Longrightarrow> 0 < t \<and> i div 8 = t - 1 \<and> i mod 8 = 8 - r + b" and "\<not> b < r \<Longrightarrow> i div 8 = t \<and> i mod 8 = b - r"
proof -
  have e: "r + i = 8 * t + b" "b < 8" using assms by simp_all
  show "0 < t \<and> i div 8 = t - 1 \<and> i mod 8 = 8 - r + b" if "b < r"
  proof -
    have t: "0 < t" using e that by (cases t) simp_all
    then have i: "i = 8 * (t - 1) + (8 - r + b)" "8 - r + b < 8" using e that assms(3) by (simp_all add: algebra_simps)
    have "i div 8 = t - 1" by (subst i(1)) (use i(2) in simp)
    moreover have "i mod 8 = 8 - r + b" by (subst i(1)) (use i(2) in simp)
    ultimately show ?thesis using t by blast
  qed
  show "i div 8 = t \<and> i mod 8 = b - r" if "\<not> b < r"
  proof -
    have i: "i = 8 * t + (b - r)" "b - r < 8" using e that by simp_all
    have "i div 8 = t" by (subst i(1)) (use i(2) in simp)
    moreover have "i mod 8 = b - r" by (subst i(1)) (use i(2) in simp)
    ultimately show ?thesis by blast
  qed
qed

text \<open>\<open>vec_cat\<close> appends one bit vector to another at any bit position: the first \<open>dst_len\<close> bits stay, the next
  \<open>src_len\<close> bits are those of the source, no byte beyond the last of them is touched, and the sum of the lengths is
  returned.\<close>

theorem vec_cat_appends:
  "let (n, v) = vec_cat dst dst_len src src_len
   in n = dst_len + src_len \<and>
      (\<forall>i<n. vbit v i = (if i < dst_len then vbit dst i else vbit src (i - dst_len))) \<and>
      (\<forall>j. (n + 7) div 8 \<le> j \<longrightarrow> v j = dst j)"
proof -
  let ?q = "dst_len div 8" and ?r = "dst_len mod 8" and ?m = "(src_len + dst_len mod 8 + 7) div 8"
  let ?v = "snd (vec_cat dst dst_len src src_len)"
  have n: "vec_cat dst dst_len src src_len = (dst_len + src_len, ?v)" by (simp add: vec_cat_def Let_def)
  have same: "?v j = dst j" if "\<not> (?q \<le> j \<and> j < ?q + ?m)" for j
    using that unfolding vec_cat_def Let_def snd_conv vec_cat_loop_at by (simp only: if_False)
  have end': "(dst_len + src_len + 7) div 8 = ?q + ?m"
    using div_mod_add8(1) [of dst_len "src_len + 7"] by (simp add: ac_simps)
  have low: "vbit ?v i = vbit dst i" if i: "i < dst_len" for i
  proof (cases "?q \<le> i div 8 \<and> i div 8 < ?q + ?m")
    case True
    then have q: "i div 8 = ?q" using i by (simp add: div_le_mono le_antisym)
    then have "i mod 8 < ?r" using i by (metis div_mult_mod_eq nat_add_left_cancel_less)
    then show ?thesis using vec_cat_at [of dst_len "i div 8" src_len "i mod 8" dst src] True q by (simp add: vbit_def)
  next
    case False
    then show ?thesis by (simp add: vbit_def same)
  qed
  have high: "vbit ?v (dst_len + i) = vbit src i" if i: "i < src_len" for i
  proof -
    let ?t = "(?r + i) div 8" and ?b = "(?r + i) mod 8"
    have "?r + i + 8 \<le> src_len + ?r + 7" using i by simp
    then have "(?r + i + 8) div 8 \<le> ?m" by (rule div_le_mono)
    then have t: "?t < ?m" by simp
    then show ?thesis
      using vec_cat_at [of dst_len "?q + ?t" src_len ?b dst src] split8 [OF refl refl, of ?r i]
      by (auto simp: vbit_def div_mod_add8 [of dst_len i])
  qed
  have "vbit ?v i = (if i < dst_len then vbit dst i else vbit src (i - dst_len))" if "i < dst_len + src_len" for i
    using low [of i] high [of "i - dst_len"] that by auto
  moreover have "?v j = dst j" if "(dst_len + src_len + 7) div 8 \<le> j" for j using that same by (simp add: end')
  ultimately show ?thesis by (subst n) simp
qed

theorem vec_cat_appends_witness:
  "vbit (snd (vec_cat (\<lambda>_. 0) 3 (\<lambda>_. 0xff) 2)) 4"
  using vec_cat_appends [of "\<lambda>_. 0" 3 "\<lambda>_. 0xff" 2] by (auto simp: case_prod_unfold Let_def vbit_def)

subsection \<open>Comparison and printing\<close>

lemma ffs_u8: "x \<noteq> 0 \<Longrightarrow> 0 < ffs (ucast (x :: u8))"
proof -
  assume "x \<noteq> 0"
  then obtain b where "bit x b" by (auto simp: bit_eq_iff)
  then have "bit (ucast x :: u32) b" using bit_imp_le_length [of x b] by (simp add: bit_simps)
  then have "(ucast x :: u32) \<noteq> 0" by auto
  then show ?thesis using ffs_eq_0 by blast
qed

lemma vec_cmp_loop_None: "vec_cmp_loop k i pa pb = None \<longleftrightarrow> (\<forall>j. i \<le> j \<and> j < i + k \<longrightarrow> pa j = pb j)"
proof (induction k arbitrary: i)
  case (Suc k)
  have "pa i XOR pb i = 0 \<longleftrightarrow> pa i = pb i" by (metis xor.right_neutral xor.assoc xor.commute xor_self_eq)
  then show ?case using Suc [of "i + 1"] by (auto simp: Let_def less_Suc_eq_le) (metis Suc_leI le_neq_implies_less)
qed auto

lemma vec_cmp_loop_Some: "vec_cmp_loop k i pa pb = Some r \<Longrightarrow> 0 < r"
  by (induction k arbitrary: i) (auto simp: Let_def dest: ffs_u8 split: if_splits)

lemma byte_eq_iff: "(x :: u8) = y \<longleftrightarrow> (\<forall>b<8. bit x b = bit y b)"
  by (auto intro: bit_word_eqI)

lemma xor_masked_eq_0: "((x :: u8) AND (push_bit r 1 - 1)) XOR (y AND (push_bit r 1 - 1)) = 0 \<longleftrightarrow>
  (\<forall>b<8. b < r \<longrightarrow> bit x b = bit y b)"
proof -
  have "push_bit r 1 - 1 = (mask r :: u8)" by (simp add: mask_eq_exp_minus_1)
  then show ?thesis by (auto simp: byte_eq_iff bit_and_iff bit_xor_iff bit_mask_iff)
qed

text \<open>\<open>vec_cmp\<close> returns zero exactly for vectors that agree in their first \<open>len\<close> bits, whatever the other bits of
  their last byte are.\<close>

theorem vec_cmp_zero: "vec_cmp pa pb len = 0 \<longleftrightarrow> (\<forall>i<len. vbit pa i = vbit pb i)"
proof -
  let ?q = "len div 8" and ?r = "len mod 8"
  have whole: "(\<forall>j<?q. pa j = pb j) \<longleftrightarrow> (\<forall>i<8 * ?q. vbit pa i = vbit pb i)"
  proof
    assume "\<forall>i<8 * ?q. vbit pa i = vbit pb i"
    then have "bit (pa j) b = bit (pb j) b" if "j < ?q" "b < 8" for j b
      using that by (auto simp: vbit_def dest: spec [of _ "8 * j + b"])
    then show "\<forall>j<?q. pa j = pb j" by (simp add: byte_eq_iff)
  qed (simp add: vbit_def less_mult_imp_div_less mult.commute)
  have last: "(\<forall>b<8. b < ?r \<longrightarrow> bit (pa ?q) b = bit (pb ?q) b) \<longleftrightarrow> (\<forall>i<len. 8 * ?q \<le> i \<longrightarrow> vbit pa i = vbit pb i)"
  proof
    assume *: "\<forall>b<8. b < ?r \<longrightarrow> bit (pa ?q) b = bit (pb ?q) b"
    show "\<forall>i<len. 8 * ?q \<le> i \<longrightarrow> vbit pa i = vbit pb i"
    proof (intro allI impI)
      fix i assume i: "i < len" "8 * ?q \<le> i"
      then have "i div 8 = ?q" by (simp add: div_le_mono le_antisym less_eq_div_iff_mult_less_eq mult.commute)
      moreover from this have "i mod 8 < ?r" using i by (metis div_mult_mod_eq nat_add_left_cancel_less)
      ultimately show "vbit pa i = vbit pb i" using * by (simp add: vbit_def)
    qed
  next
    assume *: "\<forall>i<len. 8 * ?q \<le> i \<longrightarrow> vbit pa i = vbit pb i"
    show "\<forall>b<8. b < ?r \<longrightarrow> bit (pa ?q) b = bit (pb ?q) b"
    proof (intro allI impI)
      fix b assume b: "b < 8" "b < ?r"
      then have "8 * ?q + b < len" by (metis mult_div_mod_eq nat_add_left_cancel_less)
      then have "vbit pa (8 * ?q + b) = vbit pb (8 * ?q + b)" using * by simp
      then show "bit (pa ?q) b = bit (pb ?q) b" using b by (simp add: vbit_def)
    qed
  qed
  have "vec_cmp pa pb len = 0 \<longleftrightarrow> (\<forall>j<?q. pa j = pb j) \<and> (\<forall>b<8. b < ?r \<longrightarrow> bit (pa ?q) b = bit (pb ?q) b)"
  proof (cases "vec_cmp_loop ?q 0 pa pb")
    case None
    let ?m = "push_bit ?r 1 - 1 :: u8"
    let ?x = "(pa ?q AND ?m) XOR (pb ?q AND ?m)"
    have all: "\<forall>j<?q. pa j = pb j" using None vec_cmp_loop_None [of ?q 0 pa pb] by simp
    have "vec_cmp pa pb len = (if ?r \<noteq> 0 \<and> ?x \<noteq> 0 then ?q + ffs (ucast ?x) else 0)"
      by (simp only: vec_cmp_def None option.case Let_def)
    then have "vec_cmp pa pb len = 0 \<longleftrightarrow> ?r = 0 \<or> ?x = 0" using ffs_u8 [of ?x] by (cases "?x = 0") auto
    then show ?thesis unfolding xor_masked_eq_0 using all by auto
  next
    case (Some n)
    then show ?thesis
      using vec_cmp_loop_Some [OF Some] vec_cmp_loop_None [of ?q 0 pa pb] by (auto simp: vec_cmp_def)
  qed
  moreover have "(\<forall>i<len. vbit pa i = vbit pb i) \<longleftrightarrow> (\<forall>i<8 * ?q. vbit pa i = vbit pb i) \<and> (\<forall>i<len. 8 * ?q \<le> i \<longrightarrow> vbit pa i = vbit pb i)"
  proof -
    have "8 * ?q \<le> len" by simp
    then show ?thesis by (meson leI less_le_trans)
  qed
  ultimately show ?thesis unfolding whole last by blast
qed

theorem vec_cmp_zero_witness: "vec_cmp (\<lambda>_. 3) (\<lambda>_. 7) 2 = 0"
  by (subst vec_cmp_zero) (auto simp: vbit_def less_2_cases_iff numeral_2_eq_2 less_Suc_eq)

lemma vec_fmt_loop_eq:
  assumes "i mod 8 = 0 \<or> (\<forall>j. i mod 8 + j < 8 \<longrightarrow> bit x j = bit (vec (i div 8)) (i mod 8 + j))"
  shows "vec_fmt_loop k i x vec = map (\<lambda>j. if vbit vec j then CHR ''1'' else CHR ''0'') [i..<i + k]"
  using assms
proof (induction k arbitrary: i x)
  case (Suc k)
  let ?x = "if i mod 8 = 0 then ucast (vec (i div 8)) else x"
  have x: "bit ?x j = bit (vec (i div 8)) (i mod 8 + j)" if "i mod 8 + j < 8" for j
    using Suc.prems that by (auto simp: bit_simps)
  have "?x AND 1 \<noteq> 0 \<longleftrightarrow> bit ?x 0" by (simp add: and_one_eq odd_iff_mod_2_eq_one bit_0)
  also have "\<dots> \<longleftrightarrow> vbit vec i" using x [of 0] by (simp add: vbit_def)
  finally have c: "?x AND 1 \<noteq> 0 \<longleftrightarrow> vbit vec i" .
  have "Suc i mod 8 = 0 \<or>
      (\<forall>j. Suc i mod 8 + j < 8 \<longrightarrow> bit (drop_bit 1 ?x) j = bit (vec (Suc i div 8)) (Suc i mod 8 + j))"
  proof (cases "Suc i mod 8 = 0")
    case False
    then have "Suc i mod 8 = Suc (i mod 8)" "Suc i div 8 = i div 8" by (simp_all add: mod_Suc div_Suc split: if_splits)
    then show ?thesis using x [of "Suc _"] by (auto simp: bit_drop_bit_eq)
  qed simp
  from Suc.IH [OF this] show ?case using c by (simp add: Let_def upt_conv_Cons del: upt_Suc)
qed simp

text \<open>\<open>vec_fmt\<close> prints a bit vector as a string of the digits 0 and 1, bit 0 first.\<close>

theorem vec_fmt_prints: "vec_fmt vec len = map (\<lambda>i. if vbit vec i then CHR ''1'' else CHR ''0'') [0..<len]"
  using vec_fmt_loop_eq [of 0 0 vec len] by (simp add: vec_fmt_def)

subsection \<open>Shifts\<close>

lemma vec_lshift_loop_at:
  assumes "d \<le> s \<or> s + n \<le> d" and "i + k \<le> n"
  shows "vec_lshift_loop k i d s bits x0 mem j =
    (if d + i \<le> j \<and> j < d + i + k
     then push_bit bits (mem (s + (j - d))) OR drop_bit (32 - bits) (if j = d + i then x0 else mem (s + (j - d) - 1))
     else mem j)"
  using assms(2)
proof (induction k arbitrary: i x0 mem)
  case (Suc k)
  let ?mem = "mem(d + i := push_bit bits (mem (s + i)) OR drop_bit (32 - bits) x0)"
  have same: "?mem (s + l) = mem (s + l)" if "i < l" "l < n" for l
    using assms(1) that by auto
  have ih: "vec_lshift_loop (Suc k) i d s bits x0 mem j =
      (if d + Suc i \<le> j \<and> j < d + Suc i + k
       then push_bit bits (?mem (s + (j - d))) OR drop_bit (32 - bits) (if j = d + Suc i then mem (s + i) else ?mem (s + (j - d) - 1))
       else ?mem j)"
  proof -
    have "vec_lshift_loop (Suc k) i d s bits x0 mem = vec_lshift_loop k (Suc i) d s bits (mem (s + i)) ?mem"
      by (simp add: Let_def)
    then show ?thesis using Suc.prems by (simp only:) (rule Suc.IH, simp)
  qed
  consider "j = d + i" | "j = d + Suc i" "j < d + Suc i + k" | "d + Suc i < j" "j < d + Suc i + k" | "j < d + i \<or> d + Suc i + k \<le> j"
    by linarith
  then show ?case
  proof cases
    case 3
    then have e: "s + (j - d) - 1 = s + (j - d - 1)" and l: "i < j - d" "i < j - d - 1" "j - d < n" "j - d - 1 < n"
      using Suc.prems by auto
    show ?thesis using 3 unfolding ih e same [OF l(1,3)] same [OF l(2,4)] by simp
  next
    case 2
    then have l: "i < j - d" "j - d < n" using Suc.prems by auto
    show ?thesis using 2 unfolding ih same [OF l] by simp
  next
    case 1
    then show ?thesis unfolding ih by simp
  next
    case 4
    then show ?thesis unfolding ih by auto
  qed
qed auto

lemma vec_rshift_loop_at:
  assumes "d \<le> s \<or> s + n \<le> d" and "i + k = n" and "0 < i"
  shows "vec_rshift_loop k i d s bits x0 mem j =
    (if d + (i - 1) \<le> j \<and> j < d + n
     then drop_bit bits (if j = d + (i - 1) then x0 else mem (s + (j - d))) OR
       (if j = d + n - 1 then 0 else push_bit (32 - bits) (mem (s + (j - d) + 1)))
     else mem j)"
  using assms(2,3)
proof (induction k arbitrary: i x0 mem)
  case 0
  then show ?case by auto
next
  case (Suc k)
  let ?mem = "mem(d + (i - 1) := drop_bit bits x0 OR push_bit (32 - bits) (mem (s + i)))"
  have same: "?mem (s + l) = mem (s + l)" if "i \<le> l" "l < n" for l
    using assms(1) that Suc.prems by auto
  have ih: "vec_rshift_loop (Suc k) i d s bits x0 mem j =
      (if d + i \<le> j \<and> j < d + n
       then drop_bit bits (if j = d + i then mem (s + i) else ?mem (s + (j - d))) OR
         (if j = d + n - 1 then 0 else push_bit (32 - bits) (?mem (s + (j - d) + 1)))
       else ?mem j)"
  proof -
    have "vec_rshift_loop (Suc k) i d s bits x0 mem = vec_rshift_loop k (Suc i) d s bits (mem (s + i)) ?mem"
      by (simp add: Let_def)
    then show ?thesis using Suc.IH [of "Suc i" "mem (s + i)" ?mem] Suc.prems by (simp only: diff_Suc_1)
  qed
  consider "j = d + (i - 1)" | "d + i \<le> j" "j < d + n - 1" | "d + i \<le> j" "j = d + n - 1" | "j < d + (i - 1) \<or> d + n \<le> j"
    using Suc.prems by linarith
  then show ?case
  proof cases
    case 1
    then show ?thesis using Suc.prems unfolding ih by auto
  next
    case 2
    then have l: "i \<le> j - d" "j - d < n" "i \<le> j - d + 1" "j - d + 1 < n" and "j \<noteq> d + (i - 1)" using Suc.prems by auto
    then show ?thesis using 2 unfolding ih add.assoc [of s "j - d" 1] same [OF l(1,2)] same [OF l(3,4)] by auto
  next
    case 3
    then have l: "i \<le> j - d" "j - d < n" and "j \<noteq> d + (i - 1)" using Suc.prems by auto
    moreover have "(if j = d + i then mem (s + i) else mem (s + (j - d))) = mem (s + (j - d))" by auto
    moreover have "d + (i - 1) \<le> j" "j < d + n" using 3 Suc.prems by auto
    ultimately show ?thesis using 3(1) unfolding ih same [OF l] by (simp only: 3(2) if_True if_False simp_thms)
  next
    case 4
    then have "\<not> (d + i \<le> j \<and> j < d + n)" "\<not> (d + (i - 1) \<le> j \<and> j < d + n)" "j \<noteq> d + (i - 1)"
      using Suc.prems by auto
    then show ?thesis unfolding ih by (simp only: if_False fun_upd_other not_False_eq_True)
  qed
qed

lemma divmod32: "x = 32 * t + p \<Longrightarrow> p < 32 \<Longrightarrow> x div 32 = t \<and> x mod 32 = (p :: nat)"
  by auto

lemma bit_shift_in:
  fixes lo hi :: u32
  assumes "0 < b" "b < 32" "p < 32"
  shows "bit (push_bit b lo OR drop_bit (32 - b) hi) p = (if p < b then bit hi (32 - b + p) else bit lo (p - b))"
    and "bit (drop_bit b lo OR push_bit (32 - b) hi) p = (if p + b < 32 then bit lo (p + b) else bit hi (p + b - 32))"
  using assms word32_bit_lt [of hi "32 - b + p"] word32_bit_lt [of lo "b + p"]
  by (auto simp: bit_or_iff bit_push_bit_iff bit_drop_bit_eq ac_simps)

text \<open>Each bit of the result, and the memory around it.\<close>

lemma vec_lshift_bit:
  assumes "0 < bits" "bits < 32" and n: "n = (len + 31) div 32" "0 < n" and ov: "d \<le> s \<or> s + n \<le> d" and i: "i < 32 * n"
  shows "wbit (vec_lshift d s len bits mem) d i = (bits \<le> i \<and> wbit mem s (i - bits))"
proof -
  define t where "t = i div 32"
  define p where "p = i mod 32"
  have t: "t < n" using i by (simp add: t_def less_mult_imp_div_less mult.commute)
  have i': "i = 32 * t + p" "p < 32" by (simp_all add: t_def p_def)
  have w: "wbit mem' d i = bit (mem' (d + t)) p" for mem' d by (simp add: wbit_def t_def p_def)
  have l: "vec_lshift d s len bits mem (d + t) =
      push_bit bits (mem (s + t)) OR drop_bit (32 - bits) (if t = 0 then 0 else mem (s + t - 1))"
    using t unfolding vec_lshift_def n(1) [symmetric] vec_lshift_loop_at [OF ov, of 0 n, simplified] by auto
  show ?thesis
  proof (cases "p < bits")
    case True
    show ?thesis
    proof (cases "t = 0")
      case False
      then have "i - bits = 32 * (t - 1) + (32 - bits + p)" "32 - bits + p < 32" "bits \<le> i"
        using True assms(2) i' by (simp_all add: algebra_simps)
      then have "(i - bits) div 32 = t - 1" "(i - bits) mod 32 = 32 - bits + p" using divmod32 by blast+
      then show ?thesis using False True \<open>bits \<le> i\<close> assms(1,2)
        unfolding w by (simp add: l bit_shift_in i'(2) wbit_def)
    next
      case zero: True
      then have "vec_lshift d s len bits mem (d + t) = push_bit bits (mem (s + t)) OR drop_bit (32 - bits) 0"
        using l by simp
      moreover have "\<not> bits \<le> i" using True zero i' by linarith
      ultimately show ?thesis using True assms(1,2) by (simp add: w bit_push_bit_iff)
    qed
  next
    case False
    then have "i - bits = 32 * t + (p - bits)" "p - bits < 32" "bits \<le> i" using i' by linarith+
    then have "(i - bits) div 32 = t" "(i - bits) mod 32 = p - bits" using divmod32 by blast+
    then show ?thesis using False \<open>bits \<le> i\<close> assms(1,2) unfolding w by (simp add: l bit_shift_in i'(2) wbit_def)
  qed
qed

lemma vec_rshift_bit:
  assumes "0 < bits" "bits < 32" and n: "n = (len + 31) div 32" "0 < n" and ov: "d \<le> s \<or> s + n \<le> d" and i: "i < 32 * n"
  shows "wbit (vec_rshift d s len bits mem) d i = (i + bits < 32 * n \<and> wbit mem s (i + bits))"
proof -
  define t where "t = i div 32"
  define p where "p = i mod 32"
  have t: "t < n" using i by (simp add: t_def less_mult_imp_div_less mult.commute)
  have i': "i = 32 * t + p" "p < 32" by (simp_all add: t_def p_def)
  have w: "wbit mem' d i = bit (mem' (d + t)) p" for mem' d by (simp add: wbit_def t_def p_def)
  have r: "vec_rshift d s len bits mem (d + t) =
      drop_bit bits (mem (s + t)) OR push_bit (32 - bits) (if t = n - 1 then 0 else mem (s + t + 1))"
    using t n(2) unfolding vec_rshift_def n(1) [symmetric]
    by (subst vec_rshift_loop_at [OF ov]) auto
  show ?thesis
  proof (cases "p + bits < 32")
    case True
    have e: "i + bits = 32 * t + (p + bits)" using i' by simp
    then have "(i + bits) div 32 = t" "(i + bits) mod 32 = p + bits" using divmod32 [OF e True] by blast+
    have "32 * (t + 1) \<le> 32 * n" using t by (intro mult_le_mono2) simp
    moreover have "i + bits < 32 * (t + 1)"
      by (subst e) (use True in \<open>simp only: distrib_left mult_1_right nat_add_left_cancel_less\<close>)
    ultimately have "i + bits < 32 * n" by (rule order_less_le_trans [rotated])
    then show ?thesis using True assms(1,2) \<open>(i + bits) div 32 = t\<close> \<open>(i + bits) mod 32 = p + bits\<close> unfolding w by (simp add: r bit_shift_in i'(2) wbit_def)
  next
    case False
    then have e: "i + bits = 32 * (t + 1) + (p + bits - 32)" using i'(1) by simp
    have lt: "p + bits - 32 < 32" using i'(2) assms(2) by linarith
    have "(i + bits) div 32 = t + 1" "(i + bits) mod 32 = p + bits - 32" using divmod32 [OF e lt] by blast+
    moreover have "i + bits < 32 * n \<longleftrightarrow> t \<noteq> n - 1"
    proof -
      have "32 * a + b < 32 * c \<longleftrightarrow> a < c" if "b < 32" for a b c :: nat
        using that by (cases "a < c") simp_all
      from this [OF lt, of "t + 1" n] show ?thesis using t unfolding e by auto
    qed
    ultimately show ?thesis using False assms(1,2) unfolding w by (simp add: r bit_shift_in i'(2) wbit_def)
  qed
qed

lemma vec_shift_frame:
  assumes n: "n = (len + 31) div 32" "0 < n" and ov: "d \<le> s \<or> s + n \<le> d" and j: "j < d \<or> d + n \<le> j"
  shows "vec_lshift d s len bits mem j = mem j \<and> vec_rshift d s len bits mem j = mem j"
proof
  show "vec_lshift d s len bits mem j = mem j"
    using j unfolding vec_lshift_def n(1) [symmetric] vec_lshift_loop_at [OF ov, of 0 n, simplified] by auto
  show "vec_rshift d s len bits mem j = mem j"
    using j n(2) unfolding vec_rshift_def n(1) [symmetric] by (subst vec_rshift_loop_at [OF ov]) auto
qed

text \<open>C28: \<open>vec_lshift\<close> and \<open>vec_rshift\<close> by 1 to 31 bits move every bit of the words of the vector, filling with zeros at
  the end, and change nothing outside the destination. They may work in place: it is enough that the destination
  does not start inside the source behind its first word. (The header \<open>bitvec.h\<close>, lines 39 to 43, announces
  them as rotations; the bits that a rotation would bring back at the other end are zero here.)\<close>

theorem vec_shifts:
  assumes "0 < bits" "bits < 32" and n: "n = (len + 31) div 32" "0 < n" and ov: "d \<le> s \<or> s + n \<le> d" and i: "i < 32 * n"
  shows "wbit (vec_lshift d s len bits mem) d i = (bits \<le> i \<and> wbit mem s (i - bits)) \<and>
    wbit (vec_rshift d s len bits mem) d i = (i + bits < 32 * n \<and> wbit mem s (i + bits)) \<and>
    (\<forall>j. j < d \<or> d + n \<le> j \<longrightarrow> vec_lshift d s len bits mem j = mem j \<and> vec_rshift d s len bits mem j = mem j)"
  using vec_lshift_bit [OF assms] vec_rshift_bit [OF assms] vec_shift_frame [OF n ov] by blast

theorem vec_shifts_witness:
  "wbit (vec_lshift 0 0 64 4 (\<lambda>_. 0x80000000)) 0 35 \<and> wbit (vec_rshift 0 0 64 4 (\<lambda>_. 1)) 0 28"
proof
  show "wbit (vec_lshift 0 0 64 4 (\<lambda>_. 0x80000000)) 0 35"
    using vec_shifts [of 4 2 64 0 0 35 "\<lambda>_. 0x80000000"] by (simp add: wbit_def)
  show "wbit (vec_rshift 0 0 64 4 (\<lambda>_. 1)) 0 28"
    using vec_shifts [of 4 2 64 0 0 28 "\<lambda>_. 1"] by (simp add: wbit_def)
qed

end
