(* ===== verification/Libc_Mem.thy ===== *)
theory Libc_Mem
  imports Prelude
begin

text \<open>
  The block operations of the C library (\<^verbatim>\<open>src/src/sdk/libc/memcpy.c\<close>, \<^verbatim>\<open>memmove.c\<close>, \<^verbatim>\<open>memset.c\<close>, \<^verbatim>\<open>memcmp.c\<close>) on a
  memory of bytes. Addresses are natural numbers; a block does not wrap around the end of the address space.
  An access of 16 or 32 bits loads or stores its bytes at once, little endian, so that copying by words and
  copying by bytes differ on overlapping blocks exactly as they do in the machine.

  The reference operations are \<open>copy\<close>, the simultaneous copy of a block, and \<open>fill\<close>. Loops that work in pieces are
  shown equal to them; \<open>filled\<close> is what every stage of \<open>memset\<close> keeps of its pointer, count and memory.
\<close>

section \<open>Definitions\<close>

type_synonym mem = "nat \<Rightarrow> u8"

text \<open>Load \<open>w\<close> bytes at \<open>s\<close>, then store them at \<open>d\<close>: one assignment \<open>*pdst = *psrc\<close> of a type of \<open>w\<close> bytes.\<close>

definition copy :: "nat \<Rightarrow> nat \<Rightarrow> nat \<Rightarrow> mem \<Rightarrow> mem" where
  "copy w d s m = (\<lambda>a. if d \<le> a \<and> a < d + w then m (s + (a - d)) else m a)"

text \<open>\<open>while (n >= w) { *pdst++ = *psrc++; n -= w; }\<close>: the memory, the pointers and the count behind the loop.\<close>

function copy_loop :: "nat \<Rightarrow> nat \<Rightarrow> nat \<Rightarrow> nat \<Rightarrow> mem \<Rightarrow> nat \<times> nat \<times> nat \<times> mem" where
  "copy_loop w d s n m =
    (if 0 < w \<and> w \<le> n then copy_loop w (d + w) (s + w) (n - w) (copy w d s m) else (d, s, n, m))"
  by pat_completeness auto

termination copy_loop
  by (relation "measure (\<lambda>(w, d, s, n, m). n)") auto

declare copy_loop.simps [simp del]

definition memcpy :: "nat \<Rightarrow> nat \<Rightarrow> nat \<Rightarrow> mem \<Rightarrow> mem" where
  "memcpy dst src n m =
    (let align = (src OR dst) AND 3;
         (cpdst, cpsrc, n, m) =
           (if align = 0 then copy_loop 4 dst src n m
            else if align = 2
            then (if 2 \<le> n then (dst + 2, src + 2, n - 2, copy 2 dst src m) else (dst, src, n, m))
            else (dst, src, n, m));
         (_, _, _, m) = copy_loop 1 cpdst cpsrc n m
     in m)"

fun copy_back :: "nat \<Rightarrow> nat \<Rightarrow> nat \<Rightarrow> mem \<Rightarrow> mem" where
  "copy_back d s 0 m = m"
| "copy_back d s (Suc n) m = copy_back d s n (m(d + n := m (s + n)))"

text \<open>The value returned is the pointer behind the last byte when the copy runs upwards.\<close>

definition memmove :: "nat \<Rightarrow> nat \<Rightarrow> nat \<Rightarrow> mem \<Rightarrow> nat \<times> mem" where
  "memmove dst src n m =
    (if src < dst \<and> dst < src + n then (dst, copy_back dst src n m)
     else case copy_loop 1 dst src n m of (d, _, _, m) \<Rightarrow> (d, m))"

definition memset_data :: "u32 \<Rightarrow> u32" where
  "memset_data c = (let data = c AND 0xff; data = data OR push_bit 8 data in data OR push_bit 16 data)"

text \<open>Store the low \<open>w\<close> bytes of a word.\<close>

definition store :: "nat \<Rightarrow> nat \<Rightarrow> u32 \<Rightarrow> mem \<Rightarrow> mem" where
  "store w d v m = (\<lambda>a. if d \<le> a \<and> a < d + w then ucast (drop_bit (8 * (a - d)) v) else m a)"

fun stores :: "nat \<Rightarrow> nat \<Rightarrow> nat \<Rightarrow> u32 \<Rightarrow> mem \<Rightarrow> mem" where
  "stores 0 w d v m = m"
| "stores (Suc k) w d v m = stores k w (d + w) v (store w d v m)"

text \<open>\<open>while (n >= k * w)\<close> with \<open>k\<close> stores of \<open>w\<close> bytes in the body.\<close>

function store_loop :: "nat \<Rightarrow> nat \<Rightarrow> nat \<Rightarrow> nat \<Rightarrow> u32 \<Rightarrow> mem \<Rightarrow> nat \<times> nat \<times> mem" where
  "store_loop k w d n v m =
    (if 0 < k * w \<and> k * w \<le> n then store_loop k w (d + k * w) (n - k * w) v (stores k w d v m) else (d, n, m))"
  by pat_completeness auto

termination store_loop
  by (relation "measure (\<lambda>(k, w, d, n, v, m). n)") (auto, metis diff_less less_le_trans nat_0_less_mult_iff)

declare store_loop.simps [simp del]

definition store_if :: "nat \<Rightarrow> nat \<Rightarrow> u32 \<Rightarrow> nat \<times> nat \<times> mem \<Rightarrow> nat \<times> nat \<times> mem" where
  "store_if k w v = (\<lambda>(d, n, m). if k * w \<le> n then (d + k * w, n - k * w, stores k w d v m) else (d, n, m))"

definition memset :: "nat \<Rightarrow> u32 \<Rightarrow> nat \<Rightarrow> mem \<Rightarrow> mem" where
  "memset dst c n m =
    (let data = memset_data c;
         align = dst AND 3;
         st = (if align = 0 then store_if 2 4 data (store_if 4 4 data (store_loop 8 4 dst n data m))
               else if align = 2 then store_if 4 2 data (store_loop 8 2 dst n data m)
               else (dst, n, m));
         st = (case st of (d, n, m) \<Rightarrow> store_loop 4 1 d n data m);
         st = store_if 2 1 data st
     in case st of (d, n, m) \<Rightarrow> if n \<noteq> 0 then store 1 d data m else m)"

fun memcmp_loop :: "nat \<Rightarrow> nat \<Rightarrow> nat \<Rightarrow> mem \<Rightarrow> int" where
  "memcmp_loop 0 p q m = 0"
| "memcmp_loop (Suc n) p q m =
    (if m p \<noteq> m q then uint (m p) - uint (m q) else memcmp_loop n (p + 1) (q + 1) m)"

definition memcmp :: "nat \<Rightarrow> nat \<Rightarrow> nat \<Rightarrow> mem \<Rightarrow> int" where
  "memcmp s1 s2 n m = memcmp_loop n s1 s2 m"

section \<open>Copying in pieces\<close>

definition apart :: "nat \<Rightarrow> nat \<Rightarrow> nat \<Rightarrow> bool" where
  "apart d s n \<longleftrightarrow> d \<le> s \<or> s + n \<le> d"

lemma copy_0 [simp]: "copy 0 d s m = m"
  by (rule ext) (auto simp: copy_def)

lemma copy_append:
  assumes "apart d s (v + w)"
  shows "copy w (d + v) (s + v) (copy v d s m) = copy (v + w) d s m"
proof
  fix a
  show "copy w (d + v) (s + v) (copy v d s m) a = copy (v + w) d s m a"
  proof (cases "d + v \<le> a \<and> a < d + v + w")
    case True
    then have "s + v + (a - (d + v)) = s + (a - d)" by simp
    moreover have "\<not> (d \<le> s + (a - d) \<and> s + (a - d) < d + v)" using assms True by (auto simp: apart_def)
    ultimately show ?thesis using True by (auto simp: copy_def)
  qed (auto simp: copy_def)
qed

lemma apart_step: "apart d s n \<Longrightarrow> w \<le> n \<Longrightarrow> apart (d + w) (s + w) (n - w)"
  by (auto simp: apart_def)

lemma copy_loop_copy:
  assumes "apart d s n"
  shows "\<exists>k. k \<le> n \<and> copy_loop w d s n m = (d + k, s + k, n - k, copy k d s m) \<and> (0 < w \<longrightarrow> n - k < w)"
  using assms
proof (induction w d s n m rule: copy_loop.induct)
  case (1 w d s n m)
  show ?case
  proof (cases "0 < w \<and> w \<le> n")
    case True
    then obtain k where k: "k \<le> n - w"
      "copy_loop w (d + w) (s + w) (n - w) (copy w d s m) =
        (d + w + k, s + w + k, n - w - k, copy k (d + w) (s + w) (copy w d s m))" "n - w - k < w"
      using 1 apart_step [OF 1(2)] by blast
    have "apart d s (w + k)" using 1(2) k(1) True by (auto simp: apart_def)
    then have "copy_loop w d s n m = (d + (w + k), s + (w + k), n - (w + k), copy (w + k) d s m)"
      using True k(2) by (subst copy_loop.simps) (simp add: copy_append add.assoc)
    then show ?thesis using k True by (intro exI [of _ "w + k"]) auto
  next
    case False
    then show ?thesis by (intro exI [of _ 0]) (subst copy_loop.simps, auto)
  qed
qed

lemma copy_loop_bytes: "apart d s n \<Longrightarrow> copy_loop 1 d s n m = (d + n, s + n, 0, copy n d s m)"
  using copy_loop_copy [of d s n 1 m] by auto

lemma copy_back_copy:
  assumes "s < d"
  shows "copy_back d s n m = copy n d s m"
proof (induction n arbitrary: m)
  case (Suc n)
  have "copy n d s (m(d + n := m (s + n))) a = copy (Suc n) d s m a" for a
    using assms by (auto simp: copy_def)
  then have "copy n d s (m(d + n := m (s + n))) = copy (Suc n) d s m" by (rule ext)
  then show ?case by (simp only: copy_back.simps Suc)
qed simp

section \<open>Filling in pieces\<close>

definition fill :: "nat \<Rightarrow> nat \<Rightarrow> u8 \<Rightarrow> mem \<Rightarrow> mem" where
  "fill n d b m = (\<lambda>a. if d \<le> a \<and> a < d + n then b else m a)"

lemma fill_append: "fill w (d + v) b (fill v d b m) = fill (v + w) d b m"
  by (rule ext) (auto simp: fill_def)

lemma fill_0 [simp]: "fill 0 d b m = m"
  by (rule ext) (auto simp: fill_def)

lemma memset_data_bytes: "j < 4 \<Longrightarrow> ucast (drop_bit (8 * j) (memset_data c)) = (ucast c :: u8)"
proof (rule bit_word_eqI)
  fix n
  assume j: "j < 4" and n: "n < LENGTH(8)"
  have m: "c AND 0xff = take_bit 8 c" by (simp add: take_bit_eq_mask mask_eq_exp_minus_1)
  have "j = 0 \<or> j = 1 \<or> j = 2 \<or> j = 3" using j by linarith
  then show "bit (ucast (drop_bit (8 * j) (memset_data c)) :: u8) n = bit (ucast c :: u8) n"
    using n unfolding memset_data_def m Let_def by (elim disjE) (auto simp: bit_simps)
qed

lemma store_fill: "w \<le> 4 \<Longrightarrow> store w d (memset_data c) m = fill w d (ucast c) m"
  by (rule ext) (auto simp: store_def fill_def memset_data_bytes)

lemma stores_fill: "w \<le> 4 \<Longrightarrow> stores k w d (memset_data c) m = fill (k * w) d (ucast c) m"
  by (induction k arbitrary: d m) (simp_all add: store_fill fill_append)

definition filled :: "nat \<Rightarrow> nat \<Rightarrow> u8 \<Rightarrow> mem \<Rightarrow> nat \<times> nat \<times> mem \<Rightarrow> bool" where
  "filled d n b m st \<longleftrightarrow> (\<exists>j\<le>n. st = (d + j, n - j, fill j d b m))"

lemma filled_start: "filled d n b m (d, n, m)"
  unfolding filled_def by (intro exI [of _ 0]) simp

lemma filled_stores:
  assumes "filled d0 n0 (ucast c) m0 (d, n, m)" and "w \<le> 4" and "k * w \<le> n"
  shows "filled d0 n0 (ucast c) m0 (d + k * w, n - k * w, stores k w d (memset_data c) m)"
proof -
  obtain j where "j \<le> n0" "d = d0 + j" "n = n0 - j" "m = fill j d0 (ucast c) m0"
    using assms(1) by (auto simp: filled_def)
  then show ?thesis using assms(2,3) unfolding filled_def
    by (intro exI [of _ "j + k * w"]) (simp add: stores_fill fill_append add.assoc)
qed

lemma filled_loop:
  assumes "filled d0 n0 (ucast c) m0 (d, n, m)" and "w \<le> 4" and "v = memset_data c"
  shows "filled d0 n0 (ucast c) m0 (store_loop k w d n v m) \<and> (0 < k * w \<longrightarrow> fst (snd (store_loop k w d n v m)) < k * w)"
  using assms
proof (induction k w d n v m rule: store_loop.induct)
  case (1 k w d n v m)
  show ?case
  proof (cases "0 < k * w \<and> k * w \<le> n")
    case True
    have "filled d0 n0 (ucast c) m0 (d + k * w, n - k * w, stores k w d v m)"
      using filled_stores [OF 1(2,3), of k] True 1(4) by simp
    from 1(1) [OF True this 1(3,4)] True show ?thesis by (subst (1 2) store_loop.simps) simp
  next
    case False
    then show ?thesis using 1(2) by (subst (1 2) store_loop.simps) auto
  qed
qed

lemma filled_if:
  assumes "filled d0 n0 (ucast c) m0 st" and "w \<le> 4"
  shows "filled d0 n0 (ucast c) m0 (store_if k w (memset_data c) st)"
proof -
  obtain d n m where st: "st = (d, n, m)" by (cases st)
  then show ?thesis using assms filled_stores [of d0 n0 c m0 d n m w k] by (simp add: store_if_def)
qed

section \<open>Properties\<close>

text \<open>C32: \<open>memmove\<close> copies the block whatever the overlap of source and destination is, and \<open>memcpy\<close>, which copies by words
  or half words where the addresses allow it, does so when the destination does not start inside the source.\<close>

theorem memmove_memcpy_copy:
  "snd (memmove dst src n m) = copy n dst src m \<and> (dst \<le> src \<or> src + n \<le> dst \<longrightarrow> memcpy dst src n m = copy n dst src m)"
proof (intro conjI impI)
  show "snd (memmove dst src n m) = copy n dst src m"
  proof (cases "src < dst \<and> dst < src + n")
    case True
    then show ?thesis by (simp add: memmove_def copy_back_copy)
  next
    case False
    then have "apart dst src n" by (auto simp: apart_def)
    from copy_loop_bytes [OF this] False show ?thesis unfolding memmove_def by (simp only: if_False prod.case snd_conv)
  qed
  assume "dst \<le> src \<or> src + n \<le> dst"
  then have a: "apart dst src n" by (simp add: apart_def)
  have tail: "copy_loop 1 (dst + k) (src + k) (n - k) (copy k dst src m) = (dst + n, src + n, 0, copy n dst src m)"
    if "k \<le> n" for k
    using copy_loop_bytes [OF apart_step [OF a that]] copy_append [of dst src k "n - k" m] a that by simp
  obtain k where k: "k \<le> n" "copy_loop 4 dst src n m = (dst + k, src + k, n - k, copy k dst src m)"
    using copy_loop_copy [OF a, of 4 m] by auto
  show "memcpy dst src n m = copy n dst src m"
    using tail [of k] tail [of 2] tail [of 0] k by (auto simp: memcpy_def Let_def)
qed

theorem memmove_memcpy_copy_witness:
  "memcpy 100 200 5 (\<lambda>a. of_nat a) = copy 5 100 200 (\<lambda>a. of_nat a)"
  using memmove_memcpy_copy [of 100 200 5 "\<lambda>a. of_nat a"] by simp

text \<open>\<open>memset\<close>, unrolled by words, half words or bytes as the address allows, sets exactly the \<open>n\<close> bytes of the block.\<close>

theorem memset_fill: "memset dst c n m = fill n dst (ucast c) m"
proof -
  let ?v = "memset_data c" and ?F = "filled dst n (ucast c) m"
  define st where "st = (if dst AND 3 = 0 then store_if 2 4 ?v (store_if 4 4 ?v (store_loop 8 4 dst n ?v m))
     else if dst AND 3 = 2 then store_if 4 2 ?v (store_loop 8 2 dst n ?v m) else (dst, n, m))"
  have "?F (store_loop 8 4 dst n ?v m)" "?F (store_loop 8 2 dst n ?v m)"
    using filled_loop [OF filled_start _ refl] by simp_all
  then have "?F st" unfolding st_def by (auto intro!: filled_if filled_start)
  moreover obtain d1 n1 m1 where st: "st = (d1, n1, m1)" by (cases st)
  ultimately have 1: "?F (store_loop 4 1 d1 n1 ?v m1)" "fst (snd (store_loop 4 1 d1 n1 ?v m1)) < 4"
    using filled_loop [of dst n c m d1 n1 m1 1 ?v 4] by simp_all
  obtain d2 n2 m2 where st2: "store_if 2 1 ?v (store_loop 4 1 d1 n1 ?v m1) = (d2, n2, m2)" by (metis prod_cases3)
  have F: "?F (d2, n2, m2)" using filled_if [OF 1(1), of 1 2] st2 by simp
  have "n2 < 2" using 1(2) st2 by (auto simp: store_if_def split: prod.splits if_splits)
  have "memset dst c n m = (if n2 \<noteq> 0 then store 1 d2 ?v m2 else m2)"
    unfolding memset_def Let_def st_def [symmetric] by (simp only: st st2 prod.case)
  moreover from F obtain j where "j \<le> n" "d2 = dst + j" "n2 = n - j" "m2 = fill j dst (ucast c) m"
    by (auto simp: filled_def)
  moreover have "n = j \<or> n = Suc j" using calculation(2,4) \<open>n2 < 2\<close> by linarith
  ultimately show ?thesis by (auto simp: store_fill fill_append)
qed

text \<open>\<open>memcmp\<close> compares blocks of bytes: it is zero exactly for equal blocks, and otherwise has the sign of the
  difference of the first bytes that differ.\<close>

theorem memcmp_first_difference:
  "(memcmp s1 s2 n m = 0 \<longleftrightarrow> (\<forall>i<n. m (s1 + i) = m (s2 + i))) \<and>
   (\<forall>i<n. (\<forall>j<i. m (s1 + j) = m (s2 + j)) \<longrightarrow> m (s1 + i) \<noteq> m (s2 + i) \<longrightarrow>
      memcmp s1 s2 n m = uint (m (s1 + i)) - uint (m (s2 + i)))"
  unfolding memcmp_def
proof (induction n arbitrary: s1 s2)
  case (Suc n)
  have s: "(\<forall>i<Suc n. P i) \<longleftrightarrow> P 0 \<and> (\<forall>i<n. P (Suc i))" for P by (rule All_less_Suc2)
  show ?case
    using Suc [of "s1 + 1" "s2 + 1"] by (auto simp: s All_less_Suc2 word_uint_eq_iff)
qed simp

theorem memcmp_first_difference_witness: "memcmp 0 4 3 (\<lambda>a. 7) = 0"
  using memcmp_first_difference [of 0 4 3 "\<lambda>a. 7"] by simp

end
