(* ===== verification/Libc_Printf.thy ===== *)
theory Libc_Printf
  imports Libc_Conv
begin

text \<open>
  Formatted output (\<^verbatim>\<open>src/src/sdk/libc/vfprintf.c\<close>, \<^verbatim>\<open>vsnprintf.c\<close>) and the address conversions built on it
  (\<^verbatim>\<open>libc/inet\<close>). The variable arguments are a list of values; reading one of the wrong kind, or one too many, is
  undefined in C and \<open>None\<close> here, as is padding beyond the constant arrays \<open>__zeros\<close> and \<open>__blanks\<close>. The write
  operation of the file is an argument: it takes the bytes and its state and may fail to return.

  The main lemma shows that a format composed of literal text and conversions with flags and widths produces
  exactly the text each item stands for, through any file that only appends. \<open>vsnprintf\<close> writes through a file that
  is a bounded string; it is right when the text fits and writes outside the buffer when it does not.
\<close>

section \<open>Formatted output\<close>

datatype va = VInt u32 | VLong "64 word" | VStr string

record pf_flags =
  f_width :: bool
  f_zero :: bool
  f_left :: bool
  f_sign :: bool
  f_long :: bool
  f_long2 :: bool

definition PERCENT :: pf_flags where
  "PERCENT = \<lparr>f_width = False, f_zero = False, f_left = False, f_sign = False, f_long = False, f_long2 = False\<rparr>"

text \<open>\<open>p_flags\<close> is \<open>None\<close> when \<open>flags == 0\<close>, outside a conversion; \<open>p_lit\<close> holds the \<open>n\<close> characters at \<open>cp\<close> that were seen there.\<close>

record 's pf =
  p_flags :: "pf_flags option"
  p_w :: int
  p_lit :: string
  p_cnt :: nat
  p_args :: "va list"
  p_file :: 's

type_synonym 's writer = "string \<Rightarrow> 's \<Rightarrow> (nat \<times> 's) option"

definition pf_write :: "'s writer \<Rightarrow> string \<Rightarrow> 's pf \<Rightarrow> 's pf option" where
  "pf_write wr s p = (case wr s (p_file p) of None \<Rightarrow> None | Some (r, f) \<Rightarrow> Some (p\<lparr>p_cnt := p_cnt p + r, p_file := f\<rparr>))"

definition zeros :: "int \<Rightarrow> string option" where
  "zeros k = (if k \<le> 32 then Some (replicate (nat k) CHR ''0'') else None)"

definition blanks :: "int \<Rightarrow> string option" where
  "blanks k = (if k \<le> 64 then Some (replicate (nat k) CHR '' '') else None)"

text \<open>The label \<open>print_buf\<close> and what follows it up to the end of the loop body.\<close>

definition print_buf :: "'s writer \<Rightarrow> pf_flags \<Rightarrow> int \<Rightarrow> string \<Rightarrow> 's pf \<Rightarrow> 's pf option" where
  "print_buf wr fl w buf p =
    (let n = int (length buf);
         pad = w > n
     in bind
         (if \<not> f_left fl \<and> pad then
            if f_zero fl then
              bind (if f_sign fl then pf_write wr ''-'' p else Some p) (\<lambda>p.
              bind (zeros (w - n)) (\<lambda>z.
              bind (pf_write wr z p) (\<lambda>p. Some (fl\<lparr>f_sign := False\<rparr>, p))))
            else bind (blanks (w - n)) (\<lambda>b. bind (pf_write wr b p) (\<lambda>p. Some (fl, p)))
          else Some (fl, p))
        (\<lambda>(fl, p).
         bind (if f_sign fl then pf_write wr ''-'' p else Some p) (\<lambda>p.
         bind (pf_write wr buf p) (\<lambda>p.
         bind (if f_left fl \<and> pad then bind (blanks (w - n)) (\<lambda>b. pf_write wr b p) else Some p) (\<lambda>p.
         Some (p\<lparr>p_flags := None, p_w := 0, p_lit := []\<rparr>))))))"

definition pf_signed :: "'s writer \<Rightarrow> pf_flags \<Rightarrow> bool \<Rightarrow> string \<Rightarrow> 's pf \<Rightarrow> 's pf option" where
  "pf_signed wr fl neg s p =
    (if neg then print_buf wr (fl\<lparr>f_sign := True\<rparr>) (p_w p - 1) s p else print_buf wr fl (p_w p) s p)"

text \<open>The loop body for the character \<open>c\<close>.\<close>

definition pf_char :: "'s writer \<Rightarrow> char \<Rightarrow> 's pf \<Rightarrow> 's pf option" where
  "pf_char wr c p =
    (case p_flags p of
       None \<Rightarrow>
         if c = CHR ''%'' then
           bind (if p_lit p \<noteq> [] then pf_write wr (p_lit p) p else Some p)
             (\<lambda>p. Some (p\<lparr>p_lit := [], p_w := 0, p_flags := Some PERCENT\<rparr>))
         else Some (p\<lparr>p_lit := p_lit p @ [c]\<rparr>)
     | Some fl \<Rightarrow>
         if is_dec c then
           if \<not> f_width fl \<and> c = CHR ''0'' then Some (p\<lparr>p_flags := Some (fl\<lparr>f_width := True, f_zero := True\<rparr>)\<rparr>)
           else Some (p\<lparr>p_flags := Some (fl\<lparr>f_width := True\<rparr>), p_w := p_w p * 10 + int (dec_rd c)\<rparr>)
         else if c = CHR ''-'' then Some (p\<lparr>p_flags := Some (fl\<lparr>f_left := True\<rparr>)\<rparr>)
         else if c = CHR ''*'' then
           (case p_args p of VInt v # as \<Rightarrow> Some (p\<lparr>p_w := sint v, p_args := as\<rparr>) | _ \<Rightarrow> None)
         else if c = CHR ''l'' then
           Some (p\<lparr>p_flags := Some (if f_long fl then fl\<lparr>f_long2 := True\<rparr> else fl\<lparr>f_long := True\<rparr>)\<rparr>)
         else if c = CHR ''c'' then
           (case p_args p of VInt v # as \<Rightarrow> print_buf wr fl (p_w p) [char_of (unat (take_bit 8 v))] (p\<lparr>p_args := as\<rparr>) | _ \<Rightarrow> None)
         else if c = CHR ''d'' then
           (if f_long2 fl then
              (case p_args p of VLong v # as \<Rightarrow>
                 pf_signed wr fl (sint v < 0) (snd (ull2dec (if sint v < 0 then - v else v))) (p\<lparr>p_args := as\<rparr>) | _ \<Rightarrow> None)
            else
              (case p_args p of VInt v # as \<Rightarrow>
                 pf_signed wr fl (sint v < 0) (snd (uint2dec (if sint v < 0 then - v else v))) (p\<lparr>p_args := as\<rparr>) | _ \<Rightarrow> None))
         else if c = CHR ''x'' then
           (if f_long2 fl then
              (case p_args p of VLong v # as \<Rightarrow> print_buf wr fl (p_w p) (snd (ull2hex v)) (p\<lparr>p_args := as\<rparr>) | _ \<Rightarrow> None)
            else
              (case p_args p of VInt v # as \<Rightarrow> print_buf wr fl (p_w p) (snd (uint2hex v)) (p\<lparr>p_args := as\<rparr>) | _ \<Rightarrow> None))
         else if c = CHR ''s'' then
           (case p_args p of VStr s # as \<Rightarrow> print_buf wr fl (p_w p) s (p\<lparr>p_args := as\<rparr>) | _ \<Rightarrow> None)
         else if c = CHR ''u'' then
           (if f_long2 fl then
              (case p_args p of VLong v # as \<Rightarrow> print_buf wr fl (p_w p) (snd (ull2dec v)) (p\<lparr>p_args := as\<rparr>) | _ \<Rightarrow> None)
            else
              (case p_args p of VInt v # as \<Rightarrow> print_buf wr fl (p_w p) (snd (uint2dec v)) (p\<lparr>p_args := as\<rparr>) | _ \<Rightarrow> None))
         else if c = CHR ''p'' then
           (case p_args p of VInt v # as \<Rightarrow> print_buf wr (fl\<lparr>f_zero := True\<rparr>) 8 (snd (uint2hex v)) (p\<lparr>p_args := as\<rparr>) | _ \<Rightarrow> None)
         else print_buf wr PERCENT 0 [c] p)"

fun pf_loop :: "'s writer \<Rightarrow> string \<Rightarrow> 's pf \<Rightarrow> 's pf option" where
  "pf_loop wr [] p = (if p_lit p \<noteq> [] then pf_write wr (p_lit p) p else Some p)"
| "pf_loop wr (c # fmt) p = bind (pf_char wr c p) (pf_loop wr fmt)"

definition vfprintf :: "'s writer \<Rightarrow> 's \<Rightarrow> string \<Rightarrow> va list \<Rightarrow> (nat \<times> 's) option" where
  "vfprintf wr f fmt ap =
    map_option (\<lambda>p. (p_cnt p, p_file p))
      (pf_loop wr fmt \<lparr>p_flags = None, p_w = 0, p_lit = [], p_cnt = 0, p_args = ap, p_file = f\<rparr>)"

section \<open>Output into a buffer\<close>

record str_buf =
  b_ptr :: nat
  b_end :: nat
  b_mem :: "nat \<Rightarrow> char"

definition put :: "nat \<Rightarrow> string \<Rightarrow> (nat \<Rightarrow> char) \<Rightarrow> nat \<Rightarrow> char" where
  "put d s m = (\<lambda>a. if d \<le> a \<and> a < d + length s then s ! (a - d) else m a)"

text \<open>The loop \<open>while (dst != end)\<close> runs through the whole address space when \<open>dst\<close> is already behind \<open>end\<close>.\<close>

definition sprintf_write :: "str_buf writer" where
  "sprintf_write s b =
    (let len = length s;
         e = min (b_end b) (b_ptr b + len)
     in if b_ptr b \<le> e
        then Some (len, b\<lparr>b_mem := put (b_ptr b) (take (e - b_ptr b) s) (b_mem b), b_ptr := b_ptr b + len\<rparr>)
        else None)"

definition vsnprintf :: "nat \<Rightarrow> nat \<Rightarrow> string \<Rightarrow> va list \<Rightarrow> (nat \<Rightarrow> char) \<Rightarrow> (int \<times> (nat \<Rightarrow> char)) option" where
  "vsnprintf str sz fmt ap m =
    (if str = 0 \<or> sz = 0 then Some (- 22, m)
     else map_option (\<lambda>(n, b). (int n, (b_mem b)(str + n := CHR 0x00)))
       (vfprintf sprintf_write \<lparr>b_ptr = str, b_end = str + sz - 1, b_mem = m\<rparr> fmt ap))"

section \<open>What a format stands for\<close>

datatype conv = CDec u32 | CUns u32 | CHex u32 | CStr string | CChr char

text \<open>Literal text, \<open>%%\<close>, or a conversion with its flags \<open>-\<close> and \<open>0\<close> and the digits of its width.\<close>

datatype item = Lit string | Pct | Conv bool bool string conv

fun conv_fmt :: "conv \<Rightarrow> char" where
  "conv_fmt (CDec v) = CHR ''d''"
| "conv_fmt (CUns v) = CHR ''u''"
| "conv_fmt (CHex v) = CHR ''x''"
| "conv_fmt (CStr s) = CHR ''s''"
| "conv_fmt (CChr c) = CHR ''c''"

fun conv_arg :: "conv \<Rightarrow> va" where
  "conv_arg (CDec v) = VInt v"
| "conv_arg (CUns v) = VInt v"
| "conv_arg (CHex v) = VInt v"
| "conv_arg (CStr s) = VStr s"
| "conv_arg (CChr c) = VInt (of_char c)"

text \<open>The sign and the characters of a value.\<close>

fun conv_body :: "conv \<Rightarrow> bool \<times> string" where
  "conv_body (CDec v) = (sint v < 0, snd (uint2dec (if sint v < 0 then - v else v)))"
| "conv_body (CUns v) = (False, snd (uint2dec v))"
| "conv_body (CHex v) = (False, snd (uint2hex v))"
| "conv_body (CStr s) = (False, s)"
| "conv_body (CChr c) = (False, [c])"

definition padded :: "bool \<Rightarrow> bool \<Rightarrow> nat \<Rightarrow> bool \<times> string \<Rightarrow> string" where
  "padded left zero w b = (case b of (neg, s) \<Rightarrow>
     let sign = (if neg then ''-'' else []);
         pad = w - length (sign @ s)
     in if left then sign @ s @ replicate pad CHR '' ''
        else if zero then sign @ replicate pad CHR ''0'' @ s
        else replicate pad CHR '' '' @ sign @ s)"

fun item_fmt :: "item \<Rightarrow> string" where
  "item_fmt (Lit s) = s"
| "item_fmt Pct = ''%%''"
| "item_fmt (Conv left zero wd c) =
    ''%'' @ (if left then ''-'' else []) @ (if zero then ''0'' else []) @ wd @ [conv_fmt c]"

fun item_args :: "item \<Rightarrow> va list" where
  "item_args (Conv left zero wd c) = [conv_arg c]"
| "item_args _ = []"

fun item_text :: "item \<Rightarrow> string" where
  "item_text (Lit s) = s"
| "item_text Pct = ''%''"
| "item_text (Conv left zero wd c) = padded left zero (numval 10 dec_rd 0 wd) (conv_body c)"

fun item_ok :: "item \<Rightarrow> bool" where
  "item_ok (Lit s) \<longleftrightarrow> CHR ''%'' \<notin> set s"
| "item_ok Pct \<longleftrightarrow> True"
| "item_ok (Conv left zero wd c) \<longleftrightarrow> dec_string wd \<and> (wd \<noteq> [] \<longrightarrow> hd wd \<noteq> CHR ''0'') \<and> numval 10 dec_rd 0 wd \<le> 32"

section \<open>Files that append\<close>

lemma char_of_byte: "char_of (unat (take_bit 8 (of_char c :: u32))) = c"
proof -
  have "(of_char c :: nat) < 2 ^ 32" by (rule less_trans [of _ 256]) simp_all
  then have "unat (of_nat (of_char c) :: u32) = of_char c"
    unfolding unat_of_nat by (intro mod_less) simp
  then have "unat (of_char c :: u32) = of_char c" unfolding of_nat_of_char .
  then show ?thesis by (simp add: unsigned_take_bit_eq char_of_take_bit_eq)
qed

locale string_file =
  fixes wr :: "'s writer" and app :: "string \<Rightarrow> 's \<Rightarrow> 's" and fits :: "string \<Rightarrow> 's \<Rightarrow> bool"
  assumes wr_app: "fits s f \<Longrightarrow> wr s f = Some (length s, app s f)"
    and app_Nil: "app [] f = f"
    and app_app: "app t (app s f) = app (s @ t) f"
    and fits_app: "fits (s @ t) f \<Longrightarrow> fits s f \<and> fits t (app s f)"
begin

definition adv :: "string \<Rightarrow> 's pf \<Rightarrow> 's pf" where
  "adv s p = p\<lparr>p_cnt := p_cnt p + length s, p_file := app s (p_file p)\<rparr>"

lemma adv_simps [simp]:
  "p_flags (adv s p) = p_flags p" "p_w (adv s p) = p_w p" "p_lit (adv s p) = p_lit p" "p_args (adv s p) = p_args p"
  "p_cnt (adv s p) = p_cnt p + length s" "p_file (adv s p) = app s (p_file p)"
  by (simp_all add: adv_def)

lemma adv_adv [simp]: "adv t (adv s p) = adv (s @ t) p"
  by (simp add: adv_def app_app)

lemma adv_Nil [simp]: "adv [] p = p"
  by (simp add: adv_def app_Nil)

lemma write_adv: "fits s (p_file p) \<Longrightarrow> pf_write wr s p = Some (adv s p)"
  by (simp add: pf_write_def wr_app adv_def)

lemma write_more: "fits (t @ s) (p_file p) \<Longrightarrow> pf_write wr s (adv t p) = Some (adv (t @ s) p)"
  using fits_app [of t s "p_file p"] by (simp add: write_adv)

lemma fits_prefix: "fits (s @ t) f \<Longrightarrow> fits s f"
  using fits_app by blast

lemma signed_padded:
  assumes f: "fits (padded (f_left fl) (f_zero fl) w (neg, s)) (p_file p)" and w: "w \<le> 32" and sg: "\<not> f_sign fl"
    and p: "p_w p = int w"
  shows "pf_signed wr fl neg s p =
    Some ((adv (padded (f_left fl) (f_zero fl) w (neg, s)) p)\<lparr>p_flags := None, p_w := 0, p_lit := []\<rparr>)"
proof -
  define sign where "sign = (if neg then ''-'' else [])"
  define k where "k = w - length (sign @ s)"
  define fl' where "fl' = (if neg then fl\<lparr>f_sign := True\<rparr> else fl)"
  define w' where "w' = (if neg then int w - 1 else int w)"
  have e: "pf_signed wr fl neg s p = print_buf wr fl' w' s p" by (simp add: pf_signed_def fl'_def w'_def p)
  have pad: "w' > int (length s) \<longleftrightarrow> 0 < k" "0 < k \<Longrightarrow> w' - int (length s) = int k" "k \<le> 32"
    using w by (auto simp: w'_def k_def sign_def)
  have fl': "f_left fl' = f_left fl" "f_zero fl' = f_zero fl" "f_sign fl' = neg" using sg by (simp_all add: fl'_def)
  have sw: "(if neg then pf_write wr ''-'' (adv t p) else Some (adv t p)) = Some (adv (t @ sign) p)"
    if "fits (t @ sign) (p_file p)" for t
    using that write_more [of t "''-''" p] by (auto simp: sign_def)
  have sw0: "(if neg then pf_write wr ''-'' p else Some p) = Some (adv sign p)" if "fits sign (p_file p)"
    using that by (auto simp: sign_def write_adv)
  have pr: "padded (f_left fl) (f_zero fl) w (neg, s) =
      (if f_left fl then sign @ s @ replicate k CHR '' '' else if f_zero fl then sign @ replicate k CHR ''0'' @ s
       else replicate k CHR '' '' @ sign @ s)"
    by (simp add: padded_def sign_def k_def Let_def)
  note f' = f [unfolded pr]
  show ?thesis
  proof (cases "f_left fl")
    case True
    have 1: "fits sign (p_file p)" "fits (sign @ s) (p_file p)" "fits ((sign @ s) @ replicate k CHR '' '') (p_file p)"
      using f' True fits_prefix [of "sign @ s"] fits_prefix [of sign s] by simp_all
    show ?thesis
      unfolding e pr print_buf_def
      using True write_more [OF 1(2)] write_more [OF 1(3)] pad
      by (cases "k = 0") (simp_all add: fl' blanks_def Let_def sw0 [OF 1(1)] split del: if_split)
  next
    case False
    show ?thesis
    proof (cases "f_zero fl")
      case zero: True
      have 1: "fits sign (p_file p)" "fits (sign @ replicate k CHR ''0'') (p_file p)"
        "fits ((sign @ replicate k CHR ''0'') @ s) (p_file p)"
        using f' False zero fits_prefix [of "sign @ replicate k CHR ''0''" s] fits_prefix [of sign] by simp_all
      show ?thesis
        unfolding e pr print_buf_def
        using False zero write_more [OF 1(2)] write_more [OF 1(3)] pad
        by (cases "k = 0") (simp_all add: fl' zeros_def Let_def sw0 [OF 1(1)] split del: if_split)
    next
      case blank: False
      have 1: "fits (replicate k CHR '' '') (p_file p)" "fits (replicate k CHR '' '' @ sign) (p_file p)"
        "fits ((replicate k CHR '' '' @ sign) @ s) (p_file p)"
        using f' False blank fits_prefix [of "replicate k CHR '' '' @ sign" s] fits_prefix [of "replicate k CHR '' ''"] by simp_all
      show ?thesis
        unfolding e pr print_buf_def
        using False blank write_more [OF 1(3)] write_adv [OF 1(1)] pad 1(2)
        by (cases "k = 0") (simp_all add: fl' blanks_def Let_def sw0 sw [OF 1(2)] split del: if_split)
    qed
  qed
qed

lemma loop_lit:
  "p_flags p = None \<Longrightarrow> CHR ''%'' \<notin> set s \<Longrightarrow> pf_loop wr (s @ rest) p = pf_loop wr rest (p\<lparr>p_lit := p_lit p @ s\<rparr>)"
  by (induction s arbitrary: p) (auto simp: pf_char_def)

lemma percent_flush:
  assumes "p_flags p = None" and "fits (p_lit p) (p_file p)"
  shows "pf_char wr CHR ''%'' p = Some ((adv (p_lit p) p)\<lparr>p_lit := [], p_w := 0, p_flags := Some PERCENT\<rparr>)"
  using assms by (cases "p_lit p = []") (simp_all add: pf_char_def write_adv)

lemma loop_width:
  assumes "dec_string wd" and "p_flags p = Some fl" and "f_width fl \<or> (wd \<noteq> [] \<longrightarrow> hd wd \<noteq> CHR ''0'')" and "p_w p = int a"
  shows "pf_loop wr (wd @ rest) p = pf_loop wr rest
    (p\<lparr>p_flags := Some (if wd = [] then fl else fl\<lparr>f_width := True\<rparr>), p_w := int (numval 10 dec_rd a wd)\<rparr>)"
  using assms
proof (induction wd arbitrary: p fl a)
  case Nil
  then have "p\<lparr>p_flags := Some fl, p_w := int a\<rparr> = p" by simp
  then show ?case by simp
next
  case (Cons c wd)
  then have c: "is_dec c" by auto
  have "pf_char wr c p = Some (p\<lparr>p_flags := Some (fl\<lparr>f_width := True\<rparr>), p_w := int (a * 10 + dec_rd c)\<rparr>)"
    using Cons.prems c by (auto simp: pf_char_def)
  then show ?case
    using Cons.prems Cons.IH [of "p\<lparr>p_flags := Some (fl\<lparr>f_width := True\<rparr>), p_w := int (a * 10 + dec_rd c)\<rparr>"
        "fl\<lparr>f_width := True\<rparr>" "a * 10 + dec_rd c"]
    by simp
qed

lemma char_conv:
  assumes "p_flags p = Some fl" and "\<not> f_long2 fl" and "p_args p = conv_arg c # as"
  shows "pf_char wr (conv_fmt c) p = pf_signed wr fl (fst (conv_body c)) (snd (conv_body c)) (p\<lparr>p_args := as\<rparr>)"
  using assms by (cases c) (simp_all add: pf_char_def pf_signed_def is_dec_def char_of_byte)

lemma loop_conv:
  assumes ok: "item_ok (Conv left zero wd c)" and p: "p_flags p = None" "p_args p = conv_arg c # as"
    and f: "fits (p_lit p @ item_text (Conv left zero wd c)) (p_file p)"
  shows "pf_loop wr (item_fmt (Conv left zero wd c) @ rest) p = pf_loop wr rest
    ((adv (p_lit p @ item_text (Conv left zero wd c)) p)\<lparr>p_flags := None, p_w := 0, p_lit := [], p_args := as\<rparr>)"
proof -
  define w where "w = numval 10 dec_rd 0 wd"
  define fl where "fl = PERCENT\<lparr>f_left := left, f_zero := zero, f_width := zero\<rparr>"
  define fl' where "fl' = (if wd = [] then fl else fl\<lparr>f_width := True\<rparr>)"
  define q where "q = (adv (p_lit p) p)\<lparr>p_lit := [], p_w := 0\<rparr>"
  have fl': "f_left fl' = left" "f_zero fl' = zero" "\<not> f_sign fl'" "w \<le> 32"
    using ok by (simp_all add: fl'_def fl_def PERCENT_def w_def)
  have fq: "fits (padded left zero w (conv_body c)) (p_file q)"
    using fits_app [OF f] by (simp add: q_def w_def)
  have head: "pf_loop wr (item_fmt (Conv left zero wd c) @ rest) p =
      pf_loop wr (wd @ conv_fmt c # rest) (q\<lparr>p_flags := Some fl\<rparr>)"
    using percent_flush [OF p(1) fits_prefix [OF f]]
    by (cases left; cases zero) (simp_all add: pf_char_def is_dec_def q_def fl_def PERCENT_def)
  have width: "pf_loop wr (wd @ conv_fmt c # rest) (q\<lparr>p_flags := Some fl\<rparr>) =
      pf_loop wr (conv_fmt c # rest) (q\<lparr>p_flags := Some fl', p_w := int w\<rparr>)"
    using ok loop_width [of wd "q\<lparr>p_flags := Some fl\<rparr>" fl 0] by (simp add: fl_def fl'_def w_def q_def)
  have "pf_char wr (conv_fmt c) (q\<lparr>p_flags := Some fl', p_w := int w\<rparr>) =
      pf_signed wr fl' (fst (conv_body c)) (snd (conv_body c)) (q\<lparr>p_flags := Some fl', p_w := int w, p_args := as\<rparr>)"
    using p by (subst char_conv [of _ fl' _ as]) (simp_all add: q_def fl'_def fl_def PERCENT_def)
  also have "\<dots> = Some ((adv (padded left zero w (conv_body c))
      (q\<lparr>p_flags := Some fl', p_w := int w, p_args := as\<rparr>))\<lparr>p_flags := None, p_w := 0, p_lit := []\<rparr>)"
    using signed_padded [of fl' w "fst (conv_body c)" "snd (conv_body c)" "q\<lparr>p_flags := Some fl', p_w := int w, p_args := as\<rparr>"]
      fq fl' by simp
  finally show ?thesis
    unfolding head width by (cases p) (simp add: q_def adv_def app_app w_def add.assoc)
qed

lemma loop_pct:
  assumes p: "p_flags p = None" and f: "fits (p_lit p @ ''%'') (p_file p)"
  shows "pf_loop wr (''%%'' @ rest) p = pf_loop wr rest
    ((adv (p_lit p @ ''%'') p)\<lparr>p_flags := None, p_w := 0, p_lit := []\<rparr>)"
proof -
  define q where "q = (adv (p_lit p) p)\<lparr>p_lit := [], p_w := 0, p_flags := Some PERCENT\<rparr>"
  have q: "p_flags q = Some PERCENT" by (simp add: q_def)
  have 1: "pf_char wr CHR ''%'' p = Some q"
    using percent_flush [OF p fits_prefix [OF f]] by (simp add: q_def)
  have "pf_write wr ''%'' q = Some (adv ''%'' q)"
    using fits_app [OF f] by (simp add: write_adv q_def)
  then have 2: "pf_char wr CHR ''%'' q = Some ((adv ''%'' q)\<lparr>p_flags := None, p_w := 0, p_lit := []\<rparr>)"
    using q by (simp add: pf_char_def is_dec_def print_buf_def PERCENT_def)
  show ?thesis by (simp add: 1 2) (simp add: q_def adv_def app_app)
qed

lemma loop_items:
  assumes "list_all item_ok items" and "p_flags p = None" and "p_args p = concat (map item_args items) @ as"
    and "fits (p_lit p @ concat (map item_text items)) (p_file p)"
  shows "map_option (\<lambda>p. (p_cnt p, p_file p)) (pf_loop wr (concat (map item_fmt items)) p) =
    Some (p_cnt p + length (p_lit p @ concat (map item_text items)), app (p_lit p @ concat (map item_text items)) (p_file p))"
  using assms
proof (induction items arbitrary: p)
  case Nil
  then show ?case by (simp add: write_adv app_Nil)
next
  case (Cons i items)
  have f: "fits ((p_lit p @ item_text i) @ concat (map item_text items)) (p_file p)" using Cons.prems by simp
  define q where "q = (adv (p_lit p @ item_text i) p)\<lparr>p_flags := None, p_w := 0, p_lit := [],
    p_args := concat (map item_args items) @ as\<rparr>"
  have IH: "map_option (\<lambda>p. (p_cnt p, p_file p)) (pf_loop wr (concat (map item_fmt items)) q) =
      Some (p_cnt p + length (p_lit p @ concat (map item_text (i # items))),
        app (p_lit p @ concat (map item_text (i # items))) (p_file p))"
    using Cons.prems fits_app [OF f] Cons.IH [of q] by (simp add: q_def app_app add.assoc)
  show ?case
  proof (cases i)
    case (Lit s)
    then show ?thesis
      using Cons.prems Cons.IH [of "p\<lparr>p_lit := p_lit p @ s\<rparr>"] by (simp add: loop_lit)
  next
    case Pct
    then have "pf_loop wr (concat (map item_fmt (i # items))) p = pf_loop wr (concat (map item_fmt items)) q"
      using Cons.prems loop_pct [of p "concat (map item_fmt items)"] fits_prefix [OF f]
      by (simp add: q_def adv_def) (cases p, simp)
    then show ?thesis using IH by simp
  next
    case (Conv left zero wd c)
    have "pf_loop wr (concat (map item_fmt (i # items))) p = pf_loop wr (concat (map item_fmt items)) q"
      using Cons.prems Conv fits_prefix [OF f]
        loop_conv [of left zero wd c p "concat (map item_args items) @ as" "concat (map item_fmt items)"]
      by (simp add: q_def del: item_fmt.simps item_text.simps item_ok.simps)
    then show ?thesis using IH by simp
  qed
qed

lemma vfprintf_items:
  assumes "list_all item_ok items" and "fits (concat (map item_text items)) f"
  shows "vfprintf wr f (concat (map item_fmt items)) (concat (map item_args items)) =
    Some (length (concat (map item_text items)), app (concat (map item_text items)) f)"
  unfolding vfprintf_def
  using assms(2) by (subst loop_items [OF assms(1), where as = "[]"]) simp_all

end

section \<open>The file of \<open>vsnprintf\<close>\<close>

lemma put_Nil: "put d [] m = m"
  unfolding put_def by (rule ext) (metis add.right_neutral leD list.size(3))

lemma put_put: "put (d + length s) t (put d s m) = put d (s @ t) m"
  by (rule ext) (auto simp: put_def nth_append)

interpretation str: string_file sprintf_write
  "\<lambda>s b. b\<lparr>b_mem := put (b_ptr b) s (b_mem b), b_ptr := b_ptr b + length s\<rparr>" "\<lambda>s b. b_ptr b + length s \<le> b_end b"
  by unfold_locales (simp_all add: sprintf_write_def put_Nil put_put min_def Let_def add.assoc)

lemma put_single: "(put d s m)(d + length s := c) = put d (s @ [c]) m"
  by (rule ext) (auto simp: put_def nth_append)

lemma vsnprintf_items:
  assumes "list_all item_ok items" and "str \<noteq> 0" and "length (concat (map item_text items)) < sz"
  shows "vsnprintf str sz (concat (map item_fmt items)) (concat (map item_args items)) m =
    Some (int (length (concat (map item_text items))), put str (concat (map item_text items) @ [CHR 0x00]) m)"
  using assms(2,3)
    str.vfprintf_items [OF assms(1), of "\<lparr>b_ptr = str, b_end = str + sz - 1, b_mem = m\<rparr>"]
  by (simp add: vsnprintf_def put_single)

text \<open>C30: A format of literal text, \<open>%%\<close> and the conversions \<open>%d %u %x %s %c\<close> with their \<open>-\<close> and \<open>0\<close> flags and a width of
  at most 32: \<open>vsnprintf\<close> returns the length of the text the items stand for and writes exactly that text and a
  NUL into the buffer, and no other byte, when the buffer is large enough.\<close>

theorem vsnprintf_text:
  assumes "list_all item_ok items" and "str \<noteq> 0" and "length (concat (map item_text items)) < sz"
  shows "vsnprintf str sz (concat (map item_fmt items)) (concat (map item_args items)) m =
    Some (int (length (concat (map item_text items))), put str (concat (map item_text items) @ [CHR 0x00]) m)"
  using assms by (rule vsnprintf_items)

theorem vsnprintf_text_witness:
  "vsnprintf 100 20 ''n=%05d %-3s|'' [VInt (- 42), VStr ''ab''] (\<lambda>_. CHR ''?'') =
    Some (12, put 100 (''n=-0042 ab |'' @ [CHR 0x00]) (\<lambda>_. CHR ''?''))"
proof -
  define items where "items = [Lit ''n='', Conv False True ''5'' (CDec (- 42)), Lit '' '', Conv True False ''3'' (CStr ''ab''), Lit ''|'']"
  have 1: "list_all item_ok items" unfolding items_def by code_simp
  have 2: "concat (map item_text items) = ''n=-0042 ab |''" unfolding items_def by code_simp
  have 3: "concat (map item_fmt items) = ''n=%05d %-3s|''" "concat (map item_args items) = [VInt (- 42), VStr ''ab'']"
    unfolding items_def by code_simp+
  show ?thesis
    using vsnprintf_text [OF 1, of 100 20 "\<lambda>_. CHR ''?''"] unfolding 2 3 by simp
qed

text \<open>C33: A string that does not fit: the copy is cut at the end of the buffer, but the terminating NUL is written at
  \<open>str + n\<close> with \<open>n\<close> the length of the whole text, outside the buffer, which itself gets no NUL; and any further
  conversion starts behind the end of the buffer, where \<open>sprintf_write\<close> does not stop.\<close>

theorem vsnprintf_overflow:
  assumes "str \<noteq> 0" and "0 < sz" and "sz \<le> length s"
  shows "vsnprintf str sz ''%s'' [VStr s] m =
      Some (int (length s), (put str (take (sz - 1) s) m)(str + length s := CHR 0x00)) \<and>
    vsnprintf str sz ''%s%s'' [VStr s, VStr t] m = None"
proof -
  have c: "pf_char sprintf_write CHR ''%'' p = Some (p\<lparr>p_flags := Some PERCENT\<rparr>)"
    if "p_flags p = None" "p_w p = 0" "p_lit p = []" for p
    using that by (simp add: pf_char_def)
  have w: "pf_char sprintf_write CHR ''s'' \<lparr>p_flags = Some PERCENT, p_w = 0, p_lit = [], p_cnt = n, p_args = VStr u # as, p_file = b\<rparr> =
      (if b_ptr b \<le> b_end b then Some \<lparr>p_flags = None, p_w = 0, p_lit = [], p_cnt = n + length u, p_args = as,
         p_file = b\<lparr>b_mem := put (b_ptr b) (take (b_end b - b_ptr b) u) (b_mem b), b_ptr := b_ptr b + length u\<rparr>\<rparr> else None)" for n u as b
    by (auto simp: pf_char_def is_dec_def print_buf_def pf_write_def sprintf_write_def PERCENT_def Let_def min_def)
  show ?thesis using assms by (simp add: vsnprintf_def vfprintf_def c w) linarith
qed

theorem vsnprintf_overflow_witness:
  "vsnprintf 100 3 ''%s'' [VStr ''abcdef''] (\<lambda>_. CHR ''?'') =
      Some (6, (put 100 ''ab'' (\<lambda>_. CHR ''?''))(106 := CHR 0x00)) \<and>
    vsnprintf 100 3 ''%s%s'' [VStr ''abcdef'', VStr ''x''] (\<lambda>_. CHR ''?'') = None"
  using vsnprintf_overflow [of 100 3 "''abcdef''" "\<lambda>_. CHR ''?''" "''x''"] by simp

end
