(* ===== verification/Libc_Inet.thy ===== *)
theory Libc_Inet
  imports Libc_Printf
begin

text \<open>
  Internet addresses as text (\<^verbatim>\<open>src/src/sdk/libc/inet\<close>, with \<open>isspace\<close> from \<^verbatim>\<open>libc/ctype.c\<close>). An address is the list of
  its four bytes in memory order. \<open>inet_aton\<close> reads its numbers by \<open>strtoul\<close> (Libc_Conv), \<open>inet_ntop\<close> prints through
  \<open>snprintf\<close> (Libc_Printf); the theorem composes the two.
\<close>

section \<open>Definitions\<close>

text \<open>The characters of \<open>ctype_lut\<close> with \<open>_S\<close>: TAB, LF, VT, FF, CR and the blank.\<close>

definition isspace :: "char \<Rightarrow> bool" where
  "isspace c \<longleftrightarrow> c \<in> {CHR 0x09, CHR 0x0A, CHR 0x0B, CHR 0x0C, CHR 0x0D, CHR '' ''}"

text \<open>A number that a dot has to follow; the comparison with 255 is on \<open>int\<close>.\<close>

definition aton_part :: "string \<Rightarrow> (u32 \<times> string) option" where
  "aton_part s = (case strtoul s 0 of (a, cp) \<Rightarrow>
     (case cp of c # cp' \<Rightarrow> if c \<noteq> CHR ''.'' \<or> sint a > 255 then None else Some (a, cp') | [] \<Rightarrow> None))"

definition inet_aton :: "string \<Rightarrow> u8 list option" where
  "inet_aton name =
    (let cp = dropWhile isspace name
     in if peek cp = byte CHR ''*'' then Some [0, 0, 0, 0]
        else bind (aton_part cp) (\<lambda>(a1, cp).
          bind (aton_part cp) (\<lambda>(a2, cp).
          bind (aton_part cp) (\<lambda>(a3, cp).
          (case strtoul cp 0 of (a4, cp) \<Rightarrow>
             if dropWhile isspace cp \<noteq> [] \<or> sint a4 > 255 then None
             else Some [ucast a1, ucast a2, ucast a3, ucast a4])))))"

text \<open>\<open>INADDR_NONE\<close> is all ones.\<close>

definition inet_addr :: "string \<Rightarrow> u8 list" where
  "inet_addr cp = (case inet_aton cp of None \<Rightarrow> [0xff, 0xff, 0xff, 0xff] | Some s_addr \<Rightarrow> s_addr)"

definition AF_INET :: int where "AF_INET = 2"

text \<open>The result is the buffer or \<open>NULL\<close>, with the memory; \<open>char\<close> is unsigned on ARM.\<close>

definition inet_ntop :: "int \<Rightarrow> u8 list \<Rightarrow> nat \<Rightarrow> nat \<Rightarrow> (nat \<Rightarrow> char) \<Rightarrow> (nat \<times> (nat \<Rightarrow> char)) option" where
  "inet_ntop af ip buf len m =
    (if af \<noteq> AF_INET then Some (0, m)
     else map_option (\<lambda>(n, m). (buf, m))
       (vsnprintf buf len ''%d.%d.%d.%d''
          [VInt (ucast (ip ! 0)), VInt (ucast (ip ! 1)), VInt (ucast (ip ! 2)), VInt (ucast (ip ! 3))] m))"

section \<open>The text of an address\<close>

definition dec8 :: "u8 \<Rightarrow> string" where
  "dec8 b = snd (uint2dec (ucast b))"

definition dotted :: "u8 list \<Rightarrow> string" where
  "dotted ip = dec8 (ip ! 0) @ ''.'' @ dec8 (ip ! 1) @ ''.'' @ dec8 (ip ! 2) @ ''.'' @ dec8 (ip ! 3)"

lemma numval_lower: "a * 10 ^ length s \<le> numval 10 f a s"
proof (induction s arbitrary: a)
  case (Cons c s)
  have "a * 10 ^ length (c # s) \<le> (a * 10 + f c) * 10 ^ length s" by (simp add: algebra_simps)
  also have "\<dots> \<le> numval 10 f (a * 10 + f c) s" by (rule Cons.IH)
  finally show ?case by simp
qed simp

lemma unat_ucast8: "unat (ucast (b :: u8) :: u32) = unat b"
  by (simp add: unsigned_ucast_eq take_bit_nat_eq_self_iff less_trans [OF unsigned_less [of b]])

lemma sint_ucast8: "0 \<le> sint (ucast (b :: u8) :: u32)" "sint (ucast b :: u32) \<le> 255" "unat b < 256"
proof -
  show b: "unat b < 256" using unsigned_less [of b] by simp
  have "ucast b = (of_nat (unat b) :: u32)" by (simp add: unat_ucast8 word_unat_eq_iff unsigned_of_nat take_bit_nat_eq_self_iff less_trans [OF b])
  then show "0 \<le> sint (ucast b :: u32)" "sint (ucast b :: u32) \<le> 255"
    using b by (simp_all add: signed_of_nat signed_take_bit_int_eq_self del: of_nat_unat)
qed

lemma dec8_uint2dec: "uint2dec (ucast b) = (length (dec8 b), dec8 b)"
  using uint2dec_string(1) [of "ucast b" "fst (uint2dec (ucast b))" "snd (uint2dec (ucast b))"]
  by (simp add: dec8_def) (metis prod.collapse)

lemma dec8_string: "dec_string (dec8 b)" "dec8 b \<noteq> []" "length (dec8 b) \<le> 3"
proof -
  note u = uint2dec_string [OF dec8_uint2dec [of b]]
  show "dec_string (dec8 b)" "dec8 b \<noteq> []" using u by auto
  show "length (dec8 b) \<le> 3"
  proof (rule ccontr)
    assume "\<not> length (dec8 b) \<le> 3"
    then obtain c t where ct: "dec8 b = c # t" "3 \<le> length t" by (cases "dec8 b") auto
    then have "c \<noteq> CHR ''0''" using u(6) by auto
    then have "1 \<le> dec_rd c" using u(4) ct by (auto simp: dec_rd_def dest!: less_10 simp: dec_chrs)
    then have "1 * 10 ^ length t \<le> dec_rd c * 10 ^ length t" by (intro mult_right_mono) simp_all
    also have "\<dots> \<le> unat b" using numval_lower [of "dec_rd c" t dec_rd] u(5) ct by (simp add: unat_ucast8)
    finally have "(10 :: nat) ^ length t < 256" using sint_ucast8(3) [of b] by simp
    moreover have "(10 :: nat) ^ 3 \<le> 10 ^ length t" using ct by (intro power_increasing) simp_all
    ultimately show False by simp
  qed
qed

lemma dec8_noteq:
  assumes "c \<in> set (dec8 b)"
  shows "c \<noteq> CHR ''.''" "c \<noteq> CHR 0x00" "\<not> isspace c" "byte c \<noteq> byte CHR ''*''"
proof -
  obtain d where "d < 10" "c = dec_chr d" using assms dec8_string(1) [of b] by (auto simp: dec_string_def)
  then show "c \<noteq> CHR ''.''" "c \<noteq> CHR 0x00" "\<not> isspace c" "byte c \<noteq> byte CHR ''*''"
    by (auto simp: isspace_def dest!: less_10 simp: dec_chrs)
qed

lemma length_dotted: "length (dotted ip) \<le> 15"
  using dec8_string(3) [of "ip ! 0"] dec8_string(3) [of "ip ! 1"] dec8_string(3) [of "ip ! 2"] dec8_string(3) [of "ip ! 3"]
  by (simp add: dotted_def)

lemma dotted_no_nul: "CHR 0x00 \<notin> set (dotted ip)"
  using dec8_noteq(2) by (auto simp: dotted_def)

lemma strtoul_part:
  assumes "uint2dec v = (n, s)"
  shows "strtoul (s @ CHR ''.'' # rest) 0 = (v, CHR ''.'' # rest)" and "strtoul s 0 = (v, [])"
  using strtoul_uint2dec(2) [OF assms, of "CHR ''.'' # rest"] strtoul_uint2dec(2) [OF assms, of "[]"]
  by (simp_all add: not_dec_def is_dec_def not_x_def peek_def)

lemma aton_part_dec: "uint2dec v = (n, s) \<Longrightarrow> sint v \<le> 255 \<Longrightarrow> aton_part (s @ CHR ''.'' # rest) = Some (v, rest)"
  by (simp add: aton_part_def strtoul_part)

lemma aton_part_dec8: "aton_part (dec8 b @ CHR ''.'' # rest) = Some (ucast b, rest)"
  by (rule aton_part_dec [OF dec8_uint2dec sint_ucast8(2)])

lemma aton_start:
  assumes "dec_string s" and "s \<noteq> []"
  shows "dropWhile isspace (s @ rest) = s @ rest" "peek (s @ rest) \<noteq> 42"
  using assms by (cases s; auto simp: isspace_def peek_def dest!: less_10 simp: dec_chrs)+

lemma ucast_ucast8: "ucast (ucast b :: u32) = (b :: u8)"
  by (rule bit_word_eqI) (simp add: bit_simps)

lemma inet_aton_parts:
  assumes "uint2dec a = (n, s)" and "sint a \<le> 255"
  shows "inet_aton (s @ CHR ''.'' # dec8 b @ CHR ''.'' # dec8 c @ CHR ''.'' # dec8 d) = Some [ucast a, b, c, d]"
  using aton_start [OF uint2dec_string(4) [OF assms(1)]] uint2dec_string(1,2) [OF assms(1)] aton_part_dec [OF assms]
    strtoul_part(2) [OF dec8_uint2dec [of d]] sint_ucast8(2) [of d]
  by (simp add: inet_aton_def aton_part_dec8 ucast_ucast8 Let_def)

lemma inet_ntop_text:
  assumes "buf \<noteq> 0" and "length (dotted ip) < len"
  shows "inet_ntop AF_INET ip buf len m = Some (buf, put buf (dotted ip @ [CHR 0x00]) m)"
proof -
  define cs where "cs = [Conv False False [] (CDec (ucast (ip ! 0))), Lit ''.'', Conv False False [] (CDec (ucast (ip ! 1))),
    Lit ''.'', Conv False False [] (CDec (ucast (ip ! 2))), Lit ''.'', Conv False False [] (CDec (ucast (ip ! 3)))]"
  have ok: "list_all item_ok cs" by (simp add: cs_def dec_string_def)
  have t: "concat (map item_text cs) = dotted ip"
    by (simp add: cs_def padded_def not_less [THEN iffD2, OF sint_ucast8(1)] dotted_def dec8_def)
  have f: "concat (map item_fmt cs) = ''%d.%d.%d.%d''" "concat (map item_args cs) =
      [VInt (ucast (ip ! 0)), VInt (ucast (ip ! 1)), VInt (ucast (ip ! 2)), VInt (ucast (ip ! 3))]"
    by (simp_all add: cs_def)
  show ?thesis using vsnprintf_items [OF ok assms(1), of len m] assms(2) unfolding t f by (simp add: inet_ntop_def)
qed

section \<open>Properties\<close>

text \<open>C31: The text that \<open>inet_ntop\<close> writes into a buffer of 16 bytes or more is a NUL-terminated string of at most 15
  characters, nothing else in memory changes, and \<open>inet_aton\<close> reads the address back from it.\<close>

theorem inet_roundtrip:
  assumes "length ip = 4" and "buf \<noteq> 0" and "16 \<le> len"
  shows "\<exists>s. inet_ntop AF_INET ip buf len m = Some (buf, put buf (s @ [CHR 0x00]) m) \<and>
    CHR 0x00 \<notin> set s \<and> length s \<le> 15 \<and> inet_aton s = Some ip"
proof (intro exI conjI)
  show "inet_ntop AF_INET ip buf len m = Some (buf, put buf (dotted ip @ [CHR 0x00]) m)"
    using assms length_dotted [of ip] by (intro inet_ntop_text) simp_all
  obtain a b c d where ip: "ip = [a, b, c, d]"
    using assms(1) by (auto simp: length_Suc_conv numeral_eq_Suc)
  show "inet_aton (dotted ip) = Some ip"
    using inet_aton_parts [OF dec8_uint2dec, of a b c d] sint_ucast8(2) [of a] by (simp add: ip dotted_def ucast_ucast8)
qed (rule dotted_no_nul length_dotted)+

theorem inet_roundtrip_witness:
  "\<exists>s. inet_ntop AF_INET [192, 168, 0, 1] 512 16 (\<lambda>_. CHR ''?'') = Some (512, put 512 (s @ [CHR 0x00]) (\<lambda>_. CHR ''?'')) \<and>
    CHR 0x00 \<notin> set s \<and> length s \<le> 15 \<and> inet_aton s = Some [192, 168, 0, 1]"
  using inet_roundtrip [of "[192, 168, 0, 1]" 512 16 "\<lambda>_. CHR ''?''"] by simp

text \<open>The numbers of an address are compared with 255 as signed integers: a first number from \<open>2 ^ 31\<close> on, negative
  as an \<open>int\<close>, is accepted, and its low byte goes into the address.\<close>

theorem inet_aton_negative:
  assumes "uint2dec a = (n, s)" and "sint a < 0"
  shows "inet_aton (s @ ''.0.0.1'') = Some [ucast a, 0, 0, 1]"
proof -
  have "dec8 0 = ''0''" "dec8 1 = ''1''" by code_simp+
  then show ?thesis using inet_aton_parts [OF assms(1), of 0 0 1] assms(2) by simp
qed

theorem inet_aton_negative_witness:
  "inet_aton (''3232235521'' @ ''.0.0.1'') = Some [ucast (3232235521 :: u32), 0, 0, 1]"
proof (rule inet_aton_negative)
  show "uint2dec 3232235521 = (10, ''3232235521'')" by code_simp
qed simp

end
