(* ===== verification/Net_Mbuf.thy ===== *)
theory Net_Mbuf
  imports Prelude
begin

text \<open>
  The buffer memory of the network stack (\<^verbatim>\<open>src/src/sdk/libtcpip/mbuf\<close>): a pool of 64 blocks in a linked free list,
  lists of blocks (UDP datagrams) and byte queues over blocks (TCP streams).

  The blocks are a heap of \<open>next\<close> pointers and data bytes. A \<open>next\<close> or \<open>first\<close> field is \<open>None\<close> for \<open>NULL\<close> or the number
  of a block. A \<open>last\<close> field is never \<open>NULL\<close>: it names a block or, in an empty list, the \<open>first\<close> field of its own list,
  which the code reads as the \<open>next\<close> field of a block (\<open>Head\<close>). A loop that would follow \<open>NULL\<close> or make no progress
  gives \<open>None\<close>.

  The queues refine a sequence of bytes: the locale \<open>byte_fifos\<close> states what the TCP layer relies on, and its
  interpretation shows it for the pointer code, with the pool and all other blocks untouched.
\<close>

section \<open>The pool\<close>

datatype lastp = Head | Buf nat

record mbuf_sys =
  mb_max :: nat
  mb_used :: nat
  mb_mutex :: bool
  mb_first :: "nat option"
  mb_last :: lastp
  mb_next :: "nat \<Rightarrow> nat option"
  mb_data :: "nat \<Rightarrow> nat \<Rightarrow> u8"

abbreviation MBUF_DATA_SIZE :: nat where "MBUF_DATA_SIZE \<equiv> 124"
abbreviation MBUF_POOL_SIZE :: nat where "MBUF_POOL_SIZE \<equiv> 64"

text \<open>The loop of \<open>mbuf_init\<close>: block \<open>i - 1\<close>, or the head of the list for the first, gets block \<open>i\<close> as its successor.\<close>

fun mbuf_init_loop :: "nat \<Rightarrow> nat \<Rightarrow> mbuf_sys \<Rightarrow> mbuf_sys" where
  "mbuf_init_loop 0 i s = s\<lparr>mb_next := (mb_next s)(i - 1 := None), mb_last := Buf (i - 1)\<rparr>"
| "mbuf_init_loop (Suc n) i s =
    mbuf_init_loop n (i + 1)
      (if i = 0 then s\<lparr>mb_first := Some 0\<rparr> else s\<lparr>mb_next := (mb_next s)(i - 1 := Some i)\<rparr>)"

definition mbuf_init :: "mbuf_sys \<Rightarrow> mbuf_sys" where
  "mbuf_init s = mbuf_init_loop MBUF_POOL_SIZE 0 (s\<lparr>mb_used := 0, mb_max := MBUF_POOL_SIZE, mb_mutex := False\<rparr>)"

definition mb_lock :: "mbuf_sys \<Rightarrow> mbuf_sys" where
  "mb_lock s = s\<lparr>mb_mutex := True\<rparr>"

definition mb_unlock :: "mbuf_sys \<Rightarrow> mbuf_sys" where
  "mb_unlock s = s\<lparr>mb_mutex := False\<rparr>"

definition mbuf_release :: "nat \<Rightarrow> mbuf_sys \<Rightarrow> mbuf_sys" where
  "mbuf_release p s =
    (let s = (case mb_last s of Head \<Rightarrow> s\<lparr>mb_first := Some p\<rparr> | Buf q \<Rightarrow> s\<lparr>mb_next := (mb_next s)(q := Some p)\<rparr>);
         s = s\<lparr>mb_last := Buf p\<rparr>;
         s = s\<lparr>mb_next := (mb_next s)(p := None)\<rparr>
     in s\<lparr>mb_used := (mb_used s + 255) mod 256\<rparr>)"

text \<open>Unlink the first free block \<open>m\<close>.\<close>

definition mbuf_take :: "nat \<Rightarrow> mbuf_sys \<Rightarrow> mbuf_sys" where
  "mbuf_take m s =
    (let s = s\<lparr>mb_first := mb_next s m\<rparr>;
         s = (if mb_first s = None then s\<lparr>mb_last := Head\<rparr> else s)
     in s\<lparr>mb_used := (mb_used s + 1) mod 256\<rparr>)"

definition mbuf_try_alloc :: "mbuf_sys \<Rightarrow> nat option \<times> mbuf_sys" where
  "mbuf_try_alloc s =
    (let s = mb_lock s
     in case mb_first s of
          Some m \<Rightarrow> (Some m, mb_unlock (mbuf_take m s))
        | None \<Rightarrow> (None, mb_unlock s))"

text \<open>\<open>None\<close> when the caller has to wait on the condition variable.\<close>

definition mbuf_alloc :: "mbuf_sys \<Rightarrow> (nat \<times> mbuf_sys) option" where
  "mbuf_alloc s =
    (let s = mb_lock s
     in case mb_first s of Some m \<Rightarrow> Some (m, mb_unlock (mbuf_take m s)) | None \<Rightarrow> None)"

definition mbuf_free :: "nat \<Rightarrow> mbuf_sys \<Rightarrow> mbuf_sys" where
  "mbuf_free p s = mb_unlock (mbuf_release p (mb_lock s))"

definition mbuf_avail :: "mbuf_sys \<Rightarrow> nat" where
  "mbuf_avail s = mb_max s - mb_used s"

definition mbuf_memavail :: "mbuf_sys \<Rightarrow> nat" where
  "mbuf_memavail s = (mb_max s - mb_used s) * MBUF_DATA_SIZE"

partial_function (option) count_free :: "(nat \<Rightarrow> nat option) \<Rightarrow> nat option \<Rightarrow> nat \<Rightarrow> nat option" where
  "count_free nx m n = (case m of None \<Rightarrow> Some n | Some i \<Rightarrow> count_free nx (nx i) (n + 1))"

definition mbuf_alloc_check :: "mbuf_sys \<Rightarrow> (int \<times> mbuf_sys) option" where
  "mbuf_alloc_check s =
    (let s = mb_lock s
     in map_option (\<lambda>n. (if n + mb_used s \<noteq> mb_max s then - 1 else 0, mb_unlock s))
          (count_free (mb_next s) (mb_first s) 0))"

section \<open>Lists of blocks\<close>

text \<open>The loop of \<open>mbuf_list_alloc\<close>: \<open>p\<close> runs ahead of \<open>q\<close>.\<close>

fun list_walk :: "nat \<Rightarrow> (nat \<Rightarrow> nat option) \<Rightarrow> nat option \<Rightarrow> nat option \<Rightarrow> (nat option \<times> nat option) option" where
  "list_walk 0 nx p q = Some (p, q)"
| "list_walk (Suc n) nx p q = (case p of None \<Rightarrow> None | Some i \<Rightarrow> list_walk n nx (nx i) p)"

text \<open>The early return leaves the mutex locked; with \<open>n = 0\<close> the block behind \<open>q\<close> is the first free block.\<close>

definition mbuf_list_alloc :: "nat \<Rightarrow> mbuf_sys \<Rightarrow> (nat option \<times> mbuf_sys) option" where
  "mbuf_list_alloc len s =
    (let n = (len + (MBUF_DATA_SIZE - 1)) div MBUF_DATA_SIZE;
         s = mb_lock s
     in if n > mb_max s - mb_used s then Some (None, s)
        else let m = mb_first s
             in case list_walk n (mb_next s) m m of
                  Some (p, Some q) \<Rightarrow>
                    (let s = s\<lparr>mb_next := (mb_next s)(q := None)\<rparr>;
                         s = s\<lparr>mb_first := p\<rparr>;
                         s = (if p = None then s\<lparr>mb_last := Head\<rparr> else s);
                         s = s\<lparr>mb_used := (mb_used s + n) mod 256\<rparr>
                     in Some (m, mb_unlock s))
                | _ \<Rightarrow> None)"

text \<open>\<open>p = m->next; __mbuf_release(m); m = p;\<close>\<close>

partial_function (option) release_loop :: "nat option \<Rightarrow> mbuf_sys \<Rightarrow> mbuf_sys option" where
  "release_loop m s =
    (case m of None \<Rightarrow> Some s | Some i \<Rightarrow> (let p = mb_next s i in release_loop p (mbuf_release i s)))"

definition mbuf_list_free :: "nat option \<Rightarrow> mbuf_sys \<Rightarrow> mbuf_sys option" where
  "mbuf_list_free q s = map_option mb_unlock (release_loop q (mb_lock s))"

definition mb_write :: "nat \<Rightarrow> nat \<Rightarrow> u8 list \<Rightarrow> mbuf_sys \<Rightarrow> mbuf_sys" where
  "mb_write i offs src s =
    s\<lparr>mb_data := (mb_data s)(i := (\<lambda>j. if offs \<le> j \<and> j < offs + length src then src ! (j - offs) else mb_data s i j))\<rparr>"

definition mb_read :: "nat \<Rightarrow> nat \<Rightarrow> nat \<Rightarrow> mbuf_sys \<Rightarrow> u8 list" where
  "mb_read i offs n s = map (mb_data s i) [offs..<offs + n]"

text \<open>The bytes that were not copied, with the memory.\<close>

function list_write_loop :: "nat option \<Rightarrow> u8 list \<Rightarrow> mbuf_sys \<Rightarrow> u8 list \<times> mbuf_sys" where
  "list_write_loop p src s =
    (case p of
       None \<Rightarrow> (src, s)
     | Some i \<Rightarrow>
         if MBUF_DATA_SIZE \<le> length src
         then list_write_loop (mb_next s i) (drop MBUF_DATA_SIZE src) (mb_write i 0 (take MBUF_DATA_SIZE src) s)
         else if src \<noteq> [] then ([], mb_write i 0 src s) else (src, s))"
  by pat_completeness auto

termination list_write_loop
  by (relation "measure (\<lambda>(p, src, s). length src)") auto

definition mbuf_list_write :: "nat option \<Rightarrow> u8 list \<Rightarrow> mbuf_sys \<Rightarrow> nat \<times> mbuf_sys" where
  "mbuf_list_write q buf s = (case list_write_loop q buf s of (rem, s) \<Rightarrow> (length buf - length rem, s))"

function list_read_loop :: "nat option \<Rightarrow> nat \<Rightarrow> mbuf_sys \<Rightarrow> u8 list" where
  "list_read_loop p rem s =
    (case p of
       None \<Rightarrow> []
     | Some i \<Rightarrow>
         if MBUF_DATA_SIZE \<le> rem
         then mb_read i 0 MBUF_DATA_SIZE s @ list_read_loop (mb_next s i) (rem - MBUF_DATA_SIZE) s
         else mb_read i 0 rem s)"
  by pat_completeness auto

termination list_read_loop
  by (relation "measure (\<lambda>(p, rem, s). rem)") auto

text \<open>The bytes copied to the buffer; their number is the result.\<close>

definition mbuf_list_read :: "nat option \<Rightarrow> nat \<Rightarrow> mbuf_sys \<Rightarrow> u8 list" where
  "mbuf_list_read q len s = list_read_loop q len s"

declare list_write_loop.simps [simp del] list_read_loop.simps [simp del]

section \<open>Byte queues\<close>

record mbuf_queue =
  q_offs :: nat
  q_len :: nat
  q_first :: "nat option"
  q_last :: lastp

definition mbuf_queue_init :: "mbuf_queue \<Rightarrow> mbuf_queue" where
  "mbuf_queue_init q = q\<lparr>q_first := None, q_last := Head, q_len := 0, q_offs := 0\<rparr>"

text \<open>\<open>q->last->next = m; q->last = m; m->next = NULL\<close>\<close>

definition queue_link :: "nat \<Rightarrow> mbuf_queue \<Rightarrow> mbuf_sys \<Rightarrow> mbuf_queue \<times> mbuf_sys" where
  "queue_link m q s =
    (let (q, s) = (case q_last q of Head \<Rightarrow> (q\<lparr>q_first := Some m\<rparr>, s)
                   | Buf l \<Rightarrow> (q, s\<lparr>mb_next := (mb_next s)(l := Some m)\<rparr>))
     in (q\<lparr>q_last := Buf m\<rparr>, s\<lparr>mb_next := (mb_next s)(m := None)\<rparr>))"

text \<open>The loop of \<open>mbuf_queue_add\<close>: the bytes that found no room, the queue and the memory.\<close>

function add_loop :: "u8 list \<Rightarrow> mbuf_queue \<Rightarrow> mbuf_sys \<Rightarrow> u8 list \<times> mbuf_queue \<times> mbuf_sys" where
  "add_loop src q s =
    (if src = [] then (src, q, s)
     else case mbuf_try_alloc s of
       (None, s) \<Rightarrow> (src, q, s)
     | (Some m, s) \<Rightarrow>
         (let (q, s) = queue_link m q s;
              n = min (length src) MBUF_DATA_SIZE
          in add_loop (drop n src) (q\<lparr>q_len := (q_len q + n) mod 65536\<rparr>) (mb_write m 0 (take n src) s)))"
  by pat_completeness auto

termination add_loop
  by (relation "measure (\<lambda>(src, q, s). length src)") auto

definition mbuf_queue_add :: "mbuf_queue \<Rightarrow> u8 list \<Rightarrow> int \<Rightarrow> mbuf_sys \<Rightarrow> (nat \<times> mbuf_queue \<times> mbuf_sys) option" where
  "mbuf_queue_add q buf len s =
    (if len \<le> 0 then Some (0, q, s)
     else let src = take (nat len) buf;
              offs = (q_offs q + q_len q) mod MBUF_DATA_SIZE
          in bind
            (if offs \<noteq> 0 then
               (case q_last q of
                  Head \<Rightarrow> None
                | Buf l \<Rightarrow> let n = min (length src) (MBUF_DATA_SIZE - offs)
                           in Some (drop n src, q\<lparr>q_len := (q_len q + n) mod 65536\<rparr>, mb_write l offs (take n src) s))
             else Some (src, q, s))
            (\<lambda>(src, q, s). case add_loop src q s of (rem, q, s) \<Rightarrow> Some (nat len - length rem, q, s)))"

text \<open>The block \<open>m\<close> at the head of the queue is unlinked and freed.\<close>

definition queue_unlink :: "nat \<Rightarrow> mbuf_queue \<Rightarrow> mbuf_sys \<Rightarrow> mbuf_queue \<times> mbuf_sys" where
  "queue_unlink m q s = (q\<lparr>q_offs := 0, q_first := mb_next s m\<rparr>, mbuf_free m s)"

function remove_loop :: "nat option \<Rightarrow> nat \<Rightarrow> u8 list \<Rightarrow> mbuf_queue \<Rightarrow> mbuf_sys \<Rightarrow> (u8 list \<times> mbuf_queue \<times> mbuf_sys) option" where
  "remove_loop m rem dst q s =
    (if rem = 0 then Some (dst, q, s)
     else case m of
       None \<Rightarrow> None
     | Some i \<Rightarrow>
         if MBUF_DATA_SIZE \<le> q_offs q then None
         else let n = min rem (MBUF_DATA_SIZE - q_offs q);
                  dst = dst @ mb_read i (q_offs q) n s;
                  q = q\<lparr>q_len := q_len q - n\<rparr>
              in if q_len q = 0 then (case queue_unlink i q s of (q, s) \<Rightarrow> Some (dst, q\<lparr>q_last := Head\<rparr>, s))
                 else let q = q\<lparr>q_offs := q_offs q + n\<rparr>
                      in if q_offs q = MBUF_DATA_SIZE
                         then (case queue_unlink i q s of (q, s) \<Rightarrow> remove_loop (q_first q) (rem - n) dst q s)
                         else remove_loop m (rem - n) dst q s)"
  by pat_completeness auto

termination remove_loop
  by (relation "measure (\<lambda>(m, rem, dst, q, s). rem)") auto

text \<open>The bytes copied to the buffer; their number is the result.\<close>

definition mbuf_queue_remove :: "mbuf_queue \<Rightarrow> nat \<Rightarrow> mbuf_sys \<Rightarrow> (u8 list \<times> mbuf_queue \<times> mbuf_sys) option" where
  "mbuf_queue_remove q len s =
    (let rem = min len (q_len q)
     in if rem = 0 then Some ([], q, s) else remove_loop (q_first q) rem [] q s)"

function trim_loop :: "nat option \<Rightarrow> nat \<Rightarrow> nat \<Rightarrow> mbuf_queue \<Rightarrow> mbuf_sys \<Rightarrow> (nat \<times> mbuf_queue \<times> mbuf_sys) option" where
  "trim_loop m rem cnt q s =
    (if rem = 0 then Some (cnt, q, s)
     else case m of
       None \<Rightarrow> None
     | Some i \<Rightarrow>
         if MBUF_DATA_SIZE \<le> q_offs q then None
         else let n = min rem (MBUF_DATA_SIZE - q_offs q);
                  cnt = cnt + n;
                  q = q\<lparr>q_len := q_len q - n\<rparr>
              in if q_len q = 0 then (case queue_unlink i q s of (q, s) \<Rightarrow> Some (cnt, q\<lparr>q_last := Head\<rparr>, s))
                 else let q = q\<lparr>q_offs := q_offs q + n\<rparr>
                      in if q_offs q = MBUF_DATA_SIZE
                         then (case queue_unlink i q s of (q, s) \<Rightarrow> trim_loop (q_first q) (rem - n) cnt q s)
                         else trim_loop m (rem - n) cnt q s)"
  by pat_completeness auto

termination trim_loop
  by (relation "measure (\<lambda>(m, rem, cnt, q, s). rem)") auto

definition mbuf_queue_trim :: "mbuf_queue \<Rightarrow> nat \<Rightarrow> mbuf_sys \<Rightarrow> (nat \<times> mbuf_queue \<times> mbuf_sys) option" where
  "mbuf_queue_trim q len s =
    (let rem = min len (q_len q)
     in if rem = 0 then Some (0, q, s) else trim_loop (q_first q) rem 0 q s)"

text \<open>The two loops of \<open>mbuf_queue_get\<close>: to the block of the first byte, and the copy.\<close>

function seek_loop :: "nat option \<Rightarrow> nat \<Rightarrow> nat \<Rightarrow> mbuf_sys \<Rightarrow> (nat option \<times> nat) option" where
  "seek_loop m offs pos s =
    (if pos = 0 then Some (m, offs)
     else if MBUF_DATA_SIZE \<le> offs then None
     else let n = min pos (MBUF_DATA_SIZE - offs);
              offs = offs + n
          in if offs = MBUF_DATA_SIZE
             then (case m of None \<Rightarrow> None | Some i \<Rightarrow> seek_loop (mb_next s i) 0 (pos - n) s)
             else seek_loop m offs (pos - n) s)"
  by pat_completeness auto

termination seek_loop
  by (relation "measure (\<lambda>(m, offs, pos, s). pos)") auto

function get_loop :: "nat option \<Rightarrow> nat \<Rightarrow> nat \<Rightarrow> u8 list \<Rightarrow> mbuf_sys \<Rightarrow> u8 list option" where
  "get_loop m offs rem dst s =
    (if rem = 0 then Some dst
     else case m of
       None \<Rightarrow> None
     | Some i \<Rightarrow>
         if MBUF_DATA_SIZE \<le> offs then None
         else let n = min rem (MBUF_DATA_SIZE - offs)
              in get_loop (mb_next s i) 0 (rem - n) (dst @ mb_read i offs n s) s)"
  by pat_completeness auto

termination get_loop
  by (relation "measure (\<lambda>(m, offs, rem, dst, s). rem)") auto

definition mbuf_queue_get :: "mbuf_queue \<Rightarrow> nat \<Rightarrow> nat \<Rightarrow> mbuf_sys \<Rightarrow> u8 list option" where
  "mbuf_queue_get q offs len s =
    (if q_len q < offs then Some []
     else let rem = min len (q_len q - offs)
          in if rem = 0 then Some []
             else bind (seek_loop (q_first q) (q_offs q) offs s) (\<lambda>(m, offs). get_loop m offs rem [] s))"

definition mbuf_queue_free :: "mbuf_queue \<Rightarrow> mbuf_sys \<Rightarrow> (mbuf_queue \<times> mbuf_sys) option" where
  "mbuf_queue_free q s =
    map_option (\<lambda>s. (q\<lparr>q_first := None, q_last := Head, q_offs := 0, q_len := 0\<rparr>, mb_unlock s))
      (release_loop (q_first q) (mb_lock s))"

declare add_loop.simps [simp del] remove_loop.simps [simp del] trim_loop.simps [simp del]
  seek_loop.simps [simp del] get_loop.simps [simp del]

section \<open>Lists in the heap\<close>

fun chain :: "(nat \<Rightarrow> nat option) \<Rightarrow> nat option \<Rightarrow> nat list \<Rightarrow> bool" where
  "chain nx p [] \<longleftrightarrow> p = None"
| "chain nx p (x # xs) \<longleftrightarrow> p = Some x \<and> chain nx (nx x) xs"

definition endp :: "nat list \<Rightarrow> lastp" where
  "endp xs = (if xs = [] then Head else Buf (last xs))"

lemma endp_simps [simp]: "endp [] = Head" "endp [x] = Buf x" "endp (xs @ [x]) = Buf x" "endp xs = Head \<longleftrightarrow> xs = []"
  by (simp_all add: endp_def)

lemma endp_ConsI: "ys \<noteq> [] \<Longrightarrow> endp (x # ys) = endp ys"
  by (simp add: endp_def)

lemma chain_upd [simp]: "i \<notin> set xs \<Longrightarrow> chain (nx(i := v)) p xs = chain nx p xs"
  by (induction xs arbitrary: p) auto

lemma chain_cong: "(\<And>i. i \<in> set xs \<Longrightarrow> nx i = nx' i) \<Longrightarrow> chain nx p xs = chain nx' p xs"
  by (induction xs arbitrary: p) auto

lemma chain_append: "chain nx p (xs @ ys) \<Longrightarrow> \<exists>r. chain nx r ys"
  by (induction xs arbitrary: p) auto

lemma chain_None: "chain nx None xs \<longleftrightarrow> xs = []"
  by (cases xs) auto

lemma chain_eq_None: "chain nx p xs \<Longrightarrow> p = None \<longleftrightarrow> xs = []"
  by (cases xs) auto

lemma chain_snoc:
  "chain nx p xs \<Longrightarrow> xs \<noteq> [] \<Longrightarrow> distinct xs \<Longrightarrow> m \<notin> set xs \<Longrightarrow> chain (nx(last xs := Some m, m := None)) p (xs @ [m])"
proof (induction xs arbitrary: p)
  case (Cons x xs)
  then show ?case
  proof (cases "xs = []")
    case False
    then have "last xs \<noteq> x" using Cons.prems(3) last_in_set [of xs] by auto
    then show ?thesis using Cons False by simp
  qed auto
qed simp

section \<open>The pool and its invariant\<close>

definition pool :: "mbuf_sys \<Rightarrow> nat list \<Rightarrow> bool" where
  "pool s fs \<longleftrightarrow> chain (mb_next s) (mb_first s) fs \<and> mb_last s = endp fs \<and> distinct fs \<and> set fs \<subseteq> {..<MBUF_POOL_SIZE} \<and>
    mb_used s + length fs = MBUF_POOL_SIZE \<and> mb_max s = MBUF_POOL_SIZE"

text \<open>Blocks outside \<open>X\<close> keep their link and their data.\<close>

definition frame :: "nat set \<Rightarrow> mbuf_sys \<Rightarrow> mbuf_sys \<Rightarrow> bool" where
  "frame X s s' \<longleftrightarrow> (\<forall>i. i \<notin> X \<longrightarrow> mb_next s' i = mb_next s i \<and> mb_data s' i = mb_data s i)"

lemma frame_refl [simp]: "frame X s s"
  by (simp add: frame_def)

lemma frame_trans: "frame X s t \<Longrightarrow> frame Y t u \<Longrightarrow> X \<union> Y \<subseteq> Z \<Longrightarrow> frame Z s u"
  unfolding frame_def by (metis UnCI subsetD)

lemma distinct_length: "distinct xs \<Longrightarrow> set xs \<subseteq> {..<n} \<Longrightarrow> length xs \<le> n"
  using card_mono [of "{..<n}" "set xs"] by (simp add: distinct_card)

lemma lock_simps [simp]:
  "mb_next (mb_lock s) = mb_next s" "mb_data (mb_lock s) = mb_data s" "mb_first (mb_lock s) = mb_first s"
  "mb_next (mb_unlock s) = mb_next s" "mb_data (mb_unlock s) = mb_data s" "mb_first (mb_unlock s) = mb_first s"
  "mb_used (mb_lock s) = mb_used s" "mb_max (mb_lock s) = mb_max s" "\<not> mb_mutex (mb_unlock s)"
  by (simp_all add: mb_lock_def mb_unlock_def)

lemma pool_lock [simp]: "pool (mb_lock s) fs = pool s fs" "pool (mb_unlock s) fs = pool s fs"
  by (simp_all add: pool_def mb_lock_def mb_unlock_def)

lemma pool_mutex [simp]: "pool (s\<lparr>mb_mutex := b\<rparr>) fs = pool s fs"
  by (simp add: pool_def)

lemma release_pool:
  assumes "pool s fs" and "i \<notin> set fs" and "i < MBUF_POOL_SIZE"
  shows "pool (mbuf_release i s) (fs @ [i])" and "mb_data (mbuf_release i s) = mb_data s"
    and "\<And>j. j \<notin> insert i (set fs) \<Longrightarrow> mb_next (mbuf_release i s) j = mb_next s j"
proof -
  have d: "distinct (fs @ [i])" "set (fs @ [i]) \<subseteq> {..<MBUF_POOL_SIZE}" using assms by (auto simp: pool_def)
  then have "length (fs @ [i]) \<le> MBUF_POOL_SIZE" by (rule distinct_length)
  then have "length fs < MBUF_POOL_SIZE" by simp
  moreover have u1: "mb_used s + length fs = MBUF_POOL_SIZE" using assms(1) by (simp add: pool_def)
  ultimately obtain k where k: "mb_used s = Suc k" "k < 256" by (cases "mb_used s") auto
  have u: "mb_used s + length fs = MBUF_POOL_SIZE" "(mb_used s + 255) mod 256 + Suc (length fs) = MBUF_POOL_SIZE"
    using u1 k by simp_all
  show "pool (mbuf_release i s) (fs @ [i])"
  proof (cases fs rule: rev_cases)
    case Nil
    then show ?thesis using assms u by (simp add: pool_def mbuf_release_def)
  next
    case (snoc gs l)
    then show ?thesis
      using assms(1) chain_snoc [of "mb_next s" "mb_first s" fs i] u(2) d by (simp add: pool_def mbuf_release_def endp_def)
  qed
  show "mb_data (mbuf_release i s) = mb_data s"
    by (simp add: mbuf_release_def Let_def split: lastp.split)
  fix j assume "j \<notin> insert i (set fs)"
  moreover have "mb_last s = Buf q \<Longrightarrow> q \<in> set fs" for q using assms(1) by (auto simp: pool_def endp_def split: if_splits)
  ultimately show "mb_next (mbuf_release i s) j = mb_next s j"
    by (auto simp: mbuf_release_def Let_def split: lastp.split)
qed

lemma free_pool:
  assumes "pool s fs" and "i \<notin> set fs" and "i < MBUF_POOL_SIZE"
  shows "pool (mbuf_free i s) (fs @ [i])" and "frame (insert i (set fs)) s (mbuf_free i s)" and "\<not> mb_mutex (mbuf_free i s)"
    and "mb_data (mbuf_free i s) = mb_data s"
  using release_pool [of "mb_lock s" fs i] assms by (simp_all add: mbuf_free_def frame_def)

lemma take_pool:
  assumes "pool s (f # fs)"
  shows "mb_first s = Some f" and "pool (mbuf_take f s) fs"
    and "mb_next (mbuf_take f s) = mb_next s" and "mb_data (mbuf_take f s) = mb_data s"
proof -
  have "mb_used s < 255" using assms by (simp add: pool_def)
  moreover have "mb_next s f = None \<longleftrightarrow> fs = []" using assms chain_eq_None by (auto simp: pool_def)
  ultimately show "mb_first s = Some f" "pool (mbuf_take f s) fs"
    "mb_next (mbuf_take f s) = mb_next s" "mb_data (mbuf_take f s) = mb_data s"
    using assms by (auto simp: pool_def mbuf_take_def endp_ConsI chain_None)
qed

lemma try_alloc_empty: "pool s [] \<Longrightarrow> mbuf_try_alloc s = (None, mb_unlock s)"
  by (simp add: pool_def mbuf_try_alloc_def) (simp add: mb_unlock_def mb_lock_def)

lemma try_alloc_some:
  assumes "pool s (f # fs)"
  obtains s' where "mbuf_try_alloc s = (Some f, s')" "pool s' fs" "mb_next s' = mb_next s" "mb_data s' = mb_data s" "\<not> mb_mutex s'"
  using take_pool [of "mb_lock s" f fs] assms by (simp add: mbuf_try_alloc_def that)

section \<open>The bytes of a queue\<close>

definition content :: "mbuf_sys \<Rightarrow> nat list \<Rightarrow> u8 list" where
  "content s xs = concat (map (\<lambda>i. mb_read i 0 MBUF_DATA_SIZE s) xs)"

lemma length_mb_read [simp]: "length (mb_read i o' n s) = n"
  by (simp add: mb_read_def)

lemma content_simps [simp]: "content s [] = []" "content s (x # xs) = mb_read x 0 MBUF_DATA_SIZE s @ content s xs"
  "content s (xs @ ys) = content s xs @ content s ys"
  by (simp_all add: content_def)

lemma length_content [simp]: "length (content s xs) = MBUF_DATA_SIZE * length xs"
  by (induction xs) simp_all

lemma content_cong: "(\<And>i. i \<in> set xs \<Longrightarrow> mb_data s i = mb_data s' i) \<Longrightarrow> content s xs = content s' xs"
  by (induction xs) (simp_all add: mb_read_def)

lemma read_part: "offs + n \<le> MBUF_DATA_SIZE \<Longrightarrow> mb_read i offs n s = take n (drop offs (mb_read i 0 MBUF_DATA_SIZE s))"
  by (rule nth_equalityI) (simp_all add: mb_read_def)

lemma write_simps [simp]:
  "mb_next (mb_write i o' d s) = mb_next s" "pool (mb_write i o' d s) fs = pool s fs" "mb_mutex (mb_write i o' d s) = mb_mutex s"
  "j \<noteq> i \<Longrightarrow> mb_data (mb_write i o' d s) j = mb_data s j"
  by (simp_all add: mb_write_def pool_def)

lemma read_write:
  assumes "offs + length d \<le> MBUF_DATA_SIZE"
  shows "take (offs + length d) (mb_read i 0 MBUF_DATA_SIZE (mb_write i offs d s)) = take offs (mb_read i 0 MBUF_DATA_SIZE s) @ d"
proof (rule nth_equalityI)
  fix j assume "j < length (take (offs + length d) (mb_read i 0 MBUF_DATA_SIZE (mb_write i offs d s)))"
  then show "take (offs + length d) (mb_read i 0 MBUF_DATA_SIZE (mb_write i offs d s)) ! j =
      (take offs (mb_read i 0 MBUF_DATA_SIZE s) @ d) ! j"
    using assms by (cases "j < offs") (simp_all add: mb_read_def mb_write_def nth_append min_def)
qed (use assms in simp)

definition queue :: "mbuf_queue \<Rightarrow> mbuf_sys \<Rightarrow> nat list \<Rightarrow> bool" where
  "queue q s xs \<longleftrightarrow> chain (mb_next s) (q_first q) xs \<and> q_last q = endp xs \<and> distinct xs \<and> set xs \<subseteq> {..<MBUF_POOL_SIZE} \<and>
    q_offs q < MBUF_DATA_SIZE \<and> (q_len q = 0 \<longrightarrow> q_offs q = 0) \<and>
    length xs = (q_offs q + q_len q + (MBUF_DATA_SIZE - 1)) div MBUF_DATA_SIZE"

definition bytes :: "mbuf_queue \<Rightarrow> mbuf_sys \<Rightarrow> nat list \<Rightarrow> u8 list" where
  "bytes q s xs = drop (q_offs q) (take (q_offs q + q_len q) (content s xs))"

definition good :: "mbuf_queue \<Rightarrow> mbuf_sys \<Rightarrow> nat list \<Rightarrow> nat list \<Rightarrow> bool" where
  "good q s fs xs \<longleftrightarrow> pool s fs \<and> queue q s xs \<and> set fs \<inter> set xs = {}"

lemma queue_bounds:
  assumes "queue q s xs"
  shows "q_offs q + q_len q \<le> MBUF_DATA_SIZE * length xs" "length xs \<le> MBUF_POOL_SIZE"
  using assms distinct_length [of xs MBUF_POOL_SIZE] unfolding queue_def by linarith+

lemma length_bytes [simp]: "queue q s xs \<Longrightarrow> length (bytes q s xs) = q_len q"
  using queue_bounds(1) [of q s xs] by (simp add: bytes_def)

lemma bytes_extend:
  assumes "queue q s xs" and "q_offs q' = q_offs q" and "q_len q' = q_len q + length d"
    and "take (q_offs q + q_len q + length d) (content s' xs') = take (q_offs q + q_len q) (content s xs) @ d"
  shows "bytes q' s' xs' = bytes q s xs @ d"
  using assms(2-4) queue_bounds(1) [OF assms(1)] by (simp add: bytes_def add.assoc)

lemma link_block:
  assumes g: "good q s (f # fs) xs" and full: "q_offs q + q_len q = MBUF_DATA_SIZE * length xs"
    and d: "d \<noteq> []" "length d \<le> MBUF_DATA_SIZE" and t: "mbuf_try_alloc s = (Some f, t)"
    and l: "queue_link f q t = (q1, t1)"
  defines "q2 \<equiv> q1\<lparr>q_len := (q_len q1 + length d) mod 65536\<rparr>" and "s2 \<equiv> mb_write f 0 d t1"
  shows "good q2 s2 fs (xs @ [f])" and "bytes q2 s2 (xs @ [f]) = bytes q s xs @ d"
    and "q_offs q2 + q_len q2 = q_offs q + q_len q + length d" and "frame (set (f # fs @ xs)) s s2" and "\<not> mb_mutex s2"
proof -
  have p: "pool s (f # fs)" and q: "queue q s xs" and dj: "f \<notin> set xs" "set fs \<inter> set xs = {}" "f < MBUF_POOL_SIZE" "f \<notin> set fs"
    using g by (auto simp: good_def pool_def)
  obtain s' where "mbuf_try_alloc s = (Some f, s')" "pool s' fs" "mb_next s' = mb_next s" "mb_data s' = mb_data s" "\<not> mb_mutex s'"
    using try_alloc_some [OF p] .
  then have t': "pool t fs" "mb_next t = mb_next s" "mb_data t = mb_data s" "\<not> mb_mutex t" using t by simp_all
  have q1: "q_offs q1 = q_offs q" "q_len q1 = q_len q" "q_last q1 = Buf f" "mb_data t1 = mb_data t" "\<not> mb_mutex t1"
    using l t'(4) by (auto simp: queue_link_def Let_def split: lastp.splits)
  have lst: "q_last q = endp xs" "chain (mb_next s) (q_first q) xs" "distinct xs" using q by (auto simp: queue_def)
  have nx: "mb_next t1 j = mb_next s j" if "j \<notin> insert f (set xs)" for j
    using l that lst(1) t'(2) by (auto simp: queue_link_def endp_def split: lastp.splits if_splits)
  have ch: "chain (mb_next t1) (q_first q1) (xs @ [f])"
    using l lst t'(2) chain_snoc [of "mb_next s" "q_first q" xs f] dj(1)
    by (auto simp: queue_link_def endp_def split: lastp.splits if_splits)
  have pt1: "pool t1 fs"
  proof -
    have "chain (mb_next t1) (mb_first t) fs \<longleftrightarrow> chain (mb_next t) (mb_first t) fs"
      by (rule chain_cong) (metis nx t'(2) dj(2,4) disjoint_iff insert_iff)
    moreover have "mb_first t1 = mb_first t" "mb_last t1 = mb_last t" "mb_used t1 = mb_used t" "mb_max t1 = mb_max t"
      using l by (auto simp: queue_link_def Let_def split: lastp.splits)
    ultimately show ?thesis using t'(1) by (simp add: pool_def)
  qed
  have len: "length (xs @ [f]) \<le> MBUF_POOL_SIZE"
    using q dj by (intro distinct_length) (auto simp: queue_def)
  then have l2: "q_len q2 = q_len q + length d" using q1 full d(2) by (simp add: q2_def)
  show "q_offs q2 + q_len q2 = q_offs q + q_len q + length d" using l2 q1 by (simp add: q2_def)
  have nb: "Suc (length xs) = (q_offs q + (q_len q + length d) + 123) div 124"
    using full d by (cases d) simp_all
  show "good q2 s2 fs (xs @ [f])"
    using pt1 q dj ch q1 l2 nb d(1) by (auto simp: good_def queue_def s2_def) (simp_all add: q2_def)
  have c1: "content s2 xs = content s xs"
    using dj(1) q1(4) t'(3) by (intro content_cong) (auto simp: s2_def mb_write_def)
  have "take (length d) (mb_read f 0 MBUF_DATA_SIZE s2) = d"
    using read_write [of 0 d f t1] d(2) by (simp add: s2_def)
  then have c2: "take (q_offs q + q_len q + length d) (content s2 (xs @ [f])) = take (q_offs q + q_len q) (content s xs) @ d"
    by (simp add: full c1)
  show "bytes q2 s2 (xs @ [f]) = bytes q s xs @ d"
    by (rule bytes_extend [OF q _ l2 c2]) (simp add: q2_def q1)
  show "frame (set (f # fs @ xs)) s s2"
    using nx q1(4) t'(3) by (auto simp: frame_def s2_def)
  show "\<not> mb_mutex s2" using q1 by (simp add: s2_def)
qed

lemma add_loop_good:
  assumes "good q s fs xs" and "q_offs q + q_len q = MBUF_DATA_SIZE * length xs \<or> src = []" and "\<not> mb_mutex s"
  shows "\<exists>k q' s' ys fs'. add_loop src q s = (drop k src, q', s') \<and> k = min (length src) (MBUF_DATA_SIZE * length fs) \<and>
    fs = ys @ fs' \<and> good q' s' fs' (xs @ ys) \<and> bytes q' s' (xs @ ys) = bytes q s xs @ take k src \<and>
    frame (set fs \<union> set xs) s s' \<and> \<not> mb_mutex s'"
  using assms
proof (induction src q s arbitrary: fs xs rule: add_loop.induct)
  case (1 src q s)
  show ?case
  proof (cases "src = []")
    case True
    then show ?thesis
      using 1 by (subst add_loop.simps) (intro exI [of _ 0] exI [of _ q] exI [of _ s] exI [of _ "[]"] exI [of _ fs], simp)
  next
    case src: False
    then have full: "q_offs q + q_len q = MBUF_DATA_SIZE * length xs" using 1(3) by simp
    show ?thesis
    proof (cases fs)
      case Nil
      then have "mbuf_try_alloc s = (None, mb_unlock s)" "pool s []" using 1(2) by (simp_all add: good_def try_alloc_empty)
      moreover have "mb_unlock s = s" using 1(4) by (simp add: mb_unlock_def)
      ultimately show ?thesis
        using 1 src Nil by (subst add_loop.simps) (intro exI [of _ 0] exI [of _ q] exI [of _ s] exI [of _ "[]"] exI [of _ fs], simp)
    next
      case (Cons f gs)
      then obtain t where t: "mbuf_try_alloc s = (Some f, t)" using 1(2) try_alloc_some [of s f gs] by (auto simp: good_def)
      obtain q1 t1 where l: "queue_link f q t = (q1, t1)" by fastforce
      define n where "n = min (length src) MBUF_DATA_SIZE"
      define d where "d = take n src"
      have ld: "length d = n" "d \<noteq> []" "length d \<le> MBUF_DATA_SIZE" using src by (auto simp: d_def n_def)
      define q2 where "q2 = q1\<lparr>q_len := (q_len q1 + length d) mod 65536\<rparr>"
      define s2 where "s2 = mb_write f 0 d t1"
      note b = link_block [OF 1(2) [unfolded Cons] full ld(2,3) t l, folded q2_def s2_def]
      have q2': "q2 = q1\<lparr>q_len := (q_len q1 + n) mod 65536\<rparr>" and s2': "s2 = mb_write f 0 (take n src) t1"
        by (simp_all add: q2_def s2_def ld(1) d_def [symmetric])
      have e: "add_loop src q s = add_loop (drop n src) q2 s2"
        using src t l by (subst add_loop.simps) (simp add: q2_def s2_def n_def d_def Let_def)
      have "q_offs q2 + q_len q2 = MBUF_DATA_SIZE * length (xs @ [f]) \<or> drop n src = []"
        using b(3) full ld(1) by (auto simp: n_def min_def)
      then obtain k q' s' ys fs' where ih: "add_loop (drop n src) q2 s2 = (drop k (drop n src), q', s')"
        "k = min (length src - n) (MBUF_DATA_SIZE * length gs)" "gs = ys @ fs'" "good q' s' fs' ((xs @ [f]) @ ys)"
        "bytes q' s' ((xs @ [f]) @ ys) = bytes q2 s2 (xs @ [f]) @ take k (drop n src)"
        "frame (set gs \<union> set (xs @ [f])) s2 s'" "\<not> mb_mutex s'"
        using 1(1) [OF src t [symmetric] refl refl l [symmetric] n_def, folded q2' s2', OF b(1) _ b(5)] unfolding length_drop
        by blast
      have "take (n + k) src = d @ take k (drop n src)" by (simp add: d_def take_add)
      moreover have "n + k = min (length src) (MBUF_DATA_SIZE * length fs)"
        using ih(2) Cons by (auto simp: n_def)
      moreover have "frame (set fs \<union> set xs) s s'"
        using frame_trans [OF b(4) ih(6)] Cons by auto
      ultimately show ?thesis
        using ih b(2) Cons e
        by (intro exI [of _ "n + k"] exI [of _ q'] exI [of _ s'] exI [of _ "f # ys"] exI [of _ fs']) (simp add: add.commute)
    qed
  qed
qed

lemma fill_up: "(t :: nat) + (124 - t mod 124) = 124 * (t div 124 + 1)"
proof -
  define r d where "r = t mod 124" and "d = t div 124"
  have "t = 124 * d + r" "r < 124" by (simp_all add: r_def d_def)
  then show ?thesis unfolding r_def [symmetric] d_def [symmetric] by simp
qed

text \<open>Bytes appended to the last block of the queue.\<close>

lemma fill_block:
  assumes g: "good q s fs xs" and o: "(q_offs q + q_len q) mod MBUF_DATA_SIZE = offs" "offs \<noteq> 0"
    and d: "length d \<le> MBUF_DATA_SIZE - offs"
  obtains l where "q_last q = Buf l"
    and "good (q\<lparr>q_len := (q_len q + length d) mod 65536\<rparr>) (mb_write l offs d s) fs xs"
    and "bytes (q\<lparr>q_len := (q_len q + length d) mod 65536\<rparr>) (mb_write l offs d s) xs = bytes q s xs @ d"
    and "frame (set xs) s (mb_write l offs d s)"
proof -
  define t where "t = q_offs q + q_len q"
  have q: "queue q s xs" and dj: "set fs \<inter> set xs = {}" using g by (simp_all add: good_def)
  have nb: "length xs = (t + 123) div 124" using q by (simp add: queue_def t_def)
  have tm: "t = 124 * (t div 124) + offs" using mult_div_mod_eq [of 124 t] o(1) by (simp add: t_def)
  have o124: "0 < offs" "offs < 124" using o by auto
  have "xs \<noteq> []" using nb tm o124 by auto
  then obtain ys l where xs: "xs = ys @ [l]" by (cases xs rule: rev_cases) auto
  have ly: "t = 124 * length ys + offs"
  proof -
    have "(t + 123) div 124 = t div 124 + 1" using tm o124 by linarith
    then show ?thesis using nb xs tm by simp
  qed
  have ld: "offs + length d \<le> 124" using d o124 by simp
  have le: "length xs \<le> 64" using queue_bounds(2) [OF q] by simp
  then have ln: "(q_len q + length d) mod 65536 = q_len q + length d" using ly ld xs by (simp add: t_def)
  have nb': "length xs = (t + length d + 123) div 124" using ly ld o124 xs by simp
  have l: "l \<notin> set ys" using q xs by (simp add: queue_def)
  have cy: "content (mb_write l offs d s) ys = content s ys"
    using l by (intro content_cong) (auto simp: mb_write_def)
  have "take (t + length d) (content (mb_write l offs d s) xs) = take t (content s xs) @ d"
    using read_write [OF ld, of l s] cy by (simp add: xs ly)
  then have "bytes (q\<lparr>q_len := (q_len q + length d) mod 65536\<rparr>) (mb_write l offs d s) xs = bytes q s xs @ d"
    by (intro bytes_extend [OF q]) (simp_all add: ln t_def)
  moreover have "good (q\<lparr>q_len := (q_len q + length d) mod 65536\<rparr>) (mb_write l offs d s) fs xs"
    using g nb' o124 ly by (auto simp: good_def queue_def ln t_def add.assoc)
  moreover have "q_last q = Buf l" using q xs by (simp add: queue_def)
  moreover have "frame (set xs) s (mb_write l offs d s)" by (auto simp: frame_def xs mb_write_def)
  ultimately show ?thesis using that by blast
qed

lemma add_good:
  assumes g: "good q s fs xs" and m: "\<not> mb_mutex s" and n: "0 \<le> n" "nat n \<le> length buf"
  shows "\<exists>k q' s' fs' xs'. mbuf_queue_add q buf n s = Some (k, q', s') \<and> k \<le> nat n \<and> good q' s' fs' xs' \<and>
    set fs' \<union> set xs' = set fs \<union> set xs \<and> bytes q' s' xs' = bytes q s xs @ take k buf \<and> frame (set fs \<union> set xs) s s' \<and>
    \<not> mb_mutex s' \<and> (nat n \<le> MBUF_DATA_SIZE * length fs \<longrightarrow> k = nat n)"
proof (cases "n = 0")
  case True
  then show ?thesis
    using g m by (intro exI [of _ 0] exI [of _ q] exI [of _ s] exI [of _ fs] exI [of _ xs]) (simp add: mbuf_queue_add_def)
next
  case False
  define src where "src = take (nat n) buf"
  have ls: "length src = nat n" using n by (simp add: src_def)
  define offs where "offs = (q_offs q + q_len q) mod MBUF_DATA_SIZE"
  have q: "queue q s xs" using g by (simp add: good_def)
  show ?thesis
  proof (cases "offs = 0")
    case True
    have "q_offs q + q_len q = MBUF_DATA_SIZE * length xs"
      using q True by (auto simp: queue_def offs_def elim!: dvdE)
    then obtain k q' s' ys fs' where r: "add_loop src q s = (drop k src, q', s')" "k = min (length src) (MBUF_DATA_SIZE * length fs)"
      "fs = ys @ fs'" "good q' s' fs' (xs @ ys)" "bytes q' s' (xs @ ys) = bytes q s xs @ take k src"
      "frame (set fs \<union> set xs) s s'" "\<not> mb_mutex s'"
      using add_loop_good [OF g _ m, of src] by blast
    have "mbuf_queue_add q buf n s = Some (k, q', s')"
      using False n True r(1,2) ls by (simp add: mbuf_queue_add_def offs_def [symmetric] src_def [symmetric])
    moreover have "take k src = take k buf" using r(2) ls by (simp add: src_def)
    ultimately show ?thesis
      using r ls by (intro exI [of _ k] exI [of _ q'] exI [of _ s'] exI [of _ fs'] exI [of _ "xs @ ys"]) (simp add: Un_ac)
  next
    case offs: False
    define j where "j = min (nat n) (MBUF_DATA_SIZE - offs)"
    have lj: "length (take j src) = j" "j \<le> MBUF_DATA_SIZE - offs" using ls by (simp_all add: j_def)
    define q1 where "q1 = q\<lparr>q_len := (q_len q + j) mod 65536\<rparr>"
    obtain l where l: "q_last q = Buf l" and g1: "good q1 (mb_write l offs (take j src) s) fs xs"
      and b1: "bytes q1 (mb_write l offs (take j src) s) xs = bytes q s xs @ take j src"
      and f1: "frame (set xs) s (mb_write l offs (take j src) s)"
      using fill_block [OF g offs_def [symmetric] offs, of "take j src"] lj unfolding lj(1) q1_def by blast
    define s1 where "s1 = mb_write l offs (take j src) s"
    have "q_offs q1 + q_len q1 = MBUF_DATA_SIZE * length xs \<or> drop j src = []"
    proof (cases "j = nat n")
      case False
      then have j: "j = 124 - offs" "j < nat n" by (auto simp: j_def)
      have "length (bytes q1 s1 xs) = q_len q + j" using b1 q lj(1) by (simp add: s1_def)
      then have "q_len q1 = q_len q + j" using g1 by (simp add: good_def s1_def)
      moreover have "q_offs q1 = q_offs q" by (simp add: q1_def)
      moreover have "q_offs q + q_len q + j = 124 * ((q_offs q + q_len q) div 124 + 1)"
        using j(1) fill_up [of "q_offs q + q_len q"] unfolding offs_def by simp
      moreover have "length xs = (q_offs q1 + q_len q1 + 123) div 124" using g1 by (simp add: good_def queue_def)
      ultimately show ?thesis by (auto elim!: dvdE simp: add.assoc)
    qed (simp add: ls)
    moreover have "\<not> mb_mutex s1" using m by (simp add: s1_def)
    ultimately obtain k q' s' ys fs' where r: "add_loop (drop j src) q1 s1 = (drop k (drop j src), q', s')"
      "k = min (length src - j) (MBUF_DATA_SIZE * length fs)"
      "fs = ys @ fs'" "good q' s' fs' (xs @ ys)" "bytes q' s' (xs @ ys) = bytes q1 s1 xs @ take k (drop j src)"
      "frame (set fs \<union> set xs) s1 s'" "\<not> mb_mutex s'"
      using add_loop_good [OF g1 [folded s1_def], of "drop j src"] by auto
    have hj: "j \<le> nat n" "k \<le> nat n - j" using r(2) ls by (simp_all add: j_def)
    then have jk: "j + k \<le> nat n" "nat n - (nat n - j - k) = j + k" by simp_all
    have "mbuf_queue_add q buf n s = Some (j + k, q', s')"
      using False n offs r(1) l ls jk
      by (simp add: mbuf_queue_add_def offs_def [symmetric] src_def [symmetric] j_def [symmetric] q1_def [symmetric] s1_def [symmetric])
    moreover have "take (j + k) buf = take j src @ take k (drop j src)"
      using jk(1) by (simp add: take_add src_def drop_take min_def)
    moreover have "frame (set fs \<union> set xs) s s'"
      using frame_trans [OF f1 [folded s1_def] r(6)] by auto
    moreover have "nat n \<le> MBUF_DATA_SIZE * length fs \<longrightarrow> j + k = nat n" using r(2) ls hj by linarith
    ultimately show ?thesis
      using r b1 [folded s1_def] jk(1)
      by (intro exI [of _ "j + k"] exI [of _ q'] exI [of _ s'] exI [of _ fs'] exI [of _ "xs @ ys"]) (simp add: Un_ac)
  qed
qed

section \<open>Taking bytes from a queue\<close>

lemma unlink_head:
  assumes g: "good q s fs (i # xs)" and o: "q_offs q + n = MBUF_DATA_SIZE \<or> xs = []" and n: "n \<le> q_len q"
    and e: "q_len q - n = 0 \<longleftrightarrow> xs = []"
      "q' = q\<lparr>q_len := q_len q - n, q_offs := 0, q_first := mb_next s i, q_last := endp xs\<rparr>"
  shows "good q' (mbuf_free i s) (fs @ [i]) xs" and "bytes q' (mbuf_free i s) xs = drop n (bytes q s (i # xs))"
    and "frame (set fs \<union> set (i # xs)) s (mbuf_free i s)" and "\<not> mb_mutex (mbuf_free i s)"
proof -
  have p: "pool s fs" and q: "queue q s (i # xs)" and i: "i \<notin> set fs" "i < MBUF_POOL_SIZE" "i \<notin> set xs" "set fs \<inter> set xs = {}"
    using g by (auto simp: good_def queue_def)
  note f = free_pool [OF p i(1,2)]
  have ch: "chain (mb_next (mbuf_free i s)) (mb_next s i) xs"
  proof -
    have "chain (mb_next (mbuf_free i s)) (mb_next s i) xs \<longleftrightarrow> chain (mb_next s) (mb_next s i) xs"
      using f(2) i by (intro chain_cong) (auto simp: frame_def)
    then show ?thesis using q by (simp add: queue_def)
  qed
  have nb: "Suc (length xs) = (q_offs q + q_len q + 123) div 124" using q by (simp add: queue_def)
  have q': "q_len q' = q_len q - n" "q_offs q' = 0" "q_first q' = mb_next s i" "q_last q' = endp xs"
    by (simp_all add: e(2))
  have len: "length xs = (q_len q - n + 123) div 124"
  proof (cases "xs = []")
    case False
    then have "q_offs q + n = 124" using o by simp
    then have "q_offs q + q_len q + 123 = (q_len q - n + 123) + 124" using n by linarith
    then have "(q_offs q + q_len q + 123) div 124 = (q_len q - n + 123) div 124 + 1" by simp
    then show ?thesis using nb by simp
  qed (use e in simp)
  show "good q' (mbuf_free i s) (fs @ [i]) xs"
    using f(1) q' ch len i q by (auto simp: good_def queue_def)
  show "frame (set fs \<union> set (i # xs)) s (mbuf_free i s)" using f(2) by (auto simp: frame_def)
  have c: "content (mbuf_free i s) xs = content s xs" using f(4) by (intro content_cong) simp
  show "bytes q' (mbuf_free i s) xs = drop n (bytes q s (i # xs))"
  proof (cases "xs = []")
    case True
    then show ?thesis using q' e length_bytes [OF q] by (simp add: bytes_def)
  next
    case False
    then have on: "q_offs q + n = 124" using o by simp
    then have k: "q_offs q + q_len q = 124 + (q_len q - n)" using n by simp
    show ?thesis using on n unfolding bytes_def q' c k by (simp add: add.commute [of n])
  qed
  show "\<not> mb_mutex (mbuf_free i s)" by (rule f(3))
qed

text \<open>One round of the loops, with the number \<open>n\<close> of bytes it takes.\<close>

lemma remove_step:
  assumes "rem \<noteq> 0" and "q_offs q < MBUF_DATA_SIZE" and n: "n = min rem (MBUF_DATA_SIZE - q_offs q)"
  shows "remove_loop (Some i) rem dst q s =
    (if q_len q - n = 0
     then Some (dst @ mb_read i (q_offs q) n s, q\<lparr>q_len := q_len q - n, q_offs := 0, q_first := mb_next s i, q_last := Head\<rparr>, mbuf_free i s)
     else if q_offs q + n = MBUF_DATA_SIZE
     then remove_loop (mb_next s i) (rem - n) (dst @ mb_read i (q_offs q) n s)
       (q\<lparr>q_len := q_len q - n, q_offs := 0, q_first := mb_next s i\<rparr>) (mbuf_free i s)
     else remove_loop (Some i) (rem - n) (dst @ mb_read i (q_offs q) n s) (q\<lparr>q_len := q_len q - n, q_offs := q_offs q + n\<rparr>) s)"
  unfolding n using assms(1,2) by (subst remove_loop.simps) (simp add: Let_def queue_unlink_def cong: if_cong split del: if_split)

lemma trim_step:
  assumes "rem \<noteq> 0" and "q_offs q < MBUF_DATA_SIZE" and n: "n = min rem (MBUF_DATA_SIZE - q_offs q)"
  shows "trim_loop (Some i) rem cnt q s =
    (if q_len q - n = 0
     then Some (cnt + n, q\<lparr>q_len := q_len q - n, q_offs := 0, q_first := mb_next s i, q_last := Head\<rparr>, mbuf_free i s)
     else if q_offs q + n = MBUF_DATA_SIZE
     then trim_loop (mb_next s i) (rem - n) (cnt + n) (q\<lparr>q_len := q_len q - n, q_offs := 0, q_first := mb_next s i\<rparr>) (mbuf_free i s)
     else trim_loop (Some i) (rem - n) (cnt + n) (q\<lparr>q_len := q_len q - n, q_offs := q_offs q + n\<rparr>) s)"
  unfolding n using assms(1,2) by (subst trim_loop.simps) (simp add: Let_def queue_unlink_def cong: if_cong split del: if_split)

lemma remove_loop_good:
  assumes "good q s fs xs" and "rem \<le> q_len q" and "m = q_first q" and "\<not> mb_mutex s"
  shows "\<exists>q' s' ys zs. remove_loop m rem dst q s = Some (dst @ take rem (bytes q s xs), q', s') \<and> xs = ys @ zs \<and>
    good q' s' (fs @ ys) zs \<and> bytes q' s' zs = drop rem (bytes q s xs) \<and> frame (set fs \<union> set xs) s s' \<and> \<not> mb_mutex s'"
  using assms
proof (induction rem arbitrary: m dst q s fs xs rule: less_induct)
  case (less rem)
  note g = \<open>good q s fs xs\<close>
  show ?case
  proof (cases "rem = 0")
    case True
    then show ?thesis
      using less by (subst remove_loop.simps) (intro exI [of _ q] exI [of _ s] exI [of _ "[]"] exI [of _ xs], simp)
  next
    case rem: False
    have q: "queue q s xs" using g by (simp add: good_def)
    have "xs \<noteq> []" using q rem \<open>rem \<le> q_len q\<close> by (auto simp: queue_def)
    then obtain i zs where xs: "xs = i # zs" by (cases xs) auto
    then have m: "m = Some i" using q \<open>m = q_first q\<close> by (simp add: queue_def)
    define n where "n = min rem (MBUF_DATA_SIZE - q_offs q)"
    have o: "q_offs q < MBUF_DATA_SIZE" using q by (simp add: queue_def)
    have n: "0 < n" "n \<le> rem" "n \<le> q_len q" "q_offs q + n \<le> MBUF_DATA_SIZE" using rem o \<open>rem \<le> q_len q\<close> by (auto simp: n_def)
    have rd: "mb_read i (q_offs q) n s = take n (bytes q s xs)"
      using n unfolding read_part [OF n(4)] by (auto simp: bytes_def xs drop_take min_def)
    define B where "B = bytes q s xs"
    have lB: "length B = q_len q" using q by (simp add: B_def)
    show ?thesis
    proof (cases "q_len q - n = 0")
      case True
      then have nq: "n = q_len q" "rem = n" using n \<open>rem \<le> q_len q\<close> by auto
      have "Suc (length zs) = (q_offs q + q_len q + 123) div 124" using q by (simp add: queue_def xs)
      also have "\<dots> \<le> 247 div 124" using n(4) nq by (intro div_le_mono) simp
      finally have "zs = []" by simp
      define q' where "q' = q\<lparr>q_len := q_len q - n, q_offs := 0, q_first := mb_next s i, q_last := Head\<rparr>"
      have e: "remove_loop m rem dst q s = Some (dst @ take rem B, q', mbuf_free i s)"
        unfolding m remove_step [OF rem o n_def] if_P [OF True] rd by (simp add: q'_def B_def nq)
      have "q_offs q + n = MBUF_DATA_SIZE \<or> zs = []" "q_len q - n = 0 \<longleftrightarrow> zs = []"
        "q' = q\<lparr>q_len := q_len q - n, q_offs := 0, q_first := mb_next s i, q_last := endp zs\<rparr>"
        using \<open>zs = []\<close> True by (simp_all add: q'_def)
      note u' = unlink_head [OF g [unfolded xs] this(1) n(3) this(2,3)]
      show ?thesis
        using e u' nq \<open>zs = []\<close> xs by (intro exI [of _ q'] exI [of _ "mbuf_free i s"] exI [of _ "[i]"] exI [of _ "[]"]) (simp add: B_def)
    next
      case more: False
      show ?thesis
      proof (cases "q_offs q + n = MBUF_DATA_SIZE")
        case True
        define q' where "q' = q\<lparr>q_len := q_len q - n, q_offs := 0, q_first := mb_next s i\<rparr>"
        have "zs \<noteq> []" using q more True n(3) by (auto simp: queue_def xs)
        then have u0: "q_offs q + n = MBUF_DATA_SIZE \<or> zs = []" "q_len q - n = 0 \<longleftrightarrow> zs = []"
          using more True by simp_all
        have "q_last q = endp zs" using q \<open>zs \<noteq> []\<close> by (simp add: queue_def xs endp_ConsI)
        then have "q' = q\<lparr>q_len := q_len q - n, q_offs := 0, q_first := mb_next s i, q_last := endp zs\<rparr>"
          by (simp add: q'_def)
        note u = unlink_head [OF g [unfolded xs] u0(1) n(3) u0(2) this, folded xs, folded B_def]
        have e: "remove_loop m rem dst q s = remove_loop (q_first q') (rem - n) (dst @ take n B) q' (mbuf_free i s)"
          unfolding m remove_step [OF rem o n_def] if_not_P [OF more] if_P [OF True] rd by (simp add: q'_def B_def)
        have "rem - n < rem" "rem - n \<le> q_len q'" using n rem \<open>rem \<le> q_len q\<close> by (simp_all add: q'_def)
        then obtain q'' s'' ys' zs' where r: "remove_loop (q_first q') (rem - n) (dst @ take n B) q' (mbuf_free i s) =
              Some ((dst @ take n B) @ take (rem - n) (drop n B), q'', s'')" "zs = ys' @ zs'"
            "good q'' s'' ((fs @ [i]) @ ys') zs'" "bytes q'' s'' zs' = drop (rem - n) (drop n B)"
            "frame (set (fs @ [i]) \<union> set zs) (mbuf_free i s) s''" "\<not> mb_mutex s''"
          using less.IH [OF _ u(1) _ refl u(4), of "rem - n" "dst @ take n B"] unfolding u(2) by blast
        have "take n B @ take (rem - n) (drop n B) = take rem B" using n(2) take_add [of n "rem - n" B] by simp
        moreover have "drop (rem - n) (drop n B) = drop rem B" using n(2) by simp
        moreover have "frame (set fs \<union> set xs) s s''" using frame_trans [OF u(3) r(5)] by (auto simp: xs)
        ultimately show ?thesis
          using e r xs by (intro exI [of _ q''] exI [of _ s''] exI [of _ "i # ys'"] exI [of _ zs']) (simp add: B_def)
      next
        case False
        then have nr: "n = rem" using n o by (auto simp: n_def min_def split: if_splits)
        define q' where "q' = q\<lparr>q_len := q_len q - n, q_offs := q_offs q + n\<rparr>"
        have e: "remove_loop m rem dst q s = Some (dst @ take rem B, q', s)"
          unfolding m remove_step [OF rem o n_def] if_not_P [OF more] if_not_P [OF False] rd
          by (subst remove_loop.simps) (simp add: q'_def B_def nr)
        have "good q' s fs xs" using g n False more by (auto simp: good_def queue_def q'_def)
        moreover have "bytes q' s xs = drop rem B" using n nr by (simp add: bytes_def q'_def B_def add.commute)
        ultimately show ?thesis
          using e \<open>\<not> mb_mutex s\<close> by (intro exI [of _ q'] exI [of _ s] exI [of _ "[]"] exI [of _ xs]) (simp add: B_def)
      qed
    qed
  qed
qed

lemma remove_good:
  assumes g: "good q s fs xs" and m: "\<not> mb_mutex s"
  shows "\<exists>q' s' ys zs. mbuf_queue_remove q n s = Some (take n (bytes q s xs), q', s') \<and> xs = ys @ zs \<and>
    good q' s' (fs @ ys) zs \<and> bytes q' s' zs = drop n (bytes q s xs) \<and> frame (set fs \<union> set xs) s s' \<and> \<not> mb_mutex s'"
proof -
  define r where "r = min n (q_len q)"
  have "length (bytes q s xs) = q_len q" using g by (simp add: good_def)
  then have r: "take n (bytes q s xs) = take r (bytes q s xs)" "drop n (bytes q s xs) = drop r (bytes q s xs)"
    by (simp_all add: r_def min_def)
  show ?thesis
  proof (cases "r = 0")
    case True
    then show ?thesis
      unfolding r using g m
      by (intro exI [of _ q] exI [of _ s] exI [of _ "[]"] exI [of _ xs]) (simp add: mbuf_queue_remove_def r_def [symmetric])
  next
    case False
    then have "mbuf_queue_remove q n s = remove_loop (q_first q) r [] q s"
      by (simp add: mbuf_queue_remove_def r_def [symmetric])
    then show ?thesis
      unfolding r using remove_loop_good [OF g _ refl m, of r "[]"] by (simp add: r_def)
  qed
qed

lemma trim_loop_remove:
  "trim_loop m rem (length dst) q s = map_option (\<lambda>(d, q, s). (length d, q, s)) (remove_loop m rem dst q s)"
proof (induction rem arbitrary: m dst q s rule: less_induct)
  case (less rem)
  define n where "n = min rem (MBUF_DATA_SIZE - q_offs q)"
  show ?case
  proof (cases "m = None \<or> rem = 0 \<or> MBUF_DATA_SIZE \<le> q_offs q")
    case True
    then show ?thesis by (subst trim_loop.simps, subst remove_loop.simps) (auto split: option.split)
  next
    case False
    then obtain i where m: "m = Some i" and rem: "rem \<noteq> 0" and o: "q_offs q < MBUF_DATA_SIZE" by auto
    have IH: "trim_loop m' (rem - n) (length dst + n) q' s' =
        map_option (\<lambda>(d, q, s). (length d, q, s)) (remove_loop m' (rem - n) (dst @ mb_read i (q_offs q) n s) q' s')" for m' q' s'
      using less.IH [of "rem - n" m' "dst @ mb_read i (q_offs q) n s" q' s'] rem o by (simp add: n_def)
    show ?thesis
      unfolding m remove_step [OF rem o n_def] trim_step [OF rem o n_def] IH by simp
  qed
qed

lemma trim_remove: "mbuf_queue_trim q n s = map_option (\<lambda>(d, q, s). (length d, q, s)) (mbuf_queue_remove q n s)"
proof -
  define r where "r = min n (q_len q)"
  show ?thesis
    using trim_loop_remove [of "q_first q" r "[]" q s]
    by (cases "r = 0") (simp_all add: mbuf_queue_trim_def mbuf_queue_remove_def r_def [symmetric])
qed

section \<open>Reading without taking\<close>

lemma seek_loop_good:
  "chain (mb_next s) m xs \<Longrightarrow> offs < MBUF_DATA_SIZE \<Longrightarrow> offs + pos < MBUF_DATA_SIZE * length xs \<Longrightarrow>
    \<exists>p o' ys. seek_loop m offs pos s = Some (p, o') \<and> chain (mb_next s) p ys \<and> o' < MBUF_DATA_SIZE \<and>
      drop o' (content s ys) = drop (offs + pos) (content s xs)"
proof (induction pos arbitrary: m offs xs rule: less_induct)
  case (less pos)
  show ?case
  proof (cases "pos = 0")
    case True
    then show ?thesis using less.prems by (subst seek_loop.simps) (auto intro!: exI [of _ xs])
  next
    case pos: False
    define n where "n = min pos (MBUF_DATA_SIZE - offs)"
    have n: "0 < n" "n \<le> pos" "offs + n \<le> MBUF_DATA_SIZE" using pos less.prems(2) by (auto simp: n_def)
    obtain i zs where xs: "xs = i # zs" using less.prems(3) by (cases xs) auto
    then have m: "m = Some i" "chain (mb_next s) (mb_next s i) zs" using less.prems(1) by simp_all
    show ?thesis
    proof (cases "offs + n = MBUF_DATA_SIZE")
      case True
      have e: "seek_loop m offs pos s = seek_loop (mb_next s i) 0 (pos - n) s"
        using pos less.prems(2) True m by (subst seek_loop.simps) (simp add: n_def [symmetric] Let_def)
      have k: "offs + pos = MBUF_DATA_SIZE + (pos - n)" using True n by simp
      then show ?thesis
        using less.IH [OF _ m(2), of "pos - n" 0] n pos less.prems(3) unfolding e k by (simp add: xs)
    next
      case False
      then have np: "n = pos" using n by (auto simp: n_def)
      have e: "seek_loop m offs pos s = Some (m, offs + pos)"
        using pos less.prems(2) False np by (subst seek_loop.simps) (simp add: n_def [symmetric] Let_def, subst seek_loop.simps, simp)
      show ?thesis using e less.prems n False np by (intro exI [of _ m] exI [of _ "offs + pos"] exI [of _ xs]) simp
    qed
  qed
qed

lemma get_loop_good:
  "chain (mb_next s) m xs \<Longrightarrow> offs < MBUF_DATA_SIZE \<Longrightarrow> offs + rem \<le> MBUF_DATA_SIZE * length xs \<Longrightarrow>
    get_loop m offs rem dst s = Some (dst @ take rem (drop offs (content s xs)))"
proof (induction rem arbitrary: m offs dst xs rule: less_induct)
  case (less rem)
  show ?case
  proof (cases "rem = 0")
    case True
    then show ?thesis by (subst get_loop.simps) simp
  next
    case rem: False
    define n where "n = min rem (MBUF_DATA_SIZE - offs)"
    have n: "0 < n" "n \<le> rem" "offs + n \<le> MBUF_DATA_SIZE" using rem less.prems(2) by (auto simp: n_def)
    obtain i zs where xs: "xs = i # zs" using less.prems(3) rem by (cases xs) auto
    then have m: "m = Some i" "chain (mb_next s) (mb_next s i) zs" using less.prems(1) by simp_all
    have l: "rem - n \<le> MBUF_DATA_SIZE * length zs" using less.prems(3) xs by (auto simp: n_def)
    have t: "take rem (drop offs (content s xs)) = mb_read i offs n s @ take (rem - n) (content s zs)"
      unfolding read_part [OF n(3)] xs using n by (auto simp: n_def min_def)
    have "get_loop m offs rem dst s = get_loop (mb_next s i) 0 (rem - n) (dst @ mb_read i offs n s) s"
      using rem less.prems(2) m by (subst get_loop.simps) (simp add: n_def [symmetric] Let_def)
    then show ?thesis
      using less.IH [OF _ m(2), of "rem - n" 0 "dst @ mb_read i offs n s"] n rem l unfolding t by simp
  qed
qed

lemma get_good:
  assumes "good q s fs xs"
  shows "mbuf_queue_get q offs n s = Some (take n (drop offs (bytes q s xs)))"
proof -
  define r where "r = min n (q_len q - offs)"
  have q: "queue q s xs" using assms by (simp add: good_def)
  have lb: "length (bytes q s xs) = q_len q" using q by simp
  have tr: "take n (drop offs (bytes q s xs)) = take r (drop offs (bytes q s xs))" using lb by (simp add: r_def min_def)
  show ?thesis
  proof (cases "r = 0")
    case True
    then show ?thesis unfolding tr by (simp add: mbuf_queue_get_def r_def [symmetric])
  next
    case False
    then have o: "offs < q_len q" by (simp add: r_def)
    have b: "q_offs q + q_len q \<le> MBUF_DATA_SIZE * length xs" by (rule queue_bounds(1) [OF q])
    obtain p o' ys where s: "seek_loop (q_first q) (q_offs q) offs s = Some (p, o')" "chain (mb_next s) p ys" "o' < MBUF_DATA_SIZE"
      "drop o' (content s ys) = drop (q_offs q + offs) (content s xs)"
      using seek_loop_good [of s "q_first q" xs "q_offs q" offs] q o b by (auto simp: queue_def)
    have "length (drop o' (content s ys)) = length (drop (q_offs q + offs) (content s xs))" using s(4) by simp
    then have "o' + r \<le> MBUF_DATA_SIZE * length ys" using o b False by (simp add: r_def)
    note g = get_loop_good [OF s(2,3) this, of "[]"]
    have "take r (drop (q_offs q + offs) (content s xs)) = take r (drop offs (bytes q s xs))"
      by (simp add: bytes_def drop_take r_def add.commute min_def)
    then show ?thesis
      unfolding tr using False o s(1) g by (simp add: mbuf_queue_get_def r_def [symmetric] s(4))
  qed
qed

section \<open>Releasing\<close>

lemma release_loop_good:
  assumes "pool s fs" and "chain (mb_next s) p xs" and "distinct xs" and "set fs \<inter> set xs = {}" and "set xs \<subseteq> {..<MBUF_POOL_SIZE}"
  shows "\<exists>s'. release_loop p s = Some s' \<and> pool s' (fs @ xs) \<and> frame (set fs \<union> set xs) s s'"
  using assms
proof (induction xs arbitrary: p s fs)
  case Nil
  then show ?case by (subst release_loop.simps) simp
next
  case (Cons i xs)
  have i: "i \<notin> set fs" "i < MBUF_POOL_SIZE" "i \<notin> set xs" using Cons.prems by auto
  note f = release_pool [OF Cons.prems(1) i(1,2)]
  have "chain (mb_next (mbuf_release i s)) (mb_next s i) xs \<longleftrightarrow> chain (mb_next s) (mb_next s i) xs"
    using Cons.prems(4) by (intro chain_cong f(3)) (metis disjoint_iff i(3) insertE list.set_intros(2))
  then obtain s' where s': "release_loop (mb_next s i) (mbuf_release i s) = Some s'" "pool s' ((fs @ [i]) @ xs)"
    "frame (set (fs @ [i]) \<union> set xs) (mbuf_release i s) s'"
    using Cons.IH [OF f(1)] Cons.prems i by fastforce
  have "frame (set (fs @ [i])) s (mbuf_release i s)" using f by (auto simp: frame_def)
  from frame_trans [OF this s'(3)] have "frame (set fs \<union> set (i # xs)) s s'" by auto
  then show ?case using s' Cons.prems by (subst release_loop.simps) simp
qed

lemma free_good:
  assumes "good q s fs xs"
  shows "\<exists>q' s'. mbuf_queue_free q s = Some (q', s') \<and> good q' s' (fs @ xs) [] \<and> frame (set fs \<union> set xs) s s' \<and> \<not> mb_mutex s'"
proof -
  obtain s' where "release_loop (q_first q) (mb_lock s) = Some s'" "pool s' (fs @ xs)" "frame (set fs \<union> set xs) (mb_lock s) s'"
    using release_loop_good [of "mb_lock s" fs "q_first q" xs] assms by (auto simp: good_def queue_def)
  then show ?thesis by (simp add: mbuf_queue_free_def good_def queue_def frame_def)
qed

section \<open>Queues that share the pool\<close>

fun follow :: "nat \<Rightarrow> (nat \<Rightarrow> nat option) \<Rightarrow> nat option \<Rightarrow> nat list" where
  "follow 0 nx p = []"
| "follow (Suc n) nx p = (case p of None \<Rightarrow> [] | Some i \<Rightarrow> i # follow n nx (nx i))"

lemma follow_chain: "chain nx p xs \<Longrightarrow> follow (length xs) nx p = xs"
  by (induction xs arbitrary: p) auto

text \<open>The bytes in a queue, read off the blocks behind its \<open>first\<close> field.\<close>

definition queue_bytes :: "mbuf_queue \<Rightarrow> mbuf_sys \<Rightarrow> u8 list" where
  "queue_bytes q s =
    bytes q s (follow ((q_offs q + q_len q + (MBUF_DATA_SIZE - 1)) div MBUF_DATA_SIZE) (mb_next s) (q_first q))"

lemma queue_bytes_eq: "queue q s xs \<Longrightarrow> queue_bytes q s = bytes q s xs"
  using follow_chain [of "mb_next s" "q_first q" xs] by (simp add: queue_bytes_def queue_def)

lemma queue_frame:
  assumes "frame X s s'" and "queue q s xs" and "X \<inter> set xs = {}"
  shows "queue q s' xs" and "queue_bytes q s' = queue_bytes q s"
proof -
  have e: "i \<in> set xs \<Longrightarrow> mb_next s' i = mb_next s i \<and> mb_data s' i = mb_data s i" for i
    using assms(1,3) by (auto simp: frame_def)
  then have "chain (mb_next s') (q_first q) xs = chain (mb_next s) (q_first q) xs" by (intro chain_cong) simp
  then show q: "queue q s' xs" using assms(2) by (simp add: queue_def)
  have "content s' xs = content s xs" using e by (intro content_cong) simp
  then show "queue_bytes q s' = queue_bytes q s"
    using queue_bytes_eq [OF q] queue_bytes_eq [OF assms(2)] by (simp add: bytes_def)
qed

type_synonym net_bufs = "(nat \<Rightarrow> mbuf_queue) \<times> mbuf_sys"

definition bufs_inv :: "nat \<Rightarrow> net_bufs \<Rightarrow> bool" where
  "bufs_inv N = (\<lambda>(Q, s). \<not> mb_mutex s \<and> (\<exists>fs xss. pool s fs \<and> (\<forall>j<N. queue (Q j) s (xss j) \<and> set fs \<inter> set (xss j) = {}) \<and>
     (\<forall>i<N. \<forall>j<N. i \<noteq> j \<longrightarrow> set (xss i) \<inter> set (xss j) = {})))"

definition bufs_bytes :: "nat \<Rightarrow> net_bufs \<Rightarrow> u8 list" where
  "bufs_bytes j = (\<lambda>(Q, s). queue_bytes (Q j) s)"

definition bufs_add :: "nat \<Rightarrow> u8 list \<Rightarrow> net_bufs \<Rightarrow> (nat \<times> net_bufs) option" where
  "bufs_add j d = (\<lambda>(Q, s). map_option (\<lambda>(k, q, s). (k, Q(j := q), s)) (mbuf_queue_add (Q j) d (int (length d)) s))"

definition bufs_remove :: "nat \<Rightarrow> nat \<Rightarrow> net_bufs \<Rightarrow> (u8 list \<times> net_bufs) option" where
  "bufs_remove j n = (\<lambda>(Q, s). map_option (\<lambda>(d, q, s). (d, Q(j := q), s)) (mbuf_queue_remove (Q j) n s))"

lemma bufs_invD:
  assumes "bufs_inv N (Q, s)" and "j < N"
  obtains fs xs where "good (Q j) s fs xs" "\<not> mb_mutex s"
    "\<And>q' s' fs' xs'. good q' s' fs' xs' \<Longrightarrow> set fs' \<union> set xs' = set fs \<union> set xs \<Longrightarrow> frame (set fs \<union> set xs) s s' \<Longrightarrow>
      \<not> mb_mutex s' \<Longrightarrow> bufs_inv N (Q(j := q'), s') \<and> (\<forall>i<N. i \<noteq> j \<longrightarrow> queue_bytes (Q i) s' = queue_bytes (Q i) s)"
proof -
  obtain fs xss where "pool s fs \<and> (\<forall>j<N. queue (Q j) s (xss j) \<and> set fs \<inter> set (xss j) = {}) \<and>
     (\<forall>i<N. \<forall>j<N. i \<noteq> j \<longrightarrow> set (xss i) \<inter> set (xss j) = {})" and m: "\<not> mb_mutex s"
    using assms(1) unfolding bufs_inv_def prod.case by (elim conjE exE) simp
  then have p: "pool s fs" "\<And>i. i < N \<Longrightarrow> queue (Q i) s (xss i)" "\<And>i. i < N \<Longrightarrow> set fs \<inter> set (xss i) = {}"
    and d: "\<And>i k. i < N \<Longrightarrow> k < N \<Longrightarrow> i \<noteq> k \<Longrightarrow> set (xss i) \<inter> set (xss k) = {}" by simp_all
  have "good (Q j) s fs (xss j)" using p assms(2) by (simp add: good_def)
  moreover have "bufs_inv N (Q(j := q'), s') \<and> (\<forall>i<N. i \<noteq> j \<longrightarrow> queue_bytes (Q i) s' = queue_bytes (Q i) s)"
    if g: "good q' s' fs' xs'" and u: "set fs' \<union> set xs' = set fs \<union> set (xss j)" and f: "frame (set fs \<union> set (xss j)) s s'"
      and m': "\<not> mb_mutex s'" for q' s' fs' xs'
  proof -
    have o: "(set fs \<union> set (xss j)) \<inter> set (xss i) = {}" if "i < N" "i \<noteq> j" for i
      using p(3) [OF that(1)] d [OF assms(2) that(1)] that(2) by blast
    have "queue ((Q(j := q')) i) s' ((xss(j := xs')) i)" if "i < N" for i
      using g queue_frame(1) [OF f p(2) o] that by (simp add: good_def)
    moreover have "set fs' \<inter> set ((xss(j := xs')) i) = {}" if "i < N" for i
      using g o that u by (auto simp: good_def)
    moreover have "set ((xss(j := xs')) i) \<inter> set ((xss(j := xs')) k) = {}" if "i < N" "k < N" "i \<noteq> k" for i k
      using o [of i] o [of k] d [of i k] that u by auto
    moreover have "pool s' fs'" using g by (simp add: good_def)
    ultimately have "bufs_inv N (Q(j := q'), s')"
      using m' unfolding bufs_inv_def prod.case by (intro conjI exI [of _ fs'] exI [of _ "xss(j := xs')"]) auto
    then show ?thesis using queue_frame(2) [OF f p(2) o] by blast
  qed
  ultimately show ?thesis using that m by blast
qed

lemma bufs_add_law:
  assumes "bufs_inv N b" and "j < N"
  shows "\<exists>k b'. bufs_add j d b = Some (k, b') \<and> k \<le> length d \<and> bufs_inv N b' \<and>
    (\<forall>i<N. bufs_bytes i b' = bufs_bytes i b @ (if i = j then take k d else []))"
proof -
  obtain Q s where b: "b = (Q, s)" by fastforce
  obtain fs xs where g: "good (Q j) s fs xs" "\<not> mb_mutex s" and lift:
    "\<And>q' s' fs' xs'. good q' s' fs' xs' \<Longrightarrow> set fs' \<union> set xs' = set fs \<union> set xs \<Longrightarrow> frame (set fs \<union> set xs) s s' \<Longrightarrow>
      \<not> mb_mutex s' \<Longrightarrow> bufs_inv N (Q(j := q'), s') \<and> (\<forall>i<N. i \<noteq> j \<longrightarrow> queue_bytes (Q i) s' = queue_bytes (Q i) s)"
    using bufs_invD [OF assms [unfolded b]] by metis
  obtain k q' s' fs' xs' where r: "mbuf_queue_add (Q j) d (int (length d)) s = Some (k, q', s')" "k \<le> length d" "good q' s' fs' xs'"
    "set fs' \<union> set xs' = set fs \<union> set xs" "bytes q' s' xs' = bytes (Q j) s xs @ take k d" "frame (set fs \<union> set xs) s s'" "\<not> mb_mutex s'"
    using add_good [OF g, of "int (length d)" d] by auto
  have "queue_bytes q' s' = queue_bytes (Q j) s @ take k d"
    using r(3,5) g(1) queue_bytes_eq [of q' s' xs'] queue_bytes_eq [of "Q j" s xs] by (simp add: good_def)
  then show ?thesis
    using lift [OF r(3,4,6,7)] r(1,2) b
    by (intro exI [of _ k] exI [of _ "(Q(j := q'), s')"]) (simp add: bufs_add_def bufs_bytes_def)
qed

lemma bufs_remove_law:
  assumes "bufs_inv N b" and "j < N"
  shows "\<exists>b'. bufs_remove j n b = Some (take n (bufs_bytes j b), b') \<and> bufs_inv N b' \<and>
    (\<forall>i<N. bufs_bytes i b' = (if i = j then drop n (bufs_bytes i b) else bufs_bytes i b))"
proof -
  obtain Q s where b: "b = (Q, s)" by fastforce
  obtain fs xs where g: "good (Q j) s fs xs" "\<not> mb_mutex s" and lift:
    "\<And>q' s' fs' xs'. good q' s' fs' xs' \<Longrightarrow> set fs' \<union> set xs' = set fs \<union> set xs \<Longrightarrow> frame (set fs \<union> set xs) s s' \<Longrightarrow>
      \<not> mb_mutex s' \<Longrightarrow> bufs_inv N (Q(j := q'), s') \<and> (\<forall>i<N. i \<noteq> j \<longrightarrow> queue_bytes (Q i) s' = queue_bytes (Q i) s)"
    using bufs_invD [OF assms [unfolded b]] by metis
  obtain q' s' ys zs where r: "mbuf_queue_remove (Q j) n s = Some (take n (bytes (Q j) s xs), q', s')" "xs = ys @ zs"
    "good q' s' (fs @ ys) zs" "bytes q' s' zs = drop n (bytes (Q j) s xs)" "frame (set fs \<union> set xs) s s'" "\<not> mb_mutex s'"
    using remove_good [OF g] by blast
  have "set (fs @ ys) \<union> set zs = set fs \<union> set xs" using r(2) by auto
  moreover have "queue_bytes q' s' = drop n (queue_bytes (Q j) s)" "bytes (Q j) s xs = queue_bytes (Q j) s"
    using r(3,4) g(1) queue_bytes_eq [of q' s' zs] queue_bytes_eq [of "Q j" s xs] by (simp_all add: good_def)
  ultimately show ?thesis
    using lift [OF r(3) _ r(5,6)] r(1) b
    by (intro exI [of _ "(Q(j := q'), s')"]) (simp add: bufs_remove_def bufs_bytes_def)
qed

section \<open>What the transport layer relies on\<close>

datatype fifo_op = Put nat "u8 list" | Take nat nat

text \<open>The bytes each queue accepted and delivered over a sequence of operations.\<close>

fun fifo_run :: "(nat \<Rightarrow> u8 list \<Rightarrow> 's \<Rightarrow> (nat \<times> 's) option) \<Rightarrow> (nat \<Rightarrow> nat \<Rightarrow> 's \<Rightarrow> (u8 list \<times> 's) option) \<Rightarrow> fifo_op list \<Rightarrow>
    's \<Rightarrow> ((nat \<Rightarrow> u8 list) \<times> (nat \<Rightarrow> u8 list) \<times> 's) option" where
  "fifo_run add rem [] s = Some (\<lambda>_. [], \<lambda>_. [], s)"
| "fifo_run add rem (Put j d # ops) s =
    bind (add j d s) (\<lambda>(k, s). bind (fifo_run add rem ops s) (\<lambda>(a, o', s). Some (a(j := take k d @ a j), o', s)))"
| "fifo_run add rem (Take j n # ops) s =
    bind (rem j n s) (\<lambda>(d, s). bind (fifo_run add rem ops s) (\<lambda>(a, o', s). Some (a, o'(j := d @ o' j), s)))"

fun op_queue :: "fifo_op \<Rightarrow> nat" where
  "op_queue (Put j d) = j"
| "op_queue (Take j n) = j"

locale byte_fifos =
  fixes N :: nat and inv :: "'s \<Rightarrow> bool" and content_of :: "nat \<Rightarrow> 's \<Rightarrow> u8 list"
    and add :: "nat \<Rightarrow> u8 list \<Rightarrow> 's \<Rightarrow> (nat \<times> 's) option" and rem :: "nat \<Rightarrow> nat \<Rightarrow> 's \<Rightarrow> (u8 list \<times> 's) option"
  assumes add_law: "inv s \<Longrightarrow> j < N \<Longrightarrow> \<exists>k s'. add j d s = Some (k, s') \<and> k \<le> length d \<and> inv s' \<and>
      (\<forall>i<N. content_of i s' = content_of i s @ (if i = j then take k d else []))"
    and rem_law: "inv s \<Longrightarrow> j < N \<Longrightarrow> \<exists>s'. rem j n s = Some (take n (content_of j s), s') \<and> inv s' \<and>
      (\<forall>i<N. content_of i s' = (if i = j then drop n (content_of i s) else content_of i s))"
begin

lemma run_streams:
  assumes "inv s" and "\<forall>x \<in> set ops. op_queue x < N"
  shows "\<exists>a o' s'. fifo_run add rem ops s = Some (a, o', s') \<and> inv s' \<and> (\<forall>j<N. o' j @ content_of j s' = content_of j s @ a j)"
  using assms
proof (induction ops arbitrary: s)
  case (Cons x ops)
  show ?case
  proof (cases x)
    case (Put j d)
    then obtain k t where t: "add j d s = Some (k, t)" "inv t"
      "\<forall>i<N. content_of i t = content_of i s @ (if i = j then take k d else [])"
      using add_law [OF Cons.prems(1), of j d] Cons.prems(2) by auto
    from Cons.IH [OF t(2)] Cons.prems(2) obtain a o' s' where r: "fifo_run add rem ops t = Some (a, o', s')" "inv s'"
      "\<forall>i<N. o' i @ content_of i s' = content_of i t @ a i" by auto
    have "fifo_run add rem (x # ops) s = Some (a(j := take k d @ a j), o', s')" using t(1) r(1) Put by simp
    moreover have "\<forall>i<N. o' i @ content_of i s' = content_of i s @ (a(j := take k d @ a j)) i" using t(3) r(3) by simp
    ultimately show ?thesis using r(2) by blast
  next
    case (Take j n)
    then obtain t where t: "rem j n s = Some (take n (content_of j s), t)" "inv t"
      "\<forall>i<N. content_of i t = (if i = j then drop n (content_of i s) else content_of i s)"
      using rem_law [OF Cons.prems(1), of j n] Cons.prems(2) by auto
    from Cons.IH [OF t(2)] Cons.prems(2) obtain a o' s' where r: "fifo_run add rem ops t = Some (a, o', s')" "inv s'"
      "\<forall>i<N. o' i @ content_of i s' = content_of i t @ a i" by auto
    have "fifo_run add rem (x # ops) s = Some (a, o'(j := take n (content_of j s) @ o' j), s')" using t(1) r(1) Take by simp
    moreover have "\<forall>i<N. (o'(j := take n (content_of j s) @ o' j)) i @ content_of i s' = content_of i s @ a i"
      using t(3) r(3) by simp
    ultimately show ?thesis using r(2) by blast
  qed
qed auto

end

interpretation mbufs: byte_fifos N "bufs_inv N" bufs_bytes bufs_add bufs_remove for N
  by unfold_locales (rule bufs_add_law bufs_remove_law; assumption)+

section \<open>Start\<close>

lemma init_loop_pool:
  "mbuf_init_loop n i s = s' \<Longrightarrow> 0 < i \<Longrightarrow>
    mb_next s' = (\<lambda>j. if j = i + n - 1 then None else if i - 1 \<le> j \<and> j < i + n - 1 then Some (j + 1) else mb_next s j) \<and>
    mb_last s' = Buf (i + n - 1) \<and> mb_first s' = mb_first s \<and> mb_used s' = mb_used s \<and> mb_max s' = mb_max s \<and> mb_mutex s' = mb_mutex s"
proof (induction n arbitrary: i s)
  case (Suc n)
  then obtain k where i: "i = Suc k" by (cases i) auto
  have "mbuf_init_loop n (Suc (Suc k)) (s\<lparr>mb_next := (mb_next s)(k := Some (Suc k))\<rparr>) = s'" using Suc.prems i by simp
  from Suc.IH [OF this] show ?case unfolding i by (simp add: fun_eq_iff)
qed auto

lemma chain_upt: "(\<And>j. i \<le> j \<Longrightarrow> j + 1 < n \<Longrightarrow> nx j = Some (j + 1)) \<Longrightarrow> nx (n - 1) = None \<Longrightarrow> i < n \<Longrightarrow> chain nx (Some i) [i..<n]"
proof (induction "n - i" arbitrary: i)
  case (Suc k)
  then show ?case
    by (cases "Suc i < n") (auto simp: upt_conv_Cons not_less dest: le_antisym)
qed simp

lemma init_pool: "pool (mbuf_init s) [0..<MBUF_POOL_SIZE]" and init_mutex: "\<not> mb_mutex (mbuf_init s)"
proof -
  define t where "t = s\<lparr>mb_used := 0, mb_max := MBUF_POOL_SIZE, mb_mutex := False, mb_first := Some 0\<rparr>"
  have "MBUF_POOL_SIZE = Suc 63" by simp
  then have "mbuf_init s = mbuf_init_loop (Suc 63) 0 (s\<lparr>mb_used := 0, mb_max := MBUF_POOL_SIZE, mb_mutex := False\<rparr>)"
    unfolding mbuf_init_def by (simp only:)
  then have "mbuf_init s = mbuf_init_loop 63 1 t" unfolding mbuf_init_loop.simps t_def by simp
  note i = init_loop_pool [OF this [symmetric]]
  show "pool (mbuf_init s) [0..<MBUF_POOL_SIZE]" "\<not> mb_mutex (mbuf_init s)"
    using i chain_upt [of 0 64 "mb_next (mbuf_init s)"] by (simp_all add: pool_def t_def endp_def subset_iff)
qed

lemma init_bufs: "bufs_inv N (\<lambda>j. mbuf_queue_init (Q j), mbuf_init s)" "bufs_bytes j (\<lambda>j. mbuf_queue_init (Q j), mbuf_init s) = []"
proof -
  have q: "queue (mbuf_queue_init (Q j)) (mbuf_init s) []" for j by (simp add: queue_def mbuf_queue_init_def)
  show "bufs_inv N (\<lambda>j. mbuf_queue_init (Q j), mbuf_init s)"
    unfolding bufs_inv_def prod.case using init_pool [of s] init_mutex [of s] q
    by (intro conjI exI [of _ "[0..<MBUF_POOL_SIZE]"] exI [of _ "\<lambda>_. []"]) simp_all
  show "bufs_bytes j (\<lambda>j. mbuf_queue_init (Q j), mbuf_init s) = []"
    using queue_bytes_eq [OF q] by (simp add: bufs_bytes_def bytes_def)
qed

section \<open>Lists of blocks\<close>

lemma list_walk_chain:
  "chain nx p (xs @ ys) \<Longrightarrow> list_walk (length xs) nx p q = Some (case ys of [] \<Rightarrow> None | y # _ \<Rightarrow> Some y, if xs = [] then q else Some (last xs))"
proof (induction xs arbitrary: p q)
  case Nil
  then show ?case by (cases ys) auto
next
  case (Cons x xs)
  then show ?case by (cases xs) auto
qed

lemma chain_prefix:
  "chain nx p (xs @ ys) \<Longrightarrow> distinct (xs @ ys) \<Longrightarrow> xs \<noteq> [] \<Longrightarrow>
    chain (nx(last xs := None)) p xs \<and> chain (nx(last xs := None)) (case ys of [] \<Rightarrow> None | y # _ \<Rightarrow> Some y) ys"
proof (induction xs arbitrary: p)
  case (Cons x xs)
  show ?case
  proof (cases "xs = []")
    case True
    have c: "chain (nx(x := None)) q ys \<longleftrightarrow> chain nx q ys" for q using Cons.prems(2) by (intro chain_upd) simp
    have "chain nx (case ys of [] \<Rightarrow> None | y # _ \<Rightarrow> Some y) ys" using Cons.prems(1) True by (cases ys) simp_all
    moreover have "last (x # xs) = x" using True by simp
    ultimately show ?thesis using Cons.prems True by (simp only: c) simp
  next
    case False
    then have "last xs \<noteq> x" using Cons.prems(2) last_in_set [of xs] by auto
    then show ?thesis using Cons False by auto
  qed
qed simp

lemma list_alloc_good:
  assumes p: "pool s (xs @ ys)" and n: "length xs = (len + 123) div 124" "0 < len"
  obtains s' where "mbuf_list_alloc len s = Some (Some (hd xs), s')" "pool s' ys" "chain (mb_next s') (Some (hd xs)) xs"
    "mb_data s' = mb_data s" "\<And>i. i \<notin> set xs \<Longrightarrow> mb_next s' i = mb_next s i" "\<not> mb_mutex s'"
proof -
  have x: "xs \<noteq> []" using n by auto
  have ch: "chain (mb_next s) (mb_first s) (xs @ ys)" "distinct (xs @ ys)" "mb_used s + length (xs @ ys) = 64" "mb_max s = 64"
    using p by (simp_all add: pool_def)
  have f: "mb_first s = Some (hd xs)" using ch(1) x by (cases xs) auto
  define s' where "s' = mb_unlock ((mb_lock s)\<lparr>mb_next := (mb_next s)(last xs := None),
    mb_first := (case ys of [] \<Rightarrow> None | y # _ \<Rightarrow> Some y), mb_last := endp ys, mb_used := mb_used s + length xs\<rparr>)"
  have "endp (xs @ ys) = endp ys" if "ys \<noteq> []" using that by (simp add: endp_def)
  then have l: "ys \<noteq> [] \<Longrightarrow> mb_last s = endp ys" using p by (simp add: pool_def)
  have w: "list_walk ((len + 123) div 124) (mb_next s) (mb_first s) (mb_first s) =
      Some (case ys of [] \<Rightarrow> None | y # _ \<Rightarrow> Some y, Some (last xs))"
    using list_walk_chain [OF ch(1), of "mb_first s"] x n(1) by simp
  have u: "(mb_used s + length xs) mod 256 = mb_used s + length xs" "\<not> mb_max s - mb_used s < length xs"
    using ch(3,4) by simp_all
  have "mbuf_list_alloc len s = Some (Some (hd xs), s')"
  proof (cases ys)
    case Nil
    then show ?thesis using w u f n(1) [symmetric] by (simp add: mbuf_list_alloc_def s'_def mb_lock_def mb_unlock_def)
  next
    case (Cons y zs)
    then show ?thesis using w u f l n(1) [symmetric] by (simp add: mbuf_list_alloc_def s'_def mb_lock_def mb_unlock_def)
  qed
  moreover note cp = chain_prefix [OF ch(1,2) x]
  moreover have "pool s' ys"
    using p cp by (simp add: pool_def s'_def mb_lock_def mb_unlock_def)
  ultimately show ?thesis
    using that [of s'] f by (simp add: s'_def ch(1)) (metis ch(1) x f fun_upd_other last_in_set mb_lock_def)
qed

lemma list_write_good:
  assumes "chain (mb_next s) p xs" and "distinct xs" and "length src \<le> MBUF_DATA_SIZE * length xs"
  shows "\<exists>s'. list_write_loop p src s = ([], s') \<and> take (length src) (content s' xs) = src \<and> mb_next s' = mb_next s \<and>
    mb_mutex s' = mb_mutex s \<and> (\<forall>fs. pool s' fs = pool s fs) \<and> (\<forall>i. i \<notin> set xs \<longrightarrow> mb_data s' i = mb_data s i)"
  using assms
proof (induction xs arbitrary: p src s)
  case Nil
  then show ?case by (subst list_write_loop.simps) simp
next
  case (Cons i xs)
  have p: "p = Some i" and ch: "chain (mb_next s) (mb_next s i) xs" and i: "i \<notin> set xs" "distinct xs" using Cons.prems by auto
  show ?case
  proof (cases "MBUF_DATA_SIZE \<le> length src")
    case True
    define t where "t = mb_write i 0 (take MBUF_DATA_SIZE src) s"
    obtain s' where s': "list_write_loop (mb_next s i) (drop MBUF_DATA_SIZE src) t = ([], s')"
      "take (length src - MBUF_DATA_SIZE) (content s' xs) = drop MBUF_DATA_SIZE src" "mb_next s' = mb_next t" "mb_mutex s' = mb_mutex t"
      "\<forall>fs. pool s' fs = pool t fs" "\<forall>j. j \<notin> set xs \<longrightarrow> mb_data s' j = mb_data t j"
    proof -
      have "length (drop MBUF_DATA_SIZE src) \<le> MBUF_DATA_SIZE * length xs" "chain (mb_next t) (mb_next s i) xs"
        using Cons.prems(3) ch by (simp_all add: t_def)
      from Cons.IH [OF this(2) i(2) this(1)] that show ?thesis unfolding length_drop by blast
    qed
    have "mb_read i 0 MBUF_DATA_SIZE s' = mb_read i 0 MBUF_DATA_SIZE t" using s'(6) i(1) by (simp add: mb_read_def)
    also have "\<dots> = take MBUF_DATA_SIZE src" using read_write [of 0 "take MBUF_DATA_SIZE src" i s] True by (simp add: t_def)
    finally have "take (length src) (content s' (i # xs)) = src" using s'(2) True by simp
    moreover have "list_write_loop p src s = ([], s')"
      using p True s'(1) by (subst list_write_loop.simps) (simp add: t_def)
    ultimately show ?thesis using s'(3-6) by (intro exI [of _ s']) (simp add: t_def mb_write_def pool_def)
  next
    case False
    define t where "t = (if src = [] then s else mb_write i 0 src s)"
    have "list_write_loop p src s = ([], t)" using p False by (subst list_write_loop.simps) (simp add: t_def)
    moreover have "take (length src) (content t (i # xs)) = src"
      using read_write [of 0 src i s] False by (simp add: t_def)
    ultimately show ?thesis by (intro exI [of _ t]) (simp add: t_def mb_write_def pool_def)
  qed
qed

lemma list_read_good:
  "chain (mb_next s) p xs \<Longrightarrow> n \<le> MBUF_DATA_SIZE * length xs \<Longrightarrow> list_read_loop p n s = take n (content s xs)"
proof (induction xs arbitrary: p n)
  case Nil
  then show ?case by (subst list_read_loop.simps) simp
next
  case (Cons i xs)
  then show ?case
    using read_part [of 0 n i s] by (subst list_read_loop.simps) (auto simp: not_le)
qed

section \<open>Properties\<close>

text \<open>C34: The byte queues of the stack, any number of which share the pool, are first-in first-out streams: over every
  sequence of \<open>mbuf_queue_add\<close> and \<open>mbuf_queue_remove\<close> calls no loop runs into a null pointer or stalls, the pool stays
  consistent, and for each queue the bytes delivered followed by the bytes still queued are the bytes queued at the
  beginning followed by those accepted, whatever is done to the other queues.\<close>

theorem mbuf_streams:
  assumes "bufs_inv N b" and "\<forall>x \<in> set ops. op_queue x < N"
  shows "\<exists>a o' b'. fifo_run bufs_add bufs_remove ops b = Some (a, o', b') \<and> bufs_inv N b' \<and>
    (\<forall>j<N. o' j @ bufs_bytes j b' = bufs_bytes j b @ a j)"
  using assms by (rule mbufs.run_streams)

theorem mbuf_streams_witness:
  "\<forall>Q s. \<exists>a o' b'. fifo_run bufs_add bufs_remove [Put 0 [1, 2, 3], Put 1 [9], Take 0 2] (\<lambda>j. mbuf_queue_init (Q j), mbuf_init s) = Some (a, o', b') \<and>
    bufs_inv 2 b' \<and> o' 0 @ bufs_bytes 0 b' = bufs_bytes 0 (\<lambda>j. mbuf_queue_init (Q j), mbuf_init s) @ a 0"
proof (intro allI)
  fix Q s
  show "\<exists>a o' b'. fifo_run bufs_add bufs_remove [Put 0 [1, 2, 3], Put 1 [9], Take 0 2] (\<lambda>j. mbuf_queue_init (Q j), mbuf_init s) = Some (a, o', b') \<and>
      bufs_inv 2 b' \<and> o' 0 @ bufs_bytes 0 b' = bufs_bytes 0 (\<lambda>j. mbuf_queue_init (Q j), mbuf_init s) @ a 0"
    using mbuf_streams [OF init_bufs(1) [of 2 Q s], of "[Put 0 [1, 2, 3], Put 1 [9], Take 0 2]"] by fastforce
qed

text \<open>Reading ahead in a queue returns the bytes from the offset on and changes nothing; trimming drops what removing
  would deliver; freeing gives all blocks back. Before all this, the initialised pool satisfies the invariant.\<close>

theorem mbuf_queue_ops:
  assumes "good q s fs xs"
  shows "mbuf_queue_get q offs n s = Some (take n (drop offs (queue_bytes q s))) \<and>
    mbuf_queue_trim q n s = map_option (\<lambda>(d, q, s). (length d, q, s)) (mbuf_queue_remove q n s) \<and>
    (\<exists>q' s'. mbuf_queue_free q s = Some (q', s') \<and> pool s' (fs @ xs) \<and> queue_bytes q' s' = [])"
proof -
  have b: "queue_bytes q s = bytes q s xs" using assms by (simp add: good_def queue_bytes_eq)
  obtain q' s' where f: "mbuf_queue_free q s = Some (q', s')" "good q' s' (fs @ xs) []" using free_good [OF assms] by blast
  then have "queue_bytes q' s' = bytes q' s' []" by (simp add: good_def queue_bytes_eq)
  then have "queue_bytes q' s' = []" by (simp add: bytes_def)
  then show ?thesis using f get_good [OF assms, of offs n] trim_remove [of q n s] b by (auto simp: good_def)
qed

theorem mbuf_queue_ops_witness:
  "\<forall>q s. mbuf_queue_get (mbuf_queue_init q) 3 4 (mbuf_init s) = Some (take 4 (drop 3 (queue_bytes (mbuf_queue_init q) (mbuf_init s))))"
proof (intro allI)
  fix q s
  have "good (mbuf_queue_init q) (mbuf_init s) [0..<MBUF_POOL_SIZE] []"
    using init_pool [of s] by (simp add: good_def queue_def mbuf_queue_init_def)
  from mbuf_queue_ops [OF this] show "mbuf_queue_get (mbuf_queue_init q) 3 4 (mbuf_init s) =
    Some (take 4 (drop 3 (queue_bytes (mbuf_queue_init q) (mbuf_init s))))" by blast
qed

text \<open>C35: A datagram of at least one byte that fits the free blocks: the list that \<open>mbuf_list_alloc\<close> takes holds it,
  \<open>mbuf_list_read\<close> returns what \<open>mbuf_list_write\<close> stored, and after \<open>mbuf_list_free\<close> the pool has all its blocks.\<close>

theorem mbuf_list_roundtrip:
  assumes "pool s fs" and "d \<noteq> []" and "length d \<le> MBUF_DATA_SIZE * length fs"
  shows "\<exists>p s1 s2 s3 gs. mbuf_list_alloc (length d) s = Some (p, s1) \<and> mbuf_list_write p d s1 = (length d, s2) \<and>
    mbuf_list_read p (length d) s2 = d \<and> mbuf_list_free p s2 = Some s3 \<and> pool s3 gs \<and> set gs = set fs"
proof -
  define n where "n = (length d + 123) div 124"
  have "n \<le> (124 * length fs + 123) div 124" unfolding n_def using assms(3) by (intro div_le_mono) simp
  also have "\<dots> = length fs" by simp
  finally have n: "n \<le> length fs" .
  define xs ys where "xs = take n fs" and "ys = drop n fs"
  have fs: "fs = xs @ ys" "length xs = n" using n by (simp_all add: xs_def ys_def)
  have dist: "distinct xs" "set ys \<inter> set xs = {}" "set xs \<subseteq> {..<MBUF_POOL_SIZE}" using assms(1) fs by (auto simp: pool_def)
  obtain s1 where s1: "mbuf_list_alloc (length d) s = Some (Some (hd xs), s1)" "pool s1 ys" "chain (mb_next s1) (Some (hd xs)) xs"
    using list_alloc_good [of s xs ys "length d"] assms fs n_def by blast
  have len: "length d \<le> MBUF_DATA_SIZE * length xs" unfolding fs(2) n_def by simp
  obtain s2 where s2: "list_write_loop (Some (hd xs)) d s1 = ([], s2)" "take (length d) (content s2 xs) = d" "mb_next s2 = mb_next s1" "pool s2 ys"
    using list_write_good [OF s1(3) dist(1) len] s1(2) by blast
  have r: "mbuf_list_read (Some (hd xs)) (length d) s2 = d"
    using list_read_good [of s2 "Some (hd xs)" xs "length d"] s1(3) s2 len by (simp add: mbuf_list_read_def)
  obtain s3 where s3: "release_loop (Some (hd xs)) (mb_lock s2) = Some s3" "pool s3 (ys @ xs)"
    using release_loop_good [of "mb_lock s2" ys "Some (hd xs)" xs] s1(3) s2(3,4) dist by auto
  have "mbuf_list_free (Some (hd xs)) s2 = Some (mb_unlock s3)" using s3(1) by (simp add: mbuf_list_free_def)
  moreover have "pool (mb_unlock s3) (ys @ xs)" "set (ys @ xs) = set fs" using s3(2) fs by auto
  moreover have "mbuf_list_write (Some (hd xs)) d s1 = (length d, s2)" using s2(1) by (simp add: mbuf_list_write_def)
  ultimately show ?thesis using s1(1) r by blast
qed

theorem mbuf_list_roundtrip_witness:
  "\<forall>s. \<exists>p s1 s2 s3 gs. mbuf_list_alloc (length [1, 2, 3 :: u8]) (mbuf_init s) = Some (p, s1) \<and> mbuf_list_write p [1, 2, 3] s1 = (length [1, 2, 3 :: u8], s2) \<and>
    mbuf_list_read p (length [1, 2, 3 :: u8]) s2 = [1, 2, 3] \<and> mbuf_list_free p s2 = Some s3 \<and> pool s3 gs \<and> set gs = set [0..<MBUF_POOL_SIZE]"
  by (intro allI mbuf_list_roundtrip [OF init_pool]) simp_all

text \<open>Two faults of \<open>mbuf_list_alloc\<close>. For an empty datagram it returns the first free block without taking it and cuts
  the free list behind it: all other free blocks are lost. For a datagram larger than the free memory it returns
  with the mutex of the pool locked.\<close>

theorem mbuf_list_alloc_faults:
  assumes "pool s (f # fs)" and "MBUF_DATA_SIZE * Suc (length fs) < len"
  shows "(\<exists>s'. mbuf_list_alloc 0 s = Some (Some f, s') \<and> mb_used s' = mb_used s \<and> chain (mb_next s') (mb_first s') [f]) \<and>
    mbuf_list_alloc len s = Some (None, s\<lparr>mb_mutex := True\<rparr>)"
proof
  have p: "mb_first s = Some f" "mb_used s + Suc (length fs) = 64" "mb_max s = 64" using assms(1) by (simp_all add: pool_def)
  then have "mb_used s mod 256 = mb_used s" by simp
  then show "\<exists>s'. mbuf_list_alloc 0 s = Some (Some f, s') \<and> mb_used s' = mb_used s \<and> chain (mb_next s') (mb_first s') [f]"
    using p by (simp add: mbuf_list_alloc_def mb_lock_def mb_unlock_def Let_def)
  have "124 * Suc (length fs) + 1 + 123 \<le> len + 123" using assms(2) by simp
  then have "(124 * Suc (length fs) + 1 + 123) div 124 \<le> (len + 123) div 124" by (rule div_le_mono)
  then have "Suc (length fs) < (len + 123) div 124" by simp
  then have "mb_max s - mb_used s < (len + 123) div 124" using p by simp
  then show "mbuf_list_alloc len s = Some (None, s\<lparr>mb_mutex := True\<rparr>)" by (simp add: mbuf_list_alloc_def mb_lock_def)
qed

theorem mbuf_list_alloc_faults_witness:
  "\<forall>s. mbuf_list_alloc 8000 (mbuf_init s) = Some (None, (mbuf_init s)\<lparr>mb_mutex := True\<rparr>)"
proof
  fix s
  have "pool (mbuf_init s) (0 # [1..<MBUF_POOL_SIZE])" using init_pool [of s] by (simp add: upt_conv_Cons)
  from mbuf_list_alloc_faults [OF this, of 8000] show "mbuf_list_alloc 8000 (mbuf_init s) = Some (None, (mbuf_init s)\<lparr>mb_mutex := True\<rparr>)"
    by simp
qed

end
