(* ===== verification/Net_Pcb.thy ===== *)
theory Net_Pcb
  imports Net_Mbuf
begin

text \<open>
  Protocol control blocks (\<^verbatim>\<open>src/src/sdk/libtcpip/pcb\<close>): singly linked lists of blocks with a pointer to the last
  link, and the two searches by addresses and ports. The links of all lists are one array \<open>nx\<close>; a \<open>last\<close> pointer
  names a block or, as in \<open>Net_Mbuf\<close>, the \<open>first\<close> field of its own list. A search that never ends, on a list that is
  a cycle, gives \<open>None\<close>.

  A list stands for a sequence of block numbers (\<open>plist\<close>), on which insertion appends, removal deletes and the two
  searches select an entry; operations on one list leave every other one alone.
\<close>

section \<open>Definitions\<close>

record pcb =
  inp_faddr :: u32
  inp_laddr :: u32
  inp_fport :: u16
  inp_lport :: u16

record pcb_list =
  pl_first :: "nat option"
  pl_last :: lastp

type_synonym links = "nat \<Rightarrow> nat option"

abbreviation INADDR_ANY :: u32 where "INADDR_ANY \<equiv> 0"

text \<open>\<open>q->next\<close>, where \<open>q\<close> may be the head of the list.\<close>

fun next_of :: "lastp \<Rightarrow> pcb_list \<Rightarrow> links \<Rightarrow> nat option" where
  "next_of Head l nx = pl_first l"
| "next_of (Buf i) l nx = nx i"

fun set_next :: "lastp \<Rightarrow> nat option \<Rightarrow> pcb_list \<times> links \<Rightarrow> pcb_list \<times> links" where
  "set_next Head v (l, nx) = (l\<lparr>pl_first := v\<rparr>, nx)"
| "set_next (Buf i) v (l, nx) = (l, nx(i := v))"

definition pcb_list_init :: pcb_list where
  "pcb_list_init = \<lparr>pl_first = None, pl_last = Head\<rparr>"

definition pcb_insert :: "nat \<Rightarrow> pcb_list \<times> links \<Rightarrow> pcb_list \<times> links" where
  "pcb_insert p = (\<lambda>(l, nx).
    let (l, nx) = set_next (pl_last l) (Some p) (l, nx);
        l = l\<lparr>pl_last := Buf p\<rparr>
    in (l, nx(p := None)))"

partial_function (option) pcb_remove_loop :: "lastp \<Rightarrow> nat \<Rightarrow> pcb_list \<times> links \<Rightarrow> (int \<times> pcb_list \<times> links) option" where
  "pcb_remove_loop q p ln =
    (case next_of q (fst ln) (snd ln) of
       None \<Rightarrow> Some (- 1, ln)
     | Some m \<Rightarrow>
         if p = m then
           (let (l, nx) = set_next q (snd ln m) ln;
                l = (if pl_last l = Buf p then l\<lparr>pl_last := q\<rparr> else l)
            in Some (0, l, nx))
         else pcb_remove_loop (Buf m) p ln)"

definition pcb_remove :: "nat \<Rightarrow> pcb_list \<times> links \<Rightarrow> (int \<times> pcb_list \<times> links) option" where
  "pcb_remove p ln = pcb_remove_loop Head p ln"

definition pcb_remove_head :: "pcb_list \<times> links \<Rightarrow> nat option \<times> pcb_list \<times> links" where
  "pcb_remove_head = (\<lambda>(l, nx).
    case pl_first l of
      None \<Rightarrow> (None, l, nx)
    | Some p \<Rightarrow>
        (let l = l\<lparr>pl_first := nx p\<rparr>;
             l = (if pl_last l = Buf p then l\<lparr>pl_last := Head\<rparr> else l)
         in (Some p, l, nx)))"

definition pcb_move :: "nat \<Rightarrow> pcb_list \<Rightarrow> pcb_list \<Rightarrow> links \<Rightarrow> (int \<times> pcb_list \<times> pcb_list \<times> links) option" where
  "pcb_move p from to nx =
    bind (pcb_remove p (from, nx)) (\<lambda>(ret, from, nx).
      if ret < 0 then Some (ret, from, to, nx)
      else let (to, nx) = pcb_insert p (to, nx) in Some (ret, from, to, nx))"

text \<open>The loop of \<open>__lookup\<close> and of \<open>pcb_lookup\<close>: to the first block that satisfies a test.\<close>

partial_function (option) find_loop :: "(nat \<Rightarrow> bool) \<Rightarrow> lastp \<Rightarrow> pcb_list \<times> links \<Rightarrow> nat option option" where
  "find_loop P q ln =
    (case next_of q (fst ln) (snd ln) of
       None \<Rightarrow> Some None
     | Some m \<Rightarrow> if P m then Some (Some m) else find_loop P (Buf m) ln)"

definition pcb_find :: "nat \<Rightarrow> pcb_list \<Rightarrow> links \<Rightarrow> int option" where
  "pcb_find p l nx = map_option (\<lambda>r. if r = None then - 1 else 0) (find_loop (\<lambda>m. m = p) Head (l, nx))"

text \<open>The tests of \<open>pcb_wildlookup\<close> on one block: the wildcard count, and whether they end in \<open>continue\<close>.\<close>

definition wild_local :: "'a pcb_scheme \<Rightarrow> u32 \<Rightarrow> nat \<Rightarrow> nat \<times> bool" where
  "wild_local b laddr w =
    (if inp_laddr b \<noteq> INADDR_ANY
     then if laddr = INADDR_ANY then (w + 1, False) else (w, inp_laddr b \<noteq> laddr)
     else if laddr \<noteq> INADDR_ANY then (w + 1, False) else (w, False))"

definition wild_foreign :: "'a pcb_scheme \<Rightarrow> u32 \<Rightarrow> u16 \<Rightarrow> nat \<Rightarrow> nat \<times> bool" where
  "wild_foreign b faddr fport w =
    (if inp_faddr b \<noteq> INADDR_ANY
     then if faddr = INADDR_ANY then (w + 1, False) else (w, inp_faddr b \<noteq> faddr \<or> inp_fport b \<noteq> fport)
     else if faddr \<noteq> INADDR_ANY then (w + 1, False) else (w, False))"

text \<open>The body of the loop on block \<open>m\<close>: \<open>match\<close>, \<open>matchwild\<close> and \<open>wildcard\<close>, which is set to 0 only once, before the
  loop; and whether the loop is left.\<close>

definition wild_step ::
    "u32 \<Rightarrow> u16 \<Rightarrow> u32 \<Rightarrow> u16 \<Rightarrow> 'a pcb_scheme \<Rightarrow> nat \<Rightarrow> nat option \<times> nat \<times> nat \<Rightarrow> (nat option \<times> nat \<times> nat) \<times> bool" where
  "wild_step faddr fport laddr lport b m = (\<lambda>(match, matchwild, wildcard).
    if inp_lport b \<noteq> lport then ((match, matchwild, wildcard), False)
    else case wild_local b laddr wildcard of (wildcard, skip) \<Rightarrow>
      if skip then ((match, matchwild, wildcard), False)
      else case wild_foreign b faddr fport wildcard of (wildcard, skip) \<Rightarrow>
        if skip then ((match, matchwild, wildcard), False)
        else if wildcard < matchwild then
          if wildcard = 0 then ((Some m, matchwild, wildcard), True) else ((Some m, wildcard, wildcard), False)
        else ((match, matchwild, wildcard), False))"

partial_function (option) wild_loop ::
    "(nat \<Rightarrow> nat option \<times> nat \<times> nat \<Rightarrow> (nat option \<times> nat \<times> nat) \<times> bool) \<Rightarrow> lastp \<Rightarrow> nat option \<times> nat \<times> nat \<Rightarrow> pcb_list \<times> links \<Rightarrow> nat option option" where
  "wild_loop step q st ln =
    (case next_of q (fst ln) (snd ln) of
       None \<Rightarrow> Some (fst st)
     | Some m \<Rightarrow> if snd (step m st) then Some (fst (fst (step m st))) else wild_loop step (Buf m) (fst (step m st)) ln)"

definition pcb_wildlookup :: "u32 \<Rightarrow> u16 \<Rightarrow> u32 \<Rightarrow> u16 \<Rightarrow> pcb_list \<Rightarrow> links \<Rightarrow> (nat \<Rightarrow> 'a pcb_scheme) \<Rightarrow> nat option option" where
  "pcb_wildlookup faddr fport laddr lport l nx B =
    wild_loop (\<lambda>m. wild_step faddr fport laddr lport (B m) m) Head (None, 3, 0) (l, nx)"

definition pcb_lookup :: "u32 \<Rightarrow> u16 \<Rightarrow> u32 \<Rightarrow> u16 \<Rightarrow> pcb_list \<Rightarrow> links \<Rightarrow> (nat \<Rightarrow> 'a pcb_scheme) \<Rightarrow> nat option option" where
  "pcb_lookup faddr fport laddr lport l nx B =
    find_loop (\<lambda>m. inp_lport (B m) = lport \<and> inp_laddr (B m) = laddr \<and> inp_faddr (B m) = faddr \<and> inp_fport (B m) = fport)
      Head (l, nx)"

definition pcb_bind :: "u32 \<Rightarrow> u16 \<Rightarrow> 'a pcb_scheme \<Rightarrow> int \<times> 'a pcb_scheme" where
  "pcb_bind addr port b = (0, b\<lparr>inp_lport := port, inp_laddr := addr\<rparr>)"

abbreviation EADDRNOTAVAIL :: int where "EADDRNOTAVAIL \<equiv> 99"

definition pcb_connect :: "u32 \<Rightarrow> u16 \<Rightarrow> 'a pcb_scheme \<Rightarrow> int \<times> 'a pcb_scheme" where
  "pcb_connect addr port b =
    (if port = 0 then (- EADDRNOTAVAIL, b) else (0, b\<lparr>inp_faddr := addr, inp_fport := port\<rparr>))"

definition pcb_getnext :: "nat option \<Rightarrow> pcb_list \<Rightarrow> links \<Rightarrow> nat option" where
  "pcb_getnext p l nx = next_of (case p of None \<Rightarrow> Head | Some i \<Rightarrow> Buf i) l nx"

definition pcb_getfirst :: "pcb_list \<Rightarrow> links \<Rightarrow> nat option" where
  "pcb_getfirst l nx = pcb_getnext None l nx"

section \<open>Lists of blocks\<close>

definition plist :: "pcb_list \<Rightarrow> links \<Rightarrow> nat list \<Rightarrow> bool" where
  "plist l nx xs \<longleftrightarrow> chain nx (pl_first l) xs \<and> pl_last l = endp xs \<and> distinct xs"

lemma plist_init [simp]: "plist pcb_list_init nx []"
  by (simp add: plist_def pcb_list_init_def)

lemma plist_distinct: "plist l nx xs \<Longrightarrow> distinct xs"
  by (simp add: plist_def)

lemma plist_frame: "plist l nx xs \<Longrightarrow> (\<And>i. i \<in> set xs \<Longrightarrow> nx' i = nx i) \<Longrightarrow> plist l nx' xs"
  unfolding plist_def using chain_cong [of xs nx nx' "pl_first l"] by simp

lemma chain_cut: "chain nx p (ys @ zs) \<Longrightarrow> chain nx (if ys = [] then p else nx (last ys)) zs"
  by (induction ys arbitrary: p) auto

lemma next_of_endp:
  assumes "chain nx (pl_first l) (ys @ zs)"
  shows "next_of (endp ys) l nx = (if zs = [] then None else Some (hd zs))"
  using chain_cut [OF assms] by (cases zs; cases ys rule: rev_cases) (simp_all split: if_splits)

lemma chain_skip:
  "chain nx p (ys @ x # zs) \<Longrightarrow> ys \<noteq> [] \<Longrightarrow> distinct (ys @ x # zs) \<Longrightarrow> chain (nx(last ys := nx x)) p (ys @ zs)"
proof (induction ys arbitrary: p)
  case (Cons y ys)
  show ?case
  proof (cases "ys = []")
    case False
    then have "last ys \<noteq> y" using Cons.prems(3) last_in_set [of ys] by auto
    then show ?thesis using Cons False by simp
  next
    case True
    have "chain (nx(y := nx x)) (nx x) zs = chain nx (nx x) zs" using Cons.prems(3) by (intro chain_upd) auto
    then have "chain (nx(y := nx x)) p (y # zs)" using Cons.prems(1) True by (simp only: chain.simps fun_upd_same append.simps)
    then show ?thesis using True by (simp only: append.simps last.simps simp_thms if_True)
  qed
qed simp

lemma insert_plist:
  assumes "plist l nx xs" and "p \<notin> set xs"
  shows "\<exists>l' nx'. pcb_insert p (l, nx) = (l', nx') \<and> plist l' nx' (xs @ [p]) \<and> (\<forall>i. i \<notin> set xs \<longrightarrow> i \<noteq> p \<longrightarrow> nx' i = nx i)"
proof (cases "xs = []")
  case True
  then show ?thesis using assms by (simp add: plist_def pcb_insert_def)
next
  case False
  then have "pcb_insert p (l, nx) = (l\<lparr>pl_last := Buf p\<rparr>, nx(last xs := Some p, p := None))"
    using assms by (simp add: plist_def pcb_insert_def endp_def)
  then show ?thesis using assms False chain_snoc [of nx "pl_first l" xs p] by (auto simp: plist_def)
qed

lemma remove_here:
  assumes "plist l nx (ys @ p # zs)"
  shows "\<exists>l' nx'. pcb_remove_loop (endp ys) p (l, nx) = Some (0, l', nx') \<and> plist l' nx' (ys @ zs) \<and>
    (\<forall>i. i \<notin> set ys \<longrightarrow> nx' i = nx i)"
proof -
  have c: "chain nx (pl_first l) (ys @ p # zs)" "pl_last l = endp (ys @ p # zs)" "distinct (ys @ p # zs)"
    using assms by (simp_all add: plist_def)
  obtain l1 nx1 where s: "set_next (endp ys) (nx p) (l, nx) = (l1, nx1)" by fastforce
  have l1: "pl_last l1 = pl_last l" "chain nx1 (pl_first l1) (ys @ zs)" "\<forall>i. i \<notin> set ys \<longrightarrow> nx1 i = nx i"
    using s c chain_skip [OF c(1) _ c(3)] chain_cut [OF c(1)]
    by (cases ys rule: rev_cases; fastforce simp: endp_def)+
  have e: "pl_last l = Buf p \<longleftrightarrow> zs = []" using c(2,3) by (auto simp: endp_def split: if_splits)
  have z: "endp (ys @ p # zs) = endp (ys @ zs)" if "zs \<noteq> []" using that by (simp add: endp_def)
  have "pcb_remove_loop (endp ys) p (l, nx) = Some (0, if zs = [] then l1\<lparr>pl_last := endp ys\<rparr> else l1, nx1)"
    using next_of_endp [OF c(1)] s e l1(1) by (subst pcb_remove_loop.simps) auto
  moreover have "plist (if zs = [] then l1\<lparr>pl_last := endp ys\<rparr> else l1) nx1 (ys @ zs)"
    using l1 c(2,3) z by (cases "zs = []") (simp_all add: plist_def)
  ultimately show ?thesis using l1(3) by blast
qed

lemma remove_loop_skip:
  assumes "plist l nx (ys @ zs @ us)" and "p \<notin> set zs"
  shows "pcb_remove_loop (endp ys) p (l, nx) = pcb_remove_loop (endp (ys @ zs)) p (l, nx)"
  using assms
proof (induction zs arbitrary: ys)
  case (Cons z zs)
  have "pcb_remove_loop (endp ys) p (l, nx) = pcb_remove_loop (endp (ys @ [z])) p (l, nx)"
    using next_of_endp [of nx l ys "z # zs @ us"] Cons.prems by (subst pcb_remove_loop.simps) (simp add: plist_def)
  then show ?case using Cons.IH [of "ys @ [z]"] Cons.prems by simp
qed simp

lemma remove_plist:
  assumes "plist l nx xs"
  shows "if p \<in> set xs
    then \<exists>l' nx'. pcb_remove p (l, nx) = Some (0, l', nx') \<and> plist l' nx' (remove1 p xs) \<and> (\<forall>i. i \<notin> set xs \<longrightarrow> nx' i = nx i)
    else pcb_remove p (l, nx) = Some (- 1, l, nx)"
proof (cases "p \<in> set xs")
  case True
  then obtain ys zs where x: "xs = ys @ p # zs" "p \<notin> set ys" by (meson split_list_first)
  then have "pcb_remove p (l, nx) = pcb_remove_loop (endp ys) p (l, nx)"
    using remove_loop_skip [of l nx "[]" ys "p # zs" p] assms by (simp add: pcb_remove_def)
  then show ?thesis using remove_here [of l nx ys p zs] assms x True by (auto simp: remove1_append)
next
  case False
  then have "pcb_remove p (l, nx) = pcb_remove_loop (endp xs) p (l, nx)"
    using remove_loop_skip [of l nx "[]" xs "[]" p] assms by (simp add: pcb_remove_def)
  also have "\<dots> = Some (- 1, l, nx)"
    using next_of_endp [of nx l xs "[]"] assms by (subst pcb_remove_loop.simps) (simp add: plist_def)
  finally show ?thesis using False by simp
qed

lemma remove_head_plist:
  assumes "plist l nx xs"
  shows "\<exists>l'. pcb_remove_head (l, nx) = (if xs = [] then None else Some (hd xs), l', nx) \<and> plist l' nx (tl xs)"
proof (cases xs)
  case Nil
  then show ?thesis using assms by (simp add: plist_def pcb_remove_head_def)
next
  case (Cons x ys)
  then have "pl_last l = Buf x \<longleftrightarrow> ys = []" using assms by (auto simp: plist_def endp_def split: if_splits)
  then show ?thesis using assms Cons by (auto simp: plist_def pcb_remove_head_def endp_def)
qed

lemma find_loop_plist: "plist l nx (ys @ zs) \<Longrightarrow> find_loop P (endp ys) (l, nx) = Some (List.find P zs)"
proof (induction zs arbitrary: ys)
  case Nil
  then show ?case using next_of_endp [of nx l ys "[]"] by (subst find_loop.simps) (simp add: plist_def)
next
  case (Cons z zs)
  then show ?case
    using next_of_endp [of nx l ys "z # zs"] Cons.IH [of "ys @ [z]"] by (subst find_loop.simps) (simp add: plist_def)
qed

lemma find_loop_list: "plist l nx xs \<Longrightarrow> find_loop P Head (l, nx) = Some (List.find P xs)"
  using find_loop_plist [of l nx "[]" xs P] by simp

lemma find_plist: "plist l nx xs \<Longrightarrow> pcb_find p l nx = Some (if p \<in> set xs then 0 else - 1)"
  by (auto simp: pcb_find_def find_loop_list find_None_iff)

lemma move_plist:
  assumes "plist from nx xs" and "plist to nx ys" and "set xs \<inter> set ys = {}"
  shows "if p \<in> set xs
    then \<exists>from' to' nx'. pcb_move p from to nx = Some (0, from', to', nx') \<and> plist from' nx' (remove1 p xs) \<and>
      plist to' nx' (ys @ [p]) \<and> (\<forall>i. i \<notin> set xs \<union> set ys \<longrightarrow> nx' i = nx i)
    else pcb_move p from to nx = Some (- 1, from, to, nx)"
proof (cases "p \<in> set xs")
  case True
  then obtain l1 nx1 where r: "pcb_remove p (from, nx) = Some (0, l1, nx1)" "plist l1 nx1 (remove1 p xs)"
    "\<forall>i. i \<notin> set xs \<longrightarrow> nx1 i = nx i" using remove_plist [OF assms(1), of p] by auto
  have "p \<notin> set ys" using True assms(3) by auto
  moreover have "plist to nx1 ys" using plist_frame [OF assms(2)] r(3) assms(3) by blast
  ultimately obtain l2 nx2 where i: "pcb_insert p (to, nx1) = (l2, nx2)" "plist l2 nx2 (ys @ [p])"
    "\<forall>i. i \<notin> set ys \<longrightarrow> i \<noteq> p \<longrightarrow> nx2 i = nx1 i" using insert_plist by blast
  have "distinct xs" using assms(1) by (rule plist_distinct)
  then have n: "\<forall>i \<in> set (remove1 p xs). nx2 i = nx1 i" using i(3) assms(3) by auto
  have "plist l1 nx2 (remove1 p xs)" using plist_frame [OF r(2)] n by blast
  then show ?thesis using True r(1,3) i by (auto simp: pcb_move_def)
next
  case False
  then show ?thesis using remove_plist [OF assms(1), of p] by (simp add: pcb_move_def)
qed

section \<open>The searches\<close>

text \<open>A block fits a segment when its local port is the segment's and each of its addresses is the segment's or a
  wildcard on either side; \<open>wilds\<close> is what it adds to the wildcard count.\<close>

definition fits :: "u32 \<Rightarrow> u16 \<Rightarrow> u32 \<Rightarrow> u16 \<Rightarrow> 'a pcb_scheme \<Rightarrow> bool" where
  "fits faddr fport laddr lport b \<longleftrightarrow> inp_lport b = lport \<and>
    (inp_laddr b = INADDR_ANY \<or> laddr = INADDR_ANY \<or> inp_laddr b = laddr) \<and>
    (inp_faddr b = INADDR_ANY \<or> faddr = INADDR_ANY \<or> inp_faddr b = faddr \<and> inp_fport b = fport)"

definition wilds :: "u32 \<Rightarrow> u16 \<Rightarrow> u32 \<Rightarrow> u16 \<Rightarrow> 'a pcb_scheme \<Rightarrow> nat" where
  "wilds faddr fport laddr lport b =
    (if inp_lport b \<noteq> lport \<or> inp_laddr b \<noteq> INADDR_ANY \<and> laddr \<noteq> INADDR_ANY \<and> inp_laddr b \<noteq> laddr then 0
     else of_bool ((inp_laddr b = INADDR_ANY) \<noteq> (laddr = INADDR_ANY)) + of_bool ((inp_faddr b = INADDR_ANY) \<noteq> (faddr = INADDR_ANY)))"

lemma wild_step_eq:
  "wild_step fa fp la lp b m (r, mw, w) =
    (let w' = w + wilds fa fp la lp b
     in if fits fa fp la lp b \<and> w' < mw then ((Some m, if w' = 0 then mw else w', w'), w' = 0) else ((r, mw, w'), False))"
  by (auto simp: wild_step_def wild_local_def wild_foreign_def fits_def wilds_def Let_def split: if_splits)

lemma wild_loop_kept:
  assumes "plist l nx (ys @ zs)" and "0 < mw" and "mw \<le> w"
  shows "wild_loop (\<lambda>m. wild_step fa fp la lp (B m) m) (endp ys) (r, mw, w) (l, nx) = Some r"
  using assms
proof (induction zs arbitrary: ys w)
  case Nil
  then show ?case using next_of_endp [of nx l ys "[]"] by (subst wild_loop.simps) (simp add: plist_def)
next
  case (Cons z zs)
  have n: "next_of (endp ys) l nx = Some z" using next_of_endp [of nx l ys "z # zs"] Cons.prems(1) by (simp add: plist_def)
  have "wild_step fa fp la lp (B z) z (r, mw, w) = ((r, mw, w + wilds fa fp la lp (B z)), False)"
    using Cons.prems by (simp add: wild_step_eq Let_def)
  then show ?case
    using n Cons.IH [of "ys @ [z]" "w + wilds fa fp la lp (B z)"] Cons.prems by (subst wild_loop.simps) simp
qed

text \<open>The first block that fits, unless the blocks up to it have raised the count to 3.\<close>

fun wild_find :: "(nat \<Rightarrow> bool) \<Rightarrow> (nat \<Rightarrow> nat) \<Rightarrow> nat \<Rightarrow> nat list \<Rightarrow> nat option" where
  "wild_find P c w [] = None"
| "wild_find P c w (x # xs) = (if P x then if w + c x < 3 then Some x else None else wild_find P c (w + c x) xs)"

lemma wild_find_full: "3 \<le> w \<Longrightarrow> wild_find P c w xs = None"
  by (induction xs arbitrary: w) auto

lemma wild_loop_find:
  assumes "plist l nx (ys @ zs)"
  shows "wild_loop (\<lambda>m. wild_step fa fp la lp (B m) m) (endp ys) (None, 3, w) (l, nx) =
    Some (wild_find (\<lambda>m. fits fa fp la lp (B m)) (\<lambda>m. wilds fa fp la lp (B m)) w zs)"
  using assms
proof (induction zs arbitrary: ys w)
  case Nil
  then show ?case using next_of_endp [of nx l ys "[]"] by (subst wild_loop.simps) (simp add: plist_def)
next
  case (Cons z zs)
  define w' where "w' = w + wilds fa fp la lp (B z)"
  have n: "next_of (endp ys) l nx = Some z" using next_of_endp [of nx l ys "z # zs"] Cons.prems by (simp add: plist_def)
  have pl: "plist l nx ((ys @ [z]) @ zs)" using Cons.prems by simp
  show ?case
  proof (cases "fits fa fp la lp (B z) \<and> w' < 3")
    case True
    then have "wild_step fa fp la lp (B z) z (None, 3, w) = ((Some z, if w' = 0 then 3 else w', w'), w' = 0)"
      by (simp add: wild_step_eq Let_def w'_def)
    then show ?thesis
      using n True wild_loop_kept [OF pl, of w' w' fa fp la lp B "Some z"]
      by (subst wild_loop.simps) (auto simp: w'_def)
  next
    case False
    then have "wild_step fa fp la lp (B z) z (None, 3, w) = ((None, 3, w'), False)"
      by (auto simp add: wild_step_eq Let_def w'_def)
    then have "wild_loop (\<lambda>m. wild_step fa fp la lp (B m) m) (endp ys) (None, 3, w) (l, nx) =
        wild_loop (\<lambda>m. wild_step fa fp la lp (B m) m) (endp (ys @ [z])) (None, 3, w') (l, nx)"
      using n by (subst wild_loop.simps) simp
    then show ?thesis
      using False Cons.IH [OF pl, of w'] wild_find_full [of w'] by (auto simp: w'_def)
  qed
qed

lemma wildlookup_find:
  "plist l nx xs \<Longrightarrow> pcb_wildlookup fa fp la lp l nx B =
    Some (wild_find (\<lambda>m. fits fa fp la lp (B m)) (\<lambda>m. wilds fa fp la lp (B m)) 0 xs)"
  unfolding pcb_wildlookup_def using wild_loop_find [of l nx "[]" xs] by simp

lemma wild_find_split:
  "(\<forall>y \<in> set ys. \<not> P y) \<Longrightarrow> P x \<Longrightarrow>
    wild_find P c w (ys @ x # zs) = (if w + (\<Sum>y\<leftarrow>ys. c y) + c x < 3 then Some x else None)"
  by (induction ys arbitrary: w) (simp_all add: ac_simps)

lemma wild_find_none: "(\<forall>y \<in> set ys. \<not> P y) \<Longrightarrow> wild_find P c w ys = None"
  by (induction ys arbitrary: w) auto

section \<open>Properties\<close>

text \<open>The lists of control blocks: inserting appends, taking the head and removing delete, moving a block takes it from
  the first list to the end of the second, and a block that is not in the list is refused without any change. All
  links outside the lists involved stay, so every other list is unchanged.\<close>

theorem pcb_lists:
  assumes "plist a nx xs" and "plist b nx ys" and "plist c nx zs" and "distinct (xs @ ys @ zs)"
  shows "if p \<in> set xs
    then \<exists>a' b' nx'. pcb_move p a b nx = Some (0, a', b', nx') \<and> plist a' nx' (remove1 p xs) \<and> plist b' nx' (ys @ [p]) \<and> plist c nx' zs
    else pcb_move p a b nx = Some (- 1, a, b, nx)"
proof -
  have d: "set xs \<inter> set ys = {}" using assms(4) by auto
  show ?thesis
  proof (cases "p \<in> set xs")
    case True
    then obtain a' b' nx' where m: "pcb_move p a b nx = Some (0, a', b', nx')" "plist a' nx' (remove1 p xs)"
      "plist b' nx' (ys @ [p])" "\<forall>i. i \<notin> set xs \<union> set ys \<longrightarrow> nx' i = nx i"
      using move_plist [OF assms(1,2) d, of p] by auto
    have "plist c nx' zs" using plist_frame [OF assms(3), of nx'] m(4) assms(4) by auto
    then show ?thesis using m True by auto
  next
    case False
    then show ?thesis using move_plist [OF assms(1,2) d, of p] by simp
  qed
qed

theorem pcb_lists_witness:
  "\<exists>a' b' nx'. pcb_move 1 \<lparr>pl_first = Some 0, pl_last = Buf 1\<rparr> pcb_list_init ((\<lambda>_. None)(0 := Some 1)) = Some (0, a', b', nx') \<and>
    plist a' nx' [0] \<and> plist b' nx' ([] @ [1]) \<and> plist pcb_list_init nx' []"
proof -
  have "plist \<lparr>pl_first = Some 0, pl_last = Buf 1\<rparr> ((\<lambda>_. None)(0 := Some 1)) [0, 1]" by (simp add: plist_def endp_def)
  from pcb_lists [OF this plist_init plist_init, of 1] show ?thesis by simp
qed

text \<open>The search for a listening or datagram block. The comment calls the result the most restrictive match; in fact it
  is the first block of the list that fits, because the wildcard count is never reset, and no block at all when the
  blocks before it with the same port have raised the count to 3, even when it fits exactly. With one block for
  the port the search is right.\<close>

theorem pcb_wildlookup_first:
  assumes "plist l nx (ys @ x # zs)" and "\<forall>y \<in> set ys. \<not> fits fa fp la lp (B y)" and "fits fa fp la lp (B x)"
  shows "pcb_wildlookup fa fp la lp l nx B =
      Some (if (\<Sum>y\<leftarrow>ys. wilds fa fp la lp (B y)) + wilds fa fp la lp (B x) < 3 then Some x else None) \<and>
    ((\<forall>y \<in> set ys. inp_lport (B y) \<noteq> lp) \<longrightarrow> pcb_wildlookup fa fp la lp l nx B = Some (Some x))"
proof -
  have "pcb_wildlookup fa fp la lp l nx B =
      Some (if (\<Sum>y\<leftarrow>ys. wilds fa fp la lp (B y)) + wilds fa fp la lp (B x) < 3 then Some x else None)"
    unfolding wildlookup_find [OF assms(1)] by (subst wild_find_split) (use assms(2,3) in simp_all)
  moreover have "(\<Sum>y\<leftarrow>ys. wilds fa fp la lp (B y)) + wilds fa fp la lp (B x) < 3" if "\<forall>y \<in> set ys. inp_lport (B y) \<noteq> lp"
  proof -
    have "map (\<lambda>y. wilds fa fp la lp (B y)) ys = map (\<lambda>_. 0) ys" using that by (simp add: wilds_def)
    then have "(\<Sum>y\<leftarrow>ys. wilds fa fp la lp (B y)) = 0" by simp
    moreover have "wilds fa fp la lp (B x) < 3" by (simp add: wilds_def)
    ultimately show ?thesis by linarith
  qed
  ultimately show ?thesis by simp
qed

text \<open>Three blocks connected to other hosts on port 53, and one connected to the sender.\<close>

definition sample_pcbs :: "nat \<Rightarrow> pcb" where
  "sample_pcbs i = \<lparr>inp_faddr = of_nat (i + 1), inp_laddr = 0, inp_fport = 7, inp_lport = 53\<rparr>"

theorem pcb_wildlookup_first_witness:
  "pcb_wildlookup 4 7 9 53 \<lparr>pl_first = Some 0, pl_last = Buf 3\<rparr> (\<lambda>i. if i < 3 then Some (i + 1) else None) sample_pcbs = Some None"
proof -
  have p: "plist \<lparr>pl_first = Some 0, pl_last = Buf 3\<rparr> (\<lambda>i. if i < 3 then Some (i + 1) else None) ([0, 1, 2] @ 3 # [])"
    by (simp add: plist_def endp_def)
  have "\<forall>y \<in> set [0, 1, 2]. \<not> fits 4 7 9 53 (sample_pcbs y)" "fits 4 7 9 53 (sample_pcbs 3)"
    "\<not> (\<Sum>y\<leftarrow>[0, 1, 2]. wilds 4 7 9 53 (sample_pcbs y)) + wilds 4 7 9 53 (sample_pcbs 3) < 3"
    by (simp_all add: fits_def wilds_def sample_pcbs_def)
  then show ?thesis using pcb_wildlookup_first [OF p, of 4 7 9 53 sample_pcbs] by (simp only: if_False)
qed

end
