(* ===== verification/Net_Route.thy ===== *)
theory Net_Route
  imports Prelude
begin

text \<open>
  The IPv4 routing table (\<^verbatim>\<open>src/src/sdk/libtcpip/ip_route.c\<close>): an array of four entries, filled from the front; an entry
  without interface ends it. The loops run over indices of the array as in the source, \<open>i\<close> counting down and \<open>p\<close>
  up. The locking wrappers \<open>ipv4_route_add\<close>, \<open>ipv4_route_del\<close> and \<open>ipv4_route_lookup\<close> add only the mutex of the stack.

  The abstract table is the list of entries in use, ordered by decreasing mask and with distinct destinations
  (\<open>table\<close>); lookup is then longest-prefix match, and adding inserts at the place of the mask.
\<close>

section \<open>Definitions\<close>

record route =
  rt_dst :: u32
  rt_gateway :: u32
  rt_genmask :: u32
  rt_ifn :: "nat option"

abbreviation IP_ROUTE_TABLE_LEN :: nat where "IP_ROUTE_TABLE_LEN \<equiv> 4"

fun lookup_loop :: "nat \<Rightarrow> nat \<Rightarrow> u32 \<Rightarrow> route list \<Rightarrow> nat option" where
  "lookup_loop 0 p target t = None"
| "lookup_loop (Suc i) p target t =
    (if rt_ifn (t ! p) = None then None
     else if target AND rt_genmask (t ! p) = rt_dst (t ! p) then Some p
     else lookup_loop i (p + 1) target t)"

definition route_lookup :: "u32 \<Rightarrow> route list \<Rightarrow> nat option" where
  "route_lookup target t = lookup_loop IP_ROUTE_TABLE_LEN 0 target t"

text \<open>The search of \<open>__route_del\<close>: the remaining count and the index where the destination was found.\<close>

fun del_find :: "nat \<Rightarrow> nat \<Rightarrow> u32 \<Rightarrow> route list \<Rightarrow> (nat \<times> nat) option" where
  "del_find 0 p dst t = Some (0, p)"
| "del_find (Suc i) p dst t =
    (if rt_ifn (t ! p) = None then None
     else if dst = rt_dst (t ! p) then Some (i, p)
     else del_find i (p + 1) dst t)"

fun del_shift :: "nat \<Rightarrow> nat \<Rightarrow> nat \<Rightarrow> route list \<Rightarrow> nat \<times> route list" where
  "del_shift 0 next' p t = (p, t)"
| "del_shift (Suc i) next' p t =
    (let next' = next' + 1
     in if rt_ifn (t ! next') = None then (p, t) else del_shift i next' next' (t[p := t ! next']))"

definition null_route :: route where
  "null_route = \<lparr>rt_dst = 0, rt_gateway = 0, rt_genmask = 0, rt_ifn = None\<rparr>"

definition route_del :: "u32 \<Rightarrow> route list \<Rightarrow> int \<times> route list" where
  "route_del dst t =
    (case del_find IP_ROUTE_TABLE_LEN 0 dst t of
       None \<Rightarrow> (- 1, t)
     | Some (i, p) \<Rightarrow>
         if i = 0 then (- 1, t)
         else case del_shift i p p t of (p, t) \<Rightarrow> (0, t[p := null_route]))"

fun place_loop :: "nat \<Rightarrow> nat \<Rightarrow> u32 \<Rightarrow> route list \<Rightarrow> nat \<times> nat" where
  "place_loop 0 p msk t = (0, p)"
| "place_loop (Suc i) p msk t = (if rt_genmask (t ! p) \<le> msk then (Suc i, p) else place_loop i (p + 1) msk t)"

text \<open>The number of entries to move down, or none when the table has no free entry.\<close>

fun room_loop :: "nat \<Rightarrow> nat \<Rightarrow> nat \<Rightarrow> route list \<Rightarrow> nat option" where
  "room_loop 0 p n t = None"
| "room_loop (Suc i) p n t =
    (if rt_ifn (t ! p) = None then Some n else if i = 0 then None else room_loop i (p + 1) (n + 1) t)"

text \<open>Each entry from \<open>p\<close> on is exchanged with the one in hand.\<close>

fun swap_loop :: "nat \<Rightarrow> nat \<Rightarrow> route \<Rightarrow> route list \<Rightarrow> route list" where
  "swap_loop 0 p r t = t[p := r]"
| "swap_loop (Suc n) p r t = swap_loop n (p + 1) (t ! p) (t[p := r])"

definition route_add :: "u32 \<Rightarrow> u32 \<Rightarrow> u32 \<Rightarrow> nat option \<Rightarrow> route list \<Rightarrow> int \<times> route list" where
  "route_add dst msk gw ifn t =
    (let t = snd (route_del dst t);
         (i, p) = place_loop IP_ROUTE_TABLE_LEN 0 msk t
     in if i = 0 then (- 1, t)
        else case room_loop i p 0 t of
          None \<Rightarrow> (- 1, t)
        | Some n \<Rightarrow> (0, swap_loop n p \<lparr>rt_dst = dst, rt_gateway = gw, rt_genmask = msk, rt_ifn = ifn\<rparr> t))"

fun get_find :: "nat \<Rightarrow> nat \<Rightarrow> u32 \<Rightarrow> u32 \<Rightarrow> route list \<Rightarrow> nat option" where
  "get_find 0 p dst msk t = None"
| "get_find (Suc i) p dst msk t =
    (if rt_ifn (t ! p) = None then None
     else if dst = rt_dst (t ! p) \<and> msk = rt_genmask (t ! p) then Some p
     else get_find i (p + 1) dst msk t)"

definition ipv4_route_get :: "u32 \<Rightarrow> u32 \<Rightarrow> route list \<Rightarrow> nat option" where
  "ipv4_route_get dst msk t = get_find IP_ROUTE_TABLE_LEN 0 dst msk t"

text \<open>The callback, when there is one, is a function that tells whether to stop.\<close>

fun enum_loop :: "nat \<Rightarrow> nat \<Rightarrow> nat \<Rightarrow> (route \<Rightarrow> bool) option \<Rightarrow> route list \<Rightarrow> nat" where
  "enum_loop 0 p n callback t = n"
| "enum_loop (Suc i) p n callback t =
    (if rt_ifn (t ! p) = None then n
     else case callback of
       None \<Rightarrow> enum_loop i (p + 1) (n + 1) callback t
     | Some f \<Rightarrow> if f (t ! p) then n + 1 else enum_loop i (p + 1) (n + 1) callback t)"

definition ipv4_route_enum :: "(route \<Rightarrow> bool) option \<Rightarrow> route list \<Rightarrow> nat" where
  "ipv4_route_enum callback t = enum_loop (IP_ROUTE_TABLE_LEN - 1) 0 0 callback t"

section \<open>The table as a list\<close>

definition table :: "route list \<Rightarrow> route list \<Rightarrow> bool" where
  "table t rs \<longleftrightarrow> length rs \<le> IP_ROUTE_TABLE_LEN \<and> t = rs @ replicate (IP_ROUTE_TABLE_LEN - length rs) null_route \<and>
    (\<forall>r \<in> set rs. rt_ifn r \<noteq> None) \<and> sorted_wrt (\<lambda>a b. rt_genmask b \<le> rt_genmask a) rs \<and> distinct (map rt_dst rs)"

lemma null_ifn [simp]: "rt_ifn null_route = None" "rt_genmask null_route = 0"
  by (simp_all add: null_route_def)

fun find_idx :: "('a \<Rightarrow> bool) \<Rightarrow> 'a list \<Rightarrow> nat option" where
  "find_idx P [] = None"
| "find_idx P (x # xs) = (if P x then Some 0 else map_option Suc (find_idx P xs))"

lemma find_idx_None: "find_idx P xs = None \<longleftrightarrow> (\<forall>x \<in> set xs. \<not> P x)"
  by (induction xs) auto

lemma find_idx_Some: "find_idx P xs = Some i \<Longrightarrow> i < length xs \<and> P (xs ! i) \<and> (\<forall>j<i. \<not> P (xs ! j))"
proof (induction xs arbitrary: i)
  case (Cons x xs)
  then show ?case by (cases i) (auto simp: nth_Cons split: if_splits nat.split)
qed simp

lemma lookup_loop_list:
  "\<forall>r \<in> set rs. rt_ifn r \<noteq> None \<Longrightarrow> lookup_loop (length rs + k) (length ys) a (ys @ rs @ replicate k null_route) =
    map_option ((+) (length ys)) (find_idx (\<lambda>r. a AND rt_genmask r = rt_dst r) rs)"
proof (induction rs arbitrary: ys)
  case Nil
  then show ?case by (cases k) (simp_all add: nth_append)
next
  case (Cons r rs)
  from Cons.IH [of "ys @ [r]"] Cons.prems show ?case
    by (auto simp: nth_append option.map_comp comp_def intro!: arg_cong2 [where f = map_option])
qed

lemma del_find_list:
  "\<forall>r \<in> set rs. rt_ifn r \<noteq> None \<Longrightarrow> del_find (length rs + k) (length ys) d (ys @ rs @ replicate k null_route) =
    (case find_idx (\<lambda>r. d = rt_dst r) rs of
       None \<Rightarrow> if k = 0 then Some (0, length ys + length rs) else None
     | Some j \<Rightarrow> Some (length rs + k - 1 - j, length ys + j))"
proof (induction rs arbitrary: ys)
  case Nil
  then show ?case by (cases k) (simp_all add: nth_append)
next
  case (Cons r rs)
  from Cons.IH [of "ys @ [r]"] Cons.prems show ?case
    by (auto simp: nth_append split: option.split)
qed

lemma del_shift_list:
  "\<forall>r \<in> set rs. rt_ifn r \<noteq> None \<Longrightarrow> del_shift (length rs + k) (length ys) (length ys) (ys @ x # rs @ replicate k null_route) =
    (length ys + length rs, ys @ rs @ last (x # rs) # replicate k null_route)"
proof (induction rs arbitrary: ys x)
  case Nil
  then show ?case by (cases k) (simp_all add: nth_append)
next
  case (Cons r rs)
  from Cons.IH [of "ys @ [r]" r] Cons.prems show ?case
    by (simp add: nth_append)
qed

text \<open>Deletion, with its gap: an entry in the last place of the array is not found.\<close>

definition drop_dst :: "u32 \<Rightarrow> route list \<Rightarrow> route list" where
  "drop_dst d rs = (case find_idx (\<lambda>r. d = rt_dst r) rs of
     Some j \<Rightarrow> if j = IP_ROUTE_TABLE_LEN - 1 then rs else take j rs @ drop (Suc j) rs
   | None \<Rightarrow> rs)"

lemma del_list:
  assumes t: "t = rs @ replicate (IP_ROUTE_TABLE_LEN - length rs) null_route" and l: "length rs \<le> IP_ROUTE_TABLE_LEN"
    and i: "\<forall>r \<in> set rs. rt_ifn r \<noteq> None"
  shows "snd (route_del d t) = drop_dst d rs @ replicate (IP_ROUTE_TABLE_LEN - length (drop_dst d rs)) null_route"
    and "fst (route_del d t) = (if drop_dst d rs = rs then - 1 else 0)"
proof -
  define k where "k = IP_ROUTE_TABLE_LEN - length rs"
  have k: "length rs + k = IP_ROUTE_TABLE_LEN" using l by (simp add: k_def)
  note f = del_find_list [OF i, of k "[]" d, unfolded k, simplified, folded t [folded k_def]]
  show "snd (route_del d t) = drop_dst d rs @ replicate (IP_ROUTE_TABLE_LEN - length (drop_dst d rs)) null_route"
    and "fst (route_del d t) = (if drop_dst d rs = rs then - 1 else 0)"
  proof (atomize (full), cases "find_idx (\<lambda>r. d = rt_dst r) rs")
    case None
    then show "snd (route_del d t) = drop_dst d rs @ replicate (IP_ROUTE_TABLE_LEN - length (drop_dst d rs)) null_route \<and>
        fst (route_del d t) = (if drop_dst d rs = rs then - 1 else 0)"
      using f by (simp add: route_del_def drop_dst_def t)
  next
    case (Some j)
    then have j: "j < length rs" using find_idx_Some by fastforce
    define ys x zs where "ys = take j rs" and "x = rs ! j" and "zs = drop (Suc j) rs"
    have rs: "rs = ys @ x # zs" "length ys = j" using j by (simp_all add: ys_def x_def zs_def id_take_nth_drop)
    show "snd (route_del d t) = drop_dst d rs @ replicate (IP_ROUTE_TABLE_LEN - length (drop_dst d rs)) null_route \<and>
        fst (route_del d t) = (if drop_dst d rs = rs then - 1 else 0)"
    proof (cases "j = IP_ROUTE_TABLE_LEN - 1")
      case True
      then show ?thesis using f Some by (simp add: route_del_def drop_dst_def t)
    next
      case False
      have dd: "drop_dst d rs = ys @ zs" using Some False by (simp add: drop_dst_def ys_def zs_def)
      have ne: "ys @ zs \<noteq> rs" using rs by auto
      have c: "3 - j = length zs + k" "3 - j \<noteq> 0" using k rs False j l by simp_all
      have s: "del_shift (3 - j) j j t = (j + length zs, ys @ zs @ last (x # zs) # replicate k null_route)"
        using del_shift_list [of zs k ys x] i rs c(1) t by (simp add: k_def)
      have ll: "IP_ROUTE_TABLE_LEN - length (ys @ zs) = Suc k" using k rs by simp
      show ?thesis
        unfolding dd ll using f Some s c(2) ne rs(2) by (simp add: route_del_def list_update_append)
    qed
  qed
qed

lemma place_loop_list:
  "place_loop (length rs + k) (length ys) m (ys @ rs @ replicate k null_route) =
    (length (dropWhile (\<lambda>r. m < rt_genmask r) rs) + k, length ys + length (takeWhile (\<lambda>r. m < rt_genmask r) rs))"
proof (induction rs arbitrary: ys)
  case Nil
  then show ?case by (cases k) (simp_all add: nth_append)
next
  case (Cons r rs)
  from Cons.IH [of "ys @ [r]"] show ?case by (auto simp: nth_append not_le)
qed

lemma room_loop_list:
  "\<forall>r \<in> set rs. rt_ifn r \<noteq> None \<Longrightarrow> room_loop (length rs + k) (length ys) n (ys @ rs @ replicate k null_route) =
    (if k = 0 then None else Some (n + length rs))"
proof (induction rs arbitrary: ys n)
  case Nil
  then show ?case by (cases k) (simp_all add: nth_append)
next
  case (Cons r rs)
  from Cons.IH [of "ys @ [r]" "Suc n"] Cons.prems show ?case by (auto simp: nth_append)
qed

lemma swap_loop_list: "swap_loop (length xs) (length ys) r (ys @ xs @ e # zs) = ys @ r # xs @ zs"
proof (induction xs arbitrary: ys r)
  case (Cons x xs)
  from Cons.IH [of "ys @ [r]" x] show ?case by (simp add: nth_append)
qed simp

lemma find_dst_split:
  assumes "distinct (map rt_dst rs)" and "find_idx (\<lambda>r. d = rt_dst r) rs = Some j"
  shows "set (take j rs @ drop (Suc j) rs) = {r \<in> set rs. rt_dst r \<noteq> d}" and "j < length rs" and "rt_dst (rs ! j) = d"
proof -
  have j: "j < length rs" "d = rt_dst (rs ! j)" using find_idx_Some [OF assms(2)] by simp_all
  define ys x zs where "ys = take j rs" and "x = rs ! j" and "zs = drop (Suc j) rs"
  have rs: "rs = ys @ x # zs" using j by (simp add: ys_def x_def zs_def id_take_nth_drop)
  have "d = rt_dst x" using j(2) by (simp add: x_def)
  then have "set (ys @ zs) = {r \<in> set rs. rt_dst r \<noteq> d}" using assms(1) unfolding rs by (auto simp: image_iff) 
  then show "set (take j rs @ drop (Suc j) rs) = {r \<in> set rs. rt_dst r \<noteq> d}" "j < length rs" "rt_dst (rs ! j) = d"
    using j by (simp_all add: ys_def zs_def)
qed

lemma drop_dst_facts:
  assumes "table t rs"
  shows "table (snd (route_del d t)) (drop_dst d rs) \<and>
    (length (drop_dst d rs) < IP_ROUTE_TABLE_LEN \<longrightarrow> set (drop_dst d rs) = {r \<in> set rs. rt_dst r \<noteq> d}) \<and>
    (\<not> length (drop_dst d rs) < IP_ROUTE_TABLE_LEN \<longrightarrow> drop_dst d rs = rs) \<and>
    (length (drop_dst d rs) < IP_ROUTE_TABLE_LEN \<longleftrightarrow> length rs < IP_ROUTE_TABLE_LEN \<or> d \<in> rt_dst ` set (butlast rs))"
proof -
  have t: "length rs \<le> IP_ROUTE_TABLE_LEN" "t = rs @ replicate (IP_ROUTE_TABLE_LEN - length rs) null_route"
    "\<forall>r \<in> set rs. rt_ifn r \<noteq> None" "sorted_wrt (\<lambda>a b. rt_genmask b \<le> rt_genmask a) rs" "distinct (map rt_dst rs)"
    using assms by (simp_all add: table_def)
  note dl = del_list(1) [OF t(2,1,3), of d]
  show ?thesis
  proof (cases "find_idx (\<lambda>r. d = rt_dst r) rs")
    case None
    then have n: "d \<notin> rt_dst ` set rs" by (auto simp: find_idx_None)
    have dd: "drop_dst d rs = rs" using None by (simp add: drop_dst_def)
    have "d \<notin> rt_dst ` set (butlast rs)" using n by (auto dest: in_set_butlastD)
    then show ?thesis
      using n dl assms t(2) unfolding dd by auto
  next
    case (Some j)
    note s = find_dst_split [OF t(5) Some]
    show ?thesis
    proof (cases "j = IP_ROUTE_TABLE_LEN - 1")
      case True
      then have dd: "drop_dst d rs = rs" using Some by (simp add: drop_dst_def)
      have l: "length rs = 4" using True s(2) t(1) by simp
      have "d \<notin> rt_dst ` set (butlast rs)"
      proof
        assume "d \<in> rt_dst ` set (butlast rs)"
        then obtain i where "i < 3" "rt_dst (rs ! i) = d" using l by (auto simp: in_set_conv_nth nth_butlast)
        then have "i = j" using nth_eq_iff_index_eq [OF t(5), of i j] l s(2,3) True by simp
        then show False using \<open>i < 3\<close> True by simp
      qed
      then show ?thesis using dl assms t(2) l unfolding dd by simp
    next
      case False
      have dd: "drop_dst d rs = take j rs @ drop (Suc j) rs" using Some False by (simp add: drop_dst_def)
      have l: "length (drop_dst d rs) < IP_ROUTE_TABLE_LEN" using s(2) t(1) by (simp add: dd)
      have w: "sorted_wrt P (take j rs @ drop (Suc j) rs)" if "sorted_wrt P rs" for P
        using that s(2) by (subst (asm) id_take_nth_drop [OF s(2)]) (auto simp: sorted_wrt_append)
      have "distinct (map rt_dst (take j rs @ drop (Suc j) rs))"
        using t(5) by (subst (asm) id_take_nth_drop [OF s(2)]) auto
      then have "table (snd (route_del d t)) (drop_dst d rs)"
        using dl l w [OF t(4)] t(3) s(1) unfolding table_def dd by auto
      moreover have "length rs < IP_ROUTE_TABLE_LEN \<or> d \<in> rt_dst ` set (butlast rs)"
      proof (cases "length rs < IP_ROUTE_TABLE_LEN")
        case False
        then have "j < length (butlast rs)" "butlast rs ! j = rs ! j"
          using s(2) t(1) \<open>j \<noteq> IP_ROUTE_TABLE_LEN - 1\<close> by (auto simp: nth_butlast)
        then show ?thesis using s(3) nth_mem [of j "butlast rs"] by (auto simp: image_iff)
      qed simp
      ultimately show ?thesis using l s(1) unfolding dd by blast
    qed
  qed
qed

section \<open>Properties\<close>

text \<open>C36: Lookup is longest-prefix match: it finds an entry exactly when one in use matches the address, the entry found
  matches, and no matching entry has a larger mask.\<close>

theorem route_lookup_longest:
  assumes "table t rs"
  shows "(route_lookup a t = None \<longleftrightarrow> (\<forall>r \<in> set rs. a AND rt_genmask r \<noteq> rt_dst r)) \<and>
    (\<forall>p. route_lookup a t = Some p \<longrightarrow> p < length rs \<and> t ! p = rs ! p \<and> a AND rt_genmask (t ! p) = rt_dst (t ! p) \<and>
       (\<forall>r \<in> set rs. a AND rt_genmask r = rt_dst r \<longrightarrow> rt_genmask r \<le> rt_genmask (t ! p)))"
proof -
  have t: "length rs \<le> IP_ROUTE_TABLE_LEN" "t = rs @ replicate (IP_ROUTE_TABLE_LEN - length rs) null_route"
    "\<forall>r \<in> set rs. rt_ifn r \<noteq> None" "sorted_wrt (\<lambda>a b. rt_genmask b \<le> rt_genmask a) rs"
    using assms by (simp_all add: table_def)
  have e: "route_lookup a t = find_idx (\<lambda>r. a AND rt_genmask r = rt_dst r) rs"
    using lookup_loop_list [OF t(3), of "IP_ROUTE_TABLE_LEN - length rs" "[]" a] t(1,2)
    by (cases "find_idx (\<lambda>r. a AND rt_genmask r = rt_dst r) rs") (simp_all add: route_lookup_def)
  have "rt_genmask r \<le> rt_genmask (rs ! p)"
    if p: "find_idx (\<lambda>r. a AND rt_genmask r = rt_dst r) rs = Some p" and r: "r \<in> set rs" "a AND rt_genmask r = rt_dst r" for p r
  proof -
    obtain i where i: "i < length rs" "r = rs ! i" using r(1) by (auto simp: in_set_conv_nth)
    then have "\<not> i < p" using find_idx_Some [OF p] r(2) by auto
    then show ?thesis
      using sorted_wrt_nth_less [OF t(4), of p i] i find_idx_Some [OF p] by (cases "i = p") auto
  qed
  then show ?thesis
    unfolding e using find_idx_Some [of "\<lambda>r. a AND rt_genmask r = rt_dst r" rs]
    by (auto simp: find_idx_None t(2) nth_append)
qed

text \<open>Two routes, as \<open>route_add\<close> leaves them.\<close>

definition sample_routes :: "route list" where
  "sample_routes = [\<lparr>rt_dst = 0x0001A8C0, rt_gateway = 0, rt_genmask = 0x00FFFFFF, rt_ifn = Some 1\<rparr>,
     \<lparr>rt_dst = 0, rt_gateway = 0x0101A8C0, rt_genmask = 0, rt_ifn = Some 1\<rparr>]"

lemma sample_table: "table (sample_routes @ [null_route, null_route]) sample_routes"
proof -
  have "replicate (IP_ROUTE_TABLE_LEN - length sample_routes) null_route = [null_route, null_route]"
    by (simp add: sample_routes_def numeral_2_eq_2)
  then show ?thesis by (simp add: table_def) (simp add: sample_routes_def)
qed

theorem route_lookup_longest_witness:
  "route_lookup 0x0201A8C0 (sample_routes @ [null_route, null_route]) = Some 0 \<and>
   rt_genmask (sample_routes ! 1) \<le> rt_genmask ((sample_routes @ [null_route, null_route]) ! 0)"
proof -
  have l: "route_lookup 0x0201A8C0 (sample_routes @ [null_route, null_route]) = Some 0" by code_simp
  have "sample_routes ! 1 \<in> set sample_routes" "0x0201A8C0 AND rt_genmask (sample_routes ! 1) = rt_dst (sample_routes ! 1)"
    by (simp_all add: sample_routes_def)
  then show ?thesis using route_lookup_longest [OF sample_table, of "0x0201A8C0"] l by blast
qed

text \<open>C37: Adding a route replaces the entry for its destination and keeps the table ordered, as long as the table has a
  free entry or the destination stands before its last place. In a full table the last entry is neither found nor
  replaced: the call fails and changes nothing.\<close>

theorem route_add_replaces:
  assumes "table t rs"
  shows "if length rs < IP_ROUTE_TABLE_LEN \<or> d \<in> rt_dst ` set (butlast rs)
    then \<exists>t' rs'. route_add d m g (Some f) t = (0, t') \<and> table t' rs' \<and>
      set rs' = insert \<lparr>rt_dst = d, rt_gateway = g, rt_genmask = m, rt_ifn = Some f\<rparr> {r \<in> set rs. rt_dst r \<noteq> d}
    else route_add d m g (Some f) t = (- 1, t)"
proof -
  define us new where "us = drop_dst d rs" and "new = \<lparr>rt_dst = d, rt_gateway = g, rt_genmask = m, rt_ifn = Some f\<rparr>"
  define k where "k = IP_ROUTE_TABLE_LEN - length us"
  define t1 where "t1 = snd (route_del d t)"
  note dd = drop_dst_facts [OF assms, of d, folded us_def t1_def]
  have tab: "table t1 us" using dd by (rule conjunct1)
  then have t1: "length us + k = IP_ROUTE_TABLE_LEN" "t1 = us @ replicate k null_route" "\<forall>r \<in> set us. rt_ifn r \<noteq> None"
    "sorted_wrt (\<lambda>a b. rt_genmask b \<le> rt_genmask a) us" "distinct (map rt_dst us)"
    by (simp_all add: table_def k_def)
  define as bs where "as = takeWhile (\<lambda>r. m < rt_genmask r) us" and "bs = dropWhile (\<lambda>r. m < rt_genmask r) us"
  have us: "us = as @ bs" by (simp add: as_def bs_def)
  have pl: "place_loop IP_ROUTE_TABLE_LEN 0 m t1 = (length bs + k, length as)"
    using place_loop_list [of us k "[]" m] t1(1,2) by (simp add: as_def bs_def)
  have rm: "room_loop (length bs + k) (length as) 0 t1 = (if k = 0 then None else Some (length bs))"
    using room_loop_list [of bs k as 0] t1(2,3) us by simp
  have e: "route_add d m g (Some f) t =
      (if k = 0 then (- 1, t1) else (0, swap_loop (length bs) (length as) new t1))"
    unfolding route_add_def t1_def [symmetric] Let_def pl prod.case rm by (simp add: new_def)
  show ?thesis
  proof (cases "k = 0")
    case True
    then have "us = rs" "\<not> (length rs < IP_ROUTE_TABLE_LEN \<or> d \<in> rt_dst ` set (butlast rs))" using dd t1(1) by auto
    moreover have "t1 = t" using t1(2) assms True t1(1) \<open>us = rs\<close> by (simp add: table_def)
    ultimately show ?thesis using e True by simp
  next
    case False
    then obtain k' where k: "k = Suc k'" by (cases k) auto
    then have l: "length us < IP_ROUTE_TABLE_LEN" using t1(1) by simp
    then have st: "set us = {r \<in> set rs. rt_dst r \<noteq> d}" "length rs < IP_ROUTE_TABLE_LEN \<or> d \<in> rt_dst ` set (butlast rs)"
      using conjunct2 [OF dd] by blast+
    have sw: "swap_loop (length bs) (length as) new t1 = as @ new # bs @ replicate k' null_route"
      using swap_loop_list [of bs as new null_route "replicate k' null_route"] t1(2) us k by simp
    have as: "\<forall>r \<in> set as. m \<le> rt_genmask r" using set_takeWhileD by (fastforce simp: as_def)
    have "\<forall>r \<in> set bs. rt_genmask r \<le> m"
    proof (cases bs)
      case (Cons b cs)
      then have "\<not> m < rt_genmask b" using hd_dropWhile [of "\<lambda>r. m < rt_genmask r" us] by (simp add: bs_def)
      then show ?thesis using t1(4) us Cons by (auto simp: sorted_wrt_append)
    qed simp
    then have "sorted_wrt (\<lambda>a b. rt_genmask b \<le> rt_genmask a) (as @ new # bs)"
      using t1(4) as us by (auto simp: sorted_wrt_append new_def)
    moreover have "distinct (map rt_dst (as @ new # bs))"
      using t1(5) st(1) us by (auto simp: new_def)
    ultimately have "table (as @ new # bs @ replicate k' null_route) (as @ new # bs)"
      using t1(1,3) us k by (auto simp: table_def new_def)
    moreover have "set (as @ new # bs) = insert new {r \<in> set rs. rt_dst r \<noteq> d}" using st(1) us by auto
    ultimately show ?thesis using e False st(2) sw unfolding new_def [symmetric] by auto
  qed
qed

theorem route_add_replaces_witness:
  "\<exists>t' rs'. route_add 0 0 0x0901A8C0 (Some 2) (sample_routes @ [null_route, null_route]) = (0, t') \<and> table t' rs' \<and>
    set rs' = insert \<lparr>rt_dst = 0, rt_gateway = 0x0901A8C0, rt_genmask = 0, rt_ifn = Some 2\<rparr> {r \<in> set sample_routes. rt_dst r \<noteq> 0}"
proof -
  have "length sample_routes < IP_ROUTE_TABLE_LEN" by (simp add: sample_routes_def)
  then show ?thesis using route_add_replaces [OF sample_table, of 0 0 "0x0901A8C0" 2] by simp
qed

end
