(* ===== verification/Net_Chksum.thy ===== *)
theory Net_Chksum
  imports Libc_Mem
begin

text \<open>
  The Internet checksum (\<^verbatim>\<open>src/src/sdk/libtcpip/in_chksum.c\<close>). The routine adds little-endian halfwords into a 32-bit
  sum, eight, four, two and one at a time, from halfword loads at an even address and from pairs of bytes at an odd
  one, adds a last odd byte, and folds the carries. The memory of Libc_Mem holds the data.

  The result is the ones'-complement sum of the data as a number (\<open>ones\<close>), as long as the 32-bit sum does not wrap,
  which the header and datagram sizes of the stack guarantee.
\<close>

section \<open>Definitions\<close>

text \<open>\<open>hp[0]\<close>, a load of 16 bits, and \<open>cp[0] + (cp[1] << 8)\<close>.\<close>

definition ld_half :: "mem \<Rightarrow> nat \<Rightarrow> u32" where
  "ld_half m a = ucast (ucast (m a) OR push_bit 8 (ucast (m (a + 1))) :: u16)"

definition ld_bytes :: "mem \<Rightarrow> nat \<Rightarrow> u32" where
  "ld_bytes m a = ucast (m a) + push_bit 8 (ucast (m (a + 1)))"

text \<open>\<open>k\<close> additions in a row.\<close>

fun add_halves :: "(nat \<Rightarrow> u32) \<Rightarrow> nat \<Rightarrow> nat \<Rightarrow> u32 \<Rightarrow> u32" where
  "add_halves ld 0 a sm = sm"
| "add_halves ld (Suc k) a sm = add_halves ld k (a + 2) (sm + ld a)"

function chk_loop :: "(nat \<Rightarrow> u32) \<Rightarrow> u32 \<times> nat \<times> nat \<Rightarrow> u32 \<times> nat \<times> nat" where
  "chk_loop ld (sm, a, len) = (if 16 \<le> len then chk_loop ld (add_halves ld 8 a sm, a + 16, len - 16) else (sm, a, len))"
  by pat_completeness auto

termination chk_loop
  by (relation "measure (\<lambda>(ld, sm, a, len). len)") auto

definition chk_if :: "(nat \<Rightarrow> u32) \<Rightarrow> nat \<Rightarrow> u32 \<times> nat \<times> nat \<Rightarrow> u32 \<times> nat \<times> nat" where
  "chk_if ld k = (\<lambda>(sm, a, len). if k * 2 \<le> len then (add_halves ld k a sm, a + k * 2, len - k * 2) else (sm, a, len))"

function chk_fold :: "u32 \<Rightarrow> u32" where
  "chk_fold sm = (if drop_bit 16 sm \<noteq> 0 then chk_fold ((sm AND 0xffff) + drop_bit 16 sm) else sm)"
  by pat_completeness auto

lemma fold_less:
  assumes "65536 \<le> (x :: nat)"
  shows "x mod 65536 + x div 65536 < x"
proof -
  define q r where "q = x div 65536" and "r = x mod 65536"
  have "x = 65536 * q + r" by (simp add: q_def r_def)
  moreover have "1 \<le> q" using div_le_mono [OF assms, of 65536] by (simp add: q_def)
  ultimately show ?thesis unfolding q_def [symmetric] r_def [symmetric] by linarith
qed

lemma chk_fold_step:
  "unat ((sm AND 0xffff) + drop_bit 16 sm :: u32) = unat sm mod 65536 + unat sm div 65536"
  "drop_bit 16 sm = 0 \<longleftrightarrow> unat sm < 65536"
proof -
  have l: "unat (sm AND 0xffff) = unat sm mod 65536"
  proof -
    have "sm AND 0xffff = take_bit 16 sm" by (simp add: take_bit_eq_mask mask_eq_exp_minus_1)
    then show ?thesis by (simp only: unsigned_take_bit_eq) (simp add: take_bit_eq_mod)
  qed
  have h: "unat (drop_bit 16 sm) = unat sm div 65536" by (simp only: unat_drop_bit_eq) (simp add: drop_bit_eq_div)
  have "unat sm < 2 ^ 32" using unsigned_less [of sm] by simp
  then have "unat sm mod 65536 + unat sm div 65536 < 2 ^ 32" by (simp add: less_mult_imp_div_less)
  then show "unat ((sm AND 0xffff) + drop_bit 16 sm) = unat sm mod 65536 + unat sm div 65536"
    by (subst unat_add_lem [THEN iffD1]) (simp_all add: l h)
  show "drop_bit 16 sm = 0 \<longleftrightarrow> unat sm < 65536"
    using h by (metis div_eq_0_iff unat_eq_0 zero_neq_numeral)
qed

termination chk_fold
proof (relation "measure unat")
  fix sm :: u32
  assume "drop_bit 16 sm \<noteq> 0"
  then have "65536 \<le> unat sm" using chk_fold_step(2) [of sm] by simp
  then have "unat sm mod 65536 + unat sm div 65536 < unat sm" by (rule fold_less)
  then show "((sm AND 0xffff) + drop_bit 16 sm, sm) \<in> measure unat" unfolding in_measure chk_fold_step(1) .
qed simp

declare chk_loop.simps [simp del] chk_fold.simps [simp del]

definition in_chksum :: "u32 \<Rightarrow> nat \<Rightarrow> nat \<Rightarrow> mem \<Rightarrow> u32" where
  "in_chksum sm data len m =
    (let ld = (if data AND 1 = 0 then ld_half m else ld_bytes m);
         (sm, cp, len) = chk_if ld 1 (chk_if ld 2 (chk_if ld 4 (chk_loop ld (sm, data, len))));
         sm = (if len \<noteq> 0 then sm + ucast (m cp) else sm)
     in chk_fold sm)"

section \<open>The value of a block\<close>

text \<open>The ones'-complement representative of a number: 0 for 0, else a number from 1 to 65535.\<close>

definition ones :: "nat \<Rightarrow> nat" where
  "ones n = (if n = 0 then 0 else (n - 1) mod 65535 + 1)"

fun block_value :: "nat \<Rightarrow> nat \<Rightarrow> mem \<Rightarrow> nat" where
  "block_value a 0 m = 0"
| "block_value a (Suc 0) m = unat (m a)"
| "block_value a (Suc (Suc n)) m = unat (m a) + 256 * unat (m (a + 1)) + block_value (a + 2) n m"

lemma ones_fold: "ones (n mod 65536 + n div 65536) = ones n"
proof -
  define q r where "q = n div 65536" and "r = n mod 65536"
  have n: "n = 65536 * q + r" by (simp add: q_def r_def)
  show ?thesis
  proof (cases "n = 0")
    case False
    then have z: "r + q \<noteq> 0" using n by auto
    then have "n - 1 = (r + q - 1) + 65535 * q" using n by linarith
    then have "(n - 1) mod 65535 = (r + q - 1) mod 65535" by simp
    then show ?thesis unfolding q_def [symmetric] r_def [symmetric] using False z by (simp add: ones_def)
  qed simp
qed

lemma chk_fold_ones: "unat (chk_fold s) = ones (unat s)"
proof (induction s rule: chk_fold.induct)
  case (1 s)
  show ?case
  proof (cases "drop_bit 16 s = 0")
    case True
    then have "unat s < 65536" using chk_fold_step(2) by simp
    then have "ones (unat s) = unat s" by (auto simp: ones_def)
    then show ?thesis using True by (subst chk_fold.simps) simp
  next
    case False
    then have "unat (chk_fold s) = ones (unat ((s AND 0xffff) + drop_bit 16 s))" using 1 by (subst chk_fold.simps) simp
    then show ?thesis by (simp only: chk_fold_step(1) ones_fold)
  qed
qed

definition loads :: "mem \<Rightarrow> (nat \<Rightarrow> u32) \<Rightarrow> bool" where
  "loads m ld \<longleftrightarrow> (\<forall>a. unat (ld a) = unat (m a) + 256 * unat (m (a + 1)))"

lemma byte_bound: "unat (b :: u8) \<le> 255"
proof -
  have "unat b < 2 ^ LENGTH(8)" by (rule unsigned_less)
  then show ?thesis by simp
qed

lemma loads_bytes: "loads m (ld_bytes m)"
proof -
  have "unat (ld_bytes m a) = unat (m a) + 256 * unat (m (a + 1))" for a
  proof -
    have u: "unat (ucast b :: u32) = unat b" for b :: u8
      using byte_bound [of b] by (simp add: unsigned_ucast_eq take_bit_nat_eq_self_iff)
    have "unat (push_bit 8 (ucast (m (a + 1))) :: u32) = 256 * unat (m (a + 1))"
      using byte_bound [of "m (a + 1)"]
      by (simp only: unsigned_push_bit_eq u) (simp add: push_bit_eq_mult take_bit_nat_eq_self_iff mult.commute)
    then show ?thesis
      unfolding ld_bytes_def using byte_bound [of "m a"] byte_bound [of "m (a + 1)"]
      by (subst unat_add_lem [THEN iffD1]) (simp_all add: u)
  qed
  then show ?thesis by (simp add: loads_def)
qed

lemma ld_half_bytes: "ld_half m = ld_bytes m"
proof
  fix a
  show "ld_half m a = ld_bytes m a"
    unfolding ld_half_def ld_bytes_def
    by (subst disjunctive_add_eq_or; rule bit_word_eqI; auto simp: bit_simps dest: bit_imp_le_length)
qed

lemma block_value_split: "block_value a (2 * k + n) m = block_value a (2 * k) m + block_value (a + 2 * k) n m"
proof (induction k arbitrary: a)
  case (Suc k)
  then show ?case using Suc.IH [of "a + 2"] by (simp add: add.commute add.left_commute)
qed simp

lemma block_value_bound: "block_value a n m \<le> 65535 * ((n + 1) div 2)"
proof (induction a n m rule: block_value.induct)
  case (2 a m)
  then show ?case using byte_bound [of "m a"] by simp
next
  case (3 a n m)
  then show ?case using byte_bound [of "m a"] byte_bound [of "m (a + 1)"] by simp
qed simp

lemma add_halves_value:
  "loads m ld \<Longrightarrow> unat s + block_value a (2 * k) m < 2 ^ 32 \<Longrightarrow> unat (add_halves ld k a s) = unat s + block_value a (2 * k) m"
proof (induction k arbitrary: a s)
  case (Suc k)
  have "unat (s + ld a) = unat s + unat (m a) + 256 * unat (m (a + 1))"
    using Suc.prems by (subst unat_add_lem [THEN iffD1]) (simp_all add: loads_def)
  then show ?case using Suc.IH [of "s + ld a" "a + 2"] Suc.prems by simp
qed simp

text \<open>What every stage keeps: the sum so far and the rest of the block make up the total.\<close>

definition staged :: "nat \<Rightarrow> mem \<Rightarrow> u32 \<times> nat \<times> nat \<Rightarrow> bool" where
  "staged T m = (\<lambda>(s, a, n). unat s + block_value a n m = T)"

lemma chk_step_staged:
  assumes "loads m ld" and "T < 2 ^ 32" and "staged T m (s, a, n)" and "2 * k \<le> n"
  shows "staged T m (add_halves ld k a s, a + 2 * k, n - 2 * k)"
proof -
  have "block_value a n m = block_value a (2 * k) m + block_value (a + 2 * k) (n - 2 * k) m"
    using block_value_split [of a k "n - 2 * k" m] assms(4) by simp
  then show ?thesis using add_halves_value [OF assms(1), of s a k] assms(2,3) by (simp add: staged_def)
qed

lemma chk_loop_staged:
  assumes "loads m ld" and "T < 2 ^ 32"
  shows "staged T m (s, a, n) \<Longrightarrow> staged T m (chk_loop ld (s, a, n)) \<and> snd (snd (chk_loop ld (s, a, n))) < 16"
proof (induction n arbitrary: s a rule: less_induct)
  case (less n)
  show ?case
  proof (cases "16 \<le> n")
    case True
    then have "staged T m (add_halves ld 8 a s, a + 16, n - 16)"
      using chk_step_staged [OF assms less.prems, of 8] by simp
    then show ?thesis using less.IH [of "n - 16"] True by (subst (1 2) chk_loop.simps) simp
  next
    case False
    then show ?thesis using less.prems by (subst (1 2) chk_loop.simps) simp
  qed
qed

lemma chk_if_staged:
  assumes "loads m ld" and "T < 2 ^ 32" and "staged T m st" and "snd (snd st) < 4 * k"
  shows "staged T m (chk_if ld k st) \<and> snd (snd (chk_if ld k st)) < 2 * k"
proof -
  obtain s a n where st: "st = (s, a, n)" by (cases st)
  show ?thesis
    using chk_step_staged [OF assms(1,2), of s a n k] assms(3,4) by (auto simp: st chk_if_def mult.commute)
qed

lemma in_chksum_value:
  assumes "unat s + block_value a n m < 2 ^ 32"
  shows "unat (in_chksum s a n m) = ones (unat s + block_value a n m)"
proof -
  define T where "T = unat s + block_value a n m"
  define ld where "ld = (if a AND 1 = 0 then ld_half m else ld_bytes m)"
  have ld: "loads m ld" using loads_bytes [of m] by (simp add: ld_def ld_half_bytes)
  have T: "T < 2 ^ 32" using assms by (simp add: T_def)
  define st1 where "st1 = chk_loop ld (s, a, n)"
  define st2 where "st2 = chk_if ld 4 st1"
  define st3 where "st3 = chk_if ld 2 st2"
  define st4 where "st4 = chk_if ld 1 st3"
  have 1: "staged T m st1 \<and> snd (snd st1) < 16" unfolding st1_def by (rule chk_loop_staged [OF ld T]) (simp add: staged_def T_def)
  have 2: "staged T m st2 \<and> snd (snd st2) < 8" using chk_if_staged [OF ld T, of st1 4] 1 by (simp add: st2_def)
  have 3: "staged T m st3 \<and> snd (snd st3) < 4" using chk_if_staged [OF ld T, of st2 2] 2 by (simp add: st3_def)
  have 4: "staged T m st4 \<and> snd (snd st4) < 2" using chk_if_staged [OF ld T, of st3 1] 3 by (simp add: st4_def)
  obtain s4 a4 n4 where st4: "st4 = (s4, a4, n4)" by (cases st4)
  define r where "r = (if n4 \<noteq> 0 then s4 + ucast (m a4) else s4)"
  have "unat r = T"
  proof (cases n4)
    case 0
    then show ?thesis using 4 st4 by (simp add: staged_def r_def)
  next
    case (Suc j)
    then have e: "n4 = 1" "unat s4 + unat (m a4) = T" using 4 st4 by (auto simp: staged_def)
    have "unat (ucast (m a4) :: u32) = unat (m a4)"
      using byte_bound [of "m a4"] by (simp add: unsigned_ucast_eq take_bit_nat_eq_self_iff)
    then show ?thesis using e T by (simp add: r_def) (subst unat_add_lem [THEN iffD1], simp_all)
  qed
  moreover have "in_chksum s a n m = chk_fold r"
    using st4 unfolding in_chksum_def Let_def ld_def [symmetric] st1_def [symmetric] st2_def [symmetric] st3_def [symmetric] st4_def [symmetric]
    by (simp add: r_def)
  ultimately show ?thesis using chk_fold_ones [of r] by (simp add: T_def)
qed

lemma block_value_cong: "(\<And>i. i < n \<Longrightarrow> m (a + i) = m' (a + i)) \<Longrightarrow> block_value a n m = block_value a n m'"
proof (induction a n m rule: block_value.induct)
  case (2 a m)
  from 2 [of 0] show ?case by simp
next
  case (3 a n m)
  have "block_value (a + 2) n m = block_value (a + 2) n m'"
  proof (rule 3(1))
    fix i assume "i < n"
    then show "m (a + 2 + i) = m' (a + 2 + i)" using 3(2) [of "i + 2"] by (simp add: add.commute add.left_commute)
  qed
  then show ?case using 3(2) [of 0] 3(2) [of 1] by simp
qed simp

lemma block_value_field:
  assumes "2 * k + 2 \<le> n" and "m (a + 2 * k) = 0" and "m (a + 2 * k + 1) = 0"
  shows "block_value a n (m(a + 2 * k := x, a + 2 * k + 1 := y)) = block_value a n m + unat x + 256 * unat y"
proof -
  define m' where "m' = m(a + 2 * k := x, a + 2 * k + 1 := y)"
  obtain j where n: "n = 2 * k + Suc (Suc j)" using assms(1) by (metis add_2_eq_Suc' add.assoc add.commute le_Suc_ex)
  have "block_value a (2 * k) m' = block_value a (2 * k) m" "block_value (a + 2 * k + 2) j m' = block_value (a + 2 * k + 2) j m"
    by (rule block_value_cong; simp add: m'_def)+
  moreover have "m' (a + 2 * k) = x" "m' (a + 2 * k + 1) = y" by (simp_all add: m'_def)
  ultimately show ?thesis
    unfolding n block_value_split m'_def [symmetric] using assms(2,3) by simp
qed

lemma ones_le: "ones n \<le> 65535"
proof -
  have "(n - 1) mod 65535 < 65535" by (rule mod_less_divisor) simp
  then have "(n - 1) mod 65535 + 1 \<le> 65535" by linarith
  then show ?thesis unfolding ones_def by (simp only: split: if_split) blast
qed

lemma ones_complement:
  assumes "T \<noteq> 0"
  shows "ones (T + (65535 - ones T)) = 65535"
proof -
  define q r where "q = (T - 1) div 65535" and "r = (T - 1) mod 65535"
  have "T - 1 = 65535 * q + r" "r < 65535" by (simp_all add: q_def r_def)
  moreover have "ones T = r + 1" using assms by (simp add: ones_def r_def)
  ultimately have "T + (65535 - ones T) = 65535 * q + 65535" using assms by linarith
  then show ?thesis by (simp add: ones_def)
qed

lemma low_mask: "(0xffff :: u32) = mask 16"
  by (simp add: mask_eq_exp_minus_1)

lemma complement_field:
  assumes "unat (r :: u32) \<le> 65535"
  defines "c \<equiv> NOT r AND 0xffff"
  shows "unat (ucast c :: u8) + 256 * unat (ucast (drop_bit 8 c) :: u8) = 65535 - unat r"
proof -
  have le: "r \<le> 0xffff" using assms(1) by (simp add: word_le_nat_alt)
  have "bit r i \<Longrightarrow> i < 16" for i
  proof (rule ccontr)
    assume b: "bit r i" "\<not> i < 16"
    have "r < 2 ^ 16" using assms(1) by (simp add: word_less_nat_alt)
    then have "take_bit 16 r = r" by (simp add: less_mask_eq take_bit_eq_mask word_less_nat_alt unsigned_take_bit_eq word_unat_eq_iff take_bit_nat_eq_self_iff)
    then show False using b bit_take_bit_iff [of 16 r i] by simp
  qed
  then have "NOT 0xffff AND r = 0"
    by (intro bit_word_eqI) (auto simp: low_mask bit_and_iff bit_not_iff bit_mask_iff)
  then have "0xffff - r = 0xffff AND NOT r" by (rule disjunctive_diff_eq_and_not)
  then have "c = 0xffff - r" by (simp add: c_def and.commute)
  then have c: "unat c = 65535 - unat r" using le by (simp add: unat_sub)
  have "unat (ucast c :: u8) = unat c mod 256" by (simp only: unsigned_ucast_eq) (simp add: take_bit_eq_mod)
  moreover have "unat (ucast (drop_bit 8 c) :: u8) = unat c div 256 mod 256"
    by (simp only: unsigned_ucast_eq unat_drop_bit_eq) (simp add: take_bit_eq_mod drop_bit_eq_div)
  moreover have "unat c div 256 < 256" using c by (simp add: less_mult_imp_div_less)
  ultimately show ?thesis using c by simp
qed

section \<open>Properties\<close>

text \<open>C38: \<open>in_chksum\<close> returns the ones'-complement sum of its argument and the little-endian halfwords of the block, at any
  alignment and length, whenever the 32-bit sum cannot wrap.\<close>

theorem in_chksum_ones:
  assumes "unat s + 65535 * ((n + 1) div 2) < 2 ^ 32"
  shows "unat (in_chksum s a n m) = ones (unat s + block_value a n m)"
  using assms block_value_bound [of a n m] by (intro in_chksum_value) linarith

theorem in_chksum_ones_witness: "unat (in_chksum 0x1234 101 5 (\<lambda>a. of_nat a)) = ones (unat (0x1234 :: u32) + block_value 101 5 (\<lambda>a. of_nat a))"
  by (rule in_chksum_ones) simp

text \<open>A header or datagram whose checksum field holds the complement of the checksum computed with the field zero is
  accepted: the receiver's sum over it is \<open>0xffff\<close>. The rest of the block must not be all zero.\<close>

theorem in_chksum_verifies:
  assumes "unat s + 65535 * ((n + 1) div 2) < 2 ^ 31" and "2 * k + 2 \<le> n" and "unat s + block_value a n m \<noteq> 0"
    and "m (a + 2 * k) = 0" and "m (a + 2 * k + 1) = 0"
  defines "c \<equiv> (NOT (in_chksum s a n m)) AND 0xffff"
  shows "in_chksum s a n (m(a + 2 * k := ucast c, a + 2 * k + 1 := ucast (drop_bit 8 c))) = 0xffff"
proof -
  define T where "T = unat s + block_value a n m"
  define m' where "m' = m(a + 2 * k := ucast c, a + 2 * k + 1 := ucast (drop_bit 8 c))"
  have T: "T < 2 ^ 31" using assms(1) block_value_bound [of a n m] by (simp add: T_def)
  have r: "unat (in_chksum s a n m) = ones T" using T by (simp add: in_chksum_value T_def)
  have v: "unat (ucast c :: u8) + 256 * unat (ucast (drop_bit 8 c) :: u8) = 65535 - ones T"
    using complement_field [of "in_chksum s a n m"] r ones_le [of T] unfolding c_def by simp
  have b: "unat s + block_value a n m' = T + (65535 - ones T)"
    using block_value_field [OF assms(2,4,5), of "ucast c" "ucast (drop_bit 8 c)"] v by (simp add: m'_def T_def)
  have "unat (in_chksum s a n m') = ones (T + (65535 - ones T))"
    using in_chksum_value [of s a n m'] T unfolding b by simp
  also have "\<dots> = 65535" using assms(3) by (intro ones_complement) (simp add: T_def)
  finally show ?thesis unfolding m'_def [symmetric] by (simp add: word_unat_eq_iff)
qed

theorem in_chksum_verifies_witness:
  "let m = (\<lambda>a. if a = 4 \<or> a = 5 then 0 else of_nat a); c = (NOT (in_chksum 0 0 20 m)) AND 0xffff
   in in_chksum 0 0 20 (m(0 + 2 * 2 := ucast c, 0 + 2 * 2 + 1 := ucast (drop_bit 8 c))) = 0xffff"
  unfolding Let_def
proof (rule in_chksum_verifies)
  have "block_value 0 20 (\<lambda>a. if a = 4 \<or> a = 5 then 0 else of_nat a) = block_value 0 (Suc (Suc 18)) (\<lambda>a. if a = 4 \<or> a = 5 then 0 else of_nat a)"
    by simp
  also have "\<dots> \<noteq> 0" unfolding block_value.simps by simp
  finally show "unat (0 :: u32) + block_value 0 20 (\<lambda>a. if a = 4 \<or> a = 5 then 0 else of_nat a) \<noteq> 0" by simp
qed simp_all

end
