(* ===== verification/Net_Tcp.thy ===== *)
theory Net_Tcp
  imports Net_Pcb Net_Route Net_Chksum Util ThinkOS_Cond ThinkOS_Sem
begin

text \<open>
  The state of the TCP layer (\<^verbatim>\<open>src/src/sdk/libtcpip/include/sys/tcp.h\<close>, \<^verbatim>\<open>tcp/tcp.c\<close>) and the queue of control blocks that
  wait for the output task (\<^verbatim>\<open>tcp/tcp_tmr.c\<close>).

  A control block is a record that extends \<open>pcb\<close>, as the C structures share their first members. A listening block
  uses the same storage as \<open>struct tcp_listen_pcb\<close>; its members are fields of their own, since the code reads one set or
  the other by the state of the block. The byte queues of block \<open>i\<close> are the queues \<open>2 * i\<close> (receive) and \<open>2 * i + 1\<close>
  (send) of \<open>Net_Mbuf\<close>, which share the pool. The kernel is the state \<open>kern\<close>, on which condition variables and
  semaphores are operated by the service handlers of ThinkOS.

  The four lists of control blocks are one function \<open>lst\<close> of the list's name. Operations that may follow a null
  pointer or not return give an option.
\<close>

section \<open>States and flags\<close>

datatype tcps =
  TCPS_CLOSED | TCPS_LISTEN | TCPS_SYN_SENT | TCPS_SYN_RCVD | TCPS_ESTABLISHED | TCPS_CLOSE_WAIT | TCPS_FIN_WAIT_1 |
  TCPS_CLOSING | TCPS_LAST_ACK | TCPS_FIN_WAIT_2 | TCPS_TIME_WAIT

fun tcps_num :: "tcps \<Rightarrow> nat" where
  "tcps_num TCPS_CLOSED = 0"
| "tcps_num TCPS_LISTEN = 1"
| "tcps_num TCPS_SYN_SENT = 2"
| "tcps_num TCPS_SYN_RCVD = 3"
| "tcps_num TCPS_ESTABLISHED = 4"
| "tcps_num TCPS_CLOSE_WAIT = 5"
| "tcps_num TCPS_FIN_WAIT_1 = 6"
| "tcps_num TCPS_CLOSING = 7"
| "tcps_num TCPS_LAST_ACK = 8"
| "tcps_num TCPS_FIN_WAIT_2 = 9"
| "tcps_num TCPS_TIME_WAIT = 10"

lemma tcps_num_inj: "tcps_num a = tcps_num b \<Longrightarrow> a = b"
  by (cases a; cases b) simp_all

text \<open>The states are ordered by their numbers.\<close>

instantiation tcps :: linorder
begin

definition less_eq_tcps :: "tcps \<Rightarrow> tcps \<Rightarrow> bool" where
  "less_eq_tcps a b \<longleftrightarrow> tcps_num a \<le> tcps_num b"

definition less_tcps :: "tcps \<Rightarrow> tcps \<Rightarrow> bool" where
  "less_tcps a b \<longleftrightarrow> tcps_num a < tcps_num b"

instance
  by intro_classes (auto simp: less_eq_tcps_def less_tcps_def intro: tcps_num_inj)

end

definition TCPS_HAVERCVDSYN :: "tcps \<Rightarrow> bool" where
  "TCPS_HAVERCVDSYN s \<longleftrightarrow> TCPS_SYN_RCVD \<le> s"

definition TCPS_HAVERCVDFIN :: "tcps \<Rightarrow> bool" where
  "TCPS_HAVERCVDFIN s \<longleftrightarrow> TCPS_TIME_WAIT \<le> s"

abbreviation TF_ACKNOW :: u8 where "TF_ACKNOW \<equiv> 0x01"
abbreviation TF_DELACK :: u8 where "TF_DELACK \<equiv> 0x02"
abbreviation TF_SENTFIN :: u8 where "TF_SENTFIN \<equiv> 0x04"
abbreviation TF_IDLE :: u8 where "TF_IDLE \<equiv> 0x08"
abbreviation TF_NEEDOUTPUT :: u8 where "TF_NEEDOUTPUT \<equiv> 0x80"

abbreviation TH_FIN :: u8 where "TH_FIN \<equiv> 0x01"
abbreviation TH_SYN :: u8 where "TH_SYN \<equiv> 0x02"
abbreviation TH_RST :: u8 where "TH_RST \<equiv> 0x04"
abbreviation TH_PSH :: u8 where "TH_PSH \<equiv> 0x08"
abbreviation TH_ACK :: u8 where "TH_ACK \<equiv> 0x10"
abbreviation TH_URG :: u8 where "TH_URG \<equiv> 0x20"

text \<open>\<open>x & f\<close> as a condition.\<close>

definition flag :: "u8 \<Rightarrow> u8 \<Rightarrow> bool" where
  "flag x f \<longleftrightarrow> x AND f \<noteq> 0"

text \<open>The comparisons of sequence numbers.\<close>

definition SEQ_LT :: "u32 \<Rightarrow> u32 \<Rightarrow> bool" where "SEQ_LT a b \<longleftrightarrow> sint (a - b) < 0"
definition SEQ_LEQ :: "u32 \<Rightarrow> u32 \<Rightarrow> bool" where "SEQ_LEQ a b \<longleftrightarrow> sint (a - b) \<le> 0"
definition SEQ_GT :: "u32 \<Rightarrow> u32 \<Rightarrow> bool" where "SEQ_GT a b \<longleftrightarrow> sint (a - b) > 0"

section \<open>Control blocks\<close>

record tcp_pcb = pcb +
  t_flags :: u8
  t_state :: tcps
  t_cond :: int
  t_count :: u8
  t_rxmt_tmr :: u8
  t_conn_tmr :: u8
  t_maxseg :: u16
  t_route :: "nat option"
  snd_seq :: u32
  snd_off :: u16
  snd_max :: u16
  snd_wnd :: u16
  rcv_adv_wnd :: u16
  rcv_nxt :: u32
  t_sem :: int
  t_max :: u8
  t_head :: u8
  t_tail :: u8
  t_backlog :: "nat \<Rightarrow> nat option"

text \<open>The block after \<open>memset\<close>.\<close>

definition zero_pcb :: tcp_pcb where
  "zero_pcb =
    \<lparr>inp_faddr = 0, inp_laddr = 0, inp_fport = 0, inp_lport = 0, t_flags = 0, t_state = TCPS_CLOSED, t_cond = 0, t_count = 0,
     t_rxmt_tmr = 0, t_conn_tmr = 0, t_maxseg = 0, t_route = None, snd_seq = 0, snd_off = 0, snd_max = 0, snd_wnd = 0,
     rcv_adv_wnd = 0, rcv_nxt = 0, t_sem = 0, t_max = 0, t_head = 0, t_tail = 0, t_backlog = (\<lambda>_. None)\<rparr>"

record ifnet =
  if_mtu :: u16
  if_ipv4_addr :: u32

text \<open>A packet given to \<open>ip_output\<close>: the addresses and the TCP segment.\<close>

record ip_packet =
  ip_saddr :: u32
  ip_daddr :: u32
  ip_payload :: "u8 list"

datatype tcp_list = FREE | CLOSED | LISTEN | ACTIVE

record tcp_system =
  lst :: "tcp_list \<Rightarrow> pcb_list"
  nx :: links
  pcbs :: "nat \<Rightarrow> tcp_pcb"
  iss :: u16
  port_seq :: u16
  out_cond :: int
  out_head :: u16
  out_tail :: u16
  out_tp :: "nat \<Rightarrow> nat option"
  bufs :: net_bufs
  routes :: "route list"
  ifns :: "nat \<Rightarrow> ifnet"
  kern :: thinkos_rt
  netlock :: bool
  sent :: "ip_packet list"

abbreviation NET_TCP_PCB_ACTIVE_MAX :: nat where "NET_TCP_PCB_ACTIVE_MAX \<equiv> 8"

abbreviation rcv_q :: "nat \<Rightarrow> nat" where "rcv_q p \<equiv> 2 * p"
abbreviation snd_q :: "nat \<Rightarrow> nat" where "snd_q p \<equiv> 2 * p + 1"

definition upd_pcb :: "nat \<Rightarrow> (tcp_pcb \<Rightarrow> tcp_pcb) \<Rightarrow> tcp_system \<Rightarrow> tcp_system" where
  "upd_pcb p f s = s\<lparr>pcbs := (pcbs s)(p := f (pcbs s p))\<rparr>"

definition set_flag :: "nat \<Rightarrow> u8 \<Rightarrow> tcp_system \<Rightarrow> tcp_system" where
  "set_flag p f = upd_pcb p (\<lambda>b. b\<lparr>t_flags := t_flags b OR f\<rparr>)"

definition clear_flag :: "nat \<Rightarrow> u8 \<Rightarrow> tcp_system \<Rightarrow> tcp_system" where
  "clear_flag p f = upd_pcb p (\<lambda>b. b\<lparr>t_flags := t_flags b AND NOT f\<rparr>)"

section \<open>Calls to the kernel and to the buffers\<close>

text \<open>A service call with one argument, and its result in \<open>r0\<close>.\<close>

definition os_call :: "(svc_arg \<Rightarrow> thinkos_rt \<Rightarrow> svc_arg \<times> thinkos_rt) \<Rightarrow> int \<Rightarrow> tcp_system \<Rightarrow> int \<times> tcp_system" where
  "os_call f x s = (case f (\<lambda>_. of_int x) (kern s) of (r, k) \<Rightarrow> (sint (r 0), s\<lparr>kern := k\<rparr>))"

definition os_cond_signal :: "int \<Rightarrow> tcp_system \<Rightarrow> tcp_system" where
  "os_cond_signal c s = snd (os_call thinkos_cond_signal_svc c s)"

definition os_cond_broadcast :: "int \<Rightarrow> tcp_system \<Rightarrow> tcp_system" where
  "os_cond_broadcast c s = snd (os_call thinkos_cond_broadcast_svc c s)"

definition os_cond_free :: "int \<Rightarrow> tcp_system \<Rightarrow> tcp_system" where
  "os_cond_free c s = snd (os_call thinkos_cond_free_svc c s)"

definition os_sem_free :: "int \<Rightarrow> tcp_system \<Rightarrow> tcp_system" where
  "os_sem_free c s = snd (os_call thinkos_sem_free_svc c s)"

definition os_sem_post :: "int \<Rightarrow> tcp_system \<Rightarrow> tcp_system" where
  "os_sem_post c s = snd (os_call thinkos_sem_post_svc c s)"

text \<open>The mutex of the stack, held by the thread that works on it.\<close>

definition net_lock :: "tcp_system \<Rightarrow> tcp_system" where
  "net_lock s = s\<lparr>netlock := True\<rparr>"

definition net_unlock :: "tcp_system \<Rightarrow> tcp_system" where
  "net_unlock s = s\<lparr>netlock := False\<rparr>"

definition queue_len :: "nat \<Rightarrow> tcp_system \<Rightarrow> nat" where
  "queue_len j s = q_len (fst (bufs s) j)"

definition queue_init :: "nat \<Rightarrow> tcp_system \<Rightarrow> tcp_system" where
  "queue_init j s = s\<lparr>bufs := ((fst (bufs s))(j := mbuf_queue_init (fst (bufs s) j)), snd (bufs s))\<rparr>"

definition queue_add :: "nat \<Rightarrow> u8 list \<Rightarrow> tcp_system \<Rightarrow> (nat \<times> tcp_system) option" where
  "queue_add j d s = map_option (\<lambda>(n, b). (n, s\<lparr>bufs := b\<rparr>)) (bufs_add j d (bufs s))"

definition queue_remove :: "nat \<Rightarrow> nat \<Rightarrow> tcp_system \<Rightarrow> (u8 list \<times> tcp_system) option" where
  "queue_remove j n s = map_option (\<lambda>(d, b). (d, s\<lparr>bufs := b\<rparr>)) (bufs_remove j n (bufs s))"

definition queue_trim :: "nat \<Rightarrow> nat \<Rightarrow> tcp_system \<Rightarrow> tcp_system option" where
  "queue_trim j n s = (case bufs s of (Q, b) \<Rightarrow>
    map_option (\<lambda>(k, q, b). s\<lparr>bufs := (Q(j := q), b)\<rparr>) (mbuf_queue_trim (Q j) n b))"

definition queue_get :: "nat \<Rightarrow> nat \<Rightarrow> nat \<Rightarrow> tcp_system \<Rightarrow> u8 list option" where
  "queue_get j offs n s = (case bufs s of (Q, b) \<Rightarrow> mbuf_queue_get (Q j) offs n b)"

definition queue_free :: "nat \<Rightarrow> tcp_system \<Rightarrow> tcp_system option" where
  "queue_free j s = (case bufs s of (Q, b) \<Rightarrow>
    map_option (\<lambda>(q, b). s\<lparr>bufs := (Q(j := q), b)\<rparr>) (mbuf_queue_free (Q j) b))"

section \<open>Blocks that wait for output\<close>

definition tcp_output_enqueue :: "nat \<Rightarrow> tcp_system \<Rightarrow> tcp_system" where
  "tcp_output_enqueue p s =
    (if \<not> flag (t_flags (pcbs s p)) TF_NEEDOUTPUT
     then set_flag p TF_NEEDOUTPUT
       (s\<lparr>out_tp := (out_tp s)(unat (out_head s) mod NET_TCP_PCB_ACTIVE_MAX := Some p), out_head := out_head s + 1\<rparr>)
     else s)"

definition tcp_output_sched :: "nat \<Rightarrow> tcp_system \<Rightarrow> tcp_system" where
  "tcp_output_sched p s =
    (if t_flags (pcbs s p) AND TF_NEEDOUTPUT = 0
     then os_cond_signal (out_cond s)
       (set_flag p TF_NEEDOUTPUT
         (s\<lparr>out_tp := (out_tp s)(unat (out_head s) mod NET_TCP_PCB_ACTIVE_MAX := Some p), out_head := out_head s + 1\<rparr>))
     else s)"

text \<open>The inner loop of \<open>tcp_output_dequeue\<close>.\<close>

function dequeue_shift :: "u16 \<Rightarrow> u16 \<Rightarrow> (nat \<Rightarrow> nat option) \<Rightarrow> (nat \<Rightarrow> nat option)" where
  "dequeue_shift tail mark tp =
    (if tail \<noteq> mark then
       (let i = unat tail mod NET_TCP_PCB_ACTIVE_MAX;
            tail = tail + 1;
            j = unat tail mod NET_TCP_PCB_ACTIVE_MAX
        in dequeue_shift tail mark (tp(j := tp i)))
     else tp)"
  by pat_completeness auto

lemma countdown:
  fixes a b :: u16
  assumes "a \<noteq> b"
  shows "unat (b - (a + 1)) < unat (b - a)"
proof -
  have "b - a \<noteq> 0" using assms by simp
  moreover have "b - (a + 1) = (b - a) - 1" by simp
  ultimately show ?thesis by (metis unat_minus_one diff_less unat_gt_0 zero_less_one)
qed

termination dequeue_shift
  by (relation "measure (\<lambda>(tail, mark, tp). unat (mark - tail))") (auto intro: countdown)

function dequeue_loop :: "u16 \<Rightarrow> u16 \<Rightarrow> u16 \<Rightarrow> nat \<Rightarrow> tcp_system \<Rightarrow> tcp_system" where
  "dequeue_loop mark head tail p s =
    (if mark \<noteq> head then
       if out_tp s (unat mark mod NET_TCP_PCB_ACTIVE_MAX) = Some p
       then s\<lparr>out_tail := tail + 1, out_tp := dequeue_shift tail mark (out_tp s)\<rparr>
       else dequeue_loop (mark + 1) head tail p s
     else s)"
  by pat_completeness auto

termination dequeue_loop
  by (relation "measure (\<lambda>(mark, head, tail, p, s). unat (head - mark))") (auto intro: countdown)

declare dequeue_shift.simps [simp del] dequeue_loop.simps [simp del]

definition tcp_output_dequeue :: "nat \<Rightarrow> tcp_system \<Rightarrow> tcp_system" where
  "tcp_output_dequeue p s = dequeue_loop (out_tail s) (out_head s) (out_tail s) p s"

section \<open>Allocation of control blocks\<close>

definition list_insert :: "nat \<Rightarrow> tcp_list \<Rightarrow> tcp_system \<Rightarrow> tcp_system" where
  "list_insert p k s = (case pcb_insert p (lst s k, nx s) of (l, n) \<Rightarrow> s\<lparr>lst := (lst s)(k := l), nx := n\<rparr>)"

definition list_move :: "nat \<Rightarrow> tcp_list \<Rightarrow> tcp_list \<Rightarrow> tcp_system \<Rightarrow> (int \<times> tcp_system) option" where
  "list_move p from to s =
    map_option (\<lambda>(r, a, b, n). (r, s\<lparr>lst := (lst s)(from := a, to := b), nx := n\<rparr>)) (pcb_move p (lst s from) (lst s to) (nx s))"

text \<open>\<open>memset\<close> leaves the two queues with null pointers; nothing reads them before \<open>mbuf_queue_init\<close>.\<close>

definition zero_queue :: mbuf_queue where
  "zero_queue = \<lparr>q_offs = 0, q_len = 0, q_first = None, q_last = Head\<rparr>"

definition tcp_pcb_new :: "tcp_list \<Rightarrow> tcp_system \<Rightarrow> nat option \<times> tcp_system" where
  "tcp_pcb_new k s =
    (case pcb_remove_head (lst s FREE, nx s) of
       (None, l, n) \<Rightarrow> (None, s\<lparr>lst := (lst s)(FREE := l), nx := n\<rparr>)
     | (Some p, l, n) \<Rightarrow>
         (let s = list_insert p k (s\<lparr>lst := (lst s)(FREE := l), nx := n\<rparr>);
              s = s\<lparr>pcbs := (pcbs s)(p := zero_pcb), bufs := ((fst (bufs s))(rcv_q p := zero_queue, snd_q p := zero_queue), snd (bufs s))\<rparr>
          in (Some p, upd_pcb p (\<lambda>b. b\<lparr>t_cond := - 1\<rparr>) s)))"

text \<open>The recursive calls of \<open>tcp_pcb_free\<close>: for a block, and its loop over the backlog of \<open>mux\<close>, in which \<open>tp\<close> is the
  local variable.\<close>

datatype free_call = Free nat | Backlog nat nat

partial_function (option) free_go :: "free_call \<Rightarrow> tcp_system \<Rightarrow> (int \<times> tcp_system) option" where
  "free_go c s =
    (case c of
       Free p \<Rightarrow>
         (let s = (if flag (t_flags (pcbs s p)) TF_NEEDOUTPUT then tcp_output_dequeue p (clear_flag p TF_NEEDOUTPUT s) else s)
          in if t_state (pcbs s p) = TCPS_LISTEN then free_go (Backlog p p) s
             else if t_state (pcbs s p) = TCPS_CLOSED then list_move p CLOSED FREE s
             else bind (queue_free (rcv_q p) s) (\<lambda>s. bind (queue_free (snd_q p) s) (\<lambda>s.
               list_move p ACTIVE FREE (os_cond_free (t_cond (pcbs s p)) s))))
     | Backlog mux tp \<Rightarrow>
         if t_head (pcbs s mux) = t_tail (pcbs s mux)
         then list_move tp LISTEN FREE (os_sem_free (t_sem (pcbs s mux)) s)
         else case t_backlog (pcbs s mux) (unat (t_head (pcbs s mux))) of
           None \<Rightarrow> None
         | Some b \<Rightarrow>
             bind (free_go (Free b) (upd_pcb mux (\<lambda>m. m\<lparr>t_head := t_head m + 1\<rparr>) s)) (\<lambda>(_, s).
               free_go (Backlog mux b)
                 (if t_head (pcbs s mux) = t_max (pcbs s mux) then upd_pcb mux (\<lambda>m. m\<lparr>t_head := 0\<rparr>) s else s)))"

definition tcp_pcb_free :: "nat \<Rightarrow> tcp_system \<Rightarrow> (int \<times> tcp_system) option" where
  "tcp_pcb_free p s = free_go (Free p) s"

definition tcp_alloc :: "tcp_system \<Rightarrow> nat option \<times> tcp_system" where
  "tcp_alloc s =
    (case tcp_pcb_new CLOSED (net_lock s) of
       (None, s) \<Rightarrow> (None, net_unlock s)
     | (Some p, s) \<Rightarrow> (Some p, net_unlock (upd_pcb p (\<lambda>b. b\<lparr>t_state := TCPS_CLOSED\<rparr>) s)))"

text \<open>The insertion loop of \<open>tcp_init\<close>.\<close>

fun init_loop :: "nat \<Rightarrow> nat \<Rightarrow> tcp_system \<Rightarrow> tcp_system" where
  "init_loop 0 i s = s"
| "init_loop (Suc n) i s = init_loop n (i + 1) (list_insert i FREE s)"

definition tcp_init :: "tcp_system \<Rightarrow> tcp_system" where
  "tcp_init s =
    (let s = init_loop NET_TCP_PCB_ACTIVE_MAX 0 (s\<lparr>lst := (lst s)(FREE := pcb_list_init)\<rparr>);
         s = s\<lparr>lst := (lst s)(CLOSED := pcb_list_init, LISTEN := pcb_list_init, ACTIVE := pcb_list_init), out_head := 0, out_tail := 0\<rparr>
     in case os_call thinkos_cond_alloc_svc 0 s of (c, s) \<Rightarrow> s\<lparr>out_cond := c\<rparr>)"

section \<open>Laws of the byte queues\<close>

abbreviation qbytes :: "nat \<Rightarrow> tcp_system \<Rightarrow> u8 list" where "qbytes j s \<equiv> bufs_bytes j (bufs s)"

abbreviation NQ :: nat where "NQ \<equiv> 16"

lemma bufs_free_law:
  assumes "bufs_inv N (Q, s)" and "j < N"
  shows "\<exists>q' s'. mbuf_queue_free (Q j) s = Some (q', s') \<and> bufs_inv N (Q(j := q'), s') \<and>
    (\<forall>i<N. bufs_bytes i (Q(j := q'), s') = (if i = j then [] else bufs_bytes i (Q, s)))"
proof -
  obtain fs xs where g: "good (Q j) s fs xs" "\<not> mb_mutex s" and lift:
    "\<And>q' s' fs' xs'. good q' s' fs' xs' \<Longrightarrow> set fs' \<union> set xs' = set fs \<union> set xs \<Longrightarrow> frame (set fs \<union> set xs) s s' \<Longrightarrow>
      \<not> mb_mutex s' \<Longrightarrow> bufs_inv N (Q(j := q'), s') \<and> (\<forall>i<N. i \<noteq> j \<longrightarrow> queue_bytes (Q i) s' = queue_bytes (Q i) s)"
    using bufs_invD [OF assms] by metis
  obtain q' s' where f: "mbuf_queue_free (Q j) s = Some (q', s')" "good q' s' (fs @ xs) []" "frame (set fs \<union> set xs) s s'" "\<not> mb_mutex s'"
    using free_good [OF g(1)] by blast
  have "queue_bytes q' s' = []" using f(2) queue_bytes_eq [of q' s' "[]"] by (simp add: good_def bytes_def)
  then show ?thesis using lift [OF f(2) _ f(3,4)] f(1) by (auto simp: bufs_bytes_def)
qed

lemma bufs_len_law:
  assumes "bufs_inv N (Q, s)" and "j < N"
  shows "q_len (Q j) = length (bufs_bytes j (Q, s))"
proof -
  obtain fs xs where "good (Q j) s fs xs" using bufs_invD [OF assms] by metis
  then show ?thesis using queue_bytes_eq [of "Q j" s xs] by (simp add: good_def bufs_bytes_def)
qed

lemma bufs_get_law:
  assumes "bufs_inv N (Q, s)" and "j < N"
  shows "mbuf_queue_get (Q j) offs n s = Some (take n (drop offs (bufs_bytes j (Q, s))))"
proof -
  obtain fs xs where g: "good (Q j) s fs xs" using bufs_invD [OF assms] by metis
  then show ?thesis using queue_bytes_eq [of "Q j" s xs] get_good [OF g, of offs n] by (simp add: good_def bufs_bytes_def)
qed

text \<open>On the state of the TCP layer, where the other fields stay.\<close>

lemma queue_add_ok:
  assumes "bufs_inv NQ (bufs s)" and "j < NQ"
  shows "\<exists>n b. queue_add j d s = Some (n, s\<lparr>bufs := b\<rparr>) \<and> n \<le> length d \<and> bufs_inv NQ b \<and>
    (\<forall>i<NQ. bufs_bytes i b = qbytes i s @ (if i = j then take n d else []))"
proof -
  obtain n b where b: "bufs_add j d (bufs s) = Some (n, b)" "n \<le> length d" "bufs_inv NQ b"
    "\<forall>i<NQ. bufs_bytes i b = qbytes i s @ (if i = j then take n d else [])"
    using mbufs.add_law [OF assms, of d] by blast
  then have "queue_add j d s = Some (n, s\<lparr>bufs := b\<rparr>)" by (simp add: queue_add_def)
  then show ?thesis using b(2-) by blast
qed

lemma queue_remove_ok:
  assumes "bufs_inv NQ (bufs s)" and "j < NQ"
  shows "\<exists>b. queue_remove j n s = Some (take n (qbytes j s), s\<lparr>bufs := b\<rparr>) \<and> bufs_inv NQ b \<and>
    (\<forall>i<NQ. bufs_bytes i b = (if i = j then drop n (qbytes i s) else qbytes i s))"
proof -
  obtain b where b: "bufs_remove j n (bufs s) = Some (take n (qbytes j s), b)" "bufs_inv NQ b"
    "\<forall>i<NQ. bufs_bytes i b = (if i = j then drop n (qbytes i s) else qbytes i s)"
    using mbufs.rem_law [OF assms, of n] by blast
  then have "queue_remove j n s = Some (take n (qbytes j s), s\<lparr>bufs := b\<rparr>)" by (simp add: queue_remove_def)
  then show ?thesis using b(2,3) by blast
qed

lemma queue_trim_remove: "queue_trim j n s = map_option snd (queue_remove j n s)"
  by (auto simp: queue_trim_def queue_remove_def bufs_remove_def trim_remove option.map_comp comp_def split: prod.splits
      intro!: arg_cong2 [where f = map_option])

lemma queue_trim_ok:
  assumes "bufs_inv NQ (bufs s)" and "j < NQ"
  shows "\<exists>b. queue_trim j n s = Some (s\<lparr>bufs := b\<rparr>) \<and> bufs_inv NQ b \<and>
    (\<forall>i<NQ. bufs_bytes i b = (if i = j then drop n (qbytes i s) else qbytes i s))"
proof -
  obtain b where b: "queue_remove j n s = Some (take n (qbytes j s), s\<lparr>bufs := b\<rparr>)" "bufs_inv NQ b"
    "\<forall>i<NQ. bufs_bytes i b = (if i = j then drop n (qbytes i s) else qbytes i s)"
    using queue_remove_ok [OF assms, of n] by blast
  then have "queue_trim j n s = Some (s\<lparr>bufs := b\<rparr>)" by (simp add: queue_trim_remove)
  then show ?thesis using b(2,3) by blast
qed

lemma queue_free_ok:
  assumes "bufs_inv NQ (bufs s)" and "j < NQ"
  shows "\<exists>b. queue_free j s = Some (s\<lparr>bufs := b\<rparr>) \<and> bufs_inv NQ b \<and>
    (\<forall>i<NQ. bufs_bytes i b = (if i = j then [] else qbytes i s))"
proof -
  obtain Q b where s: "bufs s = (Q, b)" by fastforce
  obtain q' b' where f: "mbuf_queue_free (Q j) b = Some (q', b')" "bufs_inv NQ (Q(j := q'), b')"
    "\<forall>i<NQ. bufs_bytes i (Q(j := q'), b') = (if i = j then [] else bufs_bytes i (Q, b))"
    using bufs_free_law [of NQ Q b j] assms s by auto
  then have "queue_free j s = Some (s\<lparr>bufs := (Q(j := q'), b')\<rparr>)" by (simp add: queue_free_def s)
  then show ?thesis using f(2,3) s by metis
qed

lemma queue_len_eq: "bufs_inv NQ (bufs s) \<Longrightarrow> j < NQ \<Longrightarrow> queue_len j s = length (qbytes j s)"
  using bufs_len_law [of NQ "fst (bufs s)" "snd (bufs s)" j] by (simp add: queue_len_def)

lemma queue_get_eq: "bufs_inv NQ (bufs s) \<Longrightarrow> j < NQ \<Longrightarrow> queue_get j offs n s = Some (take n (drop offs (qbytes j s)))"
  using bufs_get_law [of NQ "fst (bufs s)" "snd (bufs s)" j offs n] by (cases "bufs s") (simp add: queue_get_def)

text \<open>What TCP relies on: besides the laws of \<open>byte_fifos\<close>, trimming, releasing and reading at an offset.\<close>

locale stream_bufs = byte_fifos +
  fixes trim :: "nat \<Rightarrow> nat \<Rightarrow> 'a \<Rightarrow> 'a option" and release :: "nat \<Rightarrow> 'a \<Rightarrow> 'a option"
    and get :: "nat \<Rightarrow> nat \<Rightarrow> nat \<Rightarrow> 'a \<Rightarrow> u8 list option" and len :: "nat \<Rightarrow> 'a \<Rightarrow> nat"
  assumes trim_law: "inv s \<Longrightarrow> j < N \<Longrightarrow> \<exists>s'. trim j n s = Some s' \<and> inv s' \<and>
      (\<forall>i<N. content_of i s' = (if i = j then drop n (content_of i s) else content_of i s))"
    and release_law: "inv s \<Longrightarrow> j < N \<Longrightarrow> \<exists>s'. release j s = Some s' \<and> inv s' \<and>
      (\<forall>i<N. content_of i s' = (if i = j then [] else content_of i s))"
    and get_law: "inv s \<Longrightarrow> j < N \<Longrightarrow> get j offs n s = Some (take n (drop offs (content_of j s)))"
    and len_law: "inv s \<Longrightarrow> j < N \<Longrightarrow> len j s = length (content_of j s)"
begin

text \<open>A byte keeps its distance from the end of what was acknowledged: retransmission after an acknowledgement reads
  the bytes it would have read before at the higher offset, whatever has been appended meanwhile.\<close>

lemma resend:
  assumes "inv s" and "j < N" and "k + offs + n \<le> len j s"
  shows "\<exists>s' m s''. trim j k s = Some s' \<and> add j d s' = Some (m, s'') \<and> get j offs n s'' = get j (k + offs) n s"
proof -
  obtain s' where t: "trim j k s = Some s'" "inv s'" "content_of j s' = drop k (content_of j s)"
    using trim_law [OF assms(1,2), of k] assms(2) by auto
  obtain m s'' where a: "add j d s' = Some (m, s'')" "inv s''" "content_of j s'' = content_of j s' @ take m d"
    using add_law [OF t(2) assms(2), of d] assms(2) by auto
  have "length (content_of j s') = len j s - k" using t(3) len_law [OF assms(1,2)] by simp
  then have "take n (drop offs (content_of j s'')) = take n (drop offs (content_of j s'))"
    using a(3) assms(3) by simp
  then have "get j offs n s'' = get j (k + offs) n s"
    using get_law [OF a(2) assms(2)] get_law [OF assms(1,2)] t(3) by (simp add: add.commute)
  then show ?thesis using t(1) a(1) by blast
qed

end

interpretation tcp_bufs: stream_bufs NQ "\<lambda>s. bufs_inv NQ (bufs s)" "\<lambda>j s. qbytes j s" queue_add queue_remove
  queue_trim queue_free queue_get queue_len
proof
  fix s :: tcp_system and j d n offs
  assume a: "bufs_inv NQ (bufs s)" "j < NQ"
  show "\<exists>k s'. queue_add j d s = Some (k, s') \<and> k \<le> length d \<and> bufs_inv NQ (bufs s') \<and>
      (\<forall>i<NQ. qbytes i s' = qbytes i s @ (if i = j then take k d else []))"
    using queue_add_ok [OF a, of d] by fastforce
  show "\<exists>s'. queue_remove j n s = Some (take n (qbytes j s), s') \<and> bufs_inv NQ (bufs s') \<and>
      (\<forall>i<NQ. qbytes i s' = (if i = j then drop n (qbytes i s) else qbytes i s))"
    using queue_remove_ok [OF a, of n] by fastforce
  show "\<exists>s'. queue_trim j n s = Some s' \<and> bufs_inv NQ (bufs s') \<and>
      (\<forall>i<NQ. qbytes i s' = (if i = j then drop n (qbytes i s) else qbytes i s))"
    using queue_trim_ok [OF a, of n] by fastforce
  show "\<exists>s'. queue_free j s = Some s' \<and> bufs_inv NQ (bufs s') \<and> (\<forall>i<NQ. qbytes i s' = (if i = j then [] else qbytes i s))"
    using queue_free_ok [OF a] by fastforce
  show "queue_get j offs n s = Some (take n (drop offs (qbytes j s)))" using a by (rule queue_get_eq)
  show "queue_len j s = length (qbytes j s)" using a by (rule queue_len_eq)
qed

section \<open>The lists of control blocks\<close>

definition parts :: "tcp_system \<Rightarrow> (tcp_list \<Rightarrow> nat list) \<Rightarrow> bool" where
  "parts s xs \<longleftrightarrow> (\<forall>k. plist (lst s k) (nx s) (xs k)) \<and> (\<forall>k l. k \<noteq> l \<longrightarrow> set (xs k) \<inter> set (xs l) = {}) \<and>
    (\<Union>k. set (xs k)) = {..<NET_TCP_PCB_ACTIVE_MAX}"

lemma partsD:
  assumes "parts s xs"
  shows "plist (lst s k) (nx s) (xs k)" and "k \<noteq> l \<Longrightarrow> set (xs k) \<inter> set (xs l) = {}" and "p \<in> set (xs k) \<Longrightarrow> p < NET_TCP_PCB_ACTIVE_MAX"
    and "distinct (xs k)"
  using assms unfolding parts_def by (blast, blast, blast, meson plist_distinct)

lemma list_move_parts:
  assumes "parts s xs" and "p \<in> set (xs a)" and "a \<noteq> b"
  shows "\<exists>l n. list_move p a b s = Some (0, s\<lparr>lst := l, nx := n\<rparr>) \<and>
    parts (s\<lparr>lst := l, nx := n\<rparr>) (xs(a := remove1 p (xs a), b := xs b @ [p]))"
proof -
  let ?ys = "xs(a := remove1 p (xs a), b := xs b @ [p])"
  obtain l1 l2 n where m: "pcb_move p (lst s a) (lst s b) (nx s) = Some (0, l1, l2, n)" "plist l1 n (remove1 p (xs a))"
    "plist l2 n (xs b @ [p])" "\<forall>i. i \<notin> set (xs a) \<union> set (xs b) \<longrightarrow> n i = nx s i"
    using move_plist [OF partsD(1) [OF assms(1)] partsD(1) [OF assms(1)] partsD(2) [OF assms(1,3)], of p] assms(2) by auto
  have "plist (((lst s)(a := l1, b := l2)) k) n (?ys k)" for k
  proof (cases "k = a \<or> k = b")
    case False
    then have "set (xs a) \<inter> set (xs k) = {}" "set (xs b) \<inter> set (xs k) = {}" using partsD(2) [OF assms(1)] by auto
    then have "plist (lst s k) n (xs k)" using plist_frame [OF partsD(1) [OF assms(1)], of k n] m(4) by blast
    then show ?thesis using False by simp
  qed (use m(2,3) assms(3) in auto)
  moreover have sets: "set (?ys k) = (if k = b then insert p (set (xs b)) else if k = a then set (xs a) - {p} else set (xs k))" for k
    using assms(3) partsD(4) [OF assms(1)] by simp
  have "set (?ys k) \<inter> set (?ys l) = {}" if "k \<noteq> l" for k l
    unfolding sets using that partsD(2) [OF assms(1), of k l] partsD(2) [OF assms(1), of a k] partsD(2) [OF assms(1), of a l]
      partsD(2) [OF assms(1), of b l] partsD(2) [OF assms(1), of k b] assms(2,3) by auto
  moreover have "(\<Union>k. set (?ys k)) = (\<Union>k. set (xs k))"
    unfolding sets using assms(2,3) by (auto split: if_splits)
  ultimately have "parts (s\<lparr>lst := (lst s)(a := l1, b := l2), nx := n\<rparr>) ?ys"
    using assms(1) unfolding parts_def by simp
  then show ?thesis using m(1) by (auto simp: list_move_def)
qed

section \<open>The invariant\<close>

text \<open>Each of the eight blocks is in exactly one list, and its state agrees with the list; the byte queues are well
  formed, those of a block that is not active are empty, and the routing table is in order.\<close>

fun list_state :: "tcp_list \<Rightarrow> tcps \<Rightarrow> bool" where
  "list_state FREE t \<longleftrightarrow> True"
| "list_state CLOSED t \<longleftrightarrow> t = TCPS_CLOSED"
| "list_state LISTEN t \<longleftrightarrow> t = TCPS_LISTEN"
| "list_state ACTIVE t \<longleftrightarrow> t \<noteq> TCPS_CLOSED \<and> t \<noteq> TCPS_LISTEN"

definition core :: "tcp_system \<Rightarrow> (tcp_list \<Rightarrow> nat list) \<Rightarrow> bool" where
  "core s xs \<longleftrightarrow> parts s xs \<and> bufs_inv NQ (bufs s) \<and> (\<forall>k. \<forall>p \<in> set (xs k). list_state k (t_state (pcbs s p))) \<and>
    (\<exists>rs. table (routes s) rs)"

definition ok :: "tcp_system \<Rightarrow> (tcp_list \<Rightarrow> nat list) \<Rightarrow> bool" where
  "ok s xs \<longleftrightarrow> core s xs \<and>
    (\<forall>p < NET_TCP_PCB_ACTIVE_MAX. p \<notin> set (xs ACTIVE) \<longrightarrow> qbytes (rcv_q p) s = [] \<and> qbytes (snd_q p) s = [])"

definition tcp_ok :: "tcp_system \<Rightarrow> bool" where
  "tcp_ok s \<longleftrightarrow> (\<exists>xs. ok s xs)"

lemma upd_pcb_simps [simp]:
  "pcbs (upd_pcb p f s) = (pcbs s)(p := f (pcbs s p))" "lst (upd_pcb p f s) = lst s" "nx (upd_pcb p f s) = nx s"
  "bufs (upd_pcb p f s) = bufs s" "routes (upd_pcb p f s) = routes s" "ifns (upd_pcb p f s) = ifns s"
  "kern (upd_pcb p f s) = kern s" "sent (upd_pcb p f s) = sent s" "out_tp (upd_pcb p f s) = out_tp s"
  "out_head (upd_pcb p f s) = out_head s" "out_tail (upd_pcb p f s) = out_tail s" "out_cond (upd_pcb p f s) = out_cond s"
  "iss (upd_pcb p f s) = iss s" "netlock (upd_pcb p f s) = netlock s" "port_seq (upd_pcb p f s) = port_seq s"
  by (simp_all add: upd_pcb_def)

lemma os_simps [simp]:
  "pcbs (snd (os_call f x s)) = pcbs s" "lst (snd (os_call f x s)) = lst s" "nx (snd (os_call f x s)) = nx s"
  "bufs (snd (os_call f x s)) = bufs s" "routes (snd (os_call f x s)) = routes s" "ifns (snd (os_call f x s)) = ifns s"
  "sent (snd (os_call f x s)) = sent s" "netlock (snd (os_call f x s)) = netlock s"
  by (simp_all add: os_call_def split: prod.splits)

lemmas os_defs = os_cond_signal_def os_cond_broadcast_def os_cond_free_def os_sem_free_def os_sem_post_def

text \<open>Two states that agree on what the invariant is about.\<close>

definition same :: "tcp_system \<Rightarrow> tcp_system \<Rightarrow> bool" where
  "same s s' \<longleftrightarrow> lst s' = lst s \<and> nx s' = nx s \<and> bufs s' = bufs s \<and> routes s' = routes s \<and> ifns s' = ifns s"

lemma same_simps [simp]:
  "same s s" "same s (upd_pcb p f s)" "same s (os_cond_signal c s)" "same s (os_cond_broadcast c s)" "same s (os_cond_free c s)"
  "same s (os_sem_free c s)" "same s (os_sem_post c s)"
  by (simp_all add: same_def os_defs)

lemma parts_cong: "lst s' = lst s \<Longrightarrow> nx s' = nx s \<Longrightarrow> parts s' xs = parts s xs"
  by (simp add: parts_def)

lemma core_same:
  assumes "core s xs" and "same s s'" and "\<And>p. t_state (pcbs s' p) = t_state (pcbs s p)"
  shows "core s' xs"
  using assms parts_cong [of s' s xs] unfolding core_def same_def by simp

lemma ok_same:
  assumes "ok s xs" and "same s s'" and "\<And>p. t_state (pcbs s' p) = t_state (pcbs s p)"
  shows "ok s' xs"
  using assms core_same [of s xs s'] unfolding ok_def same_def by simp

lemma ok_upd:
  assumes "ok s xs" and "p \<in> set (xs ACTIVE)" and "t_state (f (pcbs s p)) \<notin> {TCPS_CLOSED, TCPS_LISTEN}"
  shows "ok (upd_pcb p f s) xs"
proof -
  have c: "parts s xs" "\<forall>k. \<forall>p \<in> set (xs k). list_state k (t_state (pcbs s p))" using assms(1) by (simp_all add: ok_def core_def)
  have "list_state k (t_state (pcbs (upd_pcb p f s) q))" if "q \<in> set (xs k)" for k q
  proof (cases "q = p")
    case True
    then have "k = ACTIVE" using that assms(2) partsD(2) [OF c(1), of k ACTIVE] by blast
    then show ?thesis using True assms(3) by simp
  qed (use that c(2) in simp)
  then show ?thesis using assms(1) parts_cong [of "upd_pcb p f s" s xs] by (simp add: ok_def core_def)
qed

lemma ok_upd_state: "ok s xs \<Longrightarrow> (\<And>b. t_state (f b) = t_state b) \<Longrightarrow> ok (upd_pcb p f s) xs"
  by (rule ok_same [of s]) simp_all

lemma ok_bufs:
  assumes "ok s xs" and "p \<in> set (xs ACTIVE)" and "bufs_inv NQ b" and "\<forall>i<NQ. i \<noteq> rcv_q p \<longrightarrow> i \<noteq> snd_q p \<longrightarrow> bufs_bytes i b = qbytes i s"
  shows "ok (s\<lparr>bufs := b\<rparr>) xs"
proof -
  have "bufs_bytes (rcv_q q) b = [] \<and> bufs_bytes (snd_q q) b = []" if "q < NET_TCP_PCB_ACTIVE_MAX" "q \<notin> set (xs ACTIVE)" for q
  proof -
    have "q \<noteq> p" using that(2) assms(2) by auto
    then have "rcv_q q \<noteq> rcv_q p" "rcv_q q \<noteq> snd_q p" "snd_q q \<noteq> rcv_q p" "snd_q q \<noteq> snd_q p" by presburger+
    then show ?thesis using assms(1,4) that by (simp add: ok_def)
  qed
  then show ?thesis using assms(1,3) parts_cong [of "s\<lparr>bufs := b\<rparr>" s xs] by (simp add: ok_def core_def)
qed

lemma ok_active: "ok s xs \<Longrightarrow> p \<in> set (xs ACTIVE) \<Longrightarrow> p < NET_TCP_PCB_ACTIVE_MAX \<and> rcv_q p < NQ \<and> snd_q p < NQ"
  using partsD(3) [of s xs p ACTIVE] by (auto simp: ok_def core_def)

lemma ok_bufs_inv [simp]: "ok s xs \<Longrightarrow> bufs_inv NQ (bufs s)"
  by (simp add: ok_def core_def)

lemma core_move:
  assumes "core s xs" and "p \<in> set (xs a)" and "a \<noteq> b" and "list_state b t"
  shows "\<exists>l n. list_move p a b (upd_pcb p (\<lambda>c. c\<lparr>t_state := t\<rparr>) s) = Some (0, (upd_pcb p (\<lambda>c. c\<lparr>t_state := t\<rparr>) s)\<lparr>lst := l, nx := n\<rparr>) \<and>
    core ((upd_pcb p (\<lambda>c. c\<lparr>t_state := t\<rparr>) s)\<lparr>lst := l, nx := n\<rparr>) (xs(a := remove1 p (xs a), b := xs b @ [p]))"
proof -
  let ?s = "upd_pcb p (\<lambda>c. c\<lparr>t_state := t\<rparr>) s" and ?ys = "xs(a := remove1 p (xs a), b := xs b @ [p])"
  have c: "parts s xs" "\<And>k q. q \<in> set (xs k) \<Longrightarrow> list_state k (t_state (pcbs s q))" using assms(1) by (simp_all add: core_def)
  have "parts ?s xs" using c(1) parts_cong [of ?s s xs] by simp
  then obtain l n where m: "list_move p a b ?s = Some (0, ?s\<lparr>lst := l, nx := n\<rparr>)" "parts (?s\<lparr>lst := l, nx := n\<rparr>) ?ys"
    using list_move_parts [of ?s xs p a b] assms(2,3) by blast
  have sets: "set (?ys k) = (if k = b then insert p (set (xs b)) else if k = a then set (xs a) - {p} else set (xs k))" for k
    using assms(3) partsD(4) [OF c(1)] by simp
  have "list_state k (t_state (pcbs ?s q))" if "q \<in> set (?ys k)" for k q
  proof (cases "q = p")
    case True
    then have "k = b"
      using that partsD(2) [OF c(1), of a k] assms(2) unfolding sets by (auto split: if_splits)
    then show ?thesis using True assms(4) by simp
  next
    case False
    then have "q \<in> set (xs k)" using that unfolding sets by (auto split: if_splits)
    then show ?thesis using False c(2) by simp
  qed
  then have "core (?s\<lparr>lst := l, nx := n\<rparr>) ?ys" using m(2) assms(1) by (simp add: core_def)
  then show ?thesis using m(1) by blast
qed

section \<open>Freeing and allocating\<close>

lemma dequeue_form: "\<exists>a b. tcp_output_dequeue p s = s\<lparr>out_tail := a, out_tp := b\<rparr>"
proof -
  have "\<exists>a b. dequeue_loop mark head tail p s = s\<lparr>out_tail := a, out_tp := b\<rparr>" for mark head tail
  proof (induction mark head tail p s rule: dequeue_loop.induct)
    case (1 mark head tail p s)
    show ?case
    proof (cases "mark \<noteq> head \<and> out_tp s (unat mark mod NET_TCP_PCB_ACTIVE_MAX) \<noteq> Some p")
      case True
      then show ?thesis using 1 by (subst dequeue_loop.simps) simp
    next
      case False
      then show ?thesis
      proof (cases "mark = head")
        case True
        then have "dequeue_loop mark head tail p s = s\<lparr>out_tail := out_tail s, out_tp := out_tp s\<rparr>"
          by (subst dequeue_loop.simps) simp
        then show ?thesis by blast
      next
        case neq: False
        have "dequeue_loop mark head tail p s = s\<lparr>out_tail := tail + 1, out_tp := dequeue_shift tail mark (out_tp s)\<rparr>"
          using neq False by (subst dequeue_loop.simps) simp
        then show ?thesis by blast
      qed
    qed
  qed
  then show ?thesis by (simp add: tcp_output_dequeue_def)
qed

lemma dequeue_same [simp]: "same s (tcp_output_dequeue p s)" "pcbs (tcp_output_dequeue p s) = pcbs s"
proof -
  obtain a b where "tcp_output_dequeue p s = s\<lparr>out_tail := a, out_tp := b\<rparr>" using dequeue_form by blast
  then show "same s (tcp_output_dequeue p s)" "pcbs (tcp_output_dequeue p s) = pcbs s" by (simp_all add: same_def)
qed

lemma same_trans: "same s t \<Longrightarrow> same t u \<Longrightarrow> same s u"
  by (simp add: same_def)

lemma flag_same [simp]: "same s (set_flag p f s)" "same s (clear_flag p f s)"
  by (simp_all add: set_flag_def clear_flag_def)

lemma flag_pcbs [simp]:
  "pcbs (set_flag p f s) = (pcbs s)(p := (pcbs s p)\<lparr>t_flags := t_flags (pcbs s p) OR f\<rparr>)"
  "pcbs (clear_flag p f s) = (pcbs s)(p := (pcbs s p)\<lparr>t_flags := t_flags (pcbs s p) AND NOT f\<rparr>)"
  by (simp_all add: set_flag_def clear_flag_def)

lemma os_pcbs [simp]:
  "pcbs (os_cond_signal c s) = pcbs s" "pcbs (os_cond_broadcast c s) = pcbs s" "pcbs (os_cond_free c s) = pcbs s"
  "pcbs (os_sem_free c s) = pcbs s" "pcbs (os_sem_post c s) = pcbs s"
  by (simp_all add: os_defs)

lemma sched_simps [simp]:
  "same s (tcp_output_sched p s)"
  "pcbs (tcp_output_sched p s) = (pcbs s)(p := (pcbs s p)\<lparr>t_flags := t_flags (pcbs s p) OR TF_NEEDOUTPUT\<rparr>) \<or>
   pcbs (tcp_output_sched p s) = pcbs s"
  by (simp_all add: tcp_output_sched_def same_def os_defs set_flag_def)

text \<open>Two states that also agree on every field of the blocks other than the flags of \<open>p\<close>.\<close>

definition flags_only :: "nat \<Rightarrow> tcp_system \<Rightarrow> tcp_system \<Rightarrow> bool" where
  "flags_only p s s' \<longleftrightarrow> same s s' \<and> (\<exists>f. pcbs s' = (pcbs s)(p := (pcbs s p)\<lparr>t_flags := f\<rparr>))"

lemma flags_only_same: "same s s' \<Longrightarrow> pcbs s' = pcbs s \<Longrightarrow> flags_only p s s'"
  unfolding flags_only_def by (rule conjI, assumption, rule exI [of _ "t_flags (pcbs s p)"]) simp

lemma flags_only_simps [simp]:
  "flags_only p s s" "flags_only p s (set_flag p f s)" "flags_only p s (clear_flag p f s)" "flags_only p s (tcp_output_sched p s)"
  "flags_only p s (os_cond_signal c s)" "flags_only p s (os_cond_broadcast c s)" "flags_only p s (os_cond_free c s)"
  "flags_only p s (tcp_output_dequeue q s)"
proof -
  show "flags_only p s (set_flag p f s)" "flags_only p s (clear_flag p f s)" unfolding flags_only_def flag_pcbs by auto
  show "flags_only p s (tcp_output_sched p s)"
    using sched_simps(2) [of p s]
  proof
    assume "pcbs (tcp_output_sched p s) = (pcbs s)(p := (pcbs s p)\<lparr>t_flags := t_flags (pcbs s p) OR TF_NEEDOUTPUT\<rparr>)"
    then show ?thesis unfolding flags_only_def by (intro conjI exI) (rule sched_simps(1), assumption)
  next
    assume "pcbs (tcp_output_sched p s) = pcbs s"
    then show ?thesis by (intro flags_only_same sched_simps(1))
  qed
qed (simp_all add: flags_only_same)

lemma flags_only_trans:
  assumes "flags_only p s t" and "flags_only p t u"
  shows "flags_only p s u"
proof -
  from assms obtain f g where "pcbs t = (pcbs s)(p := (pcbs s p)\<lparr>t_flags := f\<rparr>)" "pcbs u = (pcbs t)(p := (pcbs t p)\<lparr>t_flags := g\<rparr>)"
    by (auto simp: flags_only_def)
  then have "pcbs u = (pcbs s)(p := (pcbs s p)\<lparr>t_flags := g\<rparr>)" by simp
  then show ?thesis using assms same_trans unfolding flags_only_def by blast
qed

lemma flags_only_state [simp]: "flags_only p s s' \<Longrightarrow> t_state (pcbs s' q) = t_state (pcbs s q)"
  by (auto simp: flags_only_def)

lemma flags_only_ok: "flags_only p s s' \<Longrightarrow> ok s xs \<Longrightarrow> ok s' xs"
  by (rule ok_same [of s]) (simp_all add: flags_only_def)

text \<open>An active block is freed: both queues are released and it moves to the free list.\<close>

lemma free_active:
  assumes "ok s xs" and "p \<in> set (xs ACTIVE)"
  shows "\<exists>s'. tcp_pcb_free p s = Some (0, s') \<and> ok s' (xs(ACTIVE := remove1 p (xs ACTIVE), FREE := xs FREE @ [p])) \<and>
    (\<exists>f. pcbs s' = (pcbs s)(p := (pcbs s p)\<lparr>t_flags := f\<rparr>)) \<and> routes s' = routes s \<and> ifns s' = ifns s \<and>
    (\<forall>i<NQ. qbytes i s' = (if i = rcv_q p \<or> i = snd_q p then [] else qbytes i s))"
proof -
  let ?ys = "xs(ACTIVE := remove1 p (xs ACTIVE), FREE := xs FREE @ [p])"
  define s1 where "s1 = (if flag (t_flags (pcbs s p)) TF_NEEDOUTPUT then tcp_output_dequeue p (clear_flag p TF_NEEDOUTPUT s) else s)"
  have f1: "flags_only p s s1"
    unfolding s1_def using flags_only_trans [of p s "clear_flag p TF_NEEDOUTPUT s"] by simp
  have o1: "ok s1 xs" using f1 assms(1) by (rule flags_only_ok)
  note lt = ok_active [OF assms]
  have st: "t_state (pcbs s1 p) \<noteq> TCPS_LISTEN" "t_state (pcbs s1 p) \<noteq> TCPS_CLOSED"
    using o1 assms(2) by (force simp: ok_def core_def dest: spec [of _ ACTIVE])+
  obtain b2 where b2: "queue_free (rcv_q p) s1 = Some (s1\<lparr>bufs := b2\<rparr>)" "bufs_inv NQ b2"
    "\<forall>i<NQ. bufs_bytes i b2 = (if i = rcv_q p then [] else qbytes i s1)"
    using queue_free_ok [of s1 "rcv_q p"] o1 lt by auto
  define s2 where "s2 = s1\<lparr>bufs := b2\<rparr>"
  obtain b3 where b3: "queue_free (snd_q p) s2 = Some (s2\<lparr>bufs := b3\<rparr>)" "bufs_inv NQ b3"
    "\<forall>i<NQ. bufs_bytes i b3 = (if i = snd_q p then [] else bufs_bytes i b2)"
    using queue_free_ok [of s2 "snd_q p"] b2(2) lt by (auto simp: s2_def)
  define s3 where "s3 = os_cond_free (t_cond (pcbs s1 p)) (s2\<lparr>bufs := b3\<rparr>)"
  have e3: "pcbs s3 = pcbs s1" "lst s3 = lst s1" "nx s3 = nx s1" "bufs s3 = b3" "routes s3 = routes s1" "ifns s3 = ifns s1"
    by (simp_all add: s3_def s2_def os_defs)
  have b: "\<forall>i<NQ. bufs_bytes i b3 = (if i = rcv_q p \<or> i = snd_q p then [] else qbytes i s1)" using b2(3) b3(3) by auto
  have "core s3 xs" using o1 e3 b3(2) parts_cong [of s3 s1 xs] by (simp add: ok_def core_def)
  have u3: "upd_pcb p (\<lambda>c. c\<lparr>t_state := t_state (pcbs s3 p)\<rparr>) s3 = s3" by (simp add: upd_pcb_def)
  have "list_state FREE (t_state (pcbs s3 p))" by simp
  from core_move [OF \<open>core s3 xs\<close> assms(2) _ this] obtain l n
    where m: "list_move p ACTIVE FREE s3 = Some (0, s3\<lparr>lst := l, nx := n\<rparr>)" "core (s3\<lparr>lst := l, nx := n\<rparr>) ?ys"
    unfolding u3 by blast
  have "tcp_pcb_free p s = Some (0, s3\<lparr>lst := l, nx := n\<rparr>)"
    unfolding tcp_pcb_free_def
    by (subst free_go.simps) (use st b2(1) b3(1) m(1) in \<open>simp add: s1_def [symmetric] s2_def [symmetric], simp add: s2_def s3_def\<close>)
  moreover have "ok (s3\<lparr>lst := l, nx := n\<rparr>) ?ys"
  proof -
    have "qbytes (rcv_q q) s3 = [] \<and> qbytes (snd_q q) s3 = []" if "q < NET_TCP_PCB_ACTIVE_MAX" "q \<notin> set (?ys ACTIVE)" for q
      using that o1 b e3(4) partsD(4) [of s1 xs] by (cases "q = p") (auto simp: ok_def core_def)
    then show ?thesis using m(2) by (simp add: ok_def)
  qed
  moreover have "\<exists>f. pcbs s3 = (pcbs s)(p := (pcbs s p)\<lparr>t_flags := f\<rparr>)" "routes s3 = routes s" "ifns s3 = ifns s" "bufs s1 = bufs s"
    using f1 e3 by (auto simp: flags_only_def same_def)
  ultimately show ?thesis using b e3(4) by (intro exI [of _ "s3\<lparr>lst := l, nx := n\<rparr>"]) simp
qed

text \<open>An empty queue of the invariant is the one \<open>memset\<close> and \<open>mbuf_queue_init\<close> leave.\<close>

lemma empty_zero:
  assumes "bufs_inv N (Q, b)" and "j < N" and "bufs_bytes j (Q, b) = []"
  shows "Q j = zero_queue"
proof -
  obtain fs xs where "good (Q j) b fs xs" using bufs_invD [OF assms(1,2)] by metis
  moreover have "q_len (Q j) = 0" using bufs_len_law [OF assms(1,2)] assms(3) by simp
  ultimately show ?thesis by (auto simp: good_def queue_def zero_queue_def)
qed

lemma init_zero [simp]: "mbuf_queue_init q = zero_queue"
  by (simp add: mbuf_queue_init_def zero_queue_def)

lemma upd_zero:
  assumes "bufs_inv NQ (bufs s)" and "j < NQ" and "qbytes j s = []"
  shows "((fst (bufs s))(j := zero_queue), snd (bufs s)) = bufs s"
  using empty_zero [of NQ "fst (bufs s)" "snd (bufs s)" j] assms by (metis fun_upd_triv prod.collapse)

lemma list_insert_parts:
  assumes "\<forall>k. plist (lst s k) (nx s) (xs k)" and "p \<notin> (\<Union>k. set (xs k))"
    and "\<forall>k l. k \<noteq> l \<longrightarrow> set (xs k) \<inter> set (xs l) = {}"
  shows "\<exists>l n. list_insert p k s = s\<lparr>lst := l, nx := n\<rparr> \<and> (\<forall>i. plist (l i) n ((xs(k := xs k @ [p])) i))"
proof -
  obtain l' n where i: "pcb_insert p (lst s k, nx s) = (l', n)" "plist l' n (xs k @ [p])" "\<forall>i. i \<notin> set (xs k) \<longrightarrow> i \<noteq> p \<longrightarrow> n i = nx s i"
    using insert_plist [of "lst s k" "nx s" "xs k" p] assms(1,2) by auto
  have "plist (lst s j) n (xs j)" if "j \<noteq> k" for j
    using plist_frame [of "lst s j" "nx s" "xs j" n] assms i(3) that by blast
  then have "\<forall>i. plist (((lst s)(k := l')) i) n ((xs(k := xs k @ [p])) i)" using i(2) by simp
  moreover have "list_insert p k s = s\<lparr>lst := (lst s)(k := l'), nx := n\<rparr>" using i(1) by (simp add: list_insert_def)
  ultimately show ?thesis by blast
qed

text \<open>A new block comes from the head of the free list, cleared.\<close>

lemma pcb_new_parts:
  assumes "ok s xs" and "k \<noteq> FREE"
  shows "if xs FREE = [] then tcp_pcb_new k s = (None, s)
    else \<exists>l n. tcp_pcb_new k s = (Some (hd (xs FREE)), s\<lparr>lst := l, nx := n, pcbs := (pcbs s)(hd (xs FREE) := zero_pcb\<lparr>t_cond := - 1\<rparr>)\<rparr>) \<and>
      parts (s\<lparr>lst := l, nx := n\<rparr>) (xs(FREE := tl (xs FREE), k := xs k @ [hd (xs FREE)]))"
proof -
  have pt: "parts s xs" using assms(1) by (simp add: ok_def core_def)
  obtain l1 where h: "pcb_remove_head (lst s FREE, nx s) = (if xs FREE = [] then None else Some (hd (xs FREE)), l1, nx s)"
    "plist l1 (nx s) (tl (xs FREE))" using remove_head_plist [OF partsD(1) [OF pt]] by blast
  show ?thesis
  proof (cases "xs FREE")
    case Nil
    then have "l1 = lst s FREE" using h(1) by (auto simp: pcb_remove_head_def Let_def split: option.splits if_splits)
    then show ?thesis using Nil h(1) by (simp add: tcp_pcb_new_def)
  next
    case (Cons p fs)
    let ?s = "s\<lparr>lst := (lst s)(FREE := l1)\<rparr>" and ?xs = "xs(FREE := fs)"
    have d: "p \<notin> set fs" "\<And>k. k \<noteq> FREE \<Longrightarrow> p \<notin> set (xs k)" "set fs \<subseteq> set (xs FREE)"
      using partsD(4) [OF pt, of FREE] partsD(2) [OF pt, of FREE] Cons by auto
    have "\<forall>k. plist (lst ?s k) (nx ?s) (?xs k)" using h(2) Cons partsD(1) [OF pt] by simp
    moreover have "p \<notin> (\<Union>k. set (?xs k))" using d by auto
    moreover have "\<forall>k l. k \<noteq> l \<longrightarrow> set (?xs k) \<inter> set (?xs l) = {}" using partsD(2) [OF pt] d(3) by (auto simp: disjoint_iff)
    ultimately obtain l n where i: "list_insert p k ?s = ?s\<lparr>lst := l, nx := n\<rparr>" "\<forall>i. plist (l i) n ((?xs(k := ?xs k @ [p])) i)"
      using list_insert_parts [of ?s ?xs p k] by blast
    have p: "p < NET_TCP_PCB_ACTIVE_MAX" "p \<notin> set (xs ACTIVE)" using partsD(3) [OF pt, of p FREE] d(2) Cons by auto
    then have q: "qbytes (rcv_q p) s = []" "qbytes (snd_q p) s = []" "rcv_q p < NQ" "snd_q p < NQ" using assms(1) by (auto simp: ok_def)
    have z: "((fst (bufs s))(rcv_q p := zero_queue, snd_q p := zero_queue), snd (bufs s)) = bufs s"
      using upd_zero [of s "rcv_q p"] upd_zero [of s "snd_q p"] q assms(1)
      by (metis fst_conv ok_bufs_inv prod.collapse snd_conv)
    have "tcp_pcb_new k s = (Some p, s\<lparr>lst := l, nx := n, pcbs := (pcbs s)(p := zero_pcb\<lparr>t_cond := - 1\<rparr>)\<rparr>)"
      using h(1) Cons i(1) z by (simp add: tcp_pcb_new_def upd_pcb_def)
    moreover have "parts (s\<lparr>lst := l, nx := n\<rparr>) (?xs(k := ?xs k @ [p]))"
    proof -
      have sets: "set ((?xs(k := ?xs k @ [p])) i) = (if i = k then insert p (set (xs k)) else if i = FREE then set fs else set (xs i))" for i
        using assms(2) by simp
      have "set ((?xs(k := ?xs k @ [p])) i) \<inter> set ((?xs(k := ?xs k @ [p])) j) = {}" if "i \<noteq> j" for i j
        unfolding sets using that partsD(2) [OF pt, of i j] partsD(2) [OF pt, of FREE j] partsD(2) [OF pt, of i FREE] d assms(2) by auto
      moreover have "(\<Union>i. set ((?xs(k := ?xs k @ [p])) i)) = (\<Union>i. set (xs i))"
      proof -
        have f: "set (xs FREE) = insert p (set fs)" using Cons by simp
        have "\<exists>j. x \<in> set (xs j)" if "x \<in> set ((?xs(k := ?xs k @ [p])) i)" for x i
          using that f unfolding sets by (cases "i = k"; cases "i = FREE") auto
        moreover have "\<exists>j. x \<in> set ((?xs(k := ?xs k @ [p])) j)" if "x \<in> set (xs i)" for x i
        proof (cases "x = p")
          case True
          then have "x \<in> set ((?xs(k := ?xs k @ [p])) k)" unfolding sets by simp
          then show ?thesis by blast
        next
          case False
          then have "x \<in> set ((?xs(k := ?xs k @ [p])) i)" using that f unfolding sets by auto
          then show ?thesis by blast
        qed
        ultimately show ?thesis by (intro subset_antisym subsetI) (elim UN_E; metis UNIV_I UN_I)+
      qed
      ultimately show ?thesis using i(2) pt unfolding parts_def by simp
    qed
    ultimately show ?thesis using Cons assms(2) by auto
  qed
qed

lemma init_loop_parts:
  assumes "\<forall>k. plist (lst s k) (nx s) (xs k)" and "\<forall>k. k \<noteq> FREE \<longrightarrow> xs k = []" and "set (xs FREE) \<subseteq> {..<i}"
  shows "\<exists>l m. init_loop n i s = s\<lparr>lst := l, nx := m\<rparr> \<and> (\<forall>k. plist (l k) m ((xs(FREE := xs FREE @ [i..<i + n])) k))"
  using assms
proof (induction n arbitrary: i s xs)
  case 0
  have "s = s\<lparr>lst := lst s, nx := nx s\<rparr>" by simp
  then show ?case using 0 by (intro exI [of _ "lst s"] exI [of _ "nx s"]) simp
next
  case (Suc n)
  have "i \<notin> set (xs k)" for k using Suc.prems(2,3) by (cases "k = FREE") auto
  then have d1: "i \<notin> (\<Union>k. set (xs k))" by blast
  have "set (xs k) \<inter> set (xs l) = {}" if "k \<noteq> l" for k l using Suc.prems(2) that by (cases "k = FREE") auto
  then have d2: "\<forall>k l. k \<noteq> l \<longrightarrow> set (xs k) \<inter> set (xs l) = {}" by blast
  obtain l m where r: "list_insert i FREE s = s\<lparr>lst := l, nx := m\<rparr>" "\<forall>k. plist (l k) m ((xs(FREE := xs FREE @ [i])) k)"
    using list_insert_parts [OF Suc.prems(1) d1 d2, of FREE] by blast
  obtain l' m' where r': "init_loop n (i + 1) (s\<lparr>lst := l, nx := m\<rparr>) = s\<lparr>lst := l', nx := m'\<rparr>"
    "\<forall>k. plist (l' k) m' ((xs(FREE := (xs FREE @ [i]) @ [i + 1..<i + 1 + n])) k)"
  proof -
    let ?s = "s\<lparr>lst := l, nx := m\<rparr>" and ?xs = "xs(FREE := xs FREE @ [i])"
    have "\<forall>k. plist (lst ?s k) (nx ?s) (?xs k)" using r(2) by simp
    moreover have "\<forall>k. k \<noteq> FREE \<longrightarrow> ?xs k = []" using Suc.prems(2) by simp
    moreover have "set (?xs FREE) \<subseteq> {..<i + 1}" using Suc.prems(3) by auto
    ultimately obtain l' m' where "init_loop n (i + 1) ?s = ?s\<lparr>lst := l', nx := m'\<rparr>"
      "\<forall>k. plist (l' k) m' ((?xs(FREE := ?xs FREE @ [i + 1..<i + 1 + n])) k)" using Suc.IH [of ?s ?xs "i + 1"] by blast
    then show ?thesis using that by simp
  qed
  have "[i..<i + Suc n] = i # [i + 1..<i + 1 + n]" by (simp add: upt_conv_Cons del: upt_Suc)
  then have "\<forall>k. plist (l' k) m' ((xs(FREE := xs FREE @ [i..<i + Suc n])) k)" using r'(2) by simp
  moreover have "init_loop (Suc n) i s = s\<lparr>lst := l', nx := m'\<rparr>" using r(1) r'(1) by simp
  ultimately show ?case by blast
qed

text \<open>The initialised layer: all blocks free.\<close>

lemma tcp_init_ok:
  assumes "bufs_inv NQ (bufs s)" and "\<forall>i<NQ. qbytes i s = []" and "table (routes s) rs"
  shows "ok (tcp_init s) (\<lambda>k. if k = FREE then [0..<NET_TCP_PCB_ACTIVE_MAX] else [])"
proof -
  let ?s0 = "s\<lparr>lst := (\<lambda>_. pcb_list_init)\<rparr>" and ?xs = "\<lambda>k. if k = FREE then [0..<NET_TCP_PCB_ACTIVE_MAX] else []"
  obtain l n where i: "init_loop NET_TCP_PCB_ACTIVE_MAX 0 (s\<lparr>lst := (\<lambda>_. pcb_list_init)\<rparr>) = s\<lparr>lst := l, nx := n\<rparr>"
    "\<forall>k. plist (l k) n (((\<lambda>_. [])(FREE := [] @ [0..<0 + NET_TCP_PCB_ACTIVE_MAX])) k)"
    using init_loop_parts [of ?s0 "\<lambda>_. []" 0 NET_TCP_PCB_ACTIVE_MAX] by auto
  have "init_loop m j (t\<lparr>lst := (lst t)(FREE := f)\<rparr>) =
      (init_loop m j (t\<lparr>lst := (g :: tcp_list \<Rightarrow> pcb_list)(FREE := f)\<rparr>))
        \<lparr>lst := (lst t)(FREE := lst (init_loop m j (t\<lparr>lst := g(FREE := f)\<rparr>)) FREE)\<rparr>" for m j t f g
  proof (induction m arbitrary: j t f g)
    case (Suc m)
    obtain f' n' where p: "pcb_insert j (f, nx t) = (f', n')" by fastforce
    have a: "list_insert j FREE (t\<lparr>lst := h(FREE := f)\<rparr>) = (t\<lparr>nx := n'\<rparr>)\<lparr>lst := h(FREE := f')\<rparr>" for h
      using p by (simp add: list_insert_def)
    have "lst (t\<lparr>nx := n'\<rparr>) = lst t" by simp
    then show ?case using Suc.IH [of "j + 1" "t\<lparr>nx := n'\<rparr>" f' g] unfolding init_loop.simps a by (simp only:)
  qed simp
  from this [of NET_TCP_PCB_ACTIVE_MAX 0 s pcb_list_init "\<lambda>_. pcb_list_init"]
  have e: "init_loop NET_TCP_PCB_ACTIVE_MAX 0 (s\<lparr>lst := (lst s)(FREE := pcb_list_init)\<rparr>) = s\<lparr>lst := (lst s)(FREE := l FREE), nx := n\<rparr>"
    using i(1) by (simp add: fun_upd_def)
  have t: "lst (tcp_init s) = (\<lambda>k. if k = FREE then l FREE else pcb_list_init)" "nx (tcp_init s) = n" "bufs (tcp_init s) = bufs s"
    "routes (tcp_init s) = routes s"
    unfolding tcp_init_def e os_call_def
    by (auto simp: fun_eq_iff split: prod.splits) (metis tcp_list.exhaust)
  have "plist (lst (tcp_init s) k) n (?xs k)" for k using i(2) t by (cases "k = FREE") (auto dest: spec [of _ FREE])
  then have "parts (tcp_init s) ?xs" using t(2) unfolding parts_def by (auto simp: atLeast0LessThan split: if_splits)
  then show ?thesis using assms t by (auto simp: ok_def core_def split: if_splits)
qed

section \<open>The queue of blocks that wait for output\<close>

definition outq :: "tcp_system \<Rightarrow> nat option list" where
  "outq s = map (\<lambda>k. out_tp s ((unat (out_tail s) + k) mod NET_TCP_PCB_ACTIVE_MAX)) [0..<unat (out_head s - out_tail s)]"

lemma unat_add_mod8: "unat (t + of_nat k :: u16) mod 8 = (unat t + k) mod 8"
proof -
  have "unat (t + of_nat k) = (unat t + k mod 65536) mod 65536" by (simp add: unat_word_ariths unat_of_nat)
  then have "unat (t + of_nat k) mod 8 = (unat t + k mod 65536) mod 8" by (simp add: mod_mod_cancel)
  also have "\<dots> = (unat t + k mod 65536 mod 8) mod 8" by (simp add: mod_add_right_eq)
  also have "\<dots> = (unat t + k) mod 8" by (simp add: mod_mod_cancel mod_add_right_eq)
  finally show ?thesis .
qed

lemma dequeue_shift_eq:
  assumes "k < 8"
  shows "dequeue_shift t (t + of_nat k) tp =
    (\<lambda>i. if \<exists>j. 1 \<le> j \<and> j \<le> k \<and> i = (unat t + j) mod 8 then tp (unat t mod 8) else tp i)"
  using assms
proof (induction k arbitrary: t tp)
  case 0
  then show ?case by (subst dequeue_shift.simps) simp
next
  case (Suc k)
  have ne: "t \<noteq> t + of_nat (Suc k)"
  proof -
    have "unat (of_nat (Suc k) :: u16) = Suc k" using Suc.prems by (simp add: unat_of_nat del: of_nat_Suc)
    then have "(of_nat (Suc k) :: u16) \<noteq> 0" by (metis Zero_not_Suc unat_0)
    then show ?thesis by (metis add_cancel_left_right)
  qed
  have u1: "unat (t + 1) mod 8 = (unat t + 1) mod 8" using unat_add_mod8 [of t 1] by simp
  have u2: "(unat (t + 1) + j) mod 8 = (unat t + (j + 1)) mod 8" for j
    using unat_add_mod8 [of t 1] by (simp only: of_nat_1) (metis add.assoc add.commute mod_add_left_eq)
  have "dequeue_shift t (t + of_nat (Suc k)) tp = dequeue_shift (t + 1) ((t + 1) + of_nat k) (tp((unat t + 1) mod 8 := tp (unat t mod 8)))"
    using ne u1 by (subst dequeue_shift.simps) (simp add: Let_def add.assoc)
  also have "\<dots> = (\<lambda>i. if \<exists>j. 1 \<le> j \<and> j \<le> k \<and> i = (unat t + (j + 1)) mod 8 then tp (unat t mod 8)
      else (tp((unat t + 1) mod 8 := tp (unat t mod 8))) i)"
  proof -
    have "k < 8" using Suc.prems by simp
    from Suc.IH [OF this, of "t + 1" "tp((unat t + 1) mod 8 := tp (unat t mod 8))", unfolded u2 u1 fun_upd_same] show ?thesis .
  qed
  also have "\<dots> = (\<lambda>i. if \<exists>j. 1 \<le> j \<and> j \<le> Suc k \<and> i = (unat t + j) mod 8 then tp (unat t mod 8) else tp i)"
  proof
    fix i
    have "(\<exists>j. 1 \<le> j \<and> j \<le> Suc k \<and> i = (unat t + j) mod 8) \<longleftrightarrow>
        i = (unat t + 1) mod 8 \<or> (\<exists>j. 1 \<le> j \<and> j \<le> k \<and> i = (unat t + (j + 1)) mod 8)"
    proof -
      have "(1 \<le> j \<and> j \<le> Suc k) \<longleftrightarrow> j = 1 \<or> (\<exists>j'. j = j' + 1 \<and> 1 \<le> j' \<and> j' \<le> k)" for j
        by presburger
      then show ?thesis by metis
    qed
    then show "(if \<exists>j. 1 \<le> j \<and> j \<le> k \<and> i = (unat t + (j + 1)) mod 8 then tp (unat t mod 8)
        else (tp((unat t + 1) mod 8 := tp (unat t mod 8))) i) =
      (if \<exists>j. 1 \<le> j \<and> j \<le> Suc k \<and> i = (unat t + j) mod 8 then tp (unat t mod 8) else tp i)"
      by (simp only: fun_upd_apply split: if_split) blast
  qed
  finally show ?case .
qed

lemma outq_nth: "k < unat (out_head s - out_tail s) \<Longrightarrow> outq s ! k = out_tp s ((unat (out_tail s) + k) mod 8)"
  by (simp add: outq_def)

lemma not_end:
  fixes h t :: u16
  assumes "k < unat (h - t)"
  shows "t + of_nat k \<noteq> h"
proof
  assume "t + of_nat k = h"
  then have "h - t = of_nat k" by auto
  then have "unat (h - t) = k mod 65536" by (simp add: unat_of_nat)
  then show False using assms by (metis mod_less_eq_dividend not_less)
qed

lemma dequeue_loop_find:
  assumes "k < length (outq s)" and "outq s ! k = Some p" and "\<forall>i<k. outq s ! i \<noteq> Some p" and "j \<le> k"
  shows "dequeue_loop (out_tail s + of_nat j) (out_head s) (out_tail s) p s =
    s\<lparr>out_tail := out_tail s + 1, out_tp := dequeue_shift (out_tail s) (out_tail s + of_nat k) (out_tp s)\<rparr>"
  using assms(4)
proof (induction "k - j" arbitrary: j)
  case 0
  have n: "k < unat (out_head s - out_tail s)" using assms(1) by (simp add: outq_def)
  have j: "j = k" using 0 by simp
  have "out_tail s + of_nat k \<noteq> out_head s" by (rule not_end) (rule n)
  moreover have "out_tp s (unat (out_tail s + of_nat k) mod 8) = Some p"
    using assms(2) outq_nth [OF n] unat_add_mod8 [of "out_tail s" k] by simp
  ultimately show ?case unfolding j by (subst dequeue_loop.simps) simp
next
  case (Suc d)
  have n: "j < unat (out_head s - out_tail s)" "k < unat (out_head s - out_tail s)" using assms(1) Suc.hyps(2) by (simp_all add: outq_def)
  have "out_tail s + of_nat j \<noteq> out_head s" by (rule not_end) (rule n(1))
  moreover have "out_tp s (unat (out_tail s + of_nat j) mod 8) \<noteq> Some p"
  proof -
    have "j < k" using Suc.hyps(2) by simp
    then have "outq s ! j \<noteq> Some p" using assms(3) by blast
    then show ?thesis using outq_nth [OF n(1)] unat_add_mod8 [of "out_tail s" j] by simp
  qed
  ultimately have "dequeue_loop (out_tail s + of_nat j) (out_head s) (out_tail s) p s =
      dequeue_loop (out_tail s + of_nat (j + 1)) (out_head s) (out_tail s) p s"
    by (subst dequeue_loop.simps) (simp add: ac_simps)
  then show ?case using Suc.hyps(1) [of "j + 1"] Suc.hyps(2) by simp
qed

text \<open>What \<open>tcp_output_dequeue\<close> makes of the queue when the block is at position \<open>k\<close>.\<close>

lemma dequeue_outq:
  assumes "k < length (outq s)" and "outq s ! k = Some p" and "\<forall>i<k. outq s ! i \<noteq> Some p" and "length (outq s) \<le> 8"
  shows "outq (tcp_output_dequeue p s) = replicate k (outq s ! 0) @ drop (k + 1) (outq s)"
proof -
  define n where "n = length (outq s)"
  define t h where "t = out_tail s" and "h = out_head s"
  have n: "n = unat (h - t)" "k < n" "n \<le> 8" using assms(1,4) by (simp_all add: n_def outq_def t_def h_def)
  have d: "tcp_output_dequeue p s = s\<lparr>out_tail := t + 1, out_tp := dequeue_shift t (t + of_nat k) (out_tp s)\<rparr>"
    using dequeue_loop_find [OF assms(1-3), of 0] by (simp add: tcp_output_dequeue_def t_def h_def)
  have n1: "unat (h - (t + 1)) = n - 1"
  proof -
    have "h - (t + 1) = (h - t) - 1" by simp
    moreover have "h - t \<noteq> 0" using n by auto
    ultimately show ?thesis using n(1) unat_minus_one by metis
  qed
  have u: "(unat (t + 1) + i) mod 8 = (unat t + (i + 1)) mod 8" for i
    using unat_add_mod8 [of t 1] by (simp only: of_nat_1) (metis add.assoc add.commute mod_add_left_eq)
  have e: "outq (tcp_output_dequeue p s) ! i = (if i < k then outq s ! 0 else outq s ! (i + 1))" if i: "i < n - 1" for i
  proof -
    have "(\<exists>j. 1 \<le> j \<and> j \<le> k \<and> (unat t + (i + 1)) mod 8 = (unat t + j) mod 8) \<longleftrightarrow> i < k"
    proof
      assume "\<exists>j. 1 \<le> j \<and> j \<le> k \<and> (unat t + (i + 1)) mod 8 = (unat t + j) mod 8"
      then obtain j where j: "1 \<le> j" "j \<le> k" "(unat t + (i + 1)) mod 8 = (unat t + j) mod 8" by blast
      have "i + 1 < 8" "j < 8" using i j(2) n by linarith+
      moreover have "(i + 1) mod 8 = j mod 8"
        using j(3) by (simp only: nat_mod_eq_iff) presburger
      ultimately show "i < k" using j(2) by simp
    qed (intro exI [of _ "i + 1"], simp)
    then show ?thesis
      using i n outq_nth [of 0 s] outq_nth [of "i + 1" s] unfolding d
      by (subst outq_nth) (auto simp: n1 u dequeue_shift_eq t_def [symmetric] h_def [symmetric])
  qed
  have l: "length (outq (tcp_output_dequeue p s)) = n - 1" using n1 by (simp add: d outq_def h_def)
  show ?thesis
  proof (rule nth_equalityI)
    show "length (outq (tcp_output_dequeue p s)) = length (replicate k (outq s ! 0) @ drop (k + 1) (outq s))"
      using l n(2) by (simp add: n_def)
    fix i
    assume "i < length (outq (tcp_output_dequeue p s))"
    then have i: "i < n - 1" using l by simp
    show "outq (tcp_output_dequeue p s) ! i = (replicate k (outq s ! 0) @ drop (k + 1) (outq s)) ! i"
    proof (cases "i < k")
      case False
      then have "(replicate k (outq s ! 0) @ drop (k + 1) (outq s)) ! i = outq s ! (k + 1 + (i - k))"
        using i n(2) by (simp add: nth_append n_def del: drop_Suc)
      then show ?thesis using e [OF i] False by simp
    qed (use e [OF i] in \<open>simp add: nth_append\<close>)
  qed
qed

section \<open>Properties\<close>

text \<open>C39: Taking a block out of the output queue, which \<open>tcp_pcb_free\<close> does for a block that waits there, is right only at
  the first two positions. Further behind, the loop copies the first entry over all entries up to the block, so that
  the second entry is lost: its block keeps the flag that says it is queued, and no later request queues it again.\<close>

theorem tcp_dequeue_loses:
  assumes "distinct (outq s)" and "length (outq s) \<le> NET_TCP_PCB_ACTIVE_MAX" and "k < length (outq s)" and "outq s ! k = Some p"
  shows "outq (tcp_output_dequeue p s) = replicate k (outq s ! 0) @ drop (k + 1) (outq s) \<and>
    (k \<le> 1 \<longrightarrow> outq (tcp_output_dequeue p s) = remove1 (Some p) (outq s)) \<and>
    (2 \<le> k \<longrightarrow> outq s ! 1 \<notin> set (outq (tcp_output_dequeue p s)) \<and>
      (\<forall>q. outq s ! 1 = Some q \<longrightarrow> flag (t_flags (pcbs s q)) TF_NEEDOUTPUT \<longrightarrow>
        tcp_output_sched q (tcp_output_dequeue p s) = tcp_output_dequeue p s))"
proof -
  have f: "\<forall>i<k. outq s ! i \<noteq> Some p" using assms(1,3,4) by (metis less_irrefl nth_eq_iff_index_eq order.strict_trans)
  have d: "outq (tcp_output_dequeue p s) = replicate k (outq s ! 0) @ drop (k + 1) (outq s)"
    using dequeue_outq [OF assms(3,4) f] assms(2) by simp
  have "remove1 (Some p) (outq s) = take k (outq s) @ drop (k + 1) (outq s)"
  proof -
    have "outq s = take k (outq s) @ Some p # drop (k + 1) (outq s)" using id_take_nth_drop [OF assms(3)] assms(4) by simp
    moreover have "Some p \<notin> set (take k (outq s))" using f assms(3) by (auto simp: in_set_conv_nth)
    ultimately show ?thesis by (metis remove1.simps(2) remove1_append)
  qed
  moreover have "k \<le> 1 \<Longrightarrow> take k (outq s) = replicate k (outq s ! 0)"
    using assms(3) by (cases k; cases "outq s") simp_all
  moreover have "outq s ! 1 \<notin> set (drop (k + 1) (outq s))" "outq s ! 1 \<noteq> outq s ! 0" if "2 \<le> k"
  proof -
    show "outq s ! 1 \<noteq> outq s ! 0" using that assms(1,3) nth_eq_iff_index_eq [of "outq s" 1 0] by (cases "outq s = []") simp_all
    show "outq s ! 1 \<notin> set (drop (k + 1) (outq s))" using that assms(1,3) by (auto simp: in_set_conv_nth nth_eq_iff_index_eq)
  qed
  moreover have "flag (t_flags (pcbs s q)) TF_NEEDOUTPUT \<Longrightarrow> tcp_output_sched q (tcp_output_dequeue p s) = tcp_output_dequeue p s" for q
    by (simp add: tcp_output_sched_def flag_def)
  ultimately show ?thesis using d by auto
qed

theorem tcp_dequeue_loses_witness:
  "\<forall>s. let t = s\<lparr>out_tail := 0, out_head := 3, out_tp := Some\<rparr>
     in outq t = [Some 0, Some 1, Some 2] \<and> outq (tcp_output_dequeue 2 t) = [Some 0, Some 0]"
proof
  fix s :: tcp_system
  let ?t = "s\<lparr>out_tail := 0, out_head := 3, out_tp := Some\<rparr>"
  have q: "outq ?t = [Some 0, Some 1, Some 2]" by (simp add: outq_def upt_rec)
  then have "outq (tcp_output_dequeue 2 ?t) = replicate 2 (Some 0) @ drop 3 [Some 0, Some 1, Some 2]"
    using tcp_dequeue_loses [of ?t 2 2] by (simp add: numeral_eq_Suc)
  then show "let t = ?t in outq t = [Some 0, Some 1, Some 2] \<and> outq (tcp_output_dequeue 2 t) = [Some 0, Some 0]"
    using q by (simp add: numeral_eq_Suc)
qed

end
