(* ===== verification/Net_Tcp_In.thy ===== *)
theory Net_Tcp_In
  imports Net_Tcp
begin

text \<open>
  TCP input (\<^verbatim>\<open>src/src/sdk/libtcpip/tcp/tcp_in.c\<close>) and the reset segments it answers with (\<open>tcp_respond\<close> of
  \<^verbatim>\<open>tcp_out.c\<close>). A segment is bytes of memory at the address \<open>th\<close>, its IP header at \<open>iph\<close>; the fields are read from
  there in network byte order, and data and options by address.

  The labels of \<open>tcp_input\<close> are functions, called where the code jumps, and each part of the handler is a function that
  ends in a call of the next one: \<open>tcp_input\<close> (checksum, search), \<open>in_active\<close> (header prediction), \<open>in_slow\<close>, \<open>in_trim\<close>,
  \<open>in_window\<close>, \<open>in_flags\<close>, \<open>in_ack\<close>, \<open>in_step6\<close>, \<open>in_fin\<close>, \<open>in_final\<close>. The result is the return value with the state;
  \<open>None\<close> stands for an access through a null pointer or a loop without end.
\<close>

section \<open>Segments in memory\<close>

definition ld16 :: "mem \<Rightarrow> nat \<Rightarrow> u16" where
  "ld16 m a = ucast (m a) OR push_bit 8 (ucast (m (a + 1)))"

definition ld32 :: "mem \<Rightarrow> nat \<Rightarrow> u32" where
  "ld32 m a = ucast (ld16 m a) OR push_bit 16 (ucast (ld16 m (a + 2)))"

abbreviation ntohs :: "u16 \<Rightarrow> u16" where "ntohs \<equiv> bswap_16"
abbreviation ntohl :: "u32 \<Rightarrow> u32" where "ntohl \<equiv> bswap_32"

abbreviation saddr :: "mem \<Rightarrow> nat \<Rightarrow> u32" where "saddr m iph \<equiv> ld32 m (iph + 12)"
abbreviation daddr :: "mem \<Rightarrow> nat \<Rightarrow> u32" where "daddr m iph \<equiv> ld32 m (iph + 16)"
abbreviation th_sport :: "mem \<Rightarrow> nat \<Rightarrow> u16" where "th_sport m th \<equiv> ld16 m th"
abbreviation th_dport :: "mem \<Rightarrow> nat \<Rightarrow> u16" where "th_dport m th \<equiv> ld16 m (th + 2)"
abbreviation th_seq :: "mem \<Rightarrow> nat \<Rightarrow> u32" where "th_seq m th \<equiv> ld32 m (th + 4)"
abbreviation th_ack :: "mem \<Rightarrow> nat \<Rightarrow> u32" where "th_ack m th \<equiv> ld32 m (th + 8)"
abbreviation th_off :: "mem \<Rightarrow> nat \<Rightarrow> nat" where "th_off m th \<equiv> unat (drop_bit 4 (m (th + 12)))"
abbreviation th_flags :: "mem \<Rightarrow> nat \<Rightarrow> u8" where "th_flags m th \<equiv> m (th + 13)"
abbreviation th_win :: "mem \<Rightarrow> nat \<Rightarrow> u16" where "th_win m th \<equiv> ld16 m (th + 14)"

definition load :: "mem \<Rightarrow> nat \<Rightarrow> nat \<Rightarrow> u8 list" where
  "load m a n = map m [a..<a + n]"

text \<open>Segments that are built: the header with a given checksum field, and its bytes as memory.\<close>

definition st16 :: "u16 \<Rightarrow> u8 list" where
  "st16 v = [ucast v, ucast (drop_bit 8 v)]"

definition st32 :: "u32 \<Rightarrow> u8 list" where
  "st32 v = [ucast v, ucast (drop_bit 8 v), ucast (drop_bit 16 v), ucast (drop_bit 24 v)]"

definition as_mem :: "u8 list \<Rightarrow> mem" where
  "as_mem xs = (\<lambda>a. if a < length xs then xs ! a else 0)"

definition tcp_header :: "u16 \<Rightarrow> u16 \<Rightarrow> u32 \<Rightarrow> u32 \<Rightarrow> u8 \<Rightarrow> u16 \<Rightarrow> u8 list \<Rightarrow> u16 \<Rightarrow> u8 list" where
  "tcp_header sport dport seq ack flags win opt sm =
    st16 sport @ st16 dport @ st32 (ntohl seq) @ st32 (ntohl ack) @ [push_bit 4 (of_nat ((20 + length opt) div 4)), flags] @
    st16 (ntohs win) @ st16 sm @ st16 0 @ opt"

text \<open>The checksum: the pseudo header, the TCP header with a zero checksum field, and the data when there is any.\<close>

definition pseudo_sum :: "u32 \<Rightarrow> u32 \<Rightarrow> nat \<Rightarrow> u32" where
  "pseudo_sum sa da len =
    ucast (ntohs (of_nat len)) + 0x600 + ((sa AND 0xffff) + drop_bit 16 sa) + ((da AND 0xffff) + drop_bit 16 da)"

definition tcp_segment :: "u32 \<Rightarrow> u32 \<Rightarrow> u16 \<Rightarrow> u16 \<Rightarrow> u32 \<Rightarrow> u32 \<Rightarrow> u8 \<Rightarrow> u16 \<Rightarrow> u8 list \<Rightarrow> u8 list \<Rightarrow> u8 list" where
  "tcp_segment sa da sport dport seq ack flags win opt data =
    (let hdr = tcp_header sport dport seq ack flags win opt;
         sm = in_chksum (pseudo_sum sa da (20 + length opt + length data)) 0 (20 + length opt) (as_mem (hdr 0));
         sm = (if data \<noteq> [] then in_chksum sm 0 (length data) (as_mem data) else sm)
     in hdr (ucast (NOT sm)) @ data)"

section \<open>Constants\<close>

text \<open>The values of the firmware (\<^verbatim>\<open>src/src/config.h\<close>), where the hardware checks the checksums of received segments.\<close>

abbreviation tcp_maxrcv :: nat where "tcp_maxrcv \<equiv> 2920"
abbreviation tcp_maxsnd :: nat where "tcp_maxsnd \<equiv> 2920"
abbreviation tcp_maxwin :: nat where "tcp_maxwin \<equiv> 2920"
abbreviation tcp_maxmss :: nat where "tcp_maxmss \<equiv> 2920"
abbreviation tcp_defmss :: nat where "tcp_defmss \<equiv> 1460"
abbreviation tcp_msl :: u8 where "tcp_msl \<equiv> 2"
abbreviation tcp_conn_est_tmo :: u8 where "tcp_conn_est_tmo \<equiv> 10"
abbreviation tcp_idle_det_tmo :: u8 where "tcp_idle_det_tmo \<equiv> 10"

definition tcp_rxmtintvl :: "u8 list" where
  "tcp_rxmtintvl = [3, 6, 12, 24, 48, 96, 128, 128, 128, 128, 128, 128]"

section \<open>Replies\<close>

text \<open>The packet is given to \<open>ip_output\<close>; the callers ignore the result.\<close>

definition tcp_respond :: "mem \<Rightarrow> nat \<Rightarrow> nat \<Rightarrow> u32 \<Rightarrow> u32 \<Rightarrow> u8 \<Rightarrow> tcp_system \<Rightarrow> tcp_system" where
  "tcp_respond m iph th ack seq flags s =
    (let da = saddr m iph; sa = daddr m iph;
         seg = tcp_segment sa da (th_dport m th) (th_sport m th) seq ack flags 0 [] []
     in case route_lookup da (routes s) of
          None \<Rightarrow> s
        | Some rt \<Rightarrow> s\<lparr>sent := sent s @ [\<lparr>ip_saddr = sa, ip_daddr = da, ip_payload = seg\<rparr>]\<rparr>)"

text \<open>The local variables of \<open>tcp_input\<close> that describe the segment.\<close>

record seg =
  ti_seq :: u32
  ti_ack :: u32
  ti_len :: int
  tiflags :: u8
  tiwin :: int
  ti_data :: nat

definition dropwithreset :: "mem \<Rightarrow> nat \<Rightarrow> nat \<Rightarrow> seg \<Rightarrow> tcp_system \<Rightarrow> (int \<times> tcp_system) option" where
  "dropwithreset m iph th g s =
    (if \<not> flag (tiflags g) TH_RST then
       if flag (tiflags g) TH_ACK then Some (1, tcp_respond m iph th 0 (ti_ack g) TH_RST s)
       else let len = (if flag (tiflags g) TH_SYN then ti_len g + 1 else ti_len g)
            in Some (1, tcp_respond m iph th (ti_seq g + of_int len) 0 (TH_ACK OR TH_RST) s)
     else Some (1, s))"

definition dropafterack :: "nat \<Rightarrow> seg \<Rightarrow> tcp_system \<Rightarrow> (int \<times> tcp_system) option" where
  "dropafterack p g s =
    (if flag (tiflags g) TH_RST then Some (1, s) else Some (1, tcp_output_sched p (set_flag p TF_ACKNOW s)))"

section \<open>Passive open\<close>

text \<open>The options at \<open>p\<close>; the result is \<open>t_maxseg\<close>. The length may become negative, and the loop ends only when it is 0.\<close>

partial_function (option) opt_loop :: "mem \<Rightarrow> bool \<Rightarrow> nat \<Rightarrow> int \<Rightarrow> u16 \<Rightarrow> u16 option" where
  "opt_loop m syn p len mss =
    (if len = 0 then Some mss
     else if m p = 0 then Some mss
     else if m p = 1 then opt_loop m syn (p + 1) (len - 1) mss
     else if m (p + 1) = 0 then Some mss
     else opt_loop m syn (p + unat (m (p + 1))) (len - int (unat (m (p + 1))))
       (if m p = 2 \<and> m (p + 1) = 4 \<and> syn
        then let val = 256 * unat (m (p + 2)) + unat (m (p + 3)) in if val < unat mss then of_nat val else mss
        else mss))"

definition tcp_parse_options :: "mem \<Rightarrow> nat \<Rightarrow> nat \<Rightarrow> tcp_system \<Rightarrow> nat \<Rightarrow> int \<Rightarrow> tcp_system option" where
  "tcp_parse_options m th p s a len =
    map_option (\<lambda>v. upd_pcb p (\<lambda>b. b\<lparr>t_maxseg := v\<rparr>) s) (opt_loop m (flag (th_flags m th) TH_SYN) a len (t_maxseg (pcbs s p)))"

text \<open>The interface of a route, which is never null for a route found by the lookup.\<close>

definition route_mtu :: "tcp_system \<Rightarrow> nat \<Rightarrow> nat option" where
  "route_mtu s rt = map_option (\<lambda>i. unat (if_mtu (ifns s i))) (rt_ifn (routes s ! rt))"

definition tcp_passive_open :: "nat \<Rightarrow> mem \<Rightarrow> nat \<Rightarrow> nat \<Rightarrow> int \<Rightarrow> tcp_system \<Rightarrow> (nat option \<times> tcp_system) option" where
  "tcp_passive_open mux m iph th optlen s =
    (let new_head = unat (t_head (pcbs s mux)) + 1;
         new_head = (if new_head = unat (t_max (pcbs s mux)) then 0 else new_head)
     in if unat (t_tail (pcbs s mux)) = new_head then Some (None, s)
        else case os_call thinkos_cond_alloc_svc 0 s of (c, s) \<Rightarrow>
          if c < 0 then Some (None, s)
          else case tcp_pcb_new ACTIVE s of
            (None, s) \<Rightarrow> Some (None, s)
          | (Some tp, s) \<Rightarrow>
              let s = upd_pcb tp (\<lambda>b. b\<lparr>inp_lport := th_dport m th, inp_laddr := daddr m iph,
                    inp_fport := th_sport m th, inp_faddr := saddr m iph, t_cond := c\<rparr>) s;
                  s = queue_init (snd_q tp) (queue_init (rcv_q tp) s)
              in bind (case route_lookup (inp_faddr (pcbs s tp)) (routes s) of
                         None \<Rightarrow> Some (upd_pcb tp (\<lambda>b. b\<lparr>t_maxseg := of_nat tcp_defmss\<rparr>) s)
                       | Some rt \<Rightarrow>
                           map_option (\<lambda>mtu. upd_pcb tp (\<lambda>b. b\<lparr>t_route := Some rt, t_maxseg := of_int (int mtu - 40)\<rparr>) s) (route_mtu s rt))
                 (\<lambda>s. let s = (if unat (t_maxseg (pcbs s tp)) > tcp_maxmss
                              then upd_pcb tp (\<lambda>b. b\<lparr>t_maxseg := of_nat tcp_maxmss\<rparr>) s else s)
                      in bind (if optlen \<noteq> 0 then tcp_parse_options m th tp s (th + 20) optlen else Some s)
                        (\<lambda>s. let s = s\<lparr>iss := iss s + 1\<rparr>;
                                 s = upd_pcb tp (\<lambda>b. b\<lparr>rcv_nxt := ntohl (th_seq m th) + 1,
                                       snd_seq := push_bit 20 (ucast (iss s)), snd_off := 0, snd_max := 0,
                                       t_conn_tmr := tcp_conn_est_tmo, snd_wnd := ntohs (th_win m th),
                                       t_state := TCPS_SYN_RCVD, t_flags := TF_ACKNOW\<rparr>) s;
                                 s = upd_pcb mux (\<lambda>b. b\<lparr>t_backlog := (t_backlog b)(unat (t_head b) := Some tp),
                                       t_head := of_nat new_head\<rparr>) s
                             in Some (Some tp, os_sem_post (t_sem (pcbs s mux)) s))))"

section \<open>The last part: window update, data and FIN\<close>

definition in_final :: "nat \<Rightarrow> bool \<Rightarrow> tcp_system \<Rightarrow> (int \<times> tcp_system) option" where
  "in_final p needoutput s =
    Some (1, if needoutput \<or> flag (t_flags (pcbs s p)) TF_ACKNOW then tcp_output_sched p s else s)"

text \<open>The peer has closed its side.\<close>

definition in_close_wait :: "nat \<Rightarrow> tcp_system \<Rightarrow> tcp_system" where
  "in_close_wait p s =
    (let s = upd_pcb p (\<lambda>b. b\<lparr>t_state := TCPS_CLOSE_WAIT\<rparr>) s
     in if queue_len (rcv_q p) s = 0 then os_cond_broadcast (t_cond (pcbs s p)) s else s)"

definition fin_switch :: "nat \<Rightarrow> tcp_system \<Rightarrow> tcp_system option" where
  "fin_switch p s =
    (case t_state (pcbs s p) of
       TCPS_SYN_RCVD \<Rightarrow> Some (in_close_wait p s)
     | TCPS_ESTABLISHED \<Rightarrow> Some (in_close_wait p s)
     | TCPS_FIN_WAIT_1 \<Rightarrow> Some (upd_pcb p (\<lambda>b. b\<lparr>t_state := TCPS_CLOSING\<rparr>) s)
     | TCPS_FIN_WAIT_2 \<Rightarrow>
         bind (queue_free (rcv_q p) s) (\<lambda>s. bind (queue_free (snd_q p) s) (\<lambda>s.
           Some (upd_pcb p (\<lambda>b. b\<lparr>t_state := TCPS_TIME_WAIT, t_rxmt_tmr := 0, t_conn_tmr := 2 * tcp_msl\<rparr>) s)))
     | TCPS_TIME_WAIT \<Rightarrow> Some (upd_pcb p (\<lambda>b. b\<lparr>t_conn_tmr := 2 * tcp_msl\<rparr>) s)
     | _ \<Rightarrow> Some s)"

definition in_fin :: "nat \<Rightarrow> u8 \<Rightarrow> bool \<Rightarrow> tcp_system \<Rightarrow> (int \<times> tcp_system) option" where
  "in_fin p flags needoutput s =
    (if flag flags TH_FIN then
       let s = (if \<not> TCPS_HAVERCVDFIN (t_state (pcbs s p))
                then upd_pcb p (\<lambda>b. b\<lparr>rcv_nxt := rcv_nxt b + 1\<rparr>) (set_flag p TF_ACKNOW s) else s)
       in bind (fin_switch p s) (in_final p needoutput)
     else in_final p needoutput s)"

text \<open>The segment text: the new length is not used any more, but the flags are.\<close>

definition in_data :: "mem \<Rightarrow> nat \<Rightarrow> seg \<Rightarrow> tcp_system \<Rightarrow> (u8 \<times> tcp_system) option" where
  "in_data m p g s =
    (if (ti_len g \<noteq> 0 \<or> flag (tiflags g) TH_FIN) \<and> \<not> TCPS_HAVERCVDFIN (t_state (pcbs s p)) then
       if ti_seq g = rcv_nxt (pcbs s p) \<and> t_state (pcbs s p) = TCPS_ESTABLISHED then
         let s = set_flag p TF_DELACK s
         in bind (queue_add (rcv_q p) (load m (ti_data g) (nat (ti_len g))) s) (\<lambda>(n, s).
              let s = upd_pcb p (\<lambda>b. b\<lparr>rcv_nxt := rcv_nxt b + of_nat n\<rparr>) s
              in Some (tiflags g AND TH_FIN, os_cond_signal (t_cond (pcbs s p)) s))
       else Some (tiflags g, set_flag p TF_ACKNOW s)
     else Some (tiflags g AND NOT TH_FIN, s))"

definition in_step6 :: "mem \<Rightarrow> nat \<Rightarrow> seg \<Rightarrow> bool \<Rightarrow> tcp_system \<Rightarrow> (int \<times> tcp_system) option" where
  "in_step6 m p g needoutput s =
    (let upd = (flag (tiflags g) TH_ACK \<and> tiwin g > int (unat (snd_wnd (pcbs s p))));
         s = (if upd then upd_pcb p (\<lambda>b. b\<lparr>snd_wnd := of_int (tiwin g)\<rparr>) s else s)
     in bind (in_data m p g s) (\<lambda>(flags, s). in_fin p flags (needoutput \<or> upd) s))"

section \<open>Acknowledgements\<close>

text \<open>The state machine after new data was acknowledged.\<close>

definition in_acked_state :: "mem \<Rightarrow> nat \<Rightarrow> seg \<Rightarrow> bool \<Rightarrow> bool \<Rightarrow> tcp_system \<Rightarrow> (int \<times> tcp_system) option" where
  "in_acked_state m p g ourfinisacked needoutput s =
    (case t_state (pcbs s p) of
       TCPS_FIN_WAIT_1 \<Rightarrow>
         in_step6 m p g needoutput
           (if ourfinisacked then upd_pcb p (\<lambda>b. b\<lparr>t_conn_tmr := 4 * tcp_msl, t_state := TCPS_FIN_WAIT_2\<rparr>) s else s)
     | TCPS_CLOSING \<Rightarrow>
         if ourfinisacked then
           bind (queue_free (snd_q p) s) (\<lambda>s. bind (queue_free (rcv_q p) s) (\<lambda>s.
             in_step6 m p g needoutput
               (upd_pcb p (\<lambda>b. b\<lparr>t_state := TCPS_TIME_WAIT, t_rxmt_tmr := 0, t_conn_tmr := 2 * tcp_msl\<rparr>) s)))
         else in_step6 m p g needoutput s
     | TCPS_LAST_ACK \<Rightarrow>
         if ourfinisacked then map_option (\<lambda>(r, s). (1, s)) (tcp_pcb_free p s) else in_step6 m p g needoutput s
     | TCPS_TIME_WAIT \<Rightarrow> dropafterack p g (upd_pcb p (\<lambda>b. b\<lparr>t_conn_tmr := 2 * tcp_msl\<rparr>) s)
     | _ \<Rightarrow> in_step6 m p g needoutput s)"

definition in_acked :: "mem \<Rightarrow> nat \<Rightarrow> seg \<Rightarrow> u32 \<Rightarrow> u32 \<Rightarrow> u32 \<Rightarrow> tcp_system \<Rightarrow> (int \<times> tcp_system) option" where
  "in_acked m p g una nxt mx s =
    (let acked = sint (ti_ack g - una);
         needoutput = (ti_ack g = mx);
         s = (if ti_ack g = mx then upd_pcb p (\<lambda>b. b\<lparr>t_rxmt_tmr := 0, t_count := 0\<rparr>) s
              else upd_pcb p (\<lambda>b. b\<lparr>t_rxmt_tmr := tcp_rxmtintvl ! (unat (t_count b) div 2)\<rparr>) s);
         ourfinisacked = (acked > int (queue_len (snd_q p) s))
     in bind (queue_trim (snd_q p) (if ourfinisacked then queue_len (snd_q p) s else nat acked) s) (\<lambda>s.
          let s = os_cond_broadcast (t_cond (pcbs s p)) s;
              una = ti_ack g;
              nxt = (if SEQ_LT nxt una then una else nxt);
              s = upd_pcb p (\<lambda>b. b\<lparr>snd_seq := una, snd_off := ucast (nxt - una), snd_max := ucast (mx - una)\<rparr>) s
          in in_acked_state m p g ourfinisacked needoutput s))"

definition in_ack_range :: "mem \<Rightarrow> nat \<Rightarrow> seg \<Rightarrow> u32 \<Rightarrow> u32 \<Rightarrow> u32 \<Rightarrow> tcp_system \<Rightarrow> (int \<times> tcp_system) option" where
  "in_ack_range m p g una nxt mx s =
    (if t_state (pcbs s p) \<in> {TCPS_CLOSED, TCPS_LISTEN, TCPS_SYN_SENT} \<or> SEQ_LEQ (ti_ack g) una then in_step6 m p g False s
     else if SEQ_GT (ti_ack g) mx then dropafterack p g s
     else in_acked m p g una nxt mx s)"

definition in_ack :: "mem \<Rightarrow> nat \<Rightarrow> nat \<Rightarrow> nat \<Rightarrow> seg \<Rightarrow> u32 \<Rightarrow> u32 \<Rightarrow> u32 \<Rightarrow> tcp_system \<Rightarrow> (int \<times> tcp_system) option" where
  "in_ack m iph th p g una nxt mx s =
    (if t_state (pcbs s p) = TCPS_SYN_RCVD \<and> (SEQ_GT una (ti_ack g) \<or> SEQ_GT (ti_ack g) mx) then dropwithreset m iph th g s
     else let s = (if t_state (pcbs s p) = TCPS_SYN_RCVD
                   then upd_pcb p (\<lambda>b. b\<lparr>t_state := TCPS_ESTABLISHED, snd_off := snd_off b - 1, snd_max := snd_max b - 1\<rparr>) s else s)
          in in_ack_range m p g una nxt mx s)"

section \<open>Reset, SYN and the window\<close>

text \<open>The label \<open>close\<close>.\<close>

definition in_close :: "nat \<Rightarrow> tcp_system \<Rightarrow> (int \<times> tcp_system) option" where
  "in_close p s =
    bind (queue_free (snd_q p) s) (\<lambda>s. bind (queue_free (rcv_q p) s) (\<lambda>s.
      bind (list_move p ACTIVE CLOSED (upd_pcb p (\<lambda>b. b\<lparr>t_state := TCPS_CLOSED\<rparr>) s)) (\<lambda>(_, s).
        Some (1, os_cond_broadcast (t_cond (pcbs s p)) s))))"

definition in_flags :: "mem \<Rightarrow> nat \<Rightarrow> nat \<Rightarrow> nat \<Rightarrow> seg \<Rightarrow> u32 \<Rightarrow> u32 \<Rightarrow> u32 \<Rightarrow> tcp_system \<Rightarrow> (int \<times> tcp_system) option" where
  "in_flags m iph th p g una nxt mx s =
    (if flag (tiflags g) TH_RST \<and> t_state (pcbs s p) \<in> {TCPS_SYN_RCVD, TCPS_ESTABLISHED, TCPS_CLOSE_WAIT} then in_close p s
     else if flag (tiflags g) TH_RST \<and>
         t_state (pcbs s p) \<in> {TCPS_FIN_WAIT_1, TCPS_FIN_WAIT_2, TCPS_CLOSING, TCPS_LAST_ACK, TCPS_TIME_WAIT}
     then map_option (\<lambda>(r, s). (1, s)) (tcp_pcb_free p s)
     else if flag (tiflags g) TH_SYN then dropwithreset m iph th g s
     else if \<not> flag (tiflags g) TH_ACK then Some (1, s)
     else in_ack m iph th p g una nxt mx s)"

text \<open>Drop what lies behind the window.\<close>

definition in_window :: "mem \<Rightarrow> nat \<Rightarrow> nat \<Rightarrow> nat \<Rightarrow> seg \<Rightarrow> int \<Rightarrow> u32 \<Rightarrow> u32 \<Rightarrow> u32 \<Rightarrow> tcp_system \<Rightarrow> (int \<times> tcp_system) option" where
  "in_window m iph th p g rcv_wnd una nxt mx s =
    (if t_state (pcbs s p) > TCPS_FIN_WAIT_1 \<and> ti_len g \<noteq> 0 then dropwithreset m iph th g s
     else let todrop = sint ((ti_seq g + of_int (ti_len g)) - (rcv_nxt (pcbs s p) + of_int rcv_wnd))
          in if todrop > 0 then
               let g' = g\<lparr>ti_len := ti_len g - todrop, tiflags := tiflags g AND NOT (TH_PSH OR TH_FIN)\<rparr>
               in if todrop \<ge> ti_len g then
                    if rcv_wnd = 0 \<and> ti_seq g = rcv_nxt (pcbs s p)
                    then in_flags m iph th p g' una nxt mx (set_flag p TF_ACKNOW s)
                    else dropafterack p g s
                  else in_flags m iph th p g' una nxt mx s
             else in_flags m iph th p g una nxt mx s)"

text \<open>Drop what was received already.\<close>

definition in_trim :: "mem \<Rightarrow> nat \<Rightarrow> nat \<Rightarrow> nat \<Rightarrow> seg \<Rightarrow> int \<Rightarrow> u32 \<Rightarrow> u32 \<Rightarrow> u32 \<Rightarrow> tcp_system \<Rightarrow> (int \<times> tcp_system) option" where
  "in_trim m iph th p g rcv_wnd una nxt mx s =
    (let todrop = sint (rcv_nxt (pcbs s p) - ti_seq g)
     in if todrop > 0 then
          let (g, todrop) = (if flag (tiflags g) TH_SYN
                then (g\<lparr>tiflags := tiflags g AND NOT TH_SYN, ti_seq := ti_seq g + 1\<rparr>, todrop - 1) else (g, todrop));
              (g, todrop, s) = (if todrop > ti_len g \<or> todrop = ti_len g \<and> \<not> flag (tiflags g) TH_FIN
                then (g\<lparr>tiflags := tiflags g AND NOT TH_FIN\<rparr>, ti_len g, set_flag p TF_ACKNOW s) else (g, todrop, s));
              g = g\<lparr>ti_data := nat (int (ti_data g) + todrop), ti_seq := ti_seq g + of_int todrop, ti_len := ti_len g - todrop\<rparr>
          in in_window m iph th p g rcv_wnd una nxt mx s
        else in_window m iph th p g rcv_wnd una nxt mx s)"

section \<open>Active open\<close>

text \<open>The label \<open>close_and_reset\<close>.\<close>

definition close_and_reset :: "mem \<Rightarrow> nat \<Rightarrow> nat \<Rightarrow> nat \<Rightarrow> seg \<Rightarrow> tcp_system \<Rightarrow> (int \<times> tcp_system) option" where
  "close_and_reset m iph th p g s =
    bind (list_move p ACTIVE CLOSED (upd_pcb p (\<lambda>b. b\<lparr>t_state := TCPS_CLOSED\<rparr>) s)) (\<lambda>(_, s).
      bind (queue_free (snd_q p) s) (\<lambda>s. bind (queue_free (rcv_q p) s) (\<lambda>s.
        dropwithreset m iph th g (os_cond_broadcast (t_cond (pcbs s p)) s))))"

definition in_syn_sent :: "mem \<Rightarrow> nat \<Rightarrow> nat \<Rightarrow> nat \<Rightarrow> seg \<Rightarrow> int \<Rightarrow> int \<Rightarrow> tcp_system \<Rightarrow> (int \<times> tcp_system) option" where
  "in_syn_sent m iph th p g optlen rcv_wnd s =
    (if flag (tiflags g) TH_RST then in_close p s
     else if \<not> flag (tiflags g) TH_SYN then close_and_reset m iph th p g s
     else if \<not> flag (tiflags g) TH_ACK then close_and_reset m iph th p g s
     else if ti_len g \<noteq> 0 then close_and_reset m iph th p g s
     else let s = upd_pcb p (\<lambda>b. b\<lparr>snd_seq := snd_seq b + 1\<rparr>) s
          in if snd_seq (pcbs s p) \<noteq> ti_ack g then close_and_reset m iph th p g s
             else let s = upd_pcb p (\<lambda>b. b\<lparr>snd_off := snd_off b - 1, snd_max := snd_max b - 1\<rparr>) s
                  in bind (if optlen \<noteq> 0 then tcp_parse_options m th p s (th + 20) optlen else Some s) (\<lambda>s.
                       let g = g\<lparr>ti_seq := ti_seq g + 1\<rparr>;
                           g = (if ti_len g > rcv_wnd then g\<lparr>ti_len := rcv_wnd\<rparr> else g);
                           s = upd_pcb p (\<lambda>b. b\<lparr>rcv_nxt := ti_seq g, snd_wnd := ntohs (th_win m th), t_state := TCPS_ESTABLISHED\<rparr>) s;
                           s = set_flag p TF_ACKNOW s
                       in in_step6 m p g False (os_cond_broadcast (t_cond (pcbs s p)) s)))"

definition in_slow :: "mem \<Rightarrow> nat \<Rightarrow> nat \<Rightarrow> nat \<Rightarrow> seg \<Rightarrow> int \<Rightarrow> u32 \<Rightarrow> u32 \<Rightarrow> u32 \<Rightarrow> tcp_system \<Rightarrow> (int \<times> tcp_system) option" where
  "in_slow m iph th p g optlen una nxt mx s =
    (let win = int tcp_maxrcv - int (queue_len (rcv_q p) s);
         rcv_wnd = (if win \<le> 0 then 0 else win)
     in if t_state (pcbs s p) = TCPS_SYN_SENT then in_syn_sent m iph th p g optlen rcv_wnd s
        else in_trim m iph th p g rcv_wnd una nxt mx s)"

section \<open>Header prediction\<close>

definition predicted :: "nat \<Rightarrow> seg \<Rightarrow> u32 \<Rightarrow> u32 \<Rightarrow> tcp_system \<Rightarrow> bool" where
  "predicted p g nxt mx s \<longleftrightarrow> t_state (pcbs s p) = TCPS_ESTABLISHED \<and>
    tiflags g AND (TH_SYN OR TH_FIN OR TH_RST OR TH_URG OR TH_ACK) = TH_ACK \<and> ti_seq g = rcv_nxt (pcbs s p) \<and>
    tiwin g \<noteq> 0 \<and> tiwin g = int (unat (snd_wnd (pcbs s p))) \<and> nxt = mx"

definition predict_ack :: "nat \<Rightarrow> seg \<Rightarrow> u32 \<Rightarrow> u32 \<Rightarrow> u32 \<Rightarrow> tcp_system \<Rightarrow> (int \<times> tcp_system) option" where
  "predict_ack p g una nxt mx s =
    bind (queue_trim (snd_q p) (nat (sint (ti_ack g - una))) s) (\<lambda>s.
      let una = ti_ack g;
          s = upd_pcb p (\<lambda>b. b\<lparr>snd_seq := una, snd_off := ucast (nxt - una), snd_max := ucast (mx - una)\<rparr>) s;
          s = (if una = mx then upd_pcb p (\<lambda>b. b\<lparr>t_rxmt_tmr := 0, t_count := 0\<rparr>) s
               else if t_rxmt_tmr (pcbs s p) = 0
               then upd_pcb p (\<lambda>b. b\<lparr>t_rxmt_tmr := tcp_rxmtintvl ! (unat (t_count b) div 2)\<rparr>) s else s);
          s = os_cond_broadcast (t_cond (pcbs s p)) s
      in Some (1, if queue_len (snd_q p) s \<noteq> 0 then tcp_output_sched p s else s))"

definition predict_data :: "mem \<Rightarrow> nat \<Rightarrow> seg \<Rightarrow> tcp_system \<Rightarrow> (int \<times> tcp_system) option" where
  "predict_data m p g s =
    bind (queue_add (rcv_q p) (load m (ti_data g) (nat (ti_len g))) s) (\<lambda>(n, s).
      let s = upd_pcb p (\<lambda>b. b\<lparr>rcv_nxt := rcv_nxt b + of_nat n\<rparr>) s;
          s = os_cond_broadcast (t_cond (pcbs s p)) s
      in Some (int n, if int n \<noteq> ti_len g then tcp_output_sched p (set_flag p TF_ACKNOW s) else set_flag p TF_DELACK s))"

definition in_active :: "mem \<Rightarrow> nat \<Rightarrow> nat \<Rightarrow> nat \<Rightarrow> seg \<Rightarrow> int \<Rightarrow> tcp_system \<Rightarrow> (int \<times> tcp_system) option" where
  "in_active m iph th p g optlen s =
    (let una = snd_seq (pcbs s p);
         nxt = snd_seq (pcbs s p) + ucast (snd_off (pcbs s p));
         mx = snd_seq (pcbs s p) + ucast (snd_max (pcbs s p));
         s = upd_pcb p (\<lambda>b. b\<lparr>t_conn_tmr := tcp_idle_det_tmo\<rparr>) s;
         s = (if flag (t_flags (pcbs s p)) TF_IDLE then clear_flag p TF_IDLE s else s)
     in if predicted p g nxt mx s \<and> ti_len g = 0 \<and> SEQ_GT (ti_ack g) una \<and> SEQ_LEQ (ti_ack g) mx then predict_ack p g una nxt mx s
        else if predicted p g nxt mx s \<and> ti_len g \<noteq> 0 \<and> ti_ack g = una \<and>
            ti_len g \<le> int tcp_maxrcv - int (queue_len (rcv_q p) s)
        then predict_data m p g s
        else in_slow m iph th p g optlen una nxt mx s)"

section \<open>The handler\<close>

definition in_listen :: "mem \<Rightarrow> nat \<Rightarrow> nat \<Rightarrow> seg \<Rightarrow> int \<Rightarrow> tcp_system \<Rightarrow> (int \<times> tcp_system) option" where
  "in_listen m iph th g optlen s =
    bind (pcb_wildlookup (saddr m iph) (th_sport m th) (daddr m iph) (th_dport m th) (lst s LISTEN) (nx s) (pcbs s)) (\<lambda>r.
      case r of
        None \<Rightarrow> dropwithreset m iph th g s
      | Some mux \<Rightarrow>
          if flag (tiflags g) TH_ACK then dropwithreset m iph th g s
          else if ti_len g \<noteq> 0 then dropwithreset m iph th g s
          else if \<not> flag (tiflags g) TH_SYN then Some (1, s)
          else if flag (tiflags g) TH_RST then Some (1, s)
          else bind (tcp_passive_open mux m iph th optlen s) (\<lambda>(tp, s).
            case tp of
              None \<Rightarrow> dropwithreset m iph th g s
            | Some tp \<Rightarrow> Some (1, tcp_output_sched tp s)))"

definition tcp_input :: "mem \<Rightarrow> nat \<Rightarrow> nat \<Rightarrow> int \<Rightarrow> tcp_system \<Rightarrow> (int \<times> tcp_system) option" where
  "tcp_input m iph th len s =
    (let hdrlen = 4 * th_off m th;
         optlen = int hdrlen - 20;
         g = \<lparr>ti_seq = ntohl (th_seq m th), ti_ack = ntohl (th_ack m th), ti_len = len - int hdrlen,
              tiflags = th_flags m th, tiwin = int (unat (ntohs (th_win m th))), ti_data = th + hdrlen\<rparr>
     in bind (pcb_lookup (saddr m iph) (th_sport m th) (daddr m iph) (th_dport m th) (lst s ACTIVE) (nx s) (pcbs s)) (\<lambda>r.
          case r of
            None \<Rightarrow> in_listen m iph th g optlen s
          | Some p \<Rightarrow> in_active m iph th p g optlen s))"

section \<open>The output queue grows\<close>

text \<open>A block that is stored at the head of the ring, which has eight slots, is the last of the queue.\<close>

lemma outq_push:
  assumes "out_tail t = out_tail s" and "out_head t = out_head s + 1" and "out_tp t = (out_tp s)(unat (out_head s) mod 8 := Some p)"
    and "length (outq s) < 8"
  shows "outq t = outq s @ [Some p]"
proof -
  define n where "n = unat (out_head s - out_tail s)"
  have n: "n < 8" using assms(4) by (simp add: outq_def n_def)
  have h: "out_head s = out_tail s + of_nat n" by (simp add: n_def)
  have u: "unat (out_head s) mod 8 = (unat (out_tail s) + n) mod 8" unfolding h by (rule unat_add_mod8)
  have "out_head t - out_tail t = of_nat (Suc n)" unfolding assms(1,2) h by simp
  then have l: "unat (out_head t - out_tail t) = Suc n" using n by (simp only: unat_of_nat) simp
  have d: "(unat (out_tail s) + k) mod 8 \<noteq> (unat (out_tail s) + n) mod 8" if "k < n" for k
  proof
    assume "(unat (out_tail s) + k) mod 8 = (unat (out_tail s) + n) mod 8"
    then have "(unat (out_tail s) + n) mod 8 = (unat (out_tail s) + k) mod 8" by (rule sym)
    then have "8 dvd (unat (out_tail s) + n) - (unat (out_tail s) + k)"
      using mod_eq_dvd_iff_nat [of "unat (out_tail s) + k" "unat (out_tail s) + n" 8] that by linarith
    then have "8 dvd n - k" by simp
    then show False using that n by (auto dest: dvd_imp_le)
  qed
  have "map (\<lambda>k. out_tp t ((unat (out_tail s) + k) mod 8)) [0..<n] = map (\<lambda>k. out_tp s ((unat (out_tail s) + k) mod 8)) [0..<n]"
    using d by (intro map_cong) (simp_all add: assms(3) u)
  then show ?thesis unfolding outq_def l unfolding assms(1) n_def [symmetric] by (simp add: assms(3) u)
qed

section \<open>What a segment does to its connection\<close>

text \<open>The transitions of a connection on a segment with the flags \<open>F\<close>.\<close>

inductive seg_edge :: "u8 \<Rightarrow> tcps \<Rightarrow> tcps \<Rightarrow> bool" for F where
  syn_sent: "flag F TH_SYN \<Longrightarrow> flag F TH_ACK \<Longrightarrow> seg_edge F TCPS_SYN_SENT TCPS_ESTABLISHED"
| refused: "seg_edge F TCPS_SYN_SENT TCPS_CLOSED"
| syn_rcvd: "flag F TH_ACK \<Longrightarrow> seg_edge F TCPS_SYN_RCVD TCPS_ESTABLISHED"
| fin: "flag F TH_FIN \<Longrightarrow> t = TCPS_SYN_RCVD \<or> t = TCPS_ESTABLISHED \<Longrightarrow> seg_edge F t TCPS_CLOSE_WAIT"
| closing: "flag F TH_FIN \<Longrightarrow> seg_edge F TCPS_FIN_WAIT_1 TCPS_CLOSING"
| fin_acked: "flag F TH_ACK \<Longrightarrow> seg_edge F TCPS_FIN_WAIT_1 TCPS_FIN_WAIT_2"
| fin_fin: "flag F TH_FIN \<Longrightarrow> seg_edge F TCPS_FIN_WAIT_2 TCPS_TIME_WAIT"
| closing_acked: "flag F TH_ACK \<Longrightarrow> seg_edge F TCPS_CLOSING TCPS_TIME_WAIT"
| reset: "flag F TH_RST \<Longrightarrow> t = TCPS_SYN_RCVD \<or> t = TCPS_ESTABLISHED \<or> t = TCPS_CLOSE_WAIT \<Longrightarrow> seg_edge F t TCPS_CLOSED"

abbreviation cstate :: "tcp_system \<Rightarrow> nat \<Rightarrow> tcps" where "cstate s p \<equiv> t_state (pcbs s p)"

text \<open>No other connection is touched.\<close>

definition only :: "nat \<Rightarrow> tcp_system \<Rightarrow> tcp_system \<Rightarrow> bool" where
  "only p s s' \<longleftrightarrow> (\<forall>q. q \<noteq> p \<longrightarrow> pcbs s' q = pcbs s q) \<and>
    (\<forall>i<NQ. i \<noteq> rcv_q p \<longrightarrow> i \<noteq> snd_q p \<longrightarrow> qbytes i s' = qbytes i s) \<and> routes s' = routes s \<and> ifns s' = ifns s"

text \<open>The queue was released, which happens only when the connection is over or waits for its last segments.\<close>

definition gone :: "nat \<Rightarrow> nat \<Rightarrow> tcp_system \<Rightarrow> bool" where
  "gone j p s \<longleftrightarrow> qbytes j s = [] \<and> cstate s p \<noteq> TCPS_ESTABLISHED \<and> cstate s p \<noteq> TCPS_CLOSE_WAIT"

text \<open>The peer's stream is a function \<open>S\<close> of sequence numbers. Receiving appends the \<open>n\<close> bytes from \<open>rcv_nxt\<close> on, and
  \<open>rcv_nxt\<close> advances by their number, and by one more for a FIN.\<close>

definition rx :: "nat \<Rightarrow> (u32 \<Rightarrow> u8) \<Rightarrow> u8 \<Rightarrow> tcp_system \<Rightarrow> tcp_system \<Rightarrow> bool" where
  "rx p S F s s' \<longleftrightarrow> (\<exists>n f. (f \<longrightarrow> flag F TH_FIN) \<and> rcv_nxt (pcbs s' p) = rcv_nxt (pcbs s p) + of_nat n + of_bool f \<and>
    (qbytes (rcv_q p) s' = qbytes (rcv_q p) s @ map (\<lambda>i. S (rcv_nxt (pcbs s p) + of_nat i)) [0..<n] \<or> gone (rcv_q p) p s'))"

text \<open>Sending: the acknowledged bytes, as many as \<open>snd_seq\<close> advances, leave the send queue at its head. It advances to the
  acknowledgement number and by at most \<open>M\<close>, what was sent.\<close>

definition tx0 :: "nat \<Rightarrow> tcp_system \<Rightarrow> tcp_system \<Rightarrow> bool" where
  "tx0 p s s' \<longleftrightarrow> snd_seq (pcbs s' p) = snd_seq (pcbs s p) \<and> (qbytes (snd_q p) s' = qbytes (snd_q p) s \<or> gone (snd_q p) p s')"

definition tx :: "nat \<Rightarrow> u32 \<Rightarrow> nat \<Rightarrow> tcp_system \<Rightarrow> tcp_system \<Rightarrow> bool" where
  "tx p a M s s' \<longleftrightarrow> (let d = unat (snd_seq (pcbs s' p) - snd_seq (pcbs s p))
     in d \<le> M \<and> (d \<noteq> 0 \<longrightarrow> snd_seq (pcbs s' p) = a) \<and>
        (qbytes (snd_q p) s' = drop d (qbytes (snd_q p) s) \<or> gone (snd_q p) p s'))"

text \<open>Steps that change nothing of this.\<close>

definition quiet :: "nat \<Rightarrow> tcp_system \<Rightarrow> tcp_system \<Rightarrow> bool" where
  "quiet p s s' \<longleftrightarrow> same s s' \<and> (\<forall>q. q \<noteq> p \<longrightarrow> pcbs s' q = pcbs s q) \<and> cstate s' p = cstate s p \<and>
    rcv_nxt (pcbs s' p) = rcv_nxt (pcbs s p) \<and> snd_seq (pcbs s' p) = snd_seq (pcbs s p) \<and> snd_max (pcbs s' p) = snd_max (pcbs s p)"

lemma quiet_refl [simp]: "quiet p s s"
  by (simp add: quiet_def)

lemma quiet_trans: "quiet p s t \<Longrightarrow> quiet p t u \<Longrightarrow> quiet p s u"
  by (auto simp: quiet_def same_def)

lemma quiet_flags: "flags_only p s s' \<Longrightarrow> quiet p s s'"
  by (auto simp: flags_only_def quiet_def)

lemma quiet_simps [simp]:
  "quiet p s (set_flag p f s)" "quiet p s (clear_flag p f s)" "quiet p s (tcp_output_sched p s)" "quiet p s (os_cond_signal c s)"
  "quiet p s (os_cond_broadcast c s)" "quiet p s (os_cond_free c s)"
  by (simp_all add: quiet_flags)

lemma quiet_upd:
  "(\<And>b. t_state (f b) = t_state b \<and> rcv_nxt (f b) = rcv_nxt b \<and> snd_seq (f b) = snd_seq b \<and> snd_max (f b) = snd_max b) \<Longrightarrow>
    quiet p s (upd_pcb p f s)"
  by (simp add: quiet_def)

lemma quiet_state: "quiet p s s' \<Longrightarrow> cstate s' q = cstate s q"
  by (cases "q = p") (auto simp: quiet_def)

lemma quiet_ok:
  assumes "quiet p s s'" and "ok s xs"
  shows "ok s' xs"
  using assms(2)
proof (rule ok_same)
  show "same s s'" using assms(1) by (simp add: quiet_def)
qed (rule quiet_state [OF assms(1)])

lemma quiet_bufs: "quiet p s s' \<Longrightarrow> bufs s' = bufs s"
  by (simp add: quiet_def same_def)

text \<open>The outcome of a part of the handler.\<close>

definition outcome :: "nat \<Rightarrow> (u32 \<Rightarrow> u8) \<Rightarrow> u8 \<Rightarrow> tcp_system \<Rightarrow> (int \<times> tcp_system) option \<Rightarrow> bool" where
  "outcome p S F s r \<longleftrightarrow> (\<exists>v s'. r = Some (v, s') \<and> tcp_ok s' \<and> only p s s' \<and> (seg_edge F)\<^sup>*\<^sup>* (cstate s p) (cstate s' p) \<and>
    rx p S F s s' \<and> tx0 p s s')"

lemma only_quiet: "quiet p s t \<Longrightarrow> only p t u \<longleftrightarrow> only p s u" "quiet p t u \<Longrightarrow> only p s t \<longleftrightarrow> only p s u"
  by (auto simp: quiet_def same_def only_def)

lemma only_quietI: "quiet p s t \<Longrightarrow> only p s t"
  by (auto simp: quiet_def same_def only_def)

lemma only_trans: "only p s t \<Longrightarrow> only p t u \<Longrightarrow> only p s u"
  by (auto simp: only_def)

lemma outcome_quiet:
  assumes "quiet p s t" and "outcome p S F t r"
  shows "outcome p S F s r"
proof -
  have "cstate t p = cstate s p" "rcv_nxt (pcbs t p) = rcv_nxt (pcbs s p)" "snd_seq (pcbs t p) = snd_seq (pcbs s p)" "bufs t = bufs s"
    using assms(1) by (auto simp: quiet_def same_def)
  then show ?thesis using assms(2) only_quiet(1) [OF assms(1)] unfolding outcome_def rx_def tx0_def by auto
qed

lemma outcome_end:
  assumes "quiet p t u" and "tcp_ok u" and "only p s t" and "(seg_edge F)\<^sup>*\<^sup>* (cstate s p) (cstate t p)" and "rx p S F s t" and "tx0 p s t"
  shows "outcome p S F s (Some (v, u))"
proof -
  have "cstate u p = cstate t p" "rcv_nxt (pcbs u p) = rcv_nxt (pcbs t p)" "snd_seq (pcbs u p) = snd_seq (pcbs t p)" "bufs u = bufs t"
    using assms(1) by (auto simp: quiet_def same_def)
  then show ?thesis using assms only_quiet(2) [OF assms(1)] unfolding outcome_def rx_def tx0_def gone_def by auto
qed

lemma rx_refl: "rx p S F s s"
  unfolding rx_def by (rule exI [of _ 0], rule exI [of _ False]) simp

lemma tx0_refl: "tx0 p s s"
  by (simp add: tx0_def)

lemma only_refl: "only p s s"
  by (simp add: only_def)

lemma outcome_stay: "ok s xs \<Longrightarrow> quiet p s u \<Longrightarrow> outcome p S F s (Some (v, u))"
  using quiet_ok [of p s u xs] by (intro outcome_end [of p s u]) (auto simp: tcp_ok_def rx_refl tx0_refl only_refl)

lemma flag_and: "flag (x AND y) f \<Longrightarrow> flag x f"
  unfolding flag_def by (metis and_zero_eq and.assoc and.commute)

text \<open>Both queues of a connection are released, in either order.\<close>

lemma release_both:
  assumes "ok s xs" and "p \<in> set (xs ACTIVE)" and "a = rcv_q p \<and> b = snd_q p \<or> a = snd_q p \<and> b = rcv_q p"
  shows "\<exists>c d. queue_free a s = Some (s\<lparr>bufs := c\<rparr>) \<and> queue_free b (s\<lparr>bufs := c\<rparr>) = Some (s\<lparr>bufs := d\<rparr>) \<and> ok (s\<lparr>bufs := d\<rparr>) xs \<and>
    only p s (s\<lparr>bufs := d\<rparr>) \<and> bufs_bytes (rcv_q p) d = [] \<and> bufs_bytes (snd_q p) d = []"
proof -
  have lt: "a < NQ" "b < NQ" "rcv_q p < NQ" "snd_q p < NQ" using ok_active [OF assms(1,2)] assms(3) by auto
  obtain c where c: "queue_free a s = Some (s\<lparr>bufs := c\<rparr>)" "bufs_inv NQ c" "\<forall>i<NQ. bufs_bytes i c = (if i = a then [] else qbytes i s)"
    using queue_free_ok [of s a] assms(1) lt by auto
  obtain d where d: "queue_free b (s\<lparr>bufs := c\<rparr>) = Some ((s\<lparr>bufs := c\<rparr>)\<lparr>bufs := d\<rparr>)" "bufs_inv NQ d"
    "\<forall>i<NQ. bufs_bytes i d = (if i = b then [] else bufs_bytes i c)"
    using queue_free_ok [of "s\<lparr>bufs := c\<rparr>" b] c(2) lt by auto
  have e: "\<forall>i<NQ. i \<noteq> rcv_q p \<longrightarrow> i \<noteq> snd_q p \<longrightarrow> bufs_bytes i d = qbytes i s" "bufs_bytes (rcv_q p) d = []" "bufs_bytes (snd_q p) d = []"
    using c(3) d(3) lt assms(3) by auto
  have "ok (s\<lparr>bufs := d\<rparr>) xs" using ok_bufs [OF assms(1,2) d(2) e(1)] .
  moreover have "only p s (s\<lparr>bufs := d\<rparr>)" using e(1) by (simp add: only_def)
  ultimately show ?thesis using c(1) d(1) e(2,3) by (intro exI [of _ c] exI [of _ d]) simp
qed

text \<open>A step in which nothing is received: the queues stay or are released.\<close>

definition calm :: "nat \<Rightarrow> u8 \<Rightarrow> tcp_system \<Rightarrow> tcp_system \<Rightarrow> bool" where
  "calm p F s t \<longleftrightarrow> only p s t \<and> (seg_edge F)\<^sup>*\<^sup>* (cstate s p) (cstate t p) \<and> rcv_nxt (pcbs t p) = rcv_nxt (pcbs s p) \<and>
    (qbytes (rcv_q p) t = qbytes (rcv_q p) s \<or> gone (rcv_q p) p t) \<and> tx0 p s t"

lemma calm_quiet:
  assumes "quiet p s t"
  shows "calm p F s t"
proof -
  have "cstate t p = cstate s p" using quiet_state [OF assms] .
  then show ?thesis
    using assms only_quietI [OF assms] unfolding calm_def tx0_def by (simp add: quiet_def same_def)
qed

lemma calm_upd:
  assumes "seg_edge F (cstate s p) t" and "\<And>b. t_state (f b) = t" and "\<And>b. rcv_nxt (f b) = rcv_nxt b" and "\<And>b. snd_seq (f b) = snd_seq b"
  shows "calm p F s (upd_pcb p f s)"
  using assms by (simp add: calm_def only_def tx0_def r_into_rtranclp)

lemma calm_end: "calm p F s t \<Longrightarrow> quiet p t u \<Longrightarrow> calm p F s u"
  using only_quiet(2) [of p t u s] quiet_state [of p t u p] unfolding calm_def tx0_def gone_def
  by (auto simp: quiet_def same_def)

lemma calm_release:
  assumes "only p s (s\<lparr>bufs := d\<rparr>)" and "bufs_bytes (rcv_q p) d = []" and "bufs_bytes (snd_q p) d = []"
    and "(seg_edge F)\<^sup>*\<^sup>* (cstate s p) t" and "t \<noteq> TCPS_ESTABLISHED" and "t \<noteq> TCPS_CLOSE_WAIT"
    and "\<And>b. t_state (f b) = t" and "\<And>b. rcv_nxt (f b) = rcv_nxt b" and "\<And>b. snd_seq (f b) = snd_seq b"
  shows "calm p F s (upd_pcb p f (s\<lparr>bufs := d\<rparr>))"
  using assms by (simp add: calm_def only_def tx0_def gone_def)

lemma in_final_quiet: "\<exists>u. in_final p no s = Some (1, u) \<and> quiet p s u"
  by (simp add: in_final_def)

lemma fin_switch_calm:
  assumes "ok s xs" and "p \<in> set (xs ACTIVE)" and F: "flag F TH_FIN"
  shows "\<exists>t. fin_switch p s = Some t \<and> ok t xs \<and> calm p F s t"
proof -
  have stay: "fin_switch p s = Some s \<Longrightarrow> ?thesis" using assms(1) calm_quiet [OF quiet_refl] by blast
  have cw: ?thesis if c: "cstate s p = TCPS_SYN_RCVD \<or> cstate s p = TCPS_ESTABLISHED"
  proof -
    let ?u = "upd_pcb p (\<lambda>b. b\<lparr>t_state := TCPS_CLOSE_WAIT\<rparr>) s"
    have i: "quiet p ?u (in_close_wait p s)" by (simp add: in_close_wait_def Let_def)
    have "ok (in_close_wait p s) xs" using quiet_ok [OF i] ok_upd [OF assms(1,2)] by simp
    moreover have "calm p F s ?u" using c seg_edge.fin [OF F, of "cstate s p"] by (intro calm_upd) auto
    then have "calm p F s (in_close_wait p s)" using calm_end [OF _ i] by blast
    ultimately show ?thesis using c by (auto simp: fin_switch_def)
  qed
  have fw1: ?thesis if c: "cstate s p = TCPS_FIN_WAIT_1"
    using c ok_upd [OF assms(1,2), of "\<lambda>b. b\<lparr>t_state := TCPS_CLOSING\<rparr>"] seg_edge.closing [OF F]
    by (auto simp: fin_switch_def intro!: calm_upd)
  have fw2: ?thesis if c: "cstate s p = TCPS_FIN_WAIT_2"
  proof -
    obtain b d where b: "queue_free (rcv_q p) s = Some (s\<lparr>bufs := b\<rparr>)" "queue_free (snd_q p) (s\<lparr>bufs := b\<rparr>) = Some (s\<lparr>bufs := d\<rparr>)"
      and d: "ok (s\<lparr>bufs := d\<rparr>) xs" "only p s (s\<lparr>bufs := d\<rparr>)" "bufs_bytes (rcv_q p) d = []" "bufs_bytes (snd_q p) d = []"
      using release_both [OF assms(1,2), of "rcv_q p" "snd_q p"] by blast
    let ?u = "upd_pcb p (\<lambda>b. b\<lparr>t_state := TCPS_TIME_WAIT, t_rxmt_tmr := 0, t_conn_tmr := 2 * tcp_msl\<rparr>) (s\<lparr>bufs := d\<rparr>)"
    have "ok ?u xs" using ok_upd [OF d(1) assms(2)] by simp
    moreover have "calm p F s ?u" using c seg_edge.fin_fin [OF F] by (intro calm_release [OF d(2-4)]) auto
    moreover have "fin_switch p s = Some ?u" using b c by (simp add: fin_switch_def)
    ultimately show ?thesis by blast
  qed
  have tw: ?thesis if c: "cstate s p = TCPS_TIME_WAIT"
  proof -
    let ?u = "upd_pcb p (\<lambda>b. b\<lparr>t_conn_tmr := 2 * tcp_msl\<rparr>) s"
    have q: "quiet p s ?u" by (rule quiet_upd) simp
    then show ?thesis using c quiet_ok [OF q assms(1)] calm_quiet [OF q] by (auto simp: fin_switch_def)
  qed
  show ?thesis using stay cw fw1 fw2 tw by (cases "cstate s p") (simp_all add: fin_switch_def)
qed

definition rx0 :: "nat \<Rightarrow> u8 \<Rightarrow> tcp_system \<Rightarrow> tcp_system \<Rightarrow> bool" where
  "rx0 p F s s' \<longleftrightarrow> (\<exists>f. (f \<longrightarrow> flag F TH_FIN) \<and> rcv_nxt (pcbs s' p) = rcv_nxt (pcbs s p) + of_bool f \<and>
    (qbytes (rcv_q p) s' = qbytes (rcv_q p) s \<or> gone (rcv_q p) p s'))"

lemma in_fin_effect:
  assumes "ok s xs" and "p \<in> set (xs ACTIVE)" and "flag fl TH_FIN \<longrightarrow> flag F TH_FIN"
  shows "\<exists>v s'. in_fin p fl no s = Some (v, s') \<and> tcp_ok s' \<and> only p s s' \<and> (seg_edge F)\<^sup>*\<^sup>* (cstate s p) (cstate s' p) \<and>
    rx0 p F s s' \<and> tx0 p s s'"
proof (cases "flag fl TH_FIN")
  case False
  then obtain u where u: "in_fin p fl no s = Some (1, u)" "quiet p s u" using in_final_quiet [of p no s] by (auto simp: in_fin_def)
  have "rx0 p F s u" unfolding rx0_def using u(2) by (intro exI [of _ False]) (simp add: quiet_def same_def)
  then show ?thesis
    using u quiet_ok [OF u(2) assms(1)] calm_quiet [OF u(2), of F] by (auto simp: tcp_ok_def calm_def)
next
  case True
  define b where "b \<longleftrightarrow> \<not> TCPS_HAVERCVDFIN (cstate s p)"
  define s1 where "s1 = (if b then upd_pcb p (\<lambda>c. c\<lparr>rcv_nxt := rcv_nxt c + 1\<rparr>) (set_flag p TF_ACKNOW s) else s)"
  have s1: "same s s1" "\<And>q. q \<noteq> p \<Longrightarrow> pcbs s1 q = pcbs s q" "cstate s1 p = cstate s p" "rcv_nxt (pcbs s1 p) = rcv_nxt (pcbs s p) + of_bool b"
    "snd_seq (pcbs s1 p) = snd_seq (pcbs s p)"
    by (auto simp: s1_def same_def set_flag_def)
  have o1: "ok s1 xs" using assms(1) s1(1)
  proof (rule ok_same)
    show "cstate s1 q = cstate s q" for q using s1(2,3) by (cases "q = p") auto
  qed
  obtain t where t: "fin_switch p s1 = Some t" "ok t xs" "calm p F s1 t" using fin_switch_calm [OF o1 assms(2)] True assms(3) by blast
  obtain u where u: "in_final p no t = Some (1, u)" "quiet p t u" using in_final_quiet by blast
  have c: "calm p F s1 u" using calm_end [OF t(3) u(2)] .
  have "only p s s1" using s1 by (auto simp: only_def same_def)
  then have "only p s u" using c only_trans by (auto simp: calm_def)
  moreover have "rx0 p F s u"
    unfolding rx0_def using c s1(1,4) True assms(3) by (intro exI [of _ b]) (simp add: calm_def same_def)
  moreover have "tx0 p s u" using c s1(1,5) by (simp add: calm_def tx0_def same_def)
  moreover have "in_fin p fl no s = Some (1, u)" using True t(1) u(1) unfolding in_fin_def Let_def s1_def b_def by simp
  ultimately show ?thesis using c s1(3) quiet_ok [OF u(2) t(2)] by (auto simp: tcp_ok_def calm_def)
qed

text \<open>The bytes of the segment are those of the stream at their sequence numbers.\<close>

definition hon :: "mem \<Rightarrow> (u32 \<Rightarrow> u8) \<Rightarrow> seg \<Rightarrow> bool" where
  "hon m S g \<longleftrightarrow> (\<forall>i < nat (ti_len g). m (ti_data g + i) = S (ti_seq g + of_nat i))"

lemma take_load: "k \<le> n \<Longrightarrow> take k (load m a n) = map (\<lambda>i. m (a + i)) [0..<k]"
  by (rule nth_equalityI) (simp_all add: load_def)

lemma in_data_effect:
  assumes "ok s xs" and "p \<in> set (xs ACTIVE)" and "hon m S g"
  shows "\<exists>fl t n. in_data m p g s = Some (fl, t) \<and> ok t xs \<and> only p s t \<and> cstate t p = cstate s p \<and>
    snd_seq (pcbs t p) = snd_seq (pcbs s p) \<and> qbytes (snd_q p) t = qbytes (snd_q p) s \<and>
    rcv_nxt (pcbs t p) = rcv_nxt (pcbs s p) + of_nat n \<and>
    qbytes (rcv_q p) t = qbytes (rcv_q p) s @ map (\<lambda>i. S (rcv_nxt (pcbs s p) + of_nat i)) [0..<n] \<and>
    (flag fl TH_FIN \<longrightarrow> flag (tiflags g) TH_FIN)"
proof (cases "(ti_len g \<noteq> 0 \<or> flag (tiflags g) TH_FIN) \<and> \<not> TCPS_HAVERCVDFIN (cstate s p) \<and>
    ti_seq g = rcv_nxt (pcbs s p) \<and> cstate s p = TCPS_ESTABLISHED")
  case True
  let ?d = "load m (ti_data g) (nat (ti_len g))" and ?s = "set_flag p TF_DELACK s"
  have o: "ok ?s xs" by (rule quiet_ok [OF quiet_simps(1) assms(1)])
  have lt: "rcv_q p < NQ" "snd_q p < NQ" using ok_active [OF assms(1,2)] by auto
  obtain n b where b: "queue_add (rcv_q p) ?d ?s = Some (n, ?s\<lparr>bufs := b\<rparr>)" "n \<le> length ?d" "bufs_inv NQ b"
    "\<forall>i<NQ. bufs_bytes i b = qbytes i ?s @ (if i = rcv_q p then take n ?d else [])"
    using queue_add_ok [of ?s "rcv_q p" ?d] o lt by auto
  have bs: "bufs ?s = bufs s" by (simp add: set_flag_def)
  define u where "u = upd_pcb p (\<lambda>c. c\<lparr>rcv_nxt := rcv_nxt c + of_nat n\<rparr>) (?s\<lparr>bufs := b\<rparr>)"
  define t where "t = os_cond_signal (t_cond (pcbs u p)) u"
  have "ok (?s\<lparr>bufs := b\<rparr>) xs" using ok_bufs [OF o assms(2) b(3)] b(4) by simp
  then have "ok u xs" unfolding u_def by (rule ok_upd_state) simp
  then have "ok t xs" unfolding t_def by (rule quiet_ok [of p, rotated]) simp
  moreover have "take n ?d = map (\<lambda>i. S (rcv_nxt (pcbs s p) + of_nat i)) [0..<n]"
  proof -
    have "n \<le> nat (ti_len g)" using b(2) by (simp add: load_def)
    then show ?thesis using assms(3) True by (simp add: take_load hon_def)
  qed
  moreover have "in_data m p g s = Some (tiflags g AND TH_FIN, t)"
    unfolding in_data_def Let_def t_def u_def using True b(1) by (simp add: TCPS_HAVERCVDFIN_def less_eq_tcps_def)
  moreover have "\<And>q. q \<noteq> p \<Longrightarrow> pcbs t q = pcbs s q" "cstate t p = cstate s p" "snd_seq (pcbs t p) = snd_seq (pcbs s p)"
    "rcv_nxt (pcbs t p) = rcv_nxt (pcbs s p) + of_nat n" "bufs t = b" "routes t = routes s" "ifns t = ifns s"
    by (simp_all add: t_def u_def os_defs set_flag_def)
  moreover from this have "only p s t" using b(4) bs by (simp add: only_def)
  ultimately show ?thesis using b(4) bs lt flag_and by (intro exI [of _ "tiflags g AND TH_FIN"] exI [of _ t] exI [of _ n]) auto
next
  case False
  then obtain fl t where t: "in_data m p g s = Some (fl, t)" "quiet p s t" "flag fl TH_FIN \<longrightarrow> flag (tiflags g) TH_FIN"
  proof (cases "(ti_len g \<noteq> 0 \<or> flag (tiflags g) TH_FIN) \<and> \<not> TCPS_HAVERCVDFIN (cstate s p)")
    case True
    then have "in_data m p g s = Some (tiflags g, set_flag p TF_ACKNOW s)" using False by (auto simp: in_data_def)
    then show ?thesis using that by simp
  next
    case False
    then have "in_data m p g s = Some (tiflags g AND NOT TH_FIN, s)" by (auto simp: in_data_def)
    moreover have "flag (tiflags g AND NOT TH_FIN) TH_FIN \<longrightarrow> flag (tiflags g) TH_FIN" using flag_and by blast
    ultimately show ?thesis using that quiet_refl by blast
  qed
  have "cstate t p = cstate s p" "bufs t = bufs s" "rcv_nxt (pcbs t p) = rcv_nxt (pcbs s p)" "snd_seq (pcbs t p) = snd_seq (pcbs s p)"
    using t(2) by (auto simp: quiet_def same_def)
  then show ?thesis
    using t quiet_ok [OF t(2) assms(1)] only_quietI [OF t(2)] by (intro exI [of _ fl] exI [of _ t] exI [of _ 0]) simp
qed

lemma in_step6_outcome:
  assumes "ok s xs" and "p \<in> set (xs ACTIVE)" and "hon m S g" and "flag (tiflags g) TH_FIN \<longrightarrow> flag F TH_FIN"
  shows "outcome p S F s (in_step6 m p g no s)"
proof -
  define w where "w \<longleftrightarrow> flag (tiflags g) TH_ACK \<and> tiwin g > int (unat (snd_wnd (pcbs s p)))"
  define s1 where "s1 = (if w then upd_pcb p (\<lambda>b. b\<lparr>snd_wnd := of_int (tiwin g)\<rparr>) s else s)"
  have q: "quiet p s s1" by (simp add: s1_def quiet_upd)
  obtain fl t n where t: "in_data m p g s1 = Some (fl, t)" "ok t xs" "only p s1 t" "cstate t p = cstate s1 p"
    "snd_seq (pcbs t p) = snd_seq (pcbs s1 p)" "qbytes (snd_q p) t = qbytes (snd_q p) s1"
    "rcv_nxt (pcbs t p) = rcv_nxt (pcbs s1 p) + of_nat n"
    "qbytes (rcv_q p) t = qbytes (rcv_q p) s1 @ map (\<lambda>i. S (rcv_nxt (pcbs s1 p) + of_nat i)) [0..<n]"
    "flag fl TH_FIN \<Longrightarrow> flag (tiflags g) TH_FIN"
    using in_data_effect [OF quiet_ok [OF q assms(1)] assms(2,3)] by blast
  obtain v u where u: "in_fin p fl (no \<or> w) t = Some (v, u)" "tcp_ok u" "only p t u" "(seg_edge F)\<^sup>*\<^sup>* (cstate t p) (cstate u p)"
    "rx0 p F t u" "tx0 p t u"
    using in_fin_effect [OF t(2) assms(2), of fl F "no \<or> w"] t(9) assms(4) by blast
  obtain f where "f \<longrightarrow> flag F TH_FIN" "rcv_nxt (pcbs u p) = rcv_nxt (pcbs t p) + of_bool f"
    "qbytes (rcv_q p) u = qbytes (rcv_q p) t \<or> gone (rcv_q p) p u"
    using u(5) by (auto simp: rx0_def)
  then have "rx p S F s1 u" unfolding rx_def t(7,8) by (intro exI [of _ n] exI [of _ f]) simp
  moreover have "tx0 p s1 u" using u(6) t(5,6) by (simp add: tx0_def)
  moreover have "in_step6 m p g no s = Some (v, u)"
    unfolding in_step6_def Let_def w_def [symmetric] s1_def [symmetric] using t(1) u(1) by simp
  ultimately have "outcome p S F s1 (in_step6 m p g no s)"
    using only_trans [OF t(3) u(3)] u(2,4) t(4) by (auto simp: outcome_def)
  then show ?thesis by (rule outcome_quiet [OF q])
qed

lemma outcome_calm:
  assumes "calm p F s t" and "qbytes (rcv_q p) t = qbytes (rcv_q p) s" and "qbytes (snd_q p) t = qbytes (snd_q p) s" and "outcome p S F t r"
  shows "outcome p S F s r"
proof -
  obtain v u where u: "r = Some (v, u)" "tcp_ok u" "only p t u" "(seg_edge F)\<^sup>*\<^sup>* (cstate t p) (cstate u p)" "rx p S F t u" "tx0 p t u"
    using assms(4) by (auto simp: outcome_def)
  have c: "only p s t" "(seg_edge F)\<^sup>*\<^sup>* (cstate s p) (cstate t p)" "rcv_nxt (pcbs t p) = rcv_nxt (pcbs s p)" "snd_seq (pcbs t p) = snd_seq (pcbs s p)"
    using assms(1) by (auto simp: calm_def tx0_def)
  have "(seg_edge F)\<^sup>*\<^sup>* (cstate s p) (cstate u p)" using c(2) u(4) by (rule rtranclp_trans)
  moreover have "rx p S F s u" using u(5) assms(2) c(3) by (simp add: rx_def)
  moreover have "tx0 p s u" using u(6) assms(3) c(4) by (simp add: tx0_def)
  ultimately show ?thesis using u(1,2) only_trans [OF c(1) u(3)] by (auto simp: outcome_def)
qed

lemma outcome_calm_end:
  assumes "calm p F s u" and "tcp_ok u"
  shows "outcome p S F s (Some (v, u))"
proof -
  have "rx p S F s u" unfolding rx_def using assms(1) by (intro exI [of _ 0] exI [of _ False]) (simp add: calm_def)
  then show ?thesis using assms by (auto simp: outcome_def calm_def)
qed

lemma fin_masked: "\<not> flag (x AND NOT TH_FIN) TH_FIN"
  by (simp add: flag_def and.assoc)

lemma step6_time_wait:
  assumes "cstate s p = TCPS_TIME_WAIT"
  shows "\<exists>u. in_step6 m p g no s = Some (1, u) \<and> quiet p s u"
proof -
  define w where "w \<longleftrightarrow> flag (tiflags g) TH_ACK \<and> tiwin g > int (unat (snd_wnd (pcbs s p)))"
  define s1 where "s1 = (if w then upd_pcb p (\<lambda>b. b\<lparr>snd_wnd := of_int (tiwin g)\<rparr>) s else s)"
  have q: "quiet p s s1" by (simp add: s1_def quiet_upd)
  have "in_data m p g s1 = Some (tiflags g AND NOT TH_FIN, s1)"
    using quiet_state [OF q, of p] assms unfolding in_data_def by (simp add: TCPS_HAVERCVDFIN_def less_eq_tcps_def)
  then have "in_step6 m p g no s = in_fin p (tiflags g AND NOT TH_FIN) (no \<or> w) s1"
    unfolding in_step6_def Let_def w_def [symmetric] s1_def [symmetric] by simp
  also have "\<dots> = in_final p (no \<or> w) s1" unfolding in_fin_def using fin_masked by simp
  finally show ?thesis using in_final_quiet [of p "no \<or> w" s1] quiet_trans [OF q] by auto
qed

lemma free_outcome:
  assumes "ok s xs" and "p \<in> set (xs ACTIVE)" and "cstate s p \<noteq> TCPS_ESTABLISHED" and "cstate s p \<noteq> TCPS_CLOSE_WAIT"
  shows "outcome p S F s (map_option (\<lambda>(r, s). (1, s)) (tcp_pcb_free p s))"
proof -
  obtain u f where u: "tcp_pcb_free p s = Some (0, u)" "ok u (xs(ACTIVE := remove1 p (xs ACTIVE), FREE := xs FREE @ [p]))"
    "pcbs u = (pcbs s)(p := (pcbs s p)\<lparr>t_flags := f\<rparr>)" "routes u = routes s" "ifns u = ifns s"
    "\<forall>i<NQ. qbytes i u = (if i = rcv_q p \<or> i = snd_q p then [] else qbytes i s)"
    using free_active [OF assms(1,2)] by blast
  have "calm p F s u"
    using u(3-) assms(3,4) ok_active [OF assms(1,2)] by (simp add: calm_def only_def tx0_def gone_def)
  then show ?thesis using outcome_calm_end [of p F s u] u(1,2) by (auto simp: tcp_ok_def)
qed

lemma dropafterack_outcome: "ok s xs \<Longrightarrow> outcome p S F s (dropafterack p g s)"
  unfolding dropafterack_def using quiet_trans [of p s "set_flag p TF_ACKNOW s"] by (auto intro: outcome_stay)

lemma in_acked_state_outcome:
  assumes "ok s xs" and "p \<in> set (xs ACTIVE)" and "hon m S g" and "flag (tiflags g) TH_FIN \<longrightarrow> flag F TH_FIN" and F: "flag F TH_ACK"
  shows "outcome p S F s (in_acked_state m p g fin no s)"
proof -
  have step6: "ok t xs \<Longrightarrow> outcome p S F t (in_step6 m p g no t)" for t
    using in_step6_outcome [of t xs p m S g F no] assms(2-4) by blast
  have fw1: ?thesis if c: "cstate s p = TCPS_FIN_WAIT_1"
  proof (cases fin)
    case True
    let ?u = "upd_pcb p (\<lambda>b. b\<lparr>t_conn_tmr := 4 * tcp_msl, t_state := TCPS_FIN_WAIT_2\<rparr>) s"
    have "calm p F s ?u" using c seg_edge.fin_acked [OF F] by (intro calm_upd) auto
    moreover have "ok ?u xs" using ok_upd [OF assms(1,2)] by simp
    ultimately have "outcome p S F s (in_step6 m p g no ?u)" using step6 by (intro outcome_calm [of p F s ?u]) auto
    then show ?thesis using c True by (simp add: in_acked_state_def)
  next
    case False
    then show ?thesis using c step6 [OF assms(1)] by (simp add: in_acked_state_def)
  qed
  have cl: ?thesis if c: "cstate s p = TCPS_CLOSING" and fin
  proof -
    obtain b d where b: "queue_free (snd_q p) s = Some (s\<lparr>bufs := b\<rparr>)" "queue_free (rcv_q p) (s\<lparr>bufs := b\<rparr>) = Some (s\<lparr>bufs := d\<rparr>)"
      and d: "ok (s\<lparr>bufs := d\<rparr>) xs" "only p s (s\<lparr>bufs := d\<rparr>)" "bufs_bytes (rcv_q p) d = []" "bufs_bytes (snd_q p) d = []"
      using release_both [OF assms(1,2), of "snd_q p" "rcv_q p"] by blast
    let ?u = "upd_pcb p (\<lambda>b. b\<lparr>t_state := TCPS_TIME_WAIT, t_rxmt_tmr := 0, t_conn_tmr := 2 * tcp_msl\<rparr>) (s\<lparr>bufs := d\<rparr>)"
    have o: "ok ?u xs" using ok_upd [OF d(1) assms(2)] by simp
    have cu: "calm p F s ?u" using c seg_edge.closing_acked [OF F] by (intro calm_release [OF d(2-4)]) auto
    obtain t where t: "in_step6 m p g no ?u = Some (1, t)" "quiet p ?u t" using step6_time_wait [of ?u p m g no] by auto
    have "in_acked_state m p g fin no s = Some (1, t)" using c \<open>fin\<close> b t(1) by (simp add: in_acked_state_def)
    then show ?thesis using outcome_calm_end [OF calm_end [OF cu t(2)]] quiet_ok [OF t(2) o] by (auto simp: tcp_ok_def)
  qed
  have la: ?thesis if c: "cstate s p = TCPS_LAST_ACK" and fin
    using free_outcome [OF assms(1,2)] c \<open>fin\<close> by (simp add: in_acked_state_def)
  have tw: ?thesis if c: "cstate s p = TCPS_TIME_WAIT"
  proof -
    let ?u = "upd_pcb p (\<lambda>b. b\<lparr>t_conn_tmr := 2 * tcp_msl\<rparr>) s"
    have q: "quiet p s ?u" by (rule quiet_upd) simp
    then show ?thesis using c outcome_quiet [OF q] dropafterack_outcome [OF quiet_ok [OF q assms(1)]] by (simp add: in_acked_state_def)
  qed
  show ?thesis
    using fw1 cl la tw step6 [OF assms(1)] by (cases "cstate s p"; cases fin) (simp_all add: in_acked_state_def)
qed

section \<open>Acknowledged bytes\<close>

lemma sint_small:
  assumes "unat (w :: u32) < 2 ^ 31"
  shows "sint w = int (unat w)"
proof -
  have u: "int (unat w) = uint w" by simp
  have "unat w < 2147483648" using assms by simp
  then have "uint w < 2147483648" using u by linarith
  then have "signed_take_bit 31 (uint w) = uint w" by (intro signed_take_bit_int_eq_self) (simp_all add: order_trans [OF _ uint_ge_0])
  then have "sint w = uint w" unfolding sint_uint by simp
  then show ?thesis using u by (simp only:)
qed

lemma sint_nonneg:
  assumes "0 \<le> sint (w :: u32)"
  shows "sint w = int (unat w)" and "unat w < 2 ^ 31"
proof -
  have u: "int (unat w) = uint w" by simp
  have l: "sint w < 2147483648" using sint_lt [of w] by simp
  have "uint w = uint (word_of_int (sint w) :: u32)" by (simp only: of_int_sint scast_id)
  also have "\<dots> = sint w mod 2 ^ 32" by (simp only: uint_word_of_int) simp
  also have "\<dots> = sint w" using assms l by (intro mod_pos_pos_trivial) simp_all
  finally show e: "sint w = int (unat w)" using u by (simp only:)
  have "unat w < 2147483648" using l unfolding e by linarith
  then show "unat w < 2 ^ 31" by simp
qed

lemma acked_range:
  fixes a u :: u32 and M :: u16
  assumes "\<not> SEQ_LEQ a u" and "\<not> SEQ_GT a (u + ucast M)"
  shows "sint (a - u) = int (unat (a - u))" and "unat (a - u) \<le> unat M" and "a \<noteq> u"
proof -
  have p: "0 < sint (a - u)" using assms(1) by (simp add: SEQ_LEQ_def)
  show e: "sint (a - u) = int (unat (a - u))" using p by (intro sint_nonneg) simp
  show "a \<noteq> u" using p by auto
  show "unat (a - u) \<le> unat M"
  proof (rule ccontr)
    assume n: "\<not> unat (a - u) \<le> unat M"
    have m: "unat (ucast M :: u32) = unat M"
      by (simp only: unsigned_ucast_eq) (simp add: take_bit_nat_eq_self_iff order.strict_trans [OF unsigned_less])
    have s: "unat (a - u - ucast M) = unat (a - u) - unat M"
      using n m by (subst unat_sub) (simp_all add: word_le_nat_alt)
    have "unat (a - u - ucast M) < 2 ^ 31" unfolding s using sint_nonneg(2) [of "a - u"] p by linarith
    from sint_small [OF this] have "0 < sint (a - u - ucast M)" unfolding s using n by linarith
    then show False using assms(2) by (simp add: SEQ_GT_def diff_diff_eq)
  qed
qed

text \<open>The outcome with acknowledgements.\<close>

definition result :: "nat \<Rightarrow> (u32 \<Rightarrow> u8) \<Rightarrow> u8 \<Rightarrow> u32 \<Rightarrow> nat \<Rightarrow> tcp_system \<Rightarrow> (int \<times> tcp_system) option \<Rightarrow> bool" where
  "result p S F a M s r \<longleftrightarrow> (\<exists>v s'. r = Some (v, s') \<and> tcp_ok s' \<and> only p s s' \<and> (seg_edge F)\<^sup>*\<^sup>* (cstate s p) (cstate s' p) \<and>
    rx p S F s s' \<and> tx p a M s s')"

lemma outcome_result: "outcome p S F s r \<Longrightarrow> result p S F a M s r"
  unfolding outcome_def result_def tx0_def tx_def Let_def by fastforce

lemma result_quiet:
  assumes "quiet p s t" and "result p S F a M t r"
  shows "result p S F a M s r"
proof -
  have "cstate t p = cstate s p" "rcv_nxt (pcbs t p) = rcv_nxt (pcbs s p)" "snd_seq (pcbs t p) = snd_seq (pcbs s p)" "bufs t = bufs s"
    using assms(1) by (auto simp: quiet_def same_def)
  then show ?thesis using assms(2) only_quiet(1) [OF assms(1)] unfolding result_def rx_def tx_def by auto
qed

text \<open>An acknowledgement that is taken: \<open>snd_seq\<close> is now the acknowledgement number.\<close>

definition took :: "nat \<Rightarrow> u32 \<Rightarrow> (int \<times> tcp_system) option \<Rightarrow> bool" where
  "took p a r \<longleftrightarrow> (\<forall>v s'. r = Some (v, s') \<longrightarrow> snd_seq (pcbs s' p) = a)"

lemma in_acked_result:
  assumes "ok s xs" and "p \<in> set (xs ACTIVE)" and "hon m S g" and "flag (tiflags g) TH_FIN \<longrightarrow> flag F TH_FIN" and "flag F TH_ACK"
    and "una = snd_seq (pcbs s p)" and "\<not> SEQ_LEQ (ti_ack g) una" and "\<not> SEQ_GT (ti_ack g) (una + ucast (M :: u16))"
  shows "result p S F (ti_ack g) (unat M) s (in_acked m p g una nxt (una + ucast M) s) \<and>
    took p (ti_ack g) (in_acked m p g una nxt (una + ucast M) s)"
proof -
  define mx where "mx = una + (ucast M :: u32)"
  define d where "d = unat (ti_ack g - una)"
  note ar = acked_range [OF assms(7,8)]
  define s1 where "s1 = (if ti_ack g = mx then upd_pcb p (\<lambda>b. b\<lparr>t_rxmt_tmr := 0, t_count := 0\<rparr>) s
              else upd_pcb p (\<lambda>b. b\<lparr>t_rxmt_tmr := tcp_rxmtintvl ! (unat (t_count b) div 2)\<rparr>) s)"
  have q1: "quiet p s s1" by (simp add: s1_def quiet_upd)
  have o1: "ok s1 xs" by (rule quiet_ok [OF q1 assms(1)])
  have b1: "bufs s1 = bufs s" by (rule quiet_bufs [OF q1])
  have lt: "rcv_q p < NQ" "snd_q p < NQ" using ok_active [OF assms(1,2)] by auto
  define big where "big \<longleftrightarrow> sint (ti_ack g - una) > int (queue_len (snd_q p) s1)"
  define k where "k = (if big then queue_len (snd_q p) s1 else nat (sint (ti_ack g - una)))"
  obtain b where b: "queue_trim (snd_q p) k s1 = Some (s1\<lparr>bufs := b\<rparr>)" "bufs_inv NQ b"
    "\<forall>i<NQ. bufs_bytes i b = (if i = snd_q p then drop k (qbytes i s1) else qbytes i s1)"
    using queue_trim_ok [of s1 "snd_q p" k] o1 lt by auto
  have kd: "drop k (qbytes (snd_q p) s1) = drop d (qbytes (snd_q p) s)"
  proof -
    have l: "queue_len (snd_q p) s1 = length (qbytes (snd_q p) s1)" using queue_len_eq [of s1 "snd_q p"] o1 lt by simp
    have "k = (if length (qbytes (snd_q p) s1) < d then length (qbytes (snd_q p) s1) else d)"
      unfolding k_def big_def ar(1) l d_def by (simp only: of_nat_less_iff nat_int)
    then show ?thesis using b1 by simp
  qed
  define s2 where "s2 = os_cond_broadcast (t_cond (pcbs s1 p)) (s1\<lparr>bufs := b\<rparr>)"
  define nxt' where "nxt' = (if SEQ_LT nxt (ti_ack g) then ti_ack g else nxt)"
  define s3 where "s3 = upd_pcb p (\<lambda>b. b\<lparr>snd_seq := ti_ack g, snd_off := ucast (nxt' - ti_ack g), snd_max := ucast (mx - ti_ack g)\<rparr>) s2"
  have e: "in_acked m p g una nxt mx s = in_acked_state m p g big (ti_ack g = mx) s3"
    unfolding in_acked_def Let_def s1_def [symmetric] big_def [symmetric] k_def [symmetric] b(1)
    by (simp add: s2_def s3_def nxt'_def)
  have "ok (s1\<lparr>bufs := b\<rparr>) xs" using ok_bufs [OF o1 assms(2) b(2)] b(3) by simp
  then have "ok s2 xs" unfolding s2_def by (rule quiet_ok [of p, rotated]) simp
  then have o3: "ok s3 xs" unfolding s3_def by (rule ok_upd_state) simp
  have f3: "only p s s3" "cstate s3 p = cstate s p" "rcv_nxt (pcbs s3 p) = rcv_nxt (pcbs s p)" "snd_seq (pcbs s3 p) = ti_ack g"
    "qbytes (rcv_q p) s3 = qbytes (rcv_q p) s" "qbytes (snd_q p) s3 = drop d (qbytes (snd_q p) s)"
    using b(3) b1 q1 kd lt by (auto simp: s3_def s2_def os_defs only_def quiet_def same_def)
  obtain v u where u: "in_acked_state m p g big (ti_ack g = mx) s3 = Some (v, u)" "tcp_ok u" "only p s3 u"
    "(seg_edge F)\<^sup>*\<^sup>* (cstate s3 p) (cstate u p)" "rx p S F s3 u" "tx0 p s3 u"
    using in_acked_state_outcome [OF o3 assms(2-5), of big "ti_ack g = mx"] by (auto simp: outcome_def)
  have "rx p S F s u" using u(5) f3 by (simp add: rx_def)
  moreover have "tx p (ti_ack g) (unat M) s u" using u(6) f3 ar(2) assms(6) by (simp add: tx_def tx0_def d_def)
  moreover have "took p (ti_ack g) (in_acked m p g una nxt mx s)" using u(1,6) f3(4) unfolding took_def e tx0_def by simp
  ultimately show ?thesis
    using u(1-4) f3(2) only_trans [OF f3(1) u(3)] e unfolding result_def mx_def by simp
qed

lemma result_calm:
  assumes "calm p F s t" and "qbytes (rcv_q p) t = qbytes (rcv_q p) s" and "qbytes (snd_q p) t = qbytes (snd_q p) s" and "result p S F a M t r"
  shows "result p S F a M s r"
proof -
  obtain v u where u: "r = Some (v, u)" "tcp_ok u" "only p t u" "(seg_edge F)\<^sup>*\<^sup>* (cstate t p) (cstate u p)" "rx p S F t u" "tx p a M t u"
    using assms(4) by (auto simp: result_def)
  have c: "only p s t" "(seg_edge F)\<^sup>*\<^sup>* (cstate s p) (cstate t p)" "rcv_nxt (pcbs t p) = rcv_nxt (pcbs s p)" "snd_seq (pcbs t p) = snd_seq (pcbs s p)"
    using assms(1) by (auto simp: calm_def tx0_def)
  have "(seg_edge F)\<^sup>*\<^sup>* (cstate s p) (cstate u p)" using c(2) u(4) by (rule rtranclp_trans)
  moreover have "rx p S F s u" using u(5) assms(2) c(3) by (simp add: rx_def)
  moreover have "tx p a M s u" using u(6) assms(3) c(4) by (simp add: tx_def)
  ultimately show ?thesis using u(1,2) only_trans [OF c(1) u(3)] by (auto simp: result_def)
qed

section \<open>The parts of the handler\<close>

lemma quiet_respond: "quiet p s (tcp_respond m iph th a q f s)"
  by (simp add: tcp_respond_def Let_def quiet_def same_def split: option.split)

lemma dropwithreset_quiet: "\<exists>u. dropwithreset m iph th g s = Some (1, u) \<and> quiet p s u"
  unfolding dropwithreset_def Let_def using quiet_respond by auto

lemma dropwithreset_outcome: "ok s xs \<Longrightarrow> outcome p S F s (dropwithreset m iph th g s)"
  using dropwithreset_quiet [of m iph th g s p] outcome_stay by metis

lemma in_ack_result:
  assumes "ok s xs" and "p \<in> set (xs ACTIVE)" and "hon m S g" and "flag (tiflags g) TH_FIN \<longrightarrow> flag F TH_FIN" and "flag F TH_ACK"
    and "una = snd_seq (pcbs s p)"
  shows "result p S F (ti_ack g) (unat M) s (in_ack m iph th p g una nxt (una + ucast (M :: u16)) s)"
proof -
  define mx where "mx = una + (ucast M :: u32)"
  have go: "result p S F (ti_ack g) (unat M) t (in_ack_range m p g una nxt mx t)"
    if t: "ok t xs" "una = snd_seq (pcbs t p)" for t
    using in_step6_outcome [OF t(1) assms(2-4), of False] dropafterack_outcome [OF t(1), of p S F g]
      in_acked_result [OF t(1) assms(2-5) t(2), of M nxt] outcome_result unfolding mx_def in_ack_range_def by auto
  show ?thesis
  proof (cases "cstate s p = TCPS_SYN_RCVD")
    case False
    then show ?thesis using go [OF assms(1,6)] unfolding in_ack_def Let_def mx_def by simp
  next
    case True
    let ?u = "upd_pcb p (\<lambda>b. b\<lparr>t_state := TCPS_ESTABLISHED, snd_off := snd_off b - 1, snd_max := snd_max b - 1\<rparr>) s"
    have "calm p F s ?u" using True seg_edge.syn_rcvd [OF assms(5)] by (intro calm_upd) auto
    moreover have "ok ?u xs" using ok_upd [OF assms(1,2)] by simp
    ultimately have "result p S F (ti_ack g) (unat M) s (in_ack_range m p g una nxt mx ?u)"
      using go [of ?u] assms(6) by (intro result_calm [of p F s ?u]) simp_all
    then show ?thesis
      using True outcome_result [OF dropwithreset_outcome [OF assms(1), of p S F m iph th g], of "ti_ack g" "unat M"]
      unfolding in_ack_def Let_def mx_def by simp
  qed
qed

text \<open>A connection is closed by the peer: its queues are released and its block moves to the closed list.\<close>

lemma closed_ok:
  assumes "core s xs" and "p \<in> set (xs ACTIVE)" and "\<forall>q < NET_TCP_PCB_ACTIVE_MAX. q \<notin> set (xs ACTIVE) - {p} \<longrightarrow> qbytes (rcv_q q) s = [] \<and> qbytes (snd_q q) s = []"
  shows "\<exists>l n. list_move p ACTIVE CLOSED (upd_pcb p (\<lambda>b. b\<lparr>t_state := TCPS_CLOSED\<rparr>) s) =
      Some (0, (upd_pcb p (\<lambda>b. b\<lparr>t_state := TCPS_CLOSED\<rparr>) s)\<lparr>lst := l, nx := n\<rparr>) \<and>
    ok ((upd_pcb p (\<lambda>b. b\<lparr>t_state := TCPS_CLOSED\<rparr>) s)\<lparr>lst := l, nx := n\<rparr>) (xs(ACTIVE := remove1 p (xs ACTIVE), CLOSED := xs CLOSED @ [p]))"
proof -
  have "distinct (xs ACTIVE)" using assms(1) partsD(4) by (auto simp: core_def)
  then show ?thesis
    using core_move [OF assms(1,2), of CLOSED TCPS_CLOSED] assms(3) by (auto simp: ok_def)
qed

lemma in_close_outcome:
  assumes "ok s xs" and "p \<in> set (xs ACTIVE)" and e: "seg_edge F (cstate s p) TCPS_CLOSED"
  shows "outcome p S F s (in_close p s)"
proof -
  obtain b d where b: "queue_free (snd_q p) s = Some (s\<lparr>bufs := b\<rparr>)" "queue_free (rcv_q p) (s\<lparr>bufs := b\<rparr>) = Some (s\<lparr>bufs := d\<rparr>)"
    and d: "ok (s\<lparr>bufs := d\<rparr>) xs" "only p s (s\<lparr>bufs := d\<rparr>)" "bufs_bytes (rcv_q p) d = []" "bufs_bytes (snd_q p) d = []"
    using release_both [OF assms(1,2), of "snd_q p" "rcv_q p"] by blast
  let ?t = "upd_pcb p (\<lambda>b. b\<lparr>t_state := TCPS_CLOSED\<rparr>) (s\<lparr>bufs := d\<rparr>)"
  have "core (s\<lparr>bufs := d\<rparr>) xs" using d(1) by (simp add: ok_def)
  then obtain l n where m: "list_move p ACTIVE CLOSED ?t = Some (0, ?t\<lparr>lst := l, nx := n\<rparr>)"
    "ok (?t\<lparr>lst := l, nx := n\<rparr>) (xs(ACTIVE := remove1 p (xs ACTIVE), CLOSED := xs CLOSED @ [p]))"
    using closed_ok [of "s\<lparr>bufs := d\<rparr>" xs p] assms(2) d by (auto simp: ok_def)
  let ?v = "?t\<lparr>lst := l, nx := n\<rparr>" and ?u = "os_cond_broadcast (t_cond (pcbs s p)) (?t\<lparr>lst := l, nx := n\<rparr>)"
  have "in_close p s = Some (1, ?u)" using b m(1) by (simp add: in_close_def)
  moreover have "calm p F s ?t" using e by (intro calm_release [OF d(2-4)]) auto
  then have "calm p F s ?v" by (simp add: calm_def only_def tx0_def gone_def)
  then have "calm p F s ?u" by (rule calm_end) simp
  moreover have "tcp_ok ?u" using quiet_ok [OF _ m(2), of p ?u] by (auto simp: tcp_ok_def)
  ultimately show ?thesis using outcome_calm_end by metis
qed

lemma in_flags_result:
  assumes "ok s xs" and "p \<in> set (xs ACTIVE)" and "hon m S g \<or> flag (tiflags g) TH_SYN" and "\<forall>f. flag (tiflags g) f \<longrightarrow> flag F f"
    and "una = snd_seq (pcbs s p)"
  shows "result p S F (ti_ack g) (unat M) s (in_flags m iph th p g una nxt (una + ucast (M :: u16)) s)"
proof -
  have fin: "flag (tiflags g) TH_FIN \<longrightarrow> flag F TH_FIN" using assms(4) by blast
  show ?thesis
  proof (cases "flag (tiflags g) TH_RST \<and> cstate s p \<in> {TCPS_SYN_RCVD, TCPS_ESTABLISHED, TCPS_CLOSE_WAIT}")
    case True
    then have "seg_edge F (cstate s p) TCPS_CLOSED" using assms(4) by (intro seg_edge.reset) auto
    then show ?thesis using outcome_result [OF in_close_outcome [OF assms(1,2)]] True by (simp add: in_flags_def)
  next
    case 1: False
    show ?thesis
    proof (cases "flag (tiflags g) TH_RST \<and> cstate s p \<in> {TCPS_FIN_WAIT_1, TCPS_FIN_WAIT_2, TCPS_CLOSING, TCPS_LAST_ACK, TCPS_TIME_WAIT}")
      case True
      then show ?thesis using outcome_result [OF free_outcome [OF assms(1,2)]] by (auto simp: in_flags_def)
    next
      case 2: False
      have "result p S F (ti_ack g) (unat M) s (Some (1, s))" using outcome_result [OF outcome_stay [OF assms(1) quiet_refl]] .
      then show ?thesis
        unfolding in_flags_def if_not_P [OF 1] if_not_P [OF 2]
        using outcome_result [OF dropwithreset_outcome [OF assms(1)]] in_ack_result [OF assms(1,2) _ fin _ assms(5)] assms(3,4) by auto
    qed
  qed
qed

lemma hon_shorter: "hon m S g \<Longrightarrow> n \<le> ti_len g \<Longrightarrow> hon m S (g\<lparr>ti_len := n, tiflags := f\<rparr>)"
  by (simp add: hon_def)

lemma hon_drop:
  assumes "hon m S g" and "0 \<le> k"
  shows "hon m S (g\<lparr>ti_data := nat (int (ti_data g) + k), ti_seq := ti_seq g + of_int k, ti_len := ti_len g - k\<rparr>)"
proof -
  obtain n where k: "k = int n" using assms(2) nonneg_int_cases by blast
  have "m (ti_data g + (n + i)) = S (ti_seq g + of_nat (n + i))" if "i < nat (ti_len g - k)" for i
  proof -
    have "n + i < nat (ti_len g)" using that k by linarith
    then show ?thesis using assms(1) unfolding hon_def by blast
  qed
  then show ?thesis unfolding hon_def k by (simp add: nat_int_add add.assoc)
qed

lemma in_window_result:
  assumes "ok s xs" and "p \<in> set (xs ACTIVE)" and "hon m S g \<or> flag (tiflags g) TH_SYN" and "\<forall>f. flag (tiflags g) f \<longrightarrow> flag F f"
    and "una = snd_seq (pcbs s p)"
  shows "result p S F (ti_ack g) (unat M) s (in_window m iph th p g w una nxt (una + ucast (M :: u16)) s)"
proof -
  define d where "d = sint ((ti_seq g + of_int (ti_len g)) - (rcv_nxt (pcbs s p) + of_int w))"
  define g' where "g' = g\<lparr>ti_len := ti_len g - d, tiflags := tiflags g AND NOT (TH_PSH OR TH_FIN)\<rparr>"
  have syn: "flag (tiflags g AND NOT (TH_PSH OR TH_FIN)) TH_SYN \<longleftrightarrow> flag (tiflags g) TH_SYN"
    by (simp add: flag_def and.assoc)
  have cut: "result p S F (ti_ack g) (unat M) t (in_flags m iph th p g' una nxt (una + ucast M) t)"
    if "ok t xs" "una = snd_seq (pcbs t p)" "0 < d" for t
    using in_flags_result [of t xs p m S g' F una M] that assms(2,3,4) hon_shorter [of m S g "ti_len g - d"] syn flag_and
    by (fastforce simp: g'_def)
  have q: "quiet p s (set_flag p TF_ACKNOW s)" by simp
  have full: "result p S F (ti_ack g) (unat M) s (in_flags m iph th p g' una nxt (una + ucast M) (set_flag p TF_ACKNOW s))" if "0 < d"
    using result_quiet [OF q cut [OF quiet_ok [OF q assms(1)] _ that]] assms(5) by simp
  show ?thesis
    unfolding in_window_def Let_def d_def [symmetric] g'_def [symmetric]
    using cut [OF assms(1,5)] full in_flags_result [OF assms] outcome_result [OF dropwithreset_outcome [OF assms(1)]]
      outcome_result [OF dropafterack_outcome [OF assms(1)]] by auto
qed

lemma in_trim_result:
  assumes "ok s xs" and "p \<in> set (xs ACTIVE)" and "\<forall>f. flag (tiflags g) f \<longrightarrow> flag F f" and "una = snd_seq (pcbs s p)"
    and "hon m S (if flag (tiflags g) TH_SYN then g\<lparr>ti_seq := ti_seq g + 1\<rparr> else g)"
  shows "result p S F (ti_ack g) (unat M) s (in_trim m iph th p g w una nxt (una + ucast (M :: u16)) s)"
proof (cases "sint (rcv_nxt (pcbs s p) - ti_seq g) > 0")
  case False
  then show ?thesis
    using in_window_result [OF assms(1,2) _ assms(3,4)] assms(5) by (auto simp: in_trim_def split: if_splits)
next
  case True
  define d where "d = sint (rcv_nxt (pcbs s p) - ti_seq g)"
  define syn where "syn \<longleftrightarrow> flag (tiflags g) TH_SYN"
  define g1 where "g1 = (if syn then g\<lparr>tiflags := tiflags g AND NOT TH_SYN, ti_seq := ti_seq g + 1\<rparr> else g)"
  define d1 where "d1 = (if syn then d - 1 else d)"
  define cut where "cut \<longleftrightarrow> d1 > ti_len g1 \<or> d1 = ti_len g1 \<and> \<not> flag (tiflags g1) TH_FIN"
  define g2 where "g2 = (if cut then g1\<lparr>tiflags := tiflags g1 AND NOT TH_FIN\<rparr> else g1)"
  define d2 where "d2 = (if cut then ti_len g1 else d1)"
  define s2 where "s2 = (if cut then set_flag p TF_ACKNOW s else s)"
  define g3 where "g3 = g2\<lparr>ti_data := nat (int (ti_data g2) + d2), ti_seq := ti_seq g2 + of_int d2, ti_len := ti_len g2 - d2\<rparr>"
  have e: "in_trim m iph th p g w una nxt (una + ucast M) s = in_window m iph th p g3 w una nxt (una + ucast M) s2"
    using True unfolding in_trim_def d_def [symmetric] by (simp add: Let_def g3_def g2_def d2_def s2_def cut_def d1_def g1_def syn_def)
  have q: "quiet p s s2" by (simp add: s2_def)
  have h1: "hon m S g1" using assms(5) by (cases syn) (simp_all add: g1_def syn_def hon_def)
  have h3: "hon m S g3"
  proof (cases cut)
    case True
    then show ?thesis by (simp add: g3_def g2_def d2_def hon_def)
  next
    case False
    have "0 \<le> d1" using True by (simp add: d1_def d_def)
    then show ?thesis using hon_drop [OF h1, of d1] False by (simp add: g3_def g2_def d2_def)
  qed
  have "\<exists>y. tiflags g1 = tiflags g AND y" by (cases syn) (auto simp: g1_def intro: exI [of _ "- 1"])
  then obtain y where y: "tiflags g1 = tiflags g AND y" by blast
  have "\<exists>y. tiflags g3 = tiflags g AND y" by (cases cut) (auto simp: g3_def g2_def y and.assoc)
  then have f3: "\<forall>f. flag (tiflags g3) f \<longrightarrow> flag F f" using assms(3) flag_and by metis
  have "ti_ack g3 = ti_ack g" by (simp add: g3_def g2_def g1_def)
  moreover have "una = snd_seq (pcbs s2 p)" using q assms(4) by (simp add: quiet_def)
  ultimately have "result p S F (ti_ack g) (unat M) s2 (in_window m iph th p g3 w una nxt (una + ucast M) s2)"
    using in_window_result [OF quiet_ok [OF q assms(1)] assms(2) _ f3, of m S una M iph th w nxt] h3 by simp
  then show ?thesis unfolding e by (rule result_quiet [OF q])
qed

section \<open>Which acknowledgements are taken\<close>

text \<open>The acknowledgement is for something that was sent and not acknowledged yet.\<close>

definition new_ack :: "u32 \<Rightarrow> u32 \<Rightarrow> u16 \<Rightarrow> bool" where
  "new_ack a una M \<longleftrightarrow> 0 < unat (a - una) \<and> unat (a - una) \<le> unat M"

lemma sint_neg_small:
  assumes "unat (w :: u32) < 2 ^ 31"
  shows "sint (- w) = - int (unat w)"
proof -
  have "unat w < 2147483648" using assms by simp
  then have "- 2147483648 \<le> - int (unat w)" "- int (unat w) < 2147483648" by linarith+
  then have "signed_take_bit 31 (- int (unat w)) = - int (unat w)" by (intro signed_take_bit_int_eq_self) simp_all
  moreover have "sint (of_int (- int (unat w)) :: u32) = signed_take_bit 31 (- int (unat w))"
    by (simp only: signed_of_int) simp
  moreover have "of_int (- int (unat w)) = - w" by simp
  ultimately show ?thesis by (simp only:)
qed

lemma new_ack_seq:
  assumes "new_ack a una M"
  shows "\<not> SEQ_LEQ a una" "\<not> SEQ_GT a (una + ucast M)" "\<not> SEQ_GT una a"
proof -
  have M: "unat M < 65536" using unsigned_less [of M, where ?'a = nat] by simp
  have l: "unat (a - una) < 2 ^ 31" using assms M unfolding new_ack_def by simp
  have e: "sint (a - una) = int (unat (a - una))" by (rule sint_small [OF l])
  then have p: "0 < sint (a - una)" using assms by (simp only: new_ack_def of_nat_0_less_iff)
  then show "\<not> SEQ_LEQ a una" by (simp add: SEQ_LEQ_def)
  have m: "unat (ucast M :: u32) = unat M"
    by (simp only: unsigned_ucast_eq) (simp add: take_bit_nat_eq_self_iff order.strict_trans [OF unsigned_less])
  have s: "unat (una + ucast M - a) = unat M - unat (a - una)"
  proof -
    have "una + ucast M - a = ucast M - (a - una)" by simp
    then show ?thesis using assms m by (simp only: new_ack_def unat_sub word_le_nat_alt)
  qed
  have "unat (una + ucast M - a) < 2 ^ 31" unfolding s using M by simp
  from sint_neg_small [OF this] have "sint (a - (una + ucast M)) = - int (unat (una + ucast M - a))" by (simp only: minus_diff_eq)
  then show "\<not> SEQ_GT a (una + ucast M)" unfolding SEQ_GT_def by linarith
  have "sint (una - a) = - int (unat (a - una))" using sint_neg_small [OF l] by (simp only: minus_diff_eq)
  then show "\<not> SEQ_GT una a" unfolding SEQ_GT_def by linarith
qed

lemma in_ack_took:
  assumes "ok s xs" and "p \<in> set (xs ACTIVE)" and "hon m S g" and "flag (tiflags g) TH_FIN \<longrightarrow> flag F TH_FIN" and "flag F TH_ACK"
    and "una = snd_seq (pcbs s p)" and "cstate s p \<noteq> TCPS_SYN_SENT" and "new_ack (ti_ack g) una M"
  shows "took p (ti_ack g) (in_ack m iph th p g una nxt (una + ucast M) s)"
proof -
  note n = new_ack_seq [OF assms(8)]
  have "list_state ACTIVE (cstate s p)" using assms(1,2) unfolding ok_def core_def by blast
  then have st: "cstate s p \<noteq> TCPS_CLOSED" "cstate s p \<noteq> TCPS_LISTEN" by auto
  have go: "took p (ti_ack g) (in_ack_range m p g una nxt (una + ucast M) t)"
    if t: "ok t xs" "una = snd_seq (pcbs t p)" "cstate t p \<notin> {TCPS_CLOSED, TCPS_LISTEN, TCPS_SYN_SENT}" for t
    using in_acked_result [OF t(1) assms(2-5) t(2) n(1,2), of nxt] t(3) n(1,2) unfolding in_ack_range_def by simp
  show ?thesis
  proof (cases "cstate s p = TCPS_SYN_RCVD")
    case False
    then show ?thesis using go [OF assms(1,6)] st assms(7) unfolding in_ack_def Let_def by simp
  next
    case True
    let ?u = "upd_pcb p (\<lambda>b. b\<lparr>t_state := TCPS_ESTABLISHED, snd_off := snd_off b - 1, snd_max := snd_max b - 1\<rparr>) s"
    have "ok ?u xs" using ok_upd [OF assms(1,2)] by simp
    then show ?thesis using go [of ?u] assms(6) True n unfolding in_ack_def Let_def by simp
  qed
qed

text \<open>A segment the code takes the acknowledgement of: it is an ACK without SYN and RST, no byte of it lies behind the window
  of width \<open>w\<close>, and it carries no data once the peer's data can have ended.\<close>

definition ack_heard :: "nat \<Rightarrow> seg \<Rightarrow> int \<Rightarrow> tcp_system \<Rightarrow> bool" where
  "ack_heard p g w s \<longleftrightarrow> flag (tiflags g) TH_ACK \<and> \<not> flag (tiflags g) TH_SYN \<and> \<not> flag (tiflags g) TH_RST \<and>
    sint ((ti_seq g + of_int (ti_len g)) - (rcv_nxt (pcbs s p) + of_int w)) \<le> 0 \<and> (ti_len g = 0 \<or> cstate s p \<le> TCPS_FIN_WAIT_1)"

lemma in_window_took:
  assumes "ok s xs" and "p \<in> set (xs ACTIVE)" and "hon m S g" and "\<forall>f. flag (tiflags g) f \<longrightarrow> flag F f"
    and "una = snd_seq (pcbs s p)" and "cstate s p \<noteq> TCPS_SYN_SENT" and "new_ack (ti_ack g) una M" and "ack_heard p g w s"
  shows "took p (ti_ack g) (in_window m iph th p g w una nxt (una + ucast M) s)"
proof -
  have "in_window m iph th p g w una nxt (una + ucast M) s = in_ack m iph th p g una nxt (una + ucast M) s"
    using assms(8) unfolding in_window_def in_flags_def ack_heard_def Let_def by (auto simp: not_less)
  then show ?thesis using in_ack_took [OF assms(1-3) _ _ assms(5-7), of F] assms(4,8) by (simp add: ack_heard_def)
qed

lemma in_trim_took:
  assumes "ok s xs" and "p \<in> set (xs ACTIVE)" and "hon m S g" and "\<forall>f. flag (tiflags g) f \<longrightarrow> flag F f"
    and "una = snd_seq (pcbs s p)" and "cstate s p \<noteq> TCPS_SYN_SENT" and "new_ack (ti_ack g) una M" and "ack_heard p g w s"
  shows "took p (ti_ack g) (in_trim m iph th p g w una nxt (una + ucast M) s)"
proof (cases "sint (rcv_nxt (pcbs s p) - ti_seq g) > 0")
  case False
  then show ?thesis using in_window_took [OF assms] by (simp add: in_trim_def)
next
  case True
  define d where "d = sint (rcv_nxt (pcbs s p) - ti_seq g)"
  define cut where "cut \<longleftrightarrow> d > ti_len g \<or> d = ti_len g \<and> \<not> flag (tiflags g) TH_FIN"
  define g2 where "g2 = (if cut then g\<lparr>tiflags := tiflags g AND NOT TH_FIN\<rparr> else g)"
  define d2 where "d2 = (if cut then ti_len g else d)"
  define s2 where "s2 = (if cut then set_flag p TF_ACKNOW s else s)"
  define g3 where "g3 = g2\<lparr>ti_data := nat (int (ti_data g2) + d2), ti_seq := ti_seq g2 + of_int d2, ti_len := ti_len g2 - d2\<rparr>"
  have syn: "\<not> flag (tiflags g) TH_SYN" using assms(8) by (simp add: ack_heard_def)
  have e: "in_trim m iph th p g w una nxt (una + ucast M) s = in_window m iph th p g3 w una nxt (una + ucast M) s2"
    using True syn unfolding in_trim_def d_def [symmetric] by (simp add: Let_def g3_def g2_def d2_def s2_def cut_def)
  have q: "quiet p s s2" by (simp add: s2_def)
  have h3: "hon m S g3"
  proof (cases cut)
    case False
    have "0 \<le> d" using True by (simp add: d_def)
    then show ?thesis using hon_drop [OF assms(3), of d] False by (simp add: g3_def g2_def d2_def)
  qed (simp add: g3_def g2_def d2_def hon_def)
  have "\<exists>y. tiflags g3 = tiflags g AND y" by (cases cut) (auto simp: g3_def g2_def intro: exI [of _ "- 1"])
  then have f3: "\<forall>f. flag (tiflags g3) f \<longrightarrow> flag F f" using assms(4) flag_and by metis
  have fl: "flag (tiflags g3) f \<longleftrightarrow> flag (tiflags g) f" if "f = TH_ACK \<or> f = TH_SYN \<or> f = TH_RST" for f
    using that by (auto simp: g3_def g2_def flag_def and.assoc)
  have "ack_heard p g3 w s2"
  proof -
    have "ti_seq g3 + of_int (ti_len g3) = ti_seq g + of_int (ti_len g)" by (simp add: g3_def g2_def)
    moreover have "rcv_nxt (pcbs s2 p) = rcv_nxt (pcbs s p)" "cstate s2 p = cstate s p" using q by (simp_all add: quiet_def)
    moreover have "ti_len g3 = 0" if "ti_len g = 0" using that True by (simp add: g3_def g2_def d2_def cut_def d_def)
    ultimately show ?thesis using assms(8) fl by (auto simp: ack_heard_def)
  qed
  moreover have "ti_ack g3 = ti_ack g" by (simp add: g3_def g2_def)
  moreover have "una = snd_seq (pcbs s2 p)" "cstate s2 p \<noteq> TCPS_SYN_SENT" using q assms(5,6) by (simp_all add: quiet_def)
  ultimately show ?thesis unfolding e using in_window_took [OF quiet_ok [OF q assms(1)] assms(2) h3 f3] assms(7) by simp
qed

end
