(* ===== verification/Net_Tcp_Conn.thy ===== *)
theory Net_Tcp_Conn
  imports Net_Tcp_In
begin

text \<open>
  What \<open>tcp_input\<close> does as a whole: connections that are being opened, header prediction, and the handler with its
  searches, on top of the parts of \<open>Net_Tcp_In\<close>. The properties say that every segment whose options are well formed is handled and leaves the stack
  well formed, that a connection moves only along the edges of \<open>seg_edge\<close>, that the bytes handed to the application are
  the peer's stream in order, and that the bytes dropped from the send queue are those the peer acknowledged.
\<close>

section \<open>Options\<close>

text \<open>The options end with the header: no option is longer than what is left.\<close>

fun opts_ok :: "mem \<Rightarrow> nat \<Rightarrow> nat \<Rightarrow> bool" where
  "opts_ok m p 0 \<longleftrightarrow> True"
| "opts_ok m p (Suc n) \<longleftrightarrow>
    (if m p = 0 then True
     else if m p = 1 then opts_ok m (p + 1) n
     else if unat (m (p + 1)) = 0 then True
     else unat (m (p + 1)) \<le> Suc n \<and> opts_ok m (p + unat (m (p + 1))) (Suc n - unat (m (p + 1))))"

lemma opt_loop_ends: "opts_ok m p n \<Longrightarrow> \<exists>v. opt_loop m syn p (int n) mss = Some v \<and> v \<le> mss"
proof (induction n arbitrary: p mss rule: less_induct)
  case (less n)
  show ?case
  proof (cases n)
    case 0
    then show ?thesis by (subst opt_loop.simps) simp
  next
    case (Suc k)
    define l where "l = unat (m (p + 1))"
    define v where "v = (if m p = 2 \<and> m (p + 1) = 4 \<and> syn
        then let val = 256 * unat (m (p + 2)) + unat (m (p + 3)) in if val < unat mss then of_nat val else mss else mss)"
    have v: "v \<le> mss"
    proof -
      have "of_nat x \<le> mss" if "x < unat mss" for x
        using that by (simp add: word_le_nat_alt unsigned_of_nat order.trans [OF take_bit_nat_less_eq_self])
      then show ?thesis unfolding v_def Let_def by (simp only: split: if_split) blast
    qed
    have nop: ?thesis if "m p = 1" "m p \<noteq> 0"
      using less.IH [of k "p + 1" mss] less.prems that Suc by (subst opt_loop.simps) simp
    have long: ?thesis if "m p \<noteq> 1" "m p \<noteq> 0" "m (p + 1) \<noteq> 0"
    proof -
      have ne: "unat (m (p + 1)) \<noteq> 0" using that(3) by (metis unat_eq_zero)
      have l: "0 < l" "l \<le> Suc k" "opts_ok m (p + l) (Suc k - l)"
        using less.prems that ne unfolding Suc l_def by simp_all
      then obtain w where "opt_loop m syn (p + l) (int (Suc k - l)) v = Some w" "w \<le> v"
        using less.IH [of "Suc k - l" "p + l" v] Suc by auto
      moreover have "int (Suc k - l) = int n - int l" using l(2) Suc by simp
      ultimately show ?thesis
        using that v Suc unfolding l_def v_def by (subst opt_loop.simps) (auto simp del: of_nat_Suc intro: order.trans)
    qed
    show ?thesis
    proof (cases "m p = 0 \<or> m p \<noteq> 1 \<and> m (p + 1) = 0")
      case True
      then show ?thesis using Suc by (subst opt_loop.simps) auto
    qed (use nop long in blast)
  qed
qed

text \<open>An option that is longer than what is left makes the parser run on behind the header until it meets a byte that is zero
  (\<^verbatim>\<open>tcp_in.c:102\<close>). Where there is none it never returns, so the properties below need options that are well formed.\<close>

lemma opt_loop_behind:
  assumes "opt_loop m syn p len mss = Some v" and "len < 0"
  shows "\<exists>q\<ge>p. m q = 0"
proof -
  have "len < 0 \<longrightarrow> (\<exists>q\<ge>p. m q = 0)"
  proof (rule opt_loop.raw_induct [where P = "\<lambda>m syn p len mss v. len < 0 \<longrightarrow> (\<exists>q\<ge>p. m q = 0)", rotated, OF assms(1)], rule impI)
    fix f :: "mem \<Rightarrow> bool \<Rightarrow> nat \<Rightarrow> int \<Rightarrow> u16 \<Rightarrow> u16 option" and m :: mem and syn p mss v and len :: int
    assume h: "\<And>m syn p len mss v. f m syn p len mss = Some v \<Longrightarrow> len < 0 \<longrightarrow> (\<exists>q\<ge>p. m q = 0)"
      and n: "len < 0" and r: "(if len = 0 then Some mss
     else if m p = 0 then Some mss
     else if m p = 1 then f m syn (p + 1) (len - 1) mss
     else if m (p + 1) = 0 then Some mss
     else f m syn (p + unat (m (p + 1))) (len - int (unat (m (p + 1))))
       (if m p = 2 \<and> m (p + 1) = 4 \<and> syn
        then let val = 256 * unat (m (p + 2)) + unat (m (p + 3)) in if val < unat mss then of_nat val else mss
        else mss)) = Some v"
    show "\<exists>q\<ge>p. m q = 0"
    proof (cases "m p = 0 \<or> m (p + 1) = 0")
      case True
      then show ?thesis by (metis le_add1 order_refl)
    next
      case False
      then have z: "len \<noteq> 0" "m p \<noteq> 0" "m (p + 1) \<noteq> 0" using n by auto
      obtain q l x where "f m syn q l x = Some v" "p \<le> q" "l < 0"
      proof (cases "m p = 1")
        case True
        have "f m syn (p + 1) (len - 1) mss = Some v" by (rule r [unfolded if_not_P [OF z(1)] if_not_P [OF z(2)] if_P [OF True]])
        then show ?thesis by (rule that) (use n in simp_all)
      next
        case False
        show ?thesis by (rule that [OF r [unfolded if_not_P [OF z(1)] if_not_P [OF z(2)] if_not_P [OF False] if_not_P [OF z(3)]]]) (use n order.strict_trans2 [OF n, of "uint (m (Suc p))"] in simp_all)
      qed
      then show ?thesis using h order.trans by blast
    qed
  qed
  then show ?thesis using assms(2) by blast
qed

lemma long_option_runs_on:
  assumes "m a \<noteq> 1" and "0 < len" and "len < int (unat (m (a + 1)))" and "\<forall>q\<ge>a. m q \<noteq> 0"
  shows "tcp_parse_options m th p s a len = None"
proof -
  have z: "m a \<noteq> 0" "m (a + 1) \<noteq> 0" using assms(4) by simp_all
  have "opt_loop m (flag (th_flags m th) TH_SYN) a len x = None" for x
  proof (rule ccontr)
    assume "\<not> ?thesis"
    then obtain v where "opt_loop m (flag (th_flags m th) TH_SYN) a len x = Some v" by blast
    then obtain mss' where "opt_loop m (flag (th_flags m th) TH_SYN) (a + unat (m (a + 1))) (len - int (unat (m (a + 1)))) mss' = Some v"
      using assms(1,2) z by (subst (asm) opt_loop.simps) (simp split: if_split_asm)
    from opt_loop_behind [OF this] assms(3,4) show False by (meson add_leD1 diff_less_0_iff_less)
  qed
  then show ?thesis by (simp add: tcp_parse_options_def)
qed
text \<open>The condition on segments: options are parsed when a segment with a SYN opens a connection, and those are well formed.\<close>

definition syn_ok :: "mem \<Rightarrow> nat \<Rightarrow> bool" where
  "syn_ok m th \<longleftrightarrow> (flag (th_flags m th) TH_SYN \<longrightarrow> 5 \<le> th_off m th \<and> opts_ok m (th + 20) (4 * th_off m th - 20))"

lemma parse_options_ok:
  assumes "syn_ok m th" and "flag (th_flags m th) TH_SYN" and "optlen = int (4 * th_off m th) - 20"
  shows "\<exists>v. (if optlen \<noteq> 0 then tcp_parse_options m th p s (th + 20) optlen else Some s) = Some (upd_pcb p (\<lambda>b. b\<lparr>t_maxseg := v\<rparr>) s) \<and>
    v \<le> t_maxseg (pcbs s p)"
proof -
  have o: "5 \<le> th_off m th" "opts_ok m (th + 20) (4 * th_off m th - 20)" using assms(1,2) by (simp_all add: syn_ok_def)
  then have "optlen = int (4 * th_off m th - 20)" using assms(3) by simp
  then obtain v where "opt_loop m True (th + 20) optlen (t_maxseg (pcbs s p)) = Some v" "v \<le> t_maxseg (pcbs s p)"
    using opt_loop_ends [OF o(2)] by metis
  then have "tcp_parse_options m th p s (th + 20) optlen = Some (upd_pcb p (\<lambda>b. b\<lparr>t_maxseg := v\<rparr>) s)" "v \<le> t_maxseg (pcbs s p)"
    using assms(2) by (simp_all add: tcp_parse_options_def)
  moreover have "upd_pcb p (\<lambda>b. b\<lparr>t_maxseg := t_maxseg (pcbs s p)\<rparr>) s = s"
    by (simp add: upd_pcb_def)
  ultimately show ?thesis by (cases "optlen = 0") (auto intro: exI [of _ "t_maxseg (pcbs s p)"])
qed

section \<open>Active open\<close>

text \<open>What every part keeps.\<close>

definition handled :: "nat \<Rightarrow> u8 \<Rightarrow> tcp_system \<Rightarrow> (int \<times> tcp_system) option \<Rightarrow> bool" where
  "handled p F s r \<longleftrightarrow> (\<exists>v s'. r = Some (v, s') \<and> tcp_ok s' \<and> only p s s' \<and> (seg_edge F)\<^sup>*\<^sup>* (cstate s p) (cstate s' p))"

lemma handled_outcome: "outcome p S F s r \<Longrightarrow> handled p F s r"
  by (auto simp: outcome_def handled_def)

lemma handled_result: "result p S F a M s r \<Longrightarrow> handled p F s r"
  by (auto simp: result_def handled_def)

lemma handled_step:
  assumes "only p s t" and "(seg_edge F)\<^sup>*\<^sup>* (cstate s p) (cstate t p)" and "handled p F t r"
  shows "handled p F s r"
  using assms only_trans [OF assms(1)] rtranclp_trans [OF assms(2)] by (auto simp: handled_def)

lemma close_and_reset_handled:
  assumes "ok s xs" and "p \<in> set (xs ACTIVE)" and c: "cstate s p = TCPS_SYN_SENT"
  shows "handled p F s (close_and_reset m iph th p g s) \<and>
    (\<forall>v s'. close_and_reset m iph th p g s = Some (v, s') \<longrightarrow> cstate s' p = TCPS_CLOSED)"
proof -
  let ?t = "upd_pcb p (\<lambda>b. b\<lparr>t_state := TCPS_CLOSED\<rparr>) s" and ?ys = "xs(ACTIVE := remove1 p (xs ACTIVE), CLOSED := xs CLOSED @ [p])"
  have "core s xs" using assms(1) by (simp add: ok_def)
  obtain l n where m: "list_move p ACTIVE CLOSED ?t = Some (0, ?t\<lparr>lst := l, nx := n\<rparr>)" "core (?t\<lparr>lst := l, nx := n\<rparr>) ?ys"
    using core_move [OF \<open>core s xs\<close> assms(2), of CLOSED TCPS_CLOSED] by auto
  let ?v = "?t\<lparr>lst := l, nx := n\<rparr>"
  have lt: "rcv_q p < NQ" "snd_q p < NQ" using ok_active [OF assms(1,2)] by auto
  obtain b where b: "queue_free (snd_q p) ?v = Some (?v\<lparr>bufs := b\<rparr>)" "bufs_inv NQ b"
    "\<forall>i<NQ. bufs_bytes i b = (if i = snd_q p then [] else qbytes i s)"
    using queue_free_ok [of ?v "snd_q p"] assms(1) lt by auto
  obtain d where d: "queue_free (rcv_q p) (?v\<lparr>bufs := b\<rparr>) = Some (?v\<lparr>bufs := d\<rparr>)" "bufs_inv NQ d"
    "\<forall>i<NQ. bufs_bytes i d = (if i = rcv_q p then [] else bufs_bytes i b)"
    using queue_free_ok [of "?v\<lparr>bufs := b\<rparr>" "rcv_q p"] b(2) lt by auto
  have dist: "distinct (xs ACTIVE)" using \<open>core s xs\<close> partsD(4) by (auto simp: core_def)
  have q: "\<forall>i<NQ. bufs_bytes i d = (if i = rcv_q p \<or> i = snd_q p then [] else qbytes i s)" using b(3) d(3) by simp
  have "core (?v\<lparr>bufs := d\<rparr>) ?ys" using m(2) d(2) by (simp add: core_def parts_def)
  then have o: "ok (?v\<lparr>bufs := d\<rparr>) ?ys"
    using assms(1) dist q lt unfolding ok_def by (auto 0 3)
  define u where "u = os_cond_broadcast (t_cond (pcbs s p)) (?v\<lparr>bufs := d\<rparr>)"
  have qu: "quiet p (?v\<lparr>bufs := d\<rparr>) u" by (simp add: u_def)
  obtain w where w: "dropwithreset m iph th g u = Some (1, w)" "quiet p u w" using dropwithreset_quiet by blast
  have qw: "quiet p (?v\<lparr>bufs := d\<rparr>) w" using quiet_trans [OF qu w(2)] .
  have "close_and_reset m iph th p g s = Some (1, w)"
    using m(1) b(1) d(1) w(1) by (simp add: close_and_reset_def u_def)
  moreover have "only p s (?v\<lparr>bufs := d\<rparr>)" using q by (simp add: only_def)
  moreover have "cstate w p = TCPS_CLOSED" using quiet_state [OF qw, of p] by simp
  ultimately show ?thesis
    using only_quiet(2) [OF qw] quiet_ok [OF qw o] c seg_edge.refused
    by (auto simp: handled_def tcp_ok_def intro!: r_into_rtranclp)
qed

text \<open>The answer to our SYN: the sequence numbers are synchronised, and no data moves.\<close>

definition opened :: "nat \<Rightarrow> u8 \<Rightarrow> seg \<Rightarrow> tcp_system \<Rightarrow> tcp_system \<Rightarrow> bool" where
  "opened p F g s s' \<longleftrightarrow> snd_seq (pcbs s' p) = snd_seq (pcbs s p) + 1 \<and> snd_seq (pcbs s' p) = ti_ack g \<and>
    (\<exists>f. (f \<longrightarrow> flag F TH_FIN) \<and> rcv_nxt (pcbs s' p) = ti_seq g + 1 + of_bool f) \<and>
    qbytes (rcv_q p) s' = qbytes (rcv_q p) s \<and> qbytes (snd_q p) s' = qbytes (snd_q p) s"

lemma established_edges: "(seg_edge F)\<^sup>*\<^sup>* TCPS_ESTABLISHED t \<Longrightarrow> t = TCPS_ESTABLISHED \<or> t = TCPS_CLOSE_WAIT \<or> t = TCPS_CLOSED"
  by (induction rule: rtranclp_induct) (auto elim: seg_edge.cases)

text \<open>A segment without data delivers nothing, whatever the stream is.\<close>

lemma rx_any:
  assumes "\<And>S. rx p S F s s'" and "cstate s' p = TCPS_ESTABLISHED \<or> cstate s' p = TCPS_CLOSE_WAIT"
  shows "\<exists>f. (f \<longrightarrow> flag F TH_FIN) \<and> rcv_nxt (pcbs s' p) = rcv_nxt (pcbs s p) + of_bool f \<and> qbytes (rcv_q p) s' = qbytes (rcv_q p) s"
proof -
  have r: "\<exists>n f. (f \<longrightarrow> flag F TH_FIN) \<and> rcv_nxt (pcbs s' p) = rcv_nxt (pcbs s p) + of_nat n + of_bool f \<and>
      qbytes (rcv_q p) s' = qbytes (rcv_q p) s @ replicate n c" for c
  proof -
    have "\<not> gone (rcv_q p) p s'" using assms(2) by (auto simp: gone_def)
    then show ?thesis using assms(1) [of "\<lambda>_. c"] unfolding rx_def map_replicate_const by (simp only: length_upt diff_zero) blast
  qed
  obtain n f where n: "f \<longrightarrow> flag F TH_FIN" "rcv_nxt (pcbs s' p) = rcv_nxt (pcbs s p) + of_nat n + of_bool f"
    "qbytes (rcv_q p) s' = qbytes (rcv_q p) s @ replicate n 0" using r [of 0] by blast
  obtain k where "qbytes (rcv_q p) s' = qbytes (rcv_q p) s @ replicate k 1" using r [of 1] by blast
  then have "replicate n 0 = replicate k (1 :: u8)" using n(3) by simp
  then have "n = 0" by (cases n; cases k) auto
  then show ?thesis using n by (intro exI [of _ f]) simp
qed

lemma outcomeD:
  "outcome p S F s (Some (v, u)) \<Longrightarrow> tcp_ok u \<and> only p s u \<and> (seg_edge F)\<^sup>*\<^sup>* (cstate s p) (cstate u p) \<and> rx p S F s u \<and> tx0 p s u"
  unfolding outcome_def by blast

lemma list_move_pcbs: "list_move p a b s = Some (r, u) \<Longrightarrow> pcbs u = pcbs s"
  by (auto simp: list_move_def)

lemma in_close_closed: "in_close p s = Some (v, u) \<Longrightarrow> cstate u p = TCPS_CLOSED"
  unfolding in_close_def bind_eq_Some_conv by (auto dest!: list_move_pcbs simp: os_defs)

lemma in_syn_sent_handled:
  assumes "ok s xs" and "p \<in> set (xs ACTIVE)" and c: "cstate s p = TCPS_SYN_SENT" and "\<forall>f. flag (tiflags g) f \<longleftrightarrow> flag F f"
    and "F = th_flags m th" and "syn_ok m th" and "optlen = int (4 * th_off m th) - 20" and "0 \<le> w"
  shows "handled p F s (in_syn_sent m iph th p g optlen w s) \<and>
    (\<forall>v s'. in_syn_sent m iph th p g optlen w s = Some (v, s') \<longrightarrow> cstate s' p \<noteq> TCPS_CLOSED \<longrightarrow> opened p F g s s')"
proof -
  let ?s1 = "upd_pcb p (\<lambda>b. b\<lparr>snd_seq := snd_seq b + 1\<rparr>) s"
  have o1: "ok ?s1 xs" using assms(1) by (rule ok_upd_state) simp
  have p1: "only p s ?s1" by (simp add: only_def)
  have rst: ?thesis if "flag (tiflags g) TH_RST"
  proof -
    have "\<And>S. outcome p S F s (in_close p s)" using in_close_outcome [OF assms(1,2)] c seg_edge.refused by metis
    then have "handled p F s (in_close p s)" using handled_outcome by blast
    then show ?thesis using that in_close_closed unfolding in_syn_sent_def by (simp only: if_True) blast
  qed
  have bad: ?thesis if "\<not> flag (tiflags g) TH_RST" "\<not> flag (tiflags g) TH_SYN \<or> \<not> flag (tiflags g) TH_ACK \<or> ti_len g \<noteq> 0"
    using that close_and_reset_handled [OF assms(1,2) c] by (auto simp: in_syn_sent_def)
  have nak: ?thesis if "\<not> flag (tiflags g) TH_RST" "flag (tiflags g) TH_SYN" "flag (tiflags g) TH_ACK" "ti_len g = 0"
      "snd_seq (pcbs s p) + 1 \<noteq> ti_ack g"
  proof -
    have e: "in_syn_sent m iph th p g optlen w s = close_and_reset m iph th p g ?s1"
      using that by (simp add: in_syn_sent_def Let_def)
    have "cstate ?s1 p = TCPS_SYN_SENT" using c by simp
    note cr = close_and_reset_handled [OF o1 assms(2) this, of F m iph th g]
    have "cstate ?s1 p = cstate s p" by simp
    then have "(seg_edge F)\<^sup>*\<^sup>* (cstate s p) (cstate ?s1 p)" by (simp only: rtranclp.rtrancl_refl)
    from handled_step [OF p1 this conjunct1 [OF cr]] show ?thesis
      unfolding e by (rule conjI) (use cr in metis)
  qed
  have ack: ?thesis if t: "\<not> flag (tiflags g) TH_RST" "flag (tiflags g) TH_SYN" "flag (tiflags g) TH_ACK" "ti_len g = 0"
      "snd_seq (pcbs s p) + 1 = ti_ack g"
  proof -
    let ?s2 = "upd_pcb p (\<lambda>b. b\<lparr>snd_off := snd_off b - 1, snd_max := snd_max b - 1\<rparr>) ?s1"
    have syn: "flag (th_flags m th) TH_SYN" using t(2) assms(4,5) by simp
    obtain x where x: "(if optlen \<noteq> 0 then tcp_parse_options m th p ?s2 (th + 20) optlen else Some ?s2) = Some (upd_pcb p (\<lambda>b. b\<lparr>t_maxseg := x\<rparr>) ?s2)"
      using parse_options_ok [OF assms(6) syn assms(7), of p ?s2] by (elim exE conjE)
    let ?s3 = "upd_pcb p (\<lambda>b. b\<lparr>t_maxseg := x\<rparr>) ?s2" and ?g = "g\<lparr>ti_seq := ti_seq g + 1\<rparr>"
    let ?s4 = "upd_pcb p (\<lambda>b. b\<lparr>rcv_nxt := ti_seq g + 1, snd_wnd := ntohs (th_win m th), t_state := TCPS_ESTABLISHED\<rparr>) ?s3"
    define u where "u = os_cond_broadcast (t_cond (pcbs (set_flag p TF_ACKNOW ?s4) p)) (set_flag p TF_ACKNOW ?s4)"
    have qu: "quiet p ?s4 u" unfolding u_def by (rule quiet_trans [of p _ "set_flag p TF_ACKNOW ?s4"]) simp_all
    have "ok ?s3 xs" using assms(1) by (simp add: ok_upd_state)
    then have ou: "ok u xs" using quiet_ok [OF qu] ok_upd [of ?s3 xs p] assms(2) by simp
    have e: "in_syn_sent m iph th p g optlen w s = in_step6 m p ?g False u"
      using t x assms(8) unfolding in_syn_sent_def u_def Let_def by simp
    have fin: "flag (tiflags ?g) TH_FIN \<longrightarrow> flag F TH_FIN" using assms(4) by simp
    have oc: "outcome p S F u (in_step6 m p ?g False u)" for S
      using in_step6_outcome [OF ou assms(2) _ fin] t(4) by (simp add: hon_def)
    have f: "cstate u p = TCPS_ESTABLISHED" "rcv_nxt (pcbs u p) = ti_seq g + 1" "snd_seq (pcbs u p) = snd_seq (pcbs s p) + 1" "bufs u = bufs s"
      using quiet_state [OF qu, of p] qu by (auto simp: quiet_def same_def)
    have "only p s ?s4" by (simp add: only_def)
    then have su: "only p s u" using only_quiet(2) [OF qu] by simp
    have "(seg_edge F)\<^sup>*\<^sup>* (cstate s p) (cstate u p)" using c f(1) seg_edge.syn_sent [of F] t(2,3) assms(4) by (auto intro: r_into_rtranclp)
    then have h: "handled p F s (in_step6 m p ?g False u)" using handled_step [OF su _ handled_outcome [OF oc]] by blast
    have "opened p F g s z" if z: "in_step6 m p ?g False u = Some (v, z)" "cstate z p \<noteq> TCPS_CLOSED" for v z
    proof -
      have z1: "\<And>S. rx p S F u z" "tx0 p u z" "(seg_edge F)\<^sup>*\<^sup>* TCPS_ESTABLISHED (cstate z p)"
        using outcomeD [OF oc [unfolded z(1)]] unfolding f(1) by blast+
      have cz: "cstate z p = TCPS_ESTABLISHED \<or> cstate z p = TCPS_CLOSE_WAIT" using established_edges [OF z1(3)] z(2) by blast
      then have "\<not> gone (snd_q p) p z" by (auto simp: gone_def)
      then have "qbytes (snd_q p) z = qbytes (snd_q p) s" "snd_seq (pcbs z p) = snd_seq (pcbs s p) + 1"
        using z1(2) f(3,4) by (simp_all add: tx0_def)
      then show ?thesis using rx_any [OF z1(1) cz] t(5) unfolding opened_def f(2,4) by (simp only:) blast
    qed
    then show ?thesis using h e by simp
  qed
  show ?thesis using rst bad nak ack by blast
qed

section \<open>Header prediction\<close>

lemma predict_ack_result:
  assumes "ok s xs" and "p \<in> set (xs ACTIVE)" and "una = snd_seq (pcbs s p)"
    and "SEQ_GT (ti_ack g) una" and "SEQ_LEQ (ti_ack g) (una + ucast (M :: u16))"
  shows "result p S F (ti_ack g) (unat M) s (predict_ack p g una nxt (una + ucast M) s) \<and>
    took p (ti_ack g) (predict_ack p g una nxt (una + ucast M) s)"
proof -
  define k where "k = nat (sint (ti_ack g - una))"
  have "\<not> SEQ_LEQ (ti_ack g) una" "\<not> SEQ_GT (ti_ack g) (una + ucast M)" using assms(4,5) by (simp_all add: SEQ_GT_def SEQ_LEQ_def)
  note ar = acked_range [OF this]
  have k: "k = unat (ti_ack g - una)" unfolding k_def ar(1) by (simp only: nat_int)
  have lt: "rcv_q p < NQ" "snd_q p < NQ" using ok_active [OF assms(1,2)] by auto
  obtain b where b: "queue_trim (snd_q p) k s = Some (s\<lparr>bufs := b\<rparr>)" "bufs_inv NQ b"
    "\<forall>i<NQ. bufs_bytes i b = (if i = snd_q p then drop k (qbytes i s) else qbytes i s)"
    using queue_trim_ok [of s "snd_q p" k] assms(1) lt by auto
  define t where "t = upd_pcb p (\<lambda>c. c\<lparr>snd_seq := ti_ack g, snd_off := ucast (nxt - ti_ack g), snd_max := ucast (una + ucast M - ti_ack g)\<rparr>) (s\<lparr>bufs := b\<rparr>)"
  have "ok (s\<lparr>bufs := b\<rparr>) xs" using ok_bufs [OF assms(1,2) b(2)] b(3) by simp
  then have ot: "ok t xs" unfolding t_def by (rule ok_upd_state) simp
  obtain u where u: "predict_ack p g una nxt (una + ucast M) s = Some (1, u)" "quiet p t u"
  proof -
    define t1 where "t1 = (if ti_ack g = una + ucast M then upd_pcb p (\<lambda>b. b\<lparr>t_rxmt_tmr := 0, t_count := 0\<rparr>) t
               else if t_rxmt_tmr (pcbs t p) = 0
               then upd_pcb p (\<lambda>b. b\<lparr>t_rxmt_tmr := tcp_rxmtintvl ! (unat (t_count b) div 2)\<rparr>) t else t)"
    define t2 where "t2 = os_cond_broadcast (t_cond (pcbs t1 p)) t1"
    define t3 where "t3 = (if queue_len (snd_q p) t2 \<noteq> 0 then tcp_output_sched p t2 else t2)"
    have "quiet p t t1" by (simp add: t1_def quiet_upd)
    moreover have "quiet p t1 t2" "quiet p t2 t3" by (simp_all add: t2_def t3_def)
    moreover have "predict_ack p g una nxt (una + ucast M) s = Some (1, t3)"
      unfolding predict_ack_def k_def [symmetric] b(1) bind.bind_lunit Let_def t_def [symmetric] t1_def [symmetric] t2_def [symmetric]
        t3_def [symmetric] ..
    ultimately show ?thesis using that quiet_trans by blast
  qed
  have f: "cstate u p = cstate s p" "rcv_nxt (pcbs u p) = rcv_nxt (pcbs s p)" "snd_seq (pcbs u p) = ti_ack g" "bufs u = b"
    using quiet_state [OF u(2), of p] u(2) by (auto simp: quiet_def same_def t_def)
  have q: "bufs_bytes (rcv_q p) b = qbytes (rcv_q p) s" "bufs_bytes (snd_q p) b = drop k (qbytes (snd_q p) s)" using b(3) lt by simp_all
  have "only p s t" using b(3) by (simp add: only_def t_def)
  then have "only p s u" using only_quiet(2) [OF u(2)] by simp
  moreover have "rx p S F s u" unfolding rx_def f q by (intro exI [of _ 0] exI [of _ False]) simp
  moreover have "tx p (ti_ack g) (unat M) s u" using ar(2) unfolding tx_def f q k assms(3) [symmetric] Let_def by simp
  moreover have "tcp_ok u" using quiet_ok [OF u(2) ot] by (auto simp: tcp_ok_def)
  moreover have "(seg_edge F)\<^sup>*\<^sup>* (cstate s p) (cstate u p)" unfolding f(1) by simp
  ultimately have "result p S F (ti_ack g) (unat M) s (Some (1, u))" unfolding result_def by blast
  then show ?thesis using u(1) f(3) by (simp add: took_def)
qed

lemma predict_data_result:
  assumes "ok s xs" and "p \<in> set (xs ACTIVE)" and "hon m S g" and "ti_seq g = rcv_nxt (pcbs s p)"
  shows "result p S F a M s (predict_data m p g s)"
proof -
  let ?d = "load m (ti_data g) (nat (ti_len g))"
  have lt: "rcv_q p < NQ" "snd_q p < NQ" using ok_active [OF assms(1,2)] by auto
  obtain n b where b: "queue_add (rcv_q p) ?d s = Some (n, s\<lparr>bufs := b\<rparr>)" "n \<le> length ?d" "bufs_inv NQ b"
    "\<forall>i<NQ. bufs_bytes i b = qbytes i s @ (if i = rcv_q p then take n ?d else [])"
    using queue_add_ok [of s "rcv_q p" ?d] assms(1) lt by auto
  define t where "t = upd_pcb p (\<lambda>c. c\<lparr>rcv_nxt := rcv_nxt c + of_nat n\<rparr>) (s\<lparr>bufs := b\<rparr>)"
  have "ok (s\<lparr>bufs := b\<rparr>) xs" using ok_bufs [OF assms(1,2) b(3)] b(4) by simp
  then have ot: "ok t xs" unfolding t_def by (rule ok_upd_state) simp
  define t1 where "t1 = os_cond_broadcast (t_cond (pcbs t p)) t"
  define u where "u = (if int n \<noteq> ti_len g then tcp_output_sched p (set_flag p TF_ACKNOW t1) else set_flag p TF_DELACK t1)"
  have "quiet p t t1" by (simp add: t1_def)
  moreover have "quiet p t1 u" unfolding u_def using quiet_trans [of p t1 "set_flag p TF_ACKNOW t1"] by simp
  ultimately have qu: "quiet p t u" using quiet_trans by blast
  have e: "predict_data m p g s = Some (int n, u)"
    unfolding predict_data_def b(1) bind.bind_lunit Let_def t_def [symmetric] prod.case t1_def [symmetric] u_def [symmetric] ..
  have td: "take n ?d = map (\<lambda>i. S (rcv_nxt (pcbs s p) + of_nat i)) [0..<n]"
  proof -
    have "n \<le> nat (ti_len g)" using b(2) by (simp add: load_def)
    then show ?thesis using assms(3,4) by (simp add: take_load hon_def)
  qed
  have f: "cstate u p = cstate s p" "rcv_nxt (pcbs u p) = rcv_nxt (pcbs s p) + of_nat n" "snd_seq (pcbs u p) = snd_seq (pcbs s p)" "bufs u = b"
    using quiet_state [OF qu, of p] qu by (auto simp: quiet_def same_def t_def)
  have q: "bufs_bytes (rcv_q p) b = qbytes (rcv_q p) s @ take n ?d" "bufs_bytes (snd_q p) b = qbytes (snd_q p) s" using b(4) lt by simp_all
  have "only p s t" using b(4) by (simp add: only_def t_def)
  then have "only p s u" using only_quiet(2) [OF qu] by simp
  moreover have "rx p S F s u" unfolding rx_def f q td by (intro exI [of _ n] exI [of _ False]) simp
  moreover have "tx0 p s u" unfolding tx0_def f q by simp
  moreover have "tcp_ok u" using quiet_ok [OF qu ot] by (auto simp: tcp_ok_def)
  moreover have "(seg_edge F)\<^sup>*\<^sup>* (cstate s p) (cstate u p)" unfolding f(1) by simp
  ultimately have "outcome p S F s (predict_data m p g s)" using e unfolding outcome_def by blast
  then show ?thesis by (rule outcome_result)
qed

lemma predicted_syn: "predicted p g nxt mx s \<Longrightarrow> \<not> flag (tiflags g) TH_SYN"
proof
  assume "predicted p g nxt mx s"
  then have "(tiflags g AND (TH_SYN OR TH_FIN OR TH_RST OR TH_URG OR TH_ACK)) AND TH_SYN = TH_ACK AND TH_SYN" by (simp only: predicted_def)
  then have "tiflags g AND TH_SYN = 0" by (simp add: and.assoc)
  moreover assume "flag (tiflags g) TH_SYN"
  ultimately show False by (simp add: flag_def)
qed

text \<open>The bytes of a segment: after a SYN they start at the next sequence number.\<close>

definition honest :: "mem \<Rightarrow> (u32 \<Rightarrow> u8) \<Rightarrow> seg \<Rightarrow> bool" where
  "honest m S g \<longleftrightarrow> hon m S (if flag (tiflags g) TH_SYN then g\<lparr>ti_seq := ti_seq g + 1\<rparr> else g)"

text \<open>The timer and the idle flag are reset before anything else.\<close>

definition awake :: "nat \<Rightarrow> tcp_system \<Rightarrow> tcp_system" where
  "awake p s = (let s = upd_pcb p (\<lambda>b. b\<lparr>t_conn_tmr := tcp_idle_det_tmo\<rparr>) s
     in if flag (t_flags (pcbs s p)) TF_IDLE then clear_flag p TF_IDLE s else s)"

lemma awake_quiet: "quiet p s (awake p s)"
proof -
  have "quiet p s (upd_pcb p (\<lambda>b. b\<lparr>t_conn_tmr := tcp_idle_det_tmo\<rparr>) s)" by (rule quiet_upd) simp
  then show ?thesis unfolding awake_def Let_def using quiet_trans quiet_simps(2) quiet_refl by (auto split: if_split)
qed

lemma in_active_awake:
  "in_active m iph th p g optlen s =
    (let una = snd_seq (pcbs s p); nxt = una + ucast (snd_off (pcbs s p)); mx = una + ucast (snd_max (pcbs s p)); t = awake p s
     in if predicted p g nxt mx t \<and> ti_len g = 0 \<and> SEQ_GT (ti_ack g) una \<and> SEQ_LEQ (ti_ack g) mx then predict_ack p g una nxt mx t
        else if predicted p g nxt mx t \<and> ti_len g \<noteq> 0 \<and> ti_ack g = una \<and> ti_len g \<le> int tcp_maxrcv - int (queue_len (rcv_q p) t)
        then predict_data m p g t else in_slow m iph th p g optlen una nxt mx t)"
  unfolding in_active_def awake_def Let_def ..

lemma in_active_result:
  assumes "ok s xs" and "p \<in> set (xs ACTIVE)" and "honest m S g" and "\<forall>f. flag (tiflags g) f \<longrightarrow> flag F f" and "cstate s p \<noteq> TCPS_SYN_SENT"
  shows "result p S F (ti_ack g) (unat (snd_max (pcbs s p))) s (in_active m iph th p g optlen s)"
proof -
  define una where "una = snd_seq (pcbs s p)"
  define nxt where "nxt = una + ucast (snd_off (pcbs s p))"
  define mx where "mx = una + (ucast (snd_max (pcbs s p)) :: u32)"
  define t where "t = awake p s"
  have q: "quiet p s t" unfolding t_def by (rule awake_quiet)
  have ot: "ok t xs" by (rule quiet_ok [OF q assms(1)])
  have f: "cstate t p \<noteq> TCPS_SYN_SENT" "una = snd_seq (pcbs t p)" using quiet_state [OF q, of p] q assms(5) by (simp_all add: una_def quiet_def)
  note e = in_active_awake [of m iph th p g optlen s, unfolded Let_def, folded una_def, folded nxt_def mx_def, folded t_def]
  have "result p S F (ti_ack g) (unat (snd_max (pcbs s p))) t (in_active m iph th p g optlen s)"
  proof -
    have "result p S F (ti_ack g) (unat (snd_max (pcbs s p))) t (predict_ack p g una nxt mx t)" if "SEQ_GT (ti_ack g) una" "SEQ_LEQ (ti_ack g) mx"
      using predict_ack_result [OF ot assms(2) f(2)] that unfolding mx_def by blast
    moreover have "result p S F (ti_ack g) (unat (snd_max (pcbs s p))) t (predict_data m p g t)" if "predicted p g nxt mx t"
      using predict_data_result [OF ot assms(2)] assms(3) predicted_syn [OF that] that by (simp add: honest_def predicted_def)
    moreover have "result p S F (ti_ack g) (unat (snd_max (pcbs s p))) t (in_slow m iph th p g optlen una nxt mx t)"
      using in_trim_result [OF ot assms(2,4) f(2), of m S] assms(3) f(1) unfolding in_slow_def Let_def honest_def mx_def by simp
    ultimately show ?thesis unfolding e by (simp only: split: if_split) blast
  qed
  then show ?thesis by (rule result_quiet [OF q])
qed

lemma in_active_took:
  assumes "ok s xs" and "p \<in> set (xs ACTIVE)" and "honest m S g" and "\<forall>f. flag (tiflags g) f \<longrightarrow> flag F f" and "cstate s p \<noteq> TCPS_SYN_SENT"
    and "new_ack (ti_ack g) (snd_seq (pcbs s p)) (snd_max (pcbs s p))"
    and "ack_heard p g (max 0 (int tcp_maxrcv - int (queue_len (rcv_q p) s))) s"
  shows "took p (ti_ack g) (in_active m iph th p g optlen s)"
proof -
  define una where "una = snd_seq (pcbs s p)"
  define nxt where "nxt = una + ucast (snd_off (pcbs s p))"
  define mx where "mx = una + (ucast (snd_max (pcbs s p)) :: u32)"
  define t where "t = awake p s"
  have q: "quiet p s t" unfolding t_def by (rule awake_quiet)
  have ot: "ok t xs" by (rule quiet_ok [OF q assms(1)])
  have f: "cstate t p \<noteq> TCPS_SYN_SENT" "una = snd_seq (pcbs t p)" using quiet_state [OF q, of p] q assms(5) by (simp_all add: una_def quiet_def)
  note e = in_active_awake [of m iph th p g optlen s, unfolded Let_def, folded una_def, folded nxt_def mx_def, folded t_def]
  have ne: "ti_ack g \<noteq> una" using assms(6) by (auto simp: new_ack_def una_def)
  have h: "hon m S g" using assms(3,7) by (simp add: honest_def ack_heard_def)
  define w where "w = int tcp_maxrcv - int (queue_len (rcv_q p) t)"
  have "queue_len (rcv_q p) t = queue_len (rcv_q p) s" using q by (simp add: queue_len_def quiet_def same_def)
  then have "(if w \<le> 0 then 0 else w) = max 0 (int tcp_maxrcv - int (queue_len (rcv_q p) s))" by (auto simp: w_def max_def)
  moreover have "rcv_nxt (pcbs t p) = rcv_nxt (pcbs s p)" "cstate t p = cstate s p" using q by (simp_all add: quiet_def)
  ultimately have a: "ack_heard p g (if w \<le> 0 then 0 else w) t" using assms(7) unfolding ack_heard_def by simp
  have "took p (ti_ack g) (predict_ack p g una nxt mx t)" if "SEQ_GT (ti_ack g) una" "SEQ_LEQ (ti_ack g) mx"
    using predict_ack_result [OF ot assms(2) f(2)] that unfolding mx_def by blast
  moreover have "took p (ti_ack g) (in_slow m iph th p g optlen una nxt mx t)"
    using in_trim_took [OF ot assms(2) h assms(4) f(2,1) _ a] assms(6) f(1) unfolding in_slow_def Let_def mx_def w_def una_def by simp
  ultimately show ?thesis unfolding e using ne by simp
qed

lemma in_active_syn_sent:
  assumes "ok s xs" and "p \<in> set (xs ACTIVE)" and "cstate s p = TCPS_SYN_SENT" and "tiflags g = th_flags m th"
    and "syn_ok m th" and "optlen = int (4 * th_off m th) - 20"
  shows "handled p (th_flags m th) s (in_active m iph th p g optlen s) \<and>
    (\<forall>v s'. in_active m iph th p g optlen s = Some (v, s') \<longrightarrow> cstate s' p \<noteq> TCPS_CLOSED \<longrightarrow> opened p (th_flags m th) g s s')"
proof -
  define t where "t = awake p s"
  have q: "quiet p s t" unfolding t_def by (rule awake_quiet)
  have ot: "ok t xs" by (rule quiet_ok [OF q assms(1)])
  have c: "cstate t p = TCPS_SYN_SENT" using quiet_state [OF q, of p] assms(3) by simp
  have "\<not> predicted p g a b t" for a b using c by (simp add: predicted_def)
  then have e: "in_active m iph th p g optlen s = in_slow m iph th p g optlen (snd_seq (pcbs s p))
      (snd_seq (pcbs s p) + ucast (snd_off (pcbs s p))) (snd_seq (pcbs s p) + ucast (snd_max (pcbs s p))) t"
    unfolding in_active_awake Let_def t_def [symmetric] by simp
  obtain w where w: "0 \<le> w" "in_active m iph th p g optlen s = in_syn_sent m iph th p g optlen w t"
  proof (cases "int tcp_maxrcv - int (queue_len (rcv_q p) t) \<le> 0")
    case True
    then show ?thesis using that [of 0] c unfolding e in_slow_def Let_def by simp
  next
    case False
    then show ?thesis using that [of "int tcp_maxrcv - int (queue_len (rcv_q p) t)"] c unfolding e in_slow_def Let_def by simp
  qed
  have r: "(seg_edge (th_flags m th))\<^sup>*\<^sup>* (cstate s p) (cstate t p)" unfolding c assms(3) by (rule rtranclp.rtrancl_refl)
  have g: "opened p (th_flags m th) g t u \<longleftrightarrow> opened p (th_flags m th) g s u" for u
    using q by (simp add: opened_def quiet_def same_def)
  from in_syn_sent_handled [OF ot assms(2) c _ refl assms(5,6) w(1), of g iph] show ?thesis
    unfolding w(2) g assms(4) using handled_step [OF only_quietI [OF q] r] by blast
qed

section \<open>Passive open\<close>

lemma lookup_loop_ifn: "lookup_loop i p a t = Some q \<Longrightarrow> rt_ifn (t ! q) \<noteq> None"
  by (induction i arbitrary: p) (auto split: if_splits)

text \<open>The slot of the backlog after the one at the head, which wraps at \<open>t_max\<close>.\<close>

definition next_head :: "tcp_pcb \<Rightarrow> nat" where
  "next_head b = (if unat (t_head b) + 1 = unat (t_max b) then 0 else unat (t_head b) + 1)"

text \<open>A new connection: its block carries the addresses and the sequence numbers of the SYN. Of the listener only the backlog
  changes: the block is stored at its head, and the head moves on. Every other block is as it was.\<close>

definition filled :: "nat \<Rightarrow> nat \<Rightarrow> mem \<Rightarrow> nat \<Rightarrow> nat \<Rightarrow> tcp_system \<Rightarrow> tcp_system \<Rightarrow> bool" where
  "filled mux tp m iph th s s' \<longleftrightarrow>
    bufs s' = bufs s \<and> routes s' = routes s \<and> ifns s' = ifns s \<and> iss s' = iss s + 1 \<and>
    (\<forall>q. q \<noteq> tp \<longrightarrow> q \<noteq> mux \<longrightarrow> pcbs s' q = pcbs s q) \<and>
    pcbs s' mux = (pcbs s mux)\<lparr>t_backlog := (t_backlog (pcbs s mux))(unat (t_head (pcbs s mux)) := Some tp),
      t_head := of_nat (next_head (pcbs s mux))\<rparr> \<and>
    cstate s' tp = TCPS_SYN_RCVD \<and> inp_faddr (pcbs s' tp) = saddr m iph \<and> inp_fport (pcbs s' tp) = th_sport m th \<and>
    inp_laddr (pcbs s' tp) = daddr m iph \<and> inp_lport (pcbs s' tp) = th_dport m th \<and>
    rcv_nxt (pcbs s' tp) = ntohl (th_seq m th) + 1 \<and> snd_seq (pcbs s' tp) = push_bit 20 (ucast (iss s + 1)) \<and>
    snd_off (pcbs s' tp) = 0 \<and> snd_max (pcbs s' tp) = 0 \<and> snd_wnd (pcbs s' tp) = ntohs (th_win m th) \<and>
    unat (t_maxseg (pcbs s' tp)) \<le> tcp_maxmss \<and> t_cond (pcbs s' tp) = fst (os_call thinkos_cond_alloc_svc 0 s) \<and>
    t_conn_tmr (pcbs s' tp) = tcp_conn_est_tmo"

text \<open>The whole step: the kernel allocates a condition variable, posts the semaphore of the listener and wakes the output task,
  in this order, and the new block is the last in the output queue, for the SYN that answers.\<close>

definition accepted :: "nat \<Rightarrow> nat \<Rightarrow> mem \<Rightarrow> nat \<Rightarrow> nat \<Rightarrow> tcp_system \<Rightarrow> tcp_system \<Rightarrow> bool" where
  "accepted mux tp m iph th s s' \<longleftrightarrow> filled mux tp m iph th s s' \<and> t_flags (pcbs s' tp) = TF_ACKNOW OR TF_NEEDOUTPUT \<and>
    kern s' = kern (os_cond_signal (out_cond s) (os_sem_post (t_sem (pcbs s mux)) (snd (os_call thinkos_cond_alloc_svc 0 s)))) \<and>
    (length (outq s) < NET_TCP_PCB_ACTIVE_MAX \<longrightarrow> outq s' = outq s @ [Some tp])"

text \<open>Nothing changes but what is sent and, when no block is free, the kernel's condition variables.\<close>

definition unmoved :: "tcp_system \<Rightarrow> tcp_system \<Rightarrow> bool" where
  "unmoved s s' \<longleftrightarrow> same s s' \<and> pcbs s' = pcbs s \<and> outq s' = outq s \<and> iss s' = iss s"

lemma unmoved_refl [simp]: "unmoved s s"
  by (simp add: unmoved_def)

lemma unmoved_trans: "unmoved s t \<Longrightarrow> unmoved t u \<Longrightarrow> unmoved s u"
  by (auto simp: unmoved_def intro: same_trans)

text \<open>The steps of a passive open that only fill in the new block.\<close>

definition fills :: "nat \<Rightarrow> tcp_system \<Rightarrow> tcp_system \<Rightarrow> bool" where
  "fills tp s t \<longleftrightarrow> (\<exists>b. t = s\<lparr>pcbs := (pcbs s)(tp := b)\<rparr> \<and> inp_faddr b = inp_faddr (pcbs s tp) \<and> inp_fport b = inp_fport (pcbs s tp) \<and>
    inp_laddr b = inp_laddr (pcbs s tp) \<and> inp_lport b = inp_lport (pcbs s tp) \<and> t_cond b = t_cond (pcbs s tp))"

lemma fills_upd: "(\<And>b. inp_faddr (f b) = inp_faddr b \<and> inp_fport (f b) = inp_fport b \<and> inp_laddr (f b) = inp_laddr b \<and>
    inp_lport (f b) = inp_lport b \<and> t_cond (f b) = t_cond b) \<Longrightarrow>
    fills tp s (upd_pcb tp f s)"
  unfolding fills_def upd_pcb_def by blast

lemma fills_trans: "fills tp s t \<Longrightarrow> fills tp t u \<Longrightarrow> fills tp s u"
  unfolding fills_def by (elim exE conjE) (simp, blast)

lemma fills_refl: "fills tp s s"
  unfolding fills_def by (rule exI [of _ "pcbs s tp"]) simp

lemma mss_route:
  "\<exists>t. (case route_lookup a (routes s) of
       None \<Rightarrow> Some (upd_pcb tp (\<lambda>b. b\<lparr>t_maxseg := of_nat tcp_defmss\<rparr>) s)
     | Some rt \<Rightarrow> map_option (\<lambda>mtu. upd_pcb tp (\<lambda>b. b\<lparr>t_route := Some rt, t_maxseg := of_int (int mtu - 40)\<rparr>) s) (route_mtu s rt)) = Some t \<and>
    fills tp s t"
proof (cases "route_lookup a (routes s)")
  case None
  then show ?thesis by (simp add: fills_upd)
next
  case (Some rt)
  then obtain i where "rt_ifn (routes s ! rt) = Some i"
    using lookup_loop_ifn [of IP_ROUTE_TABLE_LEN 0 a "routes s" rt] by (auto simp: route_lookup_def)
  then show ?thesis using Some by (simp add: route_mtu_def fills_upd)
qed

lemma mss_cap:
  "\<exists>t. (if unat (t_maxseg (pcbs s tp)) > tcp_maxmss then upd_pcb tp (\<lambda>b. b\<lparr>t_maxseg := of_nat tcp_maxmss\<rparr>) s else s) = t \<and>
    fills tp s t \<and> unat (t_maxseg (pcbs t tp)) \<le> tcp_maxmss"
  by (auto simp: fills_upd fills_refl)

text \<open>The backlog has a free slot.\<close>

definition room :: "tcp_pcb \<Rightarrow> bool" where
  "room b \<longleftrightarrow> unat (t_tail b) \<noteq> next_head b"

lemma os_rest [simp]: "iss (snd (os_call f c s)) = iss s" "out_cond (snd (os_call f c s)) = out_cond s" "out_tp (snd (os_call f c s)) = out_tp s"
  "out_head (snd (os_call f c s)) = out_head s" "out_tail (snd (os_call f c s)) = out_tail s"
  by (simp_all add: os_call_def case_prod_beta)

lemma post_kern: "kern a = kern b \<Longrightarrow> kern (os_sem_post c a) = kern (os_sem_post c b)"
  by (simp add: os_sem_post_def os_call_def case_prod_beta)

lemma passive_open_ok:
  assumes "ok s xs" and "mux \<in> set (xs LISTEN)" and "syn_ok m th" and "flag (th_flags m th) TH_SYN" and "optlen = int (4 * th_off m th) - 20"
  shows "\<exists>r s'. tcp_passive_open mux m iph th optlen s = Some (r, s') \<and>
    (if room (pcbs s mux) \<and> fst (os_call thinkos_cond_alloc_svc 0 s) \<ge> 0 \<and> xs FREE \<noteq> []
     then r = Some (hd (xs FREE)) \<and> ok s' (xs(FREE := tl (xs FREE), ACTIVE := xs ACTIVE @ [hd (xs FREE)])) \<and>
       filled mux (hd (xs FREE)) m iph th s s' \<and> t_flags (pcbs s' (hd (xs FREE))) = TF_ACKNOW \<and> out_cond s' = out_cond s \<and>
       out_tp s' = out_tp s \<and> out_head s' = out_head s \<and> out_tail s' = out_tail s \<and>
       kern s' = kern (os_sem_post (t_sem (pcbs s mux)) (snd (os_call thinkos_cond_alloc_svc 0 s)))
     else r = None \<and> unmoved s s')"
proof -
  define new_head where "new_head = next_head (pcbs s mux)"
  obtain c s1 where c: "os_call thinkos_cond_alloc_svc 0 s = (c, s1)" by fastforce
  have s1: "same s s1" "pcbs s1 = pcbs s" "iss s1 = iss s" "out_cond s1 = out_cond s" "out_tp s1 = out_tp s" "out_head s1 = out_head s"
    "out_tail s1 = out_tail s" using c by (auto simp: same_def os_call_def split: prod.splits)
  have i1: "unmoved s s1" using s1 by (simp add: unmoved_def outq_def)
  have o1: "ok s1 xs" using assms(1) s1(1) by (rule ok_same) (simp add: s1(2))
  show ?thesis
  proof (cases "unat (t_tail (pcbs s mux)) = new_head \<or> c < 0 \<or> xs FREE = []")
    case True
    then show ?thesis
      using c i1 pcb_new_parts [OF o1, of ACTIVE] unfolding tcp_passive_open_def Let_def new_head_def next_head_def room_def
      by (auto split: if_split)
  next
    case False
    then have nf: "unat (t_tail (pcbs s mux)) \<noteq> new_head" "\<not> c < 0" by blast+
    define tp where "tp = hd (xs FREE)"
    define ys where "ys = xs(FREE := tl (xs FREE), ACTIVE := xs ACTIVE @ [tp])"
    obtain l n where n: "tcp_pcb_new ACTIVE s1 = (Some tp, s1\<lparr>lst := l, nx := n, pcbs := (pcbs s1)(tp := zero_pcb\<lparr>t_cond := - 1\<rparr>)\<rparr>)"
      "parts (s1\<lparr>lst := l, nx := n\<rparr>) ys"
      using pcb_new_parts [OF o1, of ACTIVE] False unfolding tp_def ys_def by auto
    define s2 where "s2 = s1\<lparr>lst := l, nx := n, pcbs := (pcbs s1)(tp := zero_pcb\<lparr>t_cond := - 1\<rparr>)\<rparr>"
    define s3 where "s3 = upd_pcb tp (\<lambda>b. b\<lparr>inp_lport := th_dport m th, inp_laddr := daddr m iph, inp_fport := th_sport m th, inp_faddr := saddr m iph, t_cond := c\<rparr>) s2"
    have pt: "parts s xs" using assms(1) by (simp add: ok_def core_def)
    have fr: "tp \<in> set (xs FREE)" using False by (simp add: tp_def)
    then have tp: "tp < NET_TCP_PCB_ACTIVE_MAX" "tp \<notin> set (xs ACTIVE)" "tp \<noteq> mux"
      using partsD(3) [OF pt fr] partsD(2) [OF pt, of FREE ACTIVE] partsD(2) [OF pt, of FREE LISTEN] assms(2) by auto
    have q: "qbytes (rcv_q tp) s = []" "qbytes (snd_q tp) s = []" "rcv_q tp < NQ" "snd_q tp < NQ" using tp assms(1) by (auto simp: ok_def)
    have b3: "bufs s3 = bufs s" using s1(1) by (simp add: s3_def s2_def same_def)
    have "queue_init j s3 = s3" if "j < NQ" "qbytes j s = []" for j
      using upd_zero [of s3 j] that b3 assms(1) by (simp add: queue_init_def)
    then have i3: "queue_init (snd_q tp) (queue_init (rcv_q tp) s3) = s3" using q by simp
    obtain s4 where s4: "(case route_lookup (inp_faddr (pcbs s3 tp)) (routes s3) of
         None \<Rightarrow> Some (upd_pcb tp (\<lambda>b. b\<lparr>t_maxseg := of_nat tcp_defmss\<rparr>) s3)
       | Some rt \<Rightarrow> map_option (\<lambda>mtu. upd_pcb tp (\<lambda>b. b\<lparr>t_route := Some rt, t_maxseg := of_int (int mtu - 40)\<rparr>) s3) (route_mtu s3 rt)) = Some s4"
      "fills tp s3 s4" using mss_route by blast
    obtain s5 where s5: "(if unat (t_maxseg (pcbs s4 tp)) > tcp_maxmss then upd_pcb tp (\<lambda>b. b\<lparr>t_maxseg := of_nat tcp_maxmss\<rparr>) s4 else s4) = s5"
      "fills tp s4 s5" "unat (t_maxseg (pcbs s5 tp)) \<le> tcp_maxmss" using mss_cap by blast
    obtain v where v: "(if optlen \<noteq> 0 then tcp_parse_options m th tp s5 (th + 20) optlen else Some s5) = Some (upd_pcb tp (\<lambda>b. b\<lparr>t_maxseg := v\<rparr>) s5)"
      "v \<le> t_maxseg (pcbs s5 tp)" using parse_options_ok [OF assms(3-5), of tp s5] by (elim exE conjE)
    define s6 where "s6 = upd_pcb tp (\<lambda>b. b\<lparr>t_maxseg := v\<rparr>) s5"
    have "fills tp s5 s6" unfolding s6_def by (rule fills_upd) simp
    then have "fills tp s3 s6" using fills_trans s4(2) s5(2) by blast
    then obtain d where d: "s6 = s3\<lparr>pcbs := (pcbs s3)(tp := d)\<rparr>" "inp_faddr d = saddr m iph" "inp_fport d = th_sport m th"
      "inp_laddr d = daddr m iph" "inp_lport d = th_dport m th" "t_cond d = c" unfolding fills_def by (auto simp: s3_def)
    have vm: "unat v \<le> tcp_maxmss" using v(2) s5(3) by (simp add: word_le_nat_alt)
    have dv: "t_maxseg d = v" using arg_cong [OF d(1), of "\<lambda>s. t_maxseg (pcbs s tp)"] by (simp add: s6_def)
    define s7 where "s7 = upd_pcb tp (\<lambda>b. b\<lparr>rcv_nxt := ntohl (th_seq m th) + 1, snd_seq := push_bit 20 (ucast (iss s + 1)), snd_off := 0,
      snd_max := 0, t_conn_tmr := tcp_conn_est_tmo, snd_wnd := ntohs (th_win m th), t_state := TCPS_SYN_RCVD, t_flags := TF_ACKNOW\<rparr>) (s6\<lparr>iss := iss s + 1\<rparr>)"
    define s8 where "s8 = upd_pcb mux (\<lambda>b. b\<lparr>t_backlog := (t_backlog b)(unat (t_head b) := Some tp), t_head := of_nat new_head\<rparr>) s7"
    define s9 where "s9 = os_sem_post (t_sem (pcbs s8 mux)) s8"
    have iss6: "iss s6 = iss s" using d(1) s1(3) by (simp add: s3_def s2_def)
    have iss7: "iss (s6\<lparr>iss := iss s + 1\<rparr>) = iss s + 1" by simp
    have "tcp_passive_open mux m iph th optlen s = Some (Some tp, s9)"
      unfolding tcp_passive_open_def Let_def new_head_def [unfolded next_head_def, symmetric] if_not_P [OF nf(1)] c prod.case if_not_P [OF nf(2)]
        n(1) option.case s2_def [symmetric] s3_def [symmetric] i3 s4(1) bind.bind_lunit s5(1) v(1) s6_def [symmetric]
      by (simp only: iss6 iss7 s7_def s8_def s9_def)
    moreover have f: "lst s9 = l" "nx s9 = n" "bufs s9 = bufs s" "routes s9 = routes s" "ifns s9 = ifns s"
      "\<And>q. q \<noteq> tp \<Longrightarrow> q \<noteq> mux \<Longrightarrow> pcbs s9 q = pcbs s q" "cstate s9 tp = TCPS_SYN_RCVD" "\<And>q. q \<noteq> tp \<Longrightarrow> cstate s9 q = cstate s q"
      using s1 tp(3) d(1) by (auto simp: s9_def s8_def s7_def s3_def s2_def os_defs same_def)
    moreover have "filled mux tp m iph th s s9"
      using f d(2-) dv vm tp(3) s1(2) d(1) iss6 c
      by (simp add: filled_def s9_def s8_def s7_def s3_def s2_def new_head_def os_defs)
    moreover have "t_flags (pcbs s9 tp) = TF_ACKNOW" "out_cond s9 = out_cond s" "out_tp s9 = out_tp s" "out_head s9 = out_head s"
      "out_tail s9 = out_tail s" using s1 tp(3) d(1) by (simp_all add: s9_def s8_def s7_def s3_def s2_def os_defs)
    moreover have "kern s8 = kern s1" "t_sem (pcbs s8 mux) = t_sem (pcbs s mux)"
      using s1(2) tp(3) d(1) by (simp_all add: s8_def s7_def s3_def s2_def)
    then have "kern s9 = kern (os_sem_post (t_sem (pcbs s mux)) s1)" unfolding s9_def using post_kern [of s8 s1 "t_sem (pcbs s mux)"] by (simp only:)
    moreover have "ok s9 ys"
    proof -
      have "parts s9 ys" using n(2) f(1,2) parts_cong [of s9 "s1\<lparr>lst := l, nx := n\<rparr>" ys] by simp
      moreover have atp: "tp \<in> set (ys ACTIVE)" by (simp add: ys_def)
      have set_tl_FREE: "set (tl (xs FREE)) \<subseteq> set (xs FREE)" by (cases "xs FREE") auto
      have "list_state k (cstate s9 x)" if "x \<in> set (ys k)" for k x
      proof (cases "x = tp")
        case True
        then have "k = ACTIVE"
          using partsD(2) [OF n(2), of k ACTIVE] that atp by blast
        then show ?thesis using True f(7) by simp
      next
        case False
        then have "x \<in> set (xs k)" using that set_tl_FREE by (auto simp: ys_def split: if_splits)
        then show ?thesis using f(8) [OF False] assms(1) by (simp add: ok_def core_def)
      qed
      moreover have "set (xs ACTIVE) \<subseteq> set (ys ACTIVE)" by (auto simp: ys_def)
      ultimately show ?thesis using assms(1) f(3,4) by (auto simp: ok_def core_def)
    qed
    moreover have "room (pcbs s mux) \<and> fst (os_call thinkos_cond_alloc_svc 0 s) \<ge> 0 \<and> xs FREE \<noteq> []"
      using False c by (simp add: room_def new_head_def)
    ultimately show ?thesis unfolding ys_def tp_def [symmetric] using c by simp
  qed
qed

lemma filled_flags: "filled mux tp m iph th s t \<Longrightarrow> mux \<noteq> tp \<Longrightarrow> flags_only tp t u \<Longrightarrow> iss u = iss t \<Longrightarrow> filled mux tp m iph th s u"
  unfolding flags_only_def by (auto simp: filled_def same_def)

lemma wild_find_mem: "wild_find P c w xs = Some x \<Longrightarrow> x \<in> set xs \<and> P x"
  by (induction xs arbitrary: w) (auto split: if_splits)

lemma dropwithreset_unmoved: "\<exists>u. dropwithreset m iph th g s = Some (1, u) \<and> unmoved s u"
  unfolding dropwithreset_def tcp_respond_def Let_def by (auto simp: unmoved_def same_def outq_def split: option.split)

abbreviation listener :: "mem \<Rightarrow> nat \<Rightarrow> nat \<Rightarrow> tcp_system \<Rightarrow> nat option option" where
  "listener m iph th s \<equiv> pcb_wildlookup (saddr m iph) (th_sport m th) (daddr m iph) (th_dport m th) (lst s LISTEN) (nx s) (pcbs s)"

text \<open>When a segment opens a connection on the listener \<open>mux\<close>: it is a SYN without ACK, RST and data, the backlog has room, the
  kernel has a condition variable, and a block is free.\<close>

definition accepts :: "nat \<Rightarrow> u8 \<Rightarrow> int \<Rightarrow> nat list \<Rightarrow> tcp_system \<Rightarrow> bool" where
  "accepts mux f len free s \<longleftrightarrow> flag f TH_SYN \<and> \<not> flag f TH_ACK \<and> \<not> flag f TH_RST \<and> len = 0 \<and>
    room (pcbs s mux) \<and> fst (os_call thinkos_cond_alloc_svc 0 s) \<ge> 0 \<and> free \<noteq> []"

text \<open>A segment for no connection: a connection is accepted on the listening block that matches, or nothing but the replies
  changes.\<close>

lemma in_listen_ok:
  assumes "ok s xs" and "syn_ok m th" and "tiflags g = th_flags m th" and "optlen = int (4 * th_off m th) - 20"
  shows "\<exists>v s' r. in_listen m iph th g optlen s = Some (v, s') \<and> tcp_ok s' \<and> listener m iph th s = Some r \<and>
    (case r of
       None \<Rightarrow> unmoved s s'
     | Some mux \<Rightarrow> mux \<in> set (xs LISTEN) \<and>
         (if accepts mux (th_flags m th) (ti_len g) (xs FREE) s
          then ok s' (xs(FREE := tl (xs FREE), ACTIVE := xs ACTIVE @ [hd (xs FREE)])) \<and> accepted mux (hd (xs FREE)) m iph th s s'
          else unmoved s s'))"
proof -
  have pt: "parts s xs" using assms(1) by (simp add: ok_def core_def)
  define r where "r = wild_find (\<lambda>q. fits (saddr m iph) (th_sport m th) (daddr m iph) (th_dport m th) (pcbs s q))
    (\<lambda>q. wilds (saddr m iph) (th_sport m th) (daddr m iph) (th_dport m th) (pcbs s q)) 0 (xs LISTEN)"
  have r: "listener m iph th s = Some r"
    unfolding r_def by (rule wildlookup_find [OF partsD(1) [OF pt]])
  have keep: "tcp_ok u" if "unmoved s u" for u
    using ok_same [OF assms(1), of u] that by (auto simp: unmoved_def tcp_ok_def)
  have reset: "\<exists>v u. dropwithreset m iph th g t = Some (v, u) \<and> tcp_ok u \<and> unmoved s u" if "unmoved s t" for t
    using dropwithreset_unmoved [of m iph th g t] unmoved_trans [OF that] keep by blast
  have ml: "mux \<in> set (xs LISTEN)" if "r = Some mux" for mux using wild_find_mem that unfolding r_def by fast
  have pass: "in_listen m iph th g optlen s = bind (tcp_passive_open mux m iph th optlen s) (\<lambda>(tp, s). case tp of
      None \<Rightarrow> dropwithreset m iph th g s | Some tp \<Rightarrow> Some (1, tcp_output_sched tp s))"
    if "r = Some mux" "flag (th_flags m th) TH_SYN" "\<not> flag (th_flags m th) TH_ACK" "\<not> flag (th_flags m th) TH_RST" "ti_len g = 0" for mux
    using that assms(3) unfolding in_listen_def r bind.bind_lunit by simp
  show ?thesis
  proof (cases "\<exists>mux. r = Some mux \<and> accepts mux (th_flags m th) (ti_len g) (xs FREE) s")
    case True
    then obtain mux where mux: "r = Some mux" and a: "accepts mux (th_flags m th) (ti_len g) (xs FREE) s" by blast
    note af = a [unfolded accepts_def]
    define tp where "tp = hd (xs FREE)"
    define ys where "ys = xs(FREE := tl (xs FREE), ACTIVE := xs ACTIVE @ [tp])"
    obtain s9 where q: "tcp_passive_open mux m iph th optlen s = Some (Some tp, s9)" "ok s9 ys" "filled mux tp m iph th s s9"
      "t_flags (pcbs s9 tp) = TF_ACKNOW" "out_cond s9 = out_cond s" "out_tp s9 = out_tp s" "out_head s9 = out_head s" "out_tail s9 = out_tail s"
      "kern s9 = kern (os_sem_post (t_sem (pcbs s mux)) (snd (os_call thinkos_cond_alloc_svc 0 s)))"
      using passive_open_ok [OF assms(1) ml [OF mux] assms(2) _ assms(4), of iph] af unfolding tp_def ys_def by auto
    define u where "u = tcp_output_sched tp s9"
    have f: "flags_only tp s9 u" by (simp add: u_def)
    have "tp \<in> set (xs FREE)" using af by (simp add: tp_def)
    then have ne: "mux \<noteq> tp" using partsD(2) [OF pt, of FREE LISTEN] ml [OF mux] by blast
    have o: "ok u ys" by (rule flags_only_ok [OF f q(2)])
    have nf: "t_flags (pcbs s9 tp) AND TF_NEEDOUTPUT = 0" by (simp add: q(4))
    have u: "iss u = iss s9" "t_flags (pcbs u tp) = TF_ACKNOW OR TF_NEEDOUTPUT" "kern u = kern (os_cond_signal (out_cond s) s9)"
      "out_tail u = out_tail s" "out_head u = out_head s + 1" "out_tp u = (out_tp s)(unat (out_head s) mod 8 := Some tp)"
      using nf q(4-8) by (simp_all add: u_def tcp_output_sched_def os_defs set_flag_def, simp add: os_call_def case_prod_beta)
    have "kern u = kern (os_cond_signal (out_cond s) (os_sem_post (t_sem (pcbs s mux)) (snd (os_call thinkos_cond_alloc_svc 0 s))))"
      unfolding u(3) using q(9) by (simp add: os_cond_signal_def os_call_def case_prod_beta)
    then have "accepted mux tp m iph th s u"
      using filled_flags [OF q(3) ne f u(1)] u(2) outq_push [OF u(4-6)] by (simp add: accepted_def)
    moreover have "in_listen m iph th g optlen s = Some (1, u)"
      using pass [OF mux] af q(1) by (simp add: u_def)
    moreover have "tcp_ok u" using o by (auto simp: tcp_ok_def)
    ultimately show ?thesis
      using r mux a o ml [OF mux] unfolding tp_def ys_def by (intro exI [of _ 1] exI [of _ u] exI [of _ r]) simp
  next
    case False
    have "\<exists>v u. in_listen m iph th g optlen s = Some (v, u) \<and> tcp_ok u \<and> unmoved s u"
    proof (cases "\<exists>mux. r = Some mux \<and> flag (th_flags m th) TH_SYN \<and> \<not> flag (th_flags m th) TH_ACK \<and> \<not> flag (th_flags m th) TH_RST \<and> ti_len g = 0")
      case True
      then obtain mux where mux: "r = Some mux" "flag (th_flags m th) TH_SYN" "\<not> flag (th_flags m th) TH_ACK" "\<not> flag (th_flags m th) TH_RST"
        "ti_len g = 0" by blast
      then have "\<not> (room (pcbs s mux) \<and> fst (os_call thinkos_cond_alloc_svc 0 s) \<ge> 0 \<and> xs FREE \<noteq> [])"
        using False by (auto simp: accepts_def)
      then obtain t where "tcp_passive_open mux m iph th optlen s = Some (None, t)" "unmoved s t"
        using passive_open_ok [OF assms(1) ml [OF mux(1)] assms(2) mux(2) assms(4), of iph] by auto
      then show ?thesis using reset [of t] unfolding pass [OF mux] by simp
    next
      case False
      then have "in_listen m iph th g optlen s = dropwithreset m iph th g s \<or> in_listen m iph th g optlen s = Some (1, s)"
        using assms(3) unfolding in_listen_def r bind.bind_lunit by (auto split: option.split)
      then show ?thesis using reset [of s] keep [of s] by fastforce
    qed
    then show ?thesis using r False ml by (fastforce split: option.split)
  qed
qed

section \<open>The handler\<close>

definition input_seg :: "mem \<Rightarrow> nat \<Rightarrow> int \<Rightarrow> seg" where
  "input_seg m th len =
    \<lparr>ti_seq = ntohl (th_seq m th), ti_ack = ntohl (th_ack m th), ti_len = len - int (4 * th_off m th),
     tiflags = th_flags m th, tiwin = int (unat (ntohs (th_win m th))), ti_data = th + 4 * th_off m th\<rparr>"

abbreviation conn :: "mem \<Rightarrow> nat \<Rightarrow> nat \<Rightarrow> tcp_system \<Rightarrow> nat option option" where
  "conn m iph th s \<equiv> pcb_lookup (saddr m iph) (th_sport m th) (daddr m iph) (th_dport m th) (lst s ACTIVE) (nx s) (pcbs s)"

lemma input_eq:
  "tcp_input m iph th len s =
    bind (conn m iph th s) (\<lambda>r. case r of None \<Rightarrow> in_listen m iph th (input_seg m th len) (int (4 * th_off m th) - 20) s
      | Some p \<Rightarrow> in_active m iph th p (input_seg m th len) (int (4 * th_off m th) - 20) s)"
  unfolding tcp_input_def input_seg_def Let_def ..

lemma conn_found:
  assumes "ok s xs"
  shows "\<exists>r. conn m iph th s = Some r \<and> (\<forall>p. r = Some p \<longrightarrow> p \<in> set (xs ACTIVE))"
proof -
  have "plist (lst s ACTIVE) (nx s) (xs ACTIVE)" using assms partsD(1) by (auto simp: ok_def core_def)
  then show ?thesis unfolding pcb_lookup_def by (auto simp: find_loop_list find_Some_iff)
qed

lemma seg_simps [simp]: "tiflags (input_seg m th len) = th_flags m th" "ti_ack (input_seg m th len) = ntohl (th_ack m th)"
  "ti_seq (input_seg m th len) = ntohl (th_seq m th)"
  by (simp_all add: input_seg_def)

text \<open>Some stream agrees with every segment, whose length is an \<open>int\<close>.\<close>

lemma hon_exists:
  assumes "ti_len g < 2 ^ 31"
  shows "\<exists>S. hon m S g"
proof -
  have "unat (of_nat i :: u32) = i" if "i < nat (ti_len g)" for i
    using that assms by (simp add: unsigned_of_nat take_bit_nat_eq_self)
  then have "hon m (\<lambda>q. m (ti_data g + unat (q - ti_seq g))) g" by (simp add: hon_def)
  then show ?thesis by blast
qed

lemma honest_exists:
  assumes "len < 2 ^ 31"
  shows "\<exists>S. honest m S (input_seg m th len)"
proof -
  have "ti_len (input_seg m th len) \<le> len" by (simp only: input_seg_def seg.simps)
  then show ?thesis unfolding honest_def using assms by (intro hon_exists) (simp split: if_split)
qed

lemma input_result:
  assumes "ok s xs" and "conn m iph th s = Some (Some p)" and "honest m S (input_seg m th len)" and "cstate s p \<noteq> TCPS_SYN_SENT"
  shows "result p S (th_flags m th) (ntohl (th_ack m th)) (unat (snd_max (pcbs s p))) s (tcp_input m iph th len s)"
proof -
  have "p \<in> set (xs ACTIVE)" using conn_found [OF assms(1), of m iph th] assms(2) by auto
  from in_active_result [OF assms(1) this assms(3), of "th_flags m th" iph th "int (4 * th_off m th) - 20"] show ?thesis
    unfolding input_eq assms(2) using assms(4) by simp
qed

lemma input_syn_sent:
  assumes "ok s xs" and "conn m iph th s = Some (Some p)" and "cstate s p = TCPS_SYN_SENT" and "syn_ok m th"
  shows "handled p (th_flags m th) s (tcp_input m iph th len s) \<and>
    (\<forall>v s'. tcp_input m iph th len s = Some (v, s') \<longrightarrow> cstate s' p \<noteq> TCPS_CLOSED \<longrightarrow> opened p (th_flags m th) (input_seg m th len) s s')"
proof -
  have "p \<in> set (xs ACTIVE)" using conn_found [OF assms(1), of m iph th] assms(2) by auto
  from in_active_syn_sent [OF assms(1) this assms(3) _ assms(4) refl, of "input_seg m th len" iph] show ?thesis
    unfolding input_eq assms(2) by simp
qed

section \<open>A sample state\<close>

text \<open>The first block is in the list \<open>k\<close> and the others are free; there are two routes and no data.\<close>

definition sample_tcp :: "tcp_list \<Rightarrow> tcp_pcb \<Rightarrow> mbuf_sys \<Rightarrow> tcp_system" where
  "sample_tcp k b d = \<lparr>lst = (\<lambda>i. if i = k then \<lparr>pl_first = Some 0, pl_last = Buf 0\<rparr>
       else if i = FREE then \<lparr>pl_first = Some 1, pl_last = Buf 7\<rparr> else pcb_list_init),
     nx = (\<lambda>i. if i = 0 \<or> 7 \<le> i then None else Some (i + 1)), pcbs = (\<lambda>p. if p = 0 then b else zero_pcb), iss = 0, port_seq = 0,
     out_cond = 0, out_head = 0, out_tail = 0, out_tp = (\<lambda>_. None), bufs = (\<lambda>j. mbuf_queue_init zero_queue, mbuf_init d),
     routes = sample_routes @ [null_route, null_route], ifns = (\<lambda>_. \<lparr>if_mtu = 1500, if_ipv4_addr = 0\<rparr>), kern = boot_rt, netlock = True, sent = []\<rparr>"

definition sample_lists :: "tcp_list \<Rightarrow> tcp_list \<Rightarrow> nat list" where
  "sample_lists k i = (if i = k then [0] else if i = FREE then [1, 2, 3, 4, 5, 6, 7] else [])"

lemma sample_ok:
  assumes "k = LISTEN \<or> k = ACTIVE" and "list_state k (t_state b)"
  shows "ok (sample_tcp k b d) (sample_lists k)"
proof -
  have e: "bufs (sample_tcp k b d) = (\<lambda>j. mbuf_queue_init zero_queue, mbuf_init d)" by (simp add: sample_tcp_def)
  have u: "(\<Union>i. set (sample_lists k i)) = {..<NET_TCP_PCB_ACTIVE_MAX}"
  proof -
    have "(\<Union>i. set (sample_lists k i)) = set (sample_lists k k) \<union> set (sample_lists k FREE)"
      by (auto simp: sample_lists_def split: if_splits)
    also have "\<dots> = {0, 1, 2, 3, 4, 5, 6, 7}" using assms(1) by (auto simp: sample_lists_def)
    also have "\<dots> = {..<NET_TCP_PCB_ACTIVE_MAX}" by (auto simp: numeral_eq_Suc less_Suc_eq)
    finally show ?thesis .
  qed
  have "plist (lst (sample_tcp k b d) i) (nx (sample_tcp k b d)) (sample_lists k i)" for i
    using assms(1) by (auto simp: sample_tcp_def sample_lists_def plist_def endp_def pcb_list_init_def)
  moreover have "set (sample_lists k i) \<inter> set (sample_lists k j) = {}" if "i \<noteq> j" for i j
    using that by (auto simp: sample_lists_def)
  ultimately have "parts (sample_tcp k b d) (sample_lists k)" using u by (simp add: parts_def)
  moreover have "list_state i (t_state (pcbs (sample_tcp k b d) p))" if "p \<in> set (sample_lists k i)" for i p
    using that assms by (cases "i = k"; cases "i = FREE") (auto simp: sample_lists_def sample_tcp_def)
  moreover have "table (routes (sample_tcp k b d)) sample_routes" using sample_table by (simp add: sample_tcp_def)
  ultimately show ?thesis using init_bufs [of NQ "\<lambda>_. zero_queue" d] init_bufs(2) [of _ "\<lambda>_. zero_queue" d]
    unfolding ok_def core_def e by blast
qed

text \<open>A segment with zero addresses, ports and numbers, the flags \<open>f\<close>, a header of five words and the byte \<open>c\<close> as data.\<close>

definition sample_seg :: "u8 \<Rightarrow> u8 \<Rightarrow> mem" where
  "sample_seg f c = (\<lambda>_. 0)(32 := 0x50, 33 := f, 40 := c)"

lemma sample_seg_ld [simp]:
  "a < 31 \<or> 33 < a \<and> a < 39 \<Longrightarrow> ld16 (sample_seg f c) a = 0"
  "a < 29 \<or> 33 < a \<and> a < 37 \<Longrightarrow> ld32 (sample_seg f c) a = 0"
  "sample_seg f c 33 = f" "sample_seg f c 32 = 0x50"
  by (auto simp: sample_seg_def ld16_def ld32_def)

lemma sample_conn:
  "conn (sample_seg f c) 0 20 (sample_tcp k (zero_pcb\<lparr>t_state := t\<rparr>) d) = Some (if k = ACTIVE then Some 0 else None)"
  if "k = LISTEN \<or> k = ACTIVE" "list_state k t" for k t d
proof -
  have "plist (lst (sample_tcp k (zero_pcb\<lparr>t_state := t\<rparr>) d) ACTIVE) (nx (sample_tcp k (zero_pcb\<lparr>t_state := t\<rparr>) d)) (sample_lists k ACTIVE)"
    using sample_ok [of k "zero_pcb\<lparr>t_state := t\<rparr>" d] that partsD(1) by (auto simp: ok_def core_def)
  then show ?thesis
    using that(1) unfolding pcb_lookup_def by (auto simp: find_loop_list sample_lists_def sample_tcp_def zero_pcb_def)
qed


section \<open>Properties\<close>

lemma input_handled:
  assumes "tcp_ok s" and "syn_ok m th" and "len < 2 ^ 31" and "conn m iph th s = Some (Some p)"
  shows "handled p (th_flags m th) s (tcp_input m iph th len s)"
proof -
  obtain xs where xs: "ok s xs" using assms(1) by (auto simp: tcp_ok_def)
  show ?thesis
  proof (cases "cstate s p = TCPS_SYN_SENT")
    case True
    then show ?thesis using input_syn_sent [OF xs assms(4) _ assms(2)] by blast
  next
    case False
    obtain S where "honest m S (input_seg m th len)" using honest_exists [OF assms(3)] by blast
    then show ?thesis using input_result [OF xs assms(4) _ False] handled_result by blast
  qed
qed

lemma sample_tcp_ok: "k = LISTEN \<or> k = ACTIVE \<Longrightarrow> list_state k t \<Longrightarrow> tcp_ok (sample_tcp k (zero_pcb\<lparr>t_state := t\<rparr>) d)"
  unfolding tcp_ok_def by (rule exI, rule sample_ok) simp_all

lemma syn_ok_sample: "syn_ok (sample_seg f c) 20"
  by (simp add: syn_ok_def drop_bit_eq_div sample_seg_def)

text \<open>C10: The stack stays well formed, for segments of less than 2 GB that are no SYN, or whose options end with their header
  (\<open>syn_ok\<close>; \<open>long_option_runs_on\<close> shows what a SYN with another option can do): \<open>tcp_input\<close> returns, without a
  null pointer or an endless loop, and afterwards each block is in exactly one list with a state that list allows, and the
  byte queues and the routing table are in order.\<close>

theorem tcp_input_safe:
  assumes "tcp_ok s" and "syn_ok m th" and "len < 2 ^ 31"
  shows "\<exists>v s'. tcp_input m iph th len s = Some (v, s') \<and> tcp_ok s'"
proof -
  obtain xs where xs: "ok s xs" using assms(1) by (auto simp: tcp_ok_def)
  obtain r where r: "conn m iph th s = Some r" using conn_found [OF xs] by blast
  show ?thesis
  proof (cases r)
    case None
    then show ?thesis
      using in_listen_ok [OF xs assms(2), of "input_seg m th len" "int (4 * th_off m th) - 20" iph] r unfolding input_eq by auto
  next
    case (Some p)
    then show ?thesis using input_handled [OF assms, of iph p] r by (auto simp: handled_def)
  qed
qed

theorem tcp_input_safe_witness:
  "\<forall>d. \<exists>v s'. tcp_input (sample_seg 0x02 0) 0 20 20 (sample_tcp LISTEN (zero_pcb\<lparr>t_state := TCPS_LISTEN\<rparr>) d) = Some (v, s') \<and> tcp_ok s'"
proof
  fix d
  have "tcp_ok (sample_tcp LISTEN (zero_pcb\<lparr>t_state := TCPS_LISTEN\<rparr>) d)" by (rule sample_tcp_ok) simp_all
  then show "\<exists>v s'. tcp_input (sample_seg 0x02 0) 0 20 20 (sample_tcp LISTEN (zero_pcb\<lparr>t_state := TCPS_LISTEN\<rparr>) d) = Some (v, s') \<and> tcp_ok s'"
    by (rule tcp_input_safe [OF _ syn_ok_sample]) simp
qed

text \<open>C13: A segment moves its own connection only, and only along the transitions of the TCP state machine for its flags: a
  FIN takes the connection to CLOSE\_WAIT, CLOSING or TIME\_WAIT, an ACK to ESTABLISHED, FIN\_WAIT\_2 or TIME\_WAIT, a RST
  to CLOSED; the blocks and queues of all other connections, the routes and the interfaces are unchanged.\<close>

theorem tcp_input_transitions:
  assumes "tcp_ok s" and "syn_ok m th" and "len < 2 ^ 31" and "conn m iph th s = Some (Some p)"
  shows "\<exists>v s'. tcp_input m iph th len s = Some (v, s') \<and> (seg_edge (th_flags m th))\<^sup>*\<^sup>* (t_state (pcbs s p)) (t_state (pcbs s' p)) \<and>
    (\<forall>q. q \<noteq> p \<longrightarrow> pcbs s' q = pcbs s q) \<and> (\<forall>i<NQ. i \<noteq> rcv_q p \<longrightarrow> i \<noteq> snd_q p \<longrightarrow> qbytes i s' = qbytes i s) \<and>
    routes s' = routes s \<and> ifns s' = ifns s"
  using input_handled [OF assms] unfolding handled_def only_def by blast

theorem tcp_input_transitions_witness:
  "\<forall>d. \<exists>v s'. tcp_input (sample_seg 0x11 0) 0 20 20 (sample_tcp ACTIVE (zero_pcb\<lparr>t_state := TCPS_FIN_WAIT_2\<rparr>) d) = Some (v, s') \<and>
    (seg_edge 0x11)\<^sup>*\<^sup>* TCPS_FIN_WAIT_2 (t_state (pcbs s' 0))"
proof
  fix d
  have "tcp_ok (sample_tcp ACTIVE (zero_pcb\<lparr>t_state := TCPS_FIN_WAIT_2\<rparr>) d)" by (rule sample_tcp_ok) simp_all
  moreover have "conn (sample_seg 0x11 0) 0 20 (sample_tcp ACTIVE (zero_pcb\<lparr>t_state := TCPS_FIN_WAIT_2\<rparr>) d) = Some (Some 0)"
    using sample_conn [of ACTIVE TCPS_FIN_WAIT_2 "0x11" 0 d] by simp
  ultimately have "\<exists>v s'. tcp_input (sample_seg 0x11 0) 0 20 20 (sample_tcp ACTIVE (zero_pcb\<lparr>t_state := TCPS_FIN_WAIT_2\<rparr>) d) = Some (v, s') \<and>
      (seg_edge (th_flags (sample_seg 0x11 0) 20))\<^sup>*\<^sup>* (t_state (pcbs (sample_tcp ACTIVE (zero_pcb\<lparr>t_state := TCPS_FIN_WAIT_2\<rparr>) d) 0)) (t_state (pcbs s' 0))"
    using tcp_input_transitions [OF _ syn_ok_sample, of _ 20 "0x11" 0 0 0] by fastforce
  then show "\<exists>v s'. tcp_input (sample_seg 0x11 0) 0 20 20 (sample_tcp ACTIVE (zero_pcb\<lparr>t_state := TCPS_FIN_WAIT_2\<rparr>) d) = Some (v, s') \<and>
      (seg_edge 0x11)\<^sup>*\<^sup>* TCPS_FIN_WAIT_2 (t_state (pcbs s' 0))"
    by (simp add: sample_tcp_def)
qed

text \<open>C11: Reliable, in-order delivery: when the bytes of the segments are those of the peer's stream \<open>S\<close> at their sequence
  numbers, the receive queue of a synchronised connection is extended by exactly the bytes of \<open>S\<close> from \<open>rcv_nxt\<close> on, and
  \<open>rcv_nxt\<close> advances by their number and by one more for a FIN; duplicates, overlaps, bytes outside of the window and
  segments that come too early never add a byte. The queue is emptied only when the connection leaves ESTABLISHED and
  CLOSE\_WAIT.\<close>

theorem tcp_input_delivers:
  assumes "tcp_ok s" and "conn m iph th s = Some (Some p)" and "t_state (pcbs s p) \<noteq> TCPS_SYN_SENT" and "honest m S (input_seg m th len)"
  shows "\<exists>v s' n fin. tcp_input m iph th len s = Some (v, s') \<and> (fin \<longrightarrow> flag (th_flags m th) TH_FIN) \<and>
    rcv_nxt (pcbs s' p) = rcv_nxt (pcbs s p) + of_nat n + of_bool fin \<and>
    (qbytes (rcv_q p) s' = qbytes (rcv_q p) s @ map (\<lambda>i. S (rcv_nxt (pcbs s p) + of_nat i)) [0..<n] \<or>
     qbytes (rcv_q p) s' = [] \<and> t_state (pcbs s' p) \<noteq> TCPS_ESTABLISHED \<and> t_state (pcbs s' p) \<noteq> TCPS_CLOSE_WAIT)"
proof -
  obtain xs where xs: "ok s xs" using assms(1) by (auto simp: tcp_ok_def)
  show ?thesis using input_result [OF xs assms(2,4,3)] unfolding result_def rx_def gone_def by blast
qed

theorem tcp_input_delivers_witness:
  "\<forall>d. \<exists>v s' n fin. tcp_input (sample_seg 0x10 65) 0 20 21 (sample_tcp ACTIVE (zero_pcb\<lparr>t_state := TCPS_ESTABLISHED\<rparr>) d) = Some (v, s') \<and>
    (fin \<longrightarrow> flag 0x10 TH_FIN) \<and> rcv_nxt (pcbs s' 0) = of_nat n + of_bool fin"
proof
  fix d
  let ?s = "sample_tcp ACTIVE (zero_pcb\<lparr>t_state := TCPS_ESTABLISHED\<rparr>) d" and ?m = "sample_seg 0x10 65"
  have o: "tcp_ok ?s" by (rule sample_tcp_ok) simp_all
  have c: "conn ?m 0 20 ?s = Some (Some 0)" using sample_conn [of ACTIVE TCPS_ESTABLISHED "0x10" 65 d] by simp
  have t: "t_state (pcbs ?s 0) \<noteq> TCPS_SYN_SENT" and n: "rcv_nxt (pcbs ?s 0) = 0" by (simp_all add: sample_tcp_def zero_pcb_def)
  have "honest ?m (\<lambda>q. if q = 0 then 65 else 0) (input_seg ?m 20 21)"
    by (simp add: honest_def hon_def input_seg_def flag_def drop_bit_eq_div bswap_32_def) (simp add: sample_seg_def)
  from tcp_input_delivers [OF o c t this] show "\<exists>v s' n fin. tcp_input ?m 0 20 21 ?s = Some (v, s') \<and>
      (fin \<longrightarrow> flag 0x10 TH_FIN) \<and> rcv_nxt (pcbs s' 0) = of_nat n + of_bool fin"
    unfolding n by (elim exE conjE) (intro exI conjI, assumption, simp, simp)
qed

text \<open>C12: Acknowledgements on a synchronised connection. A segment drops from the head of the send queue the bytes it
  acknowledges, and only them: the number \<open>k\<close> of bytes dropped is either nothing or exactly the distance \<open>a\<close> of the
  acknowledgement number from \<open>snd_seq\<close>, it is never more than what was sent (\<open>snd_max\<close>, which counts a FIN), and \<open>snd_seq\<close>
  advances by it. It is exactly \<open>a\<close>, whenever \<open>0 < a \<le> snd_max\<close>, for every segment that is an ACK without SYN and RST, has no
  byte behind the receive window, and carries no data in the states after FIN\_WAIT\_1 (\<open>ack_heard\<close>): duplicates,
  overlaps and segments that come early included. Old acknowledgements and those for bytes not sent yet drop nothing. The
  queue is released, and its bytes are all gone, only when the connection leaves ESTABLISHED and CLOSE\_WAIT.\<close>

theorem tcp_input_acks:
  assumes "tcp_ok s" and "conn m iph th s = Some (Some p)" and "t_state (pcbs s p) \<noteq> TCPS_SYN_SENT" and "len < 2 ^ 31"
    and "a = unat (ntohl (th_ack m th) - snd_seq (pcbs s p))"
  shows "\<exists>v s' k. tcp_input m iph th len s = Some (v, s') \<and> k \<le> unat (snd_max (pcbs s p)) \<and> (k = 0 \<or> k = a) \<and>
    snd_seq (pcbs s' p) = snd_seq (pcbs s p) + of_nat k \<and>
    (qbytes (snd_q p) s' = drop k (qbytes (snd_q p) s) \<or>
     qbytes (snd_q p) s' = [] \<and> t_state (pcbs s' p) \<noteq> TCPS_ESTABLISHED \<and> t_state (pcbs s' p) \<noteq> TCPS_CLOSE_WAIT) \<and>
    (0 < a \<and> a \<le> unat (snd_max (pcbs s p)) \<and>
      ack_heard p (input_seg m th len) (max 0 (int tcp_maxrcv - int (queue_len (rcv_q p) s))) s \<longrightarrow> k = a)"
proof -
  obtain xs where xs: "ok s xs" using assms(1) by (auto simp: tcp_ok_def)
  obtain S where S: "honest m S (input_seg m th len)" using honest_exists [OF assms(4)] by blast
  from input_result [OF xs assms(2) S assms(3)] obtain v s' where r: "tcp_input m iph th len s = Some (v, s')"
    and t: "tx p (ntohl (th_ack m th)) (unat (snd_max (pcbs s p))) s s'" unfolding result_def by blast
  define k where "k = unat (snd_seq (pcbs s' p) - snd_seq (pcbs s p))"
  have k: "k \<le> unat (snd_max (pcbs s p))" "k \<noteq> 0 \<longrightarrow> snd_seq (pcbs s' p) = ntohl (th_ack m th)"
    "qbytes (snd_q p) s' = drop k (qbytes (snd_q p) s) \<or> gone (snd_q p) p s'"
    using t unfolding tx_def Let_def k_def by blast+
  have n: "snd_seq (pcbs s' p) = snd_seq (pcbs s p) + of_nat k" unfolding k_def by simp
  have "k = 0 \<or> k = a" using k(2) unfolding assms(5) k_def by metis
  moreover have "k = a" if "0 < a" "a \<le> unat (snd_max (pcbs s p))"
    "ack_heard p (input_seg m th len) (max 0 (int tcp_maxrcv - int (queue_len (rcv_q p) s))) s"
  proof -
    have pa: "p \<in> set (xs ACTIVE)" using conn_found [OF xs, of m iph th] assms(2) by auto
    have "new_ack (ti_ack (input_seg m th len)) (snd_seq (pcbs s p)) (snd_max (pcbs s p))"
      using that(1,2) unfolding new_ack_def assms(5) by simp
    from in_active_took [OF xs pa S _ assms(3) this that(3), of "th_flags m th" iph th "int (4 * th_off m th) - 20"]
    have "took p (ntohl (th_ack m th)) (tcp_input m iph th len s)" unfolding input_eq assms(2) by simp
    then show ?thesis using r unfolding took_def k_def assms(5) by simp
  qed
  ultimately show ?thesis using r k(1,3) n unfolding gone_def by blast
qed

text \<open>Our FIN is acknowledged: the acknowledgement number 1 is one past \<open>snd_seq\<close>, and the connection waits for the peer's.\<close>

definition sample_fin_ack :: mem where
  "sample_fin_ack = (sample_seg 0x10 0)(31 := 1)"

theorem tcp_input_acks_witness:
  "\<forall>d. \<exists>v s'. tcp_input sample_fin_ack 0 20 20 (sample_tcp ACTIVE (zero_pcb\<lparr>t_state := TCPS_FIN_WAIT_1, snd_max := 1\<rparr>) d) = Some (v, s') \<and>
    snd_seq (pcbs s' 0) = 1"
proof
  fix d
  let ?b = "zero_pcb\<lparr>t_state := TCPS_FIN_WAIT_1, snd_max := 1\<rparr>"
  let ?s = "sample_tcp ACTIVE ?b d" and ?m = sample_fin_ack
  have k: "ok ?s (sample_lists ACTIVE)" by (rule sample_ok) simp_all
  then have o: "tcp_ok ?s" unfolding tcp_ok_def by blast
  have "plist (lst ?s ACTIVE) (nx ?s) (sample_lists ACTIVE ACTIVE)" using k partsD(1) by (auto simp: ok_def core_def)
  moreover have z: "ld16 ?m 20 = 0" "ld16 ?m 22 = 0" "ld16 ?m 34 = 0" "ld32 ?m 12 = 0" "ld32 ?m 16 = 0" "ld32 ?m 24 = 0" "?m 32 = 0x50" "?m 33 = 0x10"
    by (simp_all add: sample_fin_ack_def sample_seg_def ld16_def ld32_def)
  ultimately have c: "conn ?m 0 20 ?s = Some (Some 0)"
    unfolding pcb_lookup_def by (auto simp: find_loop_list sample_lists_def sample_tcp_def zero_pcb_def)
  have t: "t_state (pcbs ?s 0) \<noteq> TCPS_SYN_SENT" and n: "pcbs ?s 0 = ?b" "snd_seq (pcbs ?s 0) = 0" "unat (snd_max (pcbs ?s 0)) = 1"
    by (simp_all add: sample_tcp_def zero_pcb_def)
  have q: "queue_len 0 ?s = 0" by (simp add: queue_len_def sample_tcp_def mbuf_queue_init_def zero_queue_def)
  have l: "(20 :: int) < 2 ^ 31" by simp
  have a: "1 = unat (ntohl (th_ack ?m 20) - snd_seq (pcbs ?s 0))"
    unfolding n by (simp add: sample_fin_ack_def sample_seg_def ld16_def ld32_def bswap_32_def zero_pcb_def)
  have h: "ack_heard 0 (input_seg ?m 20 20) (max 0 (int tcp_maxrcv - int (queue_len (rcv_q 0) ?s))) ?s"
    by (simp add: ack_heard_def input_seg_def z q n flag_def) (simp add: zero_pcb_def drop_bit_eq_div bswap_32_def)
  obtain v s' k where "tcp_input ?m 0 20 20 ?s = Some (v, s')" "snd_seq (pcbs s' 0) = snd_seq (pcbs ?s 0) + of_nat k"
    "0 < (1 :: nat) \<and> 1 \<le> unat (snd_max (pcbs ?s 0)) \<and>
      ack_heard 0 (input_seg ?m 20 20) (max 0 (int tcp_maxrcv - int (queue_len (rcv_q 0) ?s))) ?s \<longrightarrow> k = 1"
    using tcp_input_acks [OF o c t l a] by (elim exE conjE) (rule that, assumption+)
  then show "\<exists>v s'. tcp_input ?m 0 20 20 ?s = Some (v, s') \<and> snd_seq (pcbs s' 0) = 1" using h n by auto
qed

text \<open>C14: Three-way handshake, active side, for segments whose options are well formed when they are a SYN (\<open>syn_ok\<close>): unless
  the attempt is refused, the answer acknowledges our SYN, the sequence numbers are synchronised (\<open>snd_seq\<close> past our SYN,
  \<open>rcv_nxt\<close> past the peer's), and no byte is received or dropped. Every other answer closes the connection.\<close>

theorem tcp_input_opens:
  assumes "tcp_ok s" and "conn m iph th s = Some (Some p)" and "t_state (pcbs s p) = TCPS_SYN_SENT" and "syn_ok m th"
  shows "\<exists>v s'. tcp_input m iph th len s = Some (v, s') \<and>
    (t_state (pcbs s' p) = TCPS_CLOSED \<or>
     snd_seq (pcbs s' p) = snd_seq (pcbs s p) + 1 \<and> snd_seq (pcbs s' p) = ntohl (th_ack m th) \<and>
     (\<exists>fin. (fin \<longrightarrow> flag (th_flags m th) TH_FIN) \<and> rcv_nxt (pcbs s' p) = ntohl (th_seq m th) + 1 + of_bool fin) \<and>
     qbytes (rcv_q p) s' = qbytes (rcv_q p) s \<and> qbytes (snd_q p) s' = qbytes (snd_q p) s)"
proof -
  obtain xs where xs: "ok s xs" using assms(1) by (auto simp: tcp_ok_def)
  note h = input_syn_sent [OF xs assms(2-4), of len]
  obtain v s' where r: "tcp_input m iph th len s = Some (v, s')" using h by (auto simp: handled_def)
  then have "t_state (pcbs s' p) = TCPS_CLOSED \<or> opened p (th_flags m th) (input_seg m th len) s s'" using h by blast
  then show ?thesis using r unfolding opened_def seg_simps by (intro exI [of _ v] exI [of _ s']) auto
qed

theorem tcp_input_opens_witness:
  "\<forall>d. \<exists>v s'. tcp_input (sample_seg 0x12 0) 0 20 20 (sample_tcp ACTIVE (zero_pcb\<lparr>t_state := TCPS_SYN_SENT\<rparr>) d) = Some (v, s') \<and>
    (t_state (pcbs s' 0) = TCPS_CLOSED \<or> snd_seq (pcbs s' 0) = 1)"
proof
  fix d
  let ?s = "sample_tcp ACTIVE (zero_pcb\<lparr>t_state := TCPS_SYN_SENT\<rparr>) d" and ?m = "sample_seg 0x12 0"
  have o: "tcp_ok ?s" by (rule sample_tcp_ok) simp_all
  have c: "conn ?m 0 20 ?s = Some (Some 0)" using sample_conn [of ACTIVE TCPS_SYN_SENT "0x12" 0 d] by simp
  have t: "t_state (pcbs ?s 0) = TCPS_SYN_SENT" and n: "snd_seq (pcbs ?s 0) = 0" by (simp_all add: sample_tcp_def zero_pcb_def)
  from tcp_input_opens [OF o c t syn_ok_sample, of 20] show "\<exists>v s'. tcp_input ?m 0 20 20 ?s = Some (v, s') \<and>
      (t_state (pcbs s' 0) = TCPS_CLOSED \<or> snd_seq (pcbs s' 0) = 1)"
    unfolding n by (elim exE conjE disjE) (intro exI conjI, assumption, simp)+
qed



text \<open>C16: A FIN that arrives before the data it follows is taken at once: the connection goes to CLOSE\_WAIT and \<open>rcv_nxt\<close>
  advances by one, although none of the missing bytes was received, so the bytes that are sent again are refused.\<close>

theorem early_fin_closes:
  assumes "t_state (pcbs s p) = TCPS_ESTABLISHED" and "ti_seq g \<noteq> rcv_nxt (pcbs s p)" and "flag (tiflags g) TH_FIN"
  shows "\<exists>u. in_step6 m p g no s = Some (1, u) \<and> t_state (pcbs u p) = TCPS_CLOSE_WAIT \<and>
    rcv_nxt (pcbs u p) = rcv_nxt (pcbs s p) + 1 \<and> bufs u = bufs s"
proof -
  define w where "w \<longleftrightarrow> flag (tiflags g) TH_ACK \<and> tiwin g > int (unat (snd_wnd (pcbs s p)))"
  define t where "t = (if w then upd_pcb p (\<lambda>b. b\<lparr>snd_wnd := of_int (tiwin g)\<rparr>) s else s)"
  have q: "quiet p s t" by (simp add: t_def quiet_upd)
  then have t: "cstate t p = TCPS_ESTABLISHED" "rcv_nxt (pcbs t p) = rcv_nxt (pcbs s p)" "bufs t = bufs s"
    using assms(1) by (simp_all add: quiet_def same_def)
  define t1 where "t1 = set_flag p TF_ACKNOW (set_flag p TF_ACKNOW t)"
  have q1: "quiet p t t1" unfolding t1_def by (rule quiet_trans [of p t "set_flag p TF_ACKNOW t"]) simp_all
  define t2 where "t2 = upd_pcb p (\<lambda>b. b\<lparr>rcv_nxt := rcv_nxt b + 1\<rparr>) t1"
  have t2: "cstate t2 p = TCPS_ESTABLISHED" "rcv_nxt (pcbs t2 p) = rcv_nxt (pcbs s p) + 1" "bufs t2 = bufs s"
    using q1 t by (simp_all add: t2_def quiet_def same_def)
  have d: "in_data m p g t = Some (tiflags g, set_flag p TF_ACKNOW t)"
    using assms(2,3) t unfolding in_data_def by (simp add: TCPS_HAVERCVDFIN_def less_eq_tcps_def)
  have st: "cstate (set_flag p TF_ACKNOW t) p = TCPS_ESTABLISHED" using t(1) by (simp add: set_flag_def)
  have f: "in_fin p (tiflags g) b (set_flag p TF_ACKNOW t) = in_final p b (in_close_wait p t2)" for b
    using assms(3) st t2(1) unfolding in_fin_def Let_def t2_def t1_def by (simp add: fin_switch_def TCPS_HAVERCVDFIN_def less_eq_tcps_def)
  have e: "in_step6 m p g no s = in_final p (no \<or> w) (in_close_wait p t2)"
    unfolding in_step6_def Let_def w_def [symmetric] t_def [symmetric] d bind.bind_lunit prod.case f ..
  define t3 where "t3 = upd_pcb p (\<lambda>b. b\<lparr>t_state := TCPS_CLOSE_WAIT\<rparr>) t2"
  have "quiet p t3 (in_close_wait p t2)" unfolding in_close_wait_def Let_def t3_def [symmetric] by simp
  moreover obtain u where u: "in_final p (no \<or> w) (in_close_wait p t2) = Some (1, u)" "quiet p (in_close_wait p t2) u"
    using in_final_quiet by blast
  ultimately have "quiet p t3 u" using quiet_trans by blast
  then show ?thesis using u(1) t2 unfolding e by (simp add: quiet_def same_def t3_def)
qed

theorem early_fin_closes_witness:
  "\<forall>d. \<exists>u. in_step6 (\<lambda>_. 0) 0 \<lparr>ti_seq = 100, ti_ack = 0, ti_len = 0, tiflags = 0x11, tiwin = 0, ti_data = 40\<rparr> False
      (sample_tcp ACTIVE (zero_pcb\<lparr>t_state := TCPS_ESTABLISHED\<rparr>) d) = Some (1, u) \<and>
    t_state (pcbs u 0) = TCPS_CLOSE_WAIT \<and> rcv_nxt (pcbs u 0) = 1"
proof
  fix d
  let ?s = "sample_tcp ACTIVE (zero_pcb\<lparr>t_state := TCPS_ESTABLISHED\<rparr>) d"
  let ?g = "\<lparr>ti_seq = 100, ti_ack = 0, ti_len = 0, tiflags = 0x11, tiwin = 0, ti_data = 40\<rparr>"
  have "t_state (pcbs ?s 0) = TCPS_ESTABLISHED" "ti_seq ?g \<noteq> rcv_nxt (pcbs ?s 0)" "flag (tiflags ?g) TH_FIN" and n: "rcv_nxt (pcbs ?s 0) = 0"
    by (simp_all add: sample_tcp_def zero_pcb_def flag_def)
  from early_fin_closes [OF this(1-3), of "\<lambda>_. 0" False] show "\<exists>u. in_step6 (\<lambda>_. 0) 0 ?g False ?s = Some (1, u) \<and>
      t_state (pcbs u 0) = TCPS_CLOSE_WAIT \<and> rcv_nxt (pcbs u 0) = 1"
    unfolding n by (elim exE conjE) (intro exI conjI, assumption, assumption, simp)
qed

end
