(* ===== verification/Net_Tcp_Tmr.thy ===== *)
theory Net_Tcp_Tmr
  imports Net_Tcp_Conn
begin

text \<open>
  The timers of TCP (\<^verbatim>\<open>src/src/sdk/libtcpip/tcp/tcp_tmr.c\<close>) and the keep-alive probe (\<^verbatim>\<open>tcp_keepalive.c\<close>). Each timer
  walks through the list of active connections; \<open>tmr_loop\<close> is that walk, and \<open>None\<close> is a null pointer. Whether the driver
  has memory for a packet is the parameter \<open>mmap\<close>, since the code does not look at a null result of \<open>ifn_mmap\<close>.
\<close>

section \<open>Definitions\<close>

text \<open>The intervals of \<^verbatim>\<open>src/src/config.h\<close>, in seconds: probes after 15 seconds of silence, the end after 30.\<close>

definition tcp_keepintvl :: "u8 list" where
  "tcp_keepintvl = [4, 4, 4, 3, 2, 2, 2, 2, 2, 2, 2, 1, 1]"

abbreviation TCP_MAXRXMTS :: nat where "TCP_MAXRXMTS \<equiv> 6"

partial_function (option) tmr_loop :: "(nat \<Rightarrow> tcp_system \<Rightarrow> tcp_system option) \<Rightarrow> lastp \<Rightarrow> tcp_system \<Rightarrow> tcp_system option" where
  "tmr_loop f q s =
    (case next_of q (lst s ACTIVE) (nx s) of
       None \<Rightarrow> Some s
     | Some p \<Rightarrow> bind (f p s) (tmr_loop f (Buf p)))"

definition fast_tick :: "nat \<Rightarrow> tcp_system \<Rightarrow> tcp_system" where
  "fast_tick p s =
    (if flag (t_flags (pcbs s p)) TF_DELACK
     then tcp_output_enqueue p (set_flag p TF_ACKNOW (clear_flag p TF_DELACK s)) else s)"

definition tcp_fast_tmr :: "tcp_system \<Rightarrow> tcp_system option" where
  "tcp_fast_tmr s = tmr_loop (\<lambda>p s. Some (fast_tick p s)) Head s"

definition rxmt_tick :: "nat \<Rightarrow> tcp_system \<Rightarrow> tcp_system" where
  "rxmt_tick p s =
    (if t_rxmt_tmr (pcbs s p) \<noteq> 0 then
       let s = upd_pcb p (\<lambda>b. b\<lparr>t_rxmt_tmr := t_rxmt_tmr b - 1\<rparr>) s
       in if t_rxmt_tmr (pcbs s p) = 0 then
            let s = upd_pcb p (\<lambda>b. b\<lparr>t_count := t_count b + 1\<rparr>) s
            in if unat (t_count (pcbs s p)) > TCP_MAXRXMTS then s
               else tcp_output_enqueue p (clear_flag p TF_SENTFIN
                 (upd_pcb p (\<lambda>b. b\<lparr>t_rxmt_tmr := tcp_rxmtintvl ! unat (t_count b), snd_off := 0\<rparr>) s))
          else s
     else s)"

definition tcp_rxmt_tmr :: "tcp_system \<Rightarrow> tcp_system option" where
  "tcp_rxmt_tmr s = tmr_loop (\<lambda>p s. Some (rxmt_tick p s)) Head s"

definition tcp_keepalive :: "bool \<Rightarrow> nat \<Rightarrow> tcp_system \<Rightarrow> tcp_system option" where
  "tcp_keepalive mmap p s =
    (let b = pcbs s p; da = inp_faddr b; sa = inp_laddr b
     in case route_lookup da (routes s) of
          None \<Rightarrow> Some s
        | Some rt \<Rightarrow>
            if mmap then
              Some (s\<lparr>sent := sent s @ [\<lparr>ip_saddr = sa, ip_daddr = da,
                ip_payload = tcp_segment sa da (inp_lport b) (inp_fport b) (snd_seq b - 1) (rcv_nxt b) TH_ACK
                  (of_int (int tcp_maxrcv - int (queue_len (rcv_q p) s))) [] []\<rparr>]\<rparr>)
            else None)"

text \<open>The end of a connection that does not answer.\<close>

definition tmo_close :: "nat \<Rightarrow> tcp_system \<Rightarrow> tcp_system option" where
  "tmo_close p s =
    bind (queue_free (snd_q p) s) (\<lambda>s. bind (queue_free (rcv_q p) s) (\<lambda>s.
      bind (list_move p ACTIVE CLOSED (upd_pcb p (\<lambda>b. b\<lparr>t_state := TCPS_CLOSED\<rparr>) s)) (\<lambda>(_, s).
        Some (tcp_output_enqueue p (os_cond_signal (t_cond (pcbs s p)) s)))))"

definition keep_tick :: "bool \<Rightarrow> nat \<Rightarrow> tcp_system \<Rightarrow> tcp_system option" where
  "keep_tick mmap p s =
    (if \<not> flag (t_flags (pcbs s p)) TF_IDLE
     then Some (upd_pcb p (\<lambda>b. b\<lparr>t_count := 0, t_conn_tmr := tcp_keepintvl ! 0\<rparr>) (set_flag p TF_IDLE s))
     else let s = upd_pcb p (\<lambda>b. b\<lparr>t_count := t_count b + 1\<rparr>) s
          in if unat (t_count (pcbs s p)) < 12
             then bind (if unat (t_count (pcbs s p)) \<ge> 4 then tcp_keepalive mmap p s else Some s)
               (\<lambda>s. Some (upd_pcb p (\<lambda>b. b\<lparr>t_conn_tmr := tcp_keepintvl ! unat (t_count b)\<rparr>) s))
             else tmo_close p s)"

definition idle_tick :: "bool \<Rightarrow> nat \<Rightarrow> tcp_system \<Rightarrow> tcp_system option" where
  "idle_tick mmap p s =
    (if t_conn_tmr (pcbs s p) \<noteq> 0 then
       let s = upd_pcb p (\<lambda>b. b\<lparr>t_conn_tmr := t_conn_tmr b - 1\<rparr>) s
       in if t_conn_tmr (pcbs s p) = 0 then
            (case t_state (pcbs s p) of
               TCPS_SYN_SENT \<Rightarrow> tmo_close p s
             | TCPS_SYN_RCVD \<Rightarrow> tmo_close p s
             | TCPS_ESTABLISHED \<Rightarrow> keep_tick mmap p s
             | TCPS_FIN_WAIT_2 \<Rightarrow> Some (upd_pcb p (\<lambda>b. b\<lparr>t_rxmt_tmr := 0, t_state := TCPS_TIME_WAIT, t_conn_tmr := 2 * tcp_msl\<rparr>) s)
             | TCPS_TIME_WAIT \<Rightarrow> map_option snd (tcp_pcb_free p s)
             | _ \<Rightarrow> Some s)
          else Some s
     else Some s)"

definition tcp_idle_tmr :: "bool \<Rightarrow> tcp_system \<Rightarrow> tcp_system option" where
  "tcp_idle_tmr mmap s = tmr_loop (idle_tick mmap) Head s"

section \<open>The walk\<close>

lemma ok_plist: "ok s xs \<Longrightarrow> plist (lst s k) (nx s) (xs k)"
  using partsD(1) by (auto simp: ok_def core_def)

lemma tmr_loop_step:
  assumes "ok s xs" and "xs ACTIVE = ys @ zs"
  shows "tmr_loop f (endp ys) s = (case zs of [] \<Rightarrow> Some s | p # _ \<Rightarrow> bind (f p s) (tmr_loop f (Buf p)))"
proof -
  have "chain (nx s) (pl_first (lst s ACTIVE)) (ys @ zs)" using ok_plist [OF assms(1), of ACTIVE] assms(2) by (simp add: plist_def)
  from next_of_endp [OF this] show ?thesis by (subst tmr_loop.simps) (simp split: list.split)
qed

text \<open>A tick that keeps the lists: the walk ticks every active connection, in the order of the list.\<close>

lemma tmr_loop_fold:
  assumes "ok s xs" and "xs ACTIVE = ys @ zs" and "\<And>p t. ok t xs \<Longrightarrow> p \<in> set (xs ACTIVE) \<Longrightarrow> ok (g p t) xs"
  shows "tmr_loop (\<lambda>p s. Some (g p s)) (endp ys) s = Some (fold g zs s) \<and> ok (fold g zs s) xs"
  using assms(1,2)
proof (induction zs arbitrary: ys s)
  case Nil
  then show ?case using tmr_loop_step [of s xs ys "[]"] by simp
next
  case (Cons p zs)
  have "ok (g p s) xs" using Cons.prems assms(3) by simp
  moreover have "xs ACTIVE = (ys @ [p]) @ zs" using Cons.prems by simp
  ultimately have "tmr_loop (\<lambda>p s. Some (g p s)) (endp (ys @ [p])) (g p s) = Some (fold g zs (g p s)) \<and> ok (fold g zs (g p s)) xs"
    using Cons.IH by blast
  then show ?case using tmr_loop_step [OF Cons.prems] by simp
qed

text \<open>A tick may also move its connection to the end of another list, where the walk ends.\<close>

definition left_active :: "(tcp_list \<Rightarrow> nat list) \<Rightarrow> nat \<Rightarrow> tcp_list \<Rightarrow> (tcp_list \<Rightarrow> nat list)" where
  "left_active xs p k = xs(ACTIVE := remove1 p (xs ACTIVE), k := xs k @ [p])"

lemma tmr_loop_end:
  assumes "ok u (left_active xs p k)" and "k \<noteq> ACTIVE"
  shows "tmr_loop f (Buf p) u = Some u"
proof -
  have "plist (lst u k) (nx u) (xs k @ [p])" using ok_plist [OF assms(1), of k] assms(2) by (simp add: left_active_def)
  then have "chain (nx u) (pl_first (lst u k)) ((xs k @ [p]) @ [])" by (simp add: plist_def)
  from next_of_endp [OF this] have "nx u p = None" by simp
  then show ?thesis by (subst tmr_loop.simps) simp
qed

lemma tmr_loop_ok:
  assumes "ok s xs" and "xs ACTIVE = ys @ zs"
    and "\<And>p t. ok t xs \<Longrightarrow> p \<in> set (xs ACTIVE) \<Longrightarrow>
      \<exists>u. f p t = Some u \<and> (ok u xs \<or> (\<exists>k. k \<noteq> ACTIVE \<and> ok u (left_active xs p k))) \<and> R t u"
    and "reflp R" and "transp R"
  shows "\<exists>u. tmr_loop f (endp ys) s = Some u \<and> tcp_ok u \<and> R s u"
  using assms(1,2)
proof (induction zs arbitrary: ys s)
  case Nil
  then show ?case using tmr_loop_step [of s xs ys "[]" f] reflpD [OF assms(4)] by (auto simp: tcp_ok_def)
next
  case (Cons p zs)
  obtain u where u: "f p s = Some u" "ok u xs \<or> (\<exists>k. k \<noteq> ACTIVE \<and> ok u (left_active xs p k))" "R s u"
    using assms(3) Cons.prems by (metis in_set_conv_decomp)
  have e: "tmr_loop f (endp ys) s = tmr_loop f (Buf p) u" using tmr_loop_step [OF Cons.prems, of f] u(1) by simp
  show ?case
  proof (cases "ok u xs")
    case True
    then obtain v where "tmr_loop f (Buf p) u = Some v" "tcp_ok v" "R u v" using Cons.IH [of u "ys @ [p]"] Cons.prems(2) by auto
    then show ?thesis using e transpD [OF assms(5) u(3)] by auto
  next
    case False
    then obtain k where "k \<noteq> ACTIVE" "ok u (left_active xs p k)" using u(2) by blast
    then show ?thesis using tmr_loop_end [of u xs p k f] e u(3) by (auto simp: tcp_ok_def)
  qed
qed

section \<open>The ticks\<close>

definition need_output :: "u8 \<Rightarrow> u8" where
  "need_output f = (if flag f TF_NEEDOUTPUT then f else f OR TF_NEEDOUTPUT)"

lemma enqueue_simps [simp]:
  "lst (tcp_output_enqueue p s) = lst s" "nx (tcp_output_enqueue p s) = nx s" "bufs (tcp_output_enqueue p s) = bufs s"
  "routes (tcp_output_enqueue p s) = routes s" "ifns (tcp_output_enqueue p s) = ifns s" "netlock (tcp_output_enqueue p s) = netlock s"
  by (simp_all add: tcp_output_enqueue_def set_flag_def)

lemma enqueue_pcbs: "pcbs (tcp_output_enqueue p s) = (pcbs s)(p := (pcbs s p)\<lparr>t_flags := need_output (t_flags (pcbs s p))\<rparr>)"
  by (simp add: tcp_output_enqueue_def need_output_def)

text \<open>What the two fast timers do to one block.\<close>

definition fast_block :: "tcp_pcb \<Rightarrow> tcp_pcb" where
  "fast_block b = (if flag (t_flags b) TF_DELACK
    then b\<lparr>t_flags := need_output (t_flags b AND NOT TF_DELACK OR TF_ACKNOW)\<rparr> else b)"

definition rxmt_block :: "tcp_pcb \<Rightarrow> tcp_pcb" where
  "rxmt_block b =
    (if t_rxmt_tmr b = 0 then b
     else if t_rxmt_tmr b \<noteq> 1 then b\<lparr>t_rxmt_tmr := t_rxmt_tmr b - 1\<rparr>
     else if unat (t_count b + 1) > TCP_MAXRXMTS then b\<lparr>t_rxmt_tmr := 0, t_count := t_count b + 1\<rparr>
     else b\<lparr>t_rxmt_tmr := tcp_rxmtintvl ! unat (t_count b + 1), t_count := t_count b + 1, snd_off := 0,
            t_flags := need_output (t_flags b AND NOT TF_SENTFIN)\<rparr>)"

lemma fast_tick_pcbs: "pcbs (fast_tick p s) = (pcbs s)(p := fast_block (pcbs s p))"
  by (simp add: fast_tick_def fast_block_def enqueue_pcbs)

lemma rxmt_tick_pcbs: "pcbs (rxmt_tick p s) = (pcbs s)(p := rxmt_block (pcbs s p))"
  by (auto simp: rxmt_tick_def rxmt_block_def enqueue_pcbs Let_def)

lemma tick_same: "same s (fast_tick p s)" "same s (rxmt_tick p s)"
  by (simp_all add: fast_tick_def rxmt_tick_def same_def set_flag_def clear_flag_def Let_def)

lemma fast_tick_ok: "ok s xs \<Longrightarrow> ok (fast_tick p s) xs"
  by (rule ok_same [OF _ tick_same(1)]) (simp_all add: fast_tick_pcbs fast_block_def)

lemma rxmt_tick_ok: "ok s xs \<Longrightarrow> ok (rxmt_tick p s) xs"
  by (rule ok_same [OF _ tick_same(2)]) (simp_all add: rxmt_tick_pcbs rxmt_block_def)

lemma fold_blocks:
  assumes "\<And>p s. pcbs (g p s) = (pcbs s)(p := h (pcbs s p))" and "distinct zs"
  shows "pcbs (fold g zs s) q = (if q \<in> set zs then h (pcbs s q) else pcbs s q)"
  using assms(2) by (induction zs arbitrary: s) (auto simp: assms(1))

lemma fold_same: "(\<And>p t. same t (g p t)) \<Longrightarrow> same s (fold g zs s)"
  by (induction zs arbitrary: s) (auto intro: same_trans)

text \<open>The walk of a tick that changes nothing but its block.\<close>

lemma walk_blocks:
  assumes "ok s xs" and "\<And>p s. pcbs (g p s) = (pcbs s)(p := h (pcbs s p))" and "\<And>p t. same t (g p t)" and "\<And>p t. ok t xs \<Longrightarrow> ok (g p t) xs"
  shows "\<exists>u. tmr_loop (\<lambda>p s. Some (g p s)) Head s = Some u \<and> ok u xs \<and> same s u \<and>
    (\<forall>q. pcbs u q = (if q \<in> set (xs ACTIVE) then h (pcbs s q) else pcbs s q))"
proof -
  have "distinct (xs ACTIVE)" using ok_plist [OF assms(1)] plist_distinct by blast
  then show ?thesis
    using tmr_loop_fold [OF assms(1), of "[]" "xs ACTIVE" g] fold_blocks [OF assms(2)] fold_same [OF assms(3)] assms(4) by simp
qed

lemma fast_tmr_walk: "ok s xs \<Longrightarrow> \<exists>u. tcp_fast_tmr s = Some u \<and> ok u xs \<and> same s u \<and>
    (\<forall>q. pcbs u q = (if q \<in> set (xs ACTIVE) then fast_block (pcbs s q) else pcbs s q))"
  unfolding tcp_fast_tmr_def by (rule walk_blocks [OF _ fast_tick_pcbs tick_same(1) fast_tick_ok])

lemma rxmt_tmr_walk: "ok s xs \<Longrightarrow> \<exists>u. tcp_rxmt_tmr s = Some u \<and> ok u xs \<and> same s u \<and>
    (\<forall>q. pcbs u q = (if q \<in> set (xs ACTIVE) then rxmt_block (pcbs s q) else pcbs s q))"
  unfolding tcp_rxmt_tmr_def by (rule walk_blocks [OF _ rxmt_tick_pcbs tick_same(2) rxmt_tick_ok])

section \<open>Properties of the fast timers\<close>

text \<open>The delayed-acknowledge timer visits every active connection once: a delayed acknowledgement becomes one that is due
  now and its connection is queued for output; no other block changes.\<close>

theorem fast_tmr_blocks:
  assumes "ok s xs"
  shows "\<exists>u. tcp_fast_tmr s = Some u \<and> ok u xs \<and>
    (\<forall>q. pcbs u q = (if q \<in> set (xs ACTIVE) then fast_block (pcbs s q) else pcbs s q))"
  using fast_tmr_walk [OF assms] by blast

text \<open>A block whose retransmission timer ends with this tick, within the limit of six; and whether it then joins the output
  queue, which it does unless it waits there already.\<close>

definition restarts :: "tcp_pcb \<Rightarrow> bool" where
  "restarts b \<longleftrightarrow> t_rxmt_tmr b = 1 \<and> unat (t_count b + 1) \<le> TCP_MAXRXMTS"

definition joins :: "tcp_pcb \<Rightarrow> bool" where
  "joins b \<longleftrightarrow> restarts b \<and> \<not> flag (t_flags b) TF_NEEDOUTPUT"

lemma flag_sentfin: "flag (x AND NOT TF_SENTFIN) TF_NEEDOUTPUT \<longleftrightarrow> flag x TF_NEEDOUTPUT"
  by (simp add: flag_def and.assoc)

lemma rxmt_tick_outq:
  assumes "joins (pcbs s p) \<Longrightarrow> length (outq s) < 8"
  shows "outq (rxmt_tick p s) = outq s @ (if joins (pcbs s p) then [Some p] else [])"
proof (cases "joins (pcbs s p)")
  case True
  then have r: "t_rxmt_tmr (pcbs s p) = 1" "\<not> TCP_MAXRXMTS < unat (t_count (pcbs s p) + 1)" "\<not> flag (t_flags (pcbs s p)) TF_NEEDOUTPUT"
    by (simp_all add: joins_def restarts_def)
  have nf: "\<not> flag (t_flags (pcbs s p) AND NOT TF_SENTFIN) TF_NEEDOUTPUT" using r(3) flag_sentfin by blast
  have "out_tail (rxmt_tick p s) = out_tail s" "out_head (rxmt_tick p s) = out_head s + 1"
    "out_tp (rxmt_tick p s) = (out_tp s)(unat (out_head s) mod 8 := Some p)"
    using r nf by (simp_all add: rxmt_tick_def Let_def tcp_output_enqueue_def clear_flag_def set_flag_def)
  from outq_push [OF this] show ?thesis using assms True by simp
next
  case False
  then have "out_tail (rxmt_tick p s) = out_tail s" "out_head (rxmt_tick p s) = out_head s" "out_tp (rxmt_tick p s) = out_tp s"
    using flag_sentfin [of "t_flags (pcbs s p)"] by (auto simp: rxmt_tick_def Let_def tcp_output_enqueue_def clear_flag_def set_flag_def joins_def restarts_def)
  then show ?thesis using False by (simp add: outq_def)
qed

lemma rxmt_fold_outq:
  "distinct zs \<Longrightarrow> length (outq s) + length (filter (\<lambda>q. joins (pcbs s q)) zs) \<le> 8 \<Longrightarrow>
    outq (fold rxmt_tick zs s) = outq s @ map Some (filter (\<lambda>q. joins (pcbs s q)) zs)"
proof (induction zs arbitrary: s)
  case (Cons p zs)
  let ?t = "rxmt_tick p s"
  have f: "filter (\<lambda>q. joins (pcbs ?t q)) zs = filter (\<lambda>q. joins (pcbs s q)) zs"
    using Cons.prems(1) by (intro filter_cong) (auto simp: rxmt_tick_pcbs)
  have o: "outq ?t = outq s @ (if joins (pcbs s p) then [Some p] else [])" by (rule rxmt_tick_outq) (use Cons.prems(2) in simp)
  have "length (outq ?t) + length (filter (\<lambda>q. joins (pcbs ?t q)) zs) \<le> 8" using Cons.prems(2) unfolding f o by (simp split: if_splits)
  then show ?case using Cons.IH [of ?t] Cons.prems(1) unfolding f o by simp
qed simp

text \<open>The timer over several seconds, when nothing else happens in between.\<close>

definition rxmt_seconds :: "nat \<Rightarrow> tcp_system \<Rightarrow> tcp_system option" where
  "rxmt_seconds n s = ((\<lambda>r. bind r tcp_rxmt_tmr) ^^ n) (Some s)"

lemma rxmt_seconds_walk:
  assumes "ok s xs"
  shows "\<exists>u. rxmt_seconds n s = Some u \<and> ok u xs \<and>
    (\<forall>q. pcbs u q = (if q \<in> set (xs ACTIVE) then (rxmt_block ^^ n) (pcbs s q) else pcbs s q))"
proof (induction n)
  case (Suc n)
  then obtain t where t: "rxmt_seconds n s = Some t" "ok t xs"
    "\<forall>q. pcbs t q = (if q \<in> set (xs ACTIVE) then (rxmt_block ^^ n) (pcbs s q) else pcbs s q)" by blast
  then show ?case using rxmt_tmr_walk [OF t(2)] by (auto simp: rxmt_seconds_def)
qed (simp add: rxmt_seconds_def assms)

lemma rxmt_off: "t_rxmt_tmr b = 0 \<Longrightarrow> (rxmt_block ^^ k) b = b"
  by (induction k) (simp_all add: rxmt_block_def)

lemma restarts_bound:
  assumes "t_count b \<noteq> 255"
  shows "card {k. k < n \<and> restarts ((rxmt_block ^^ k) b)} \<le> TCP_MAXRXMTS - unat (t_count b)"
  using assms
proof (induction n arbitrary: b)
  case (Suc n)
  have c: "unat (t_count b + 1) = unat (t_count b) + 1"
  proof -
    have "unat (t_count b) \<noteq> unat (255 :: u8)" using Suc.prems word_unat_eq_iff by blast
    moreover have "unat (t_count b) < 256" using unsigned_less [of "t_count b", where ?'a = nat] by simp
    ultimately show ?thesis by (simp add: unat_word_ariths)
  qed
  have e: "{k. k < Suc n \<and> restarts ((rxmt_block ^^ k) b)} =
      (if restarts b then {0} else {}) \<union> Suc ` {k. k < n \<and> restarts ((rxmt_block ^^ k) (rxmt_block b))}"
    (is "?L = _ \<union> Suc ` ?R")
    by (auto simp: funpow_swap1 image_iff less_Suc_eq_0_disj)
  have "card ?L \<le> (if restarts b then 1 else 0) + card ?R"
    unfolding e by (rule order_trans [OF card_Un_le]) (simp add: card_image)
  moreover have "(if restarts b then 1 else 0) + card ?R \<le> TCP_MAXRXMTS - unat (t_count b)"
  proof (cases "restarts b")
    case True
    then have r: "t_count (rxmt_block b) = t_count b + 1" "unat (t_count b + 1) \<le> 6" by (auto simp: restarts_def rxmt_block_def)
    then have "t_count (rxmt_block b) \<noteq> 255" by auto
    then have "card ?R \<le> 6 - unat (t_count b + 1)" using Suc.IH [of "rxmt_block b"] r(1) by simp
    then show ?thesis using True r(2) c by simp
  next
    case False
    show ?thesis
    proof (cases "t_rxmt_tmr b = 1")
      case True
      then have "t_rxmt_tmr (rxmt_block b) = 0" using False by (auto simp: restarts_def rxmt_block_def)
      then have "card ?R = 0" using rxmt_off by (simp add: restarts_def)
      then show ?thesis using False by (simp only: if_False)
    next
      case n: False
      then have "t_count (rxmt_block b) = t_count b" by (simp add: rxmt_block_def)
      then show ?thesis using Suc.IH [of "rxmt_block b"] Suc.prems False by simp
    qed
  qed
  ultimately show ?case by (rule order_trans)
qed simp

text \<open>C40: The retransmission timer. One tick counts down the timers of all active connections. When one ends, within the limit
  of six, its connection starts again at the first unacknowledged byte, with the next longer interval, and the connections
  that start again and do not wait for output already join the output queue, in the order of the list and behind those
  that wait there (the queue has eight slots, and the statement is for a queue with room for them). After more than six the timer stays off.
  Over any number \<open>n\<close> of seconds in which nothing else happens (no segment, which resets the count), a connection with \<open>c\<close>
  retransmissions behind it starts again at most \<open>6 - c\<close> times.\<close>

theorem rxmt_tmr_blocks:
  assumes "ok s xs"
  shows "\<exists>u. tcp_rxmt_tmr s = Some u \<and> ok u xs \<and>
    (\<forall>q. pcbs u q = (if q \<in> set (xs ACTIVE) then rxmt_block (pcbs s q) else pcbs s q)) \<and>
    (length (outq s) + length (filter (\<lambda>q. joins (pcbs s q)) (xs ACTIVE)) \<le> NET_TCP_PCB_ACTIVE_MAX \<longrightarrow>
      outq u = outq s @ map Some (filter (\<lambda>q. joins (pcbs s q)) (xs ACTIVE))) \<and>
    (\<forall>n. rxmt_seconds n s \<noteq> None) \<and>
    (\<forall>n q. q \<in> set (xs ACTIVE) \<and> t_count (pcbs s q) \<noteq> 255 \<longrightarrow>
      card {k. k < n \<and> (\<exists>t. rxmt_seconds k s = Some t \<and> restarts (pcbs t q))} \<le> TCP_MAXRXMTS - unat (t_count (pcbs s q)))"
proof -
  obtain u where u: "tcp_rxmt_tmr s = Some u" "ok u xs"
    "\<forall>q. pcbs u q = (if q \<in> set (xs ACTIVE) then rxmt_block (pcbs s q) else pcbs s q)" using rxmt_tmr_walk [OF assms] by blast
  have d: "distinct (xs ACTIVE)" using ok_plist [OF assms] plist_distinct by blast
  have "u = fold rxmt_tick (xs ACTIVE) s"
    using tmr_loop_fold [OF assms, of "[]" "xs ACTIVE" rxmt_tick] rxmt_tick_ok u(1) by (simp add: tcp_rxmt_tmr_def)
  then have o: "length (outq s) + length (filter (\<lambda>q. joins (pcbs s q)) (xs ACTIVE)) \<le> 8 \<longrightarrow>
      outq u = outq s @ map Some (filter (\<lambda>q. joins (pcbs s q)) (xs ACTIVE))" using rxmt_fold_outq [OF d] by blast
  have n: "rxmt_seconds n s \<noteq> None" for n using rxmt_seconds_walk [OF assms, of n] by auto
  have "card {k. k < n \<and> (\<exists>t. rxmt_seconds k s = Some t \<and> restarts (pcbs t q))} \<le> TCP_MAXRXMTS - unat (t_count (pcbs s q))"
    if q: "q \<in> set (xs ACTIVE)" "t_count (pcbs s q) \<noteq> 255" for n q
  proof -
    have "(\<exists>t. rxmt_seconds k s = Some t \<and> restarts (pcbs t q)) \<longleftrightarrow> restarts ((rxmt_block ^^ k) (pcbs s q))" for k
      using rxmt_seconds_walk [OF assms, of k] q(1) by auto
    then show ?thesis using restarts_bound [OF q(2), of n] by simp
  qed
  then show ?thesis using u o n by blast
qed

section \<open>The idle timer\<close>

text \<open>What an established connection keeps: its receive queue and its place in the stream of the peer.\<close>

definition keeps :: "nat \<Rightarrow> tcp_system \<Rightarrow> tcp_system \<Rightarrow> bool" where
  "keeps p s u \<longleftrightarrow> (cstate u p = TCPS_ESTABLISHED \<longrightarrow>
    cstate s p = TCPS_ESTABLISHED \<and> rcv_nxt (pcbs u p) = rcv_nxt (pcbs s p) \<and> qbytes (rcv_q p) u = qbytes (rcv_q p) s)"

abbreviation keeps_all :: "tcp_system \<Rightarrow> tcp_system \<Rightarrow> bool" where
  "keeps_all s u \<equiv> \<forall>q < NET_TCP_PCB_ACTIVE_MAX. keeps q s u"

lemma keeps_order: "reflp keeps_all" "transp keeps_all"
  by (auto simp: reflp_def transp_def keeps_def)

lemma keeps_trans: "keeps p s t \<Longrightarrow> keeps p t u \<Longrightarrow> keeps p s u"
  by (auto simp: keeps_def)

lemma keeps_only: "only p s u \<Longrightarrow> q \<noteq> p \<Longrightarrow> q < NET_TCP_PCB_ACTIVE_MAX \<Longrightarrow> keeps q s u"
  by (auto simp: only_def keeps_def)

lemma keeps_own: "only p s u \<Longrightarrow> keeps p s u \<Longrightarrow> keeps_all s u"
  using keeps_only by metis

lemma keeps_pcbs: "bufs u = bufs s \<Longrightarrow> cstate u p = cstate s p \<Longrightarrow> rcv_nxt (pcbs u p) = rcv_nxt (pcbs s p) \<Longrightarrow> keeps p s u"
  by (simp add: keeps_def)

lemma tmo_close_ok:
  assumes "ok s xs" and "p \<in> set (xs ACTIVE)"
  shows "\<exists>u. tmo_close p s = Some u \<and> ok u (left_active xs p CLOSED) \<and> cstate u p = TCPS_CLOSED \<and> only p s u"
proof -
  obtain b d where b: "queue_free (snd_q p) s = Some (s\<lparr>bufs := b\<rparr>)" "queue_free (rcv_q p) (s\<lparr>bufs := b\<rparr>) = Some (s\<lparr>bufs := d\<rparr>)"
    and d: "ok (s\<lparr>bufs := d\<rparr>) xs" "bufs_bytes (rcv_q p) d = []" "bufs_bytes (snd_q p) d = []" "only p s (s\<lparr>bufs := d\<rparr>)"
    using release_both [OF assms, of "snd_q p" "rcv_q p"] by blast
  let ?t = "upd_pcb p (\<lambda>b. b\<lparr>t_state := TCPS_CLOSED\<rparr>) (s\<lparr>bufs := d\<rparr>)"
  have "core (s\<lparr>bufs := d\<rparr>) xs" using d(1) by (simp add: ok_def)
  then obtain l n where m: "list_move p ACTIVE CLOSED ?t = Some (0, ?t\<lparr>lst := l, nx := n\<rparr>)"
    "ok (?t\<lparr>lst := l, nx := n\<rparr>) (left_active xs p CLOSED)"
    using closed_ok [of "s\<lparr>bufs := d\<rparr>" xs p] assms(2) d unfolding left_active_def by (auto simp: ok_def)
  let ?v = "?t\<lparr>lst := l, nx := n\<rparr>"
  define u where "u = tcp_output_enqueue p (os_cond_signal (t_cond (pcbs ?v p)) ?v)"
  have "tmo_close p s = Some u" unfolding tmo_close_def b(1) bind.bind_lunit b(2) m(1) prod.case u_def ..
  moreover have "ok u (left_active xs p CLOSED)"
    by (rule ok_same [OF m(2)]) (simp_all add: u_def same_def enqueue_pcbs os_defs)
  moreover have "only p s u" using d(4) by (simp add: u_def enqueue_pcbs os_defs only_def)
  ultimately show ?thesis by (simp add: u_def enqueue_pcbs os_defs)
qed

lemma ok_keepalive: "ok s xs \<Longrightarrow> \<exists>u. tcp_keepalive True p s = Some u \<and> ok u xs \<and> pcbs u = pcbs s \<and> same s u"
  by (auto simp: tcp_keepalive_def Let_def same_def split: option.split intro: ok_same [of s])

text \<open>A tick returns, keeps the invariant, and touches one connection only.\<close>

definition ticked :: "(tcp_list \<Rightarrow> nat list) \<Rightarrow> nat \<Rightarrow> tcp_system \<Rightarrow> tcp_system option \<Rightarrow> bool" where
  "ticked xs p s r \<longleftrightarrow> (\<exists>u. r = Some u \<and> (ok u xs \<or> (\<exists>k. k \<noteq> ACTIVE \<and> ok u (left_active xs p k))) \<and> only p s u \<and> keeps p s u)"

lemma quiet_keeps: "quiet p s t \<Longrightarrow> only p s t \<and> keeps p s t"
  using only_quietI [of p s t] by (auto simp: quiet_def same_def keeps_def)

lemma tick_quiet: "quiet p s t \<Longrightarrow> ticked xs p t r \<Longrightarrow> ticked xs p s r"
  using quiet_keeps [of p s t] only_trans keeps_trans unfolding ticked_def by blast

lemma tick_done: "quiet p s t \<Longrightarrow> ok t xs \<Longrightarrow> ticked xs p s (Some t)"
  using quiet_keeps [of p s t] unfolding ticked_def by blast

lemma tick_close:
  assumes "ok s xs" and "p \<in> set (xs ACTIVE)"
  shows "ticked xs p s (tmo_close p s)"
proof -
  obtain u where "tmo_close p s = Some u" "ok u (left_active xs p CLOSED)" "cstate u p = TCPS_CLOSED" "only p s u"
    using tmo_close_ok [OF assms] by blast
  then show ?thesis unfolding ticked_def keeps_def by (intro exI [of _ u] conjI disjI2 exI [of _ CLOSED]) simp_all
qed

lemma tick_keep:
  assumes "ok s xs" and "p \<in> set (xs ACTIVE)"
  shows "ticked xs p s (keep_tick True p s)"
proof (cases "flag (t_flags (pcbs s p)) TF_IDLE")
  case False
  define v where "v = upd_pcb p (\<lambda>b. b\<lparr>t_count := 0, t_conn_tmr := tcp_keepintvl ! 0\<rparr>) (set_flag p TF_IDLE s)"
  have "quiet p (set_flag p TF_IDLE s) v" unfolding v_def by (rule quiet_upd) simp
  from quiet_trans [OF quiet_simps(1) this] have q: "quiet p s v" .
  have "keep_tick True p s = Some v" using False by (simp add: keep_tick_def v_def)
  then show ?thesis using tick_done [OF q quiet_ok [OF q assms(1)]] by simp
next
  case True
  define v where "v = upd_pcb p (\<lambda>b. b\<lparr>t_count := t_count b + 1\<rparr>) s"
  have q: "quiet p s v" unfolding v_def by (rule quiet_upd) simp
  note ov = quiet_ok [OF q assms(1)]
  obtain w where w: "(if unat (t_count (pcbs v p)) \<ge> 4 then tcp_keepalive True p v else Some v) = Some w" "quiet p v w"
  proof (cases "unat (t_count (pcbs v p)) \<ge> 4")
    case True
    obtain w where "tcp_keepalive True p v = Some w" "pcbs w = pcbs v" "same v w" using ok_keepalive [OF ov] by blast
    then show ?thesis using that [of w] True by (simp add: quiet_def)
  qed (use that [of v] in simp)
  define x where "x = upd_pcb p (\<lambda>b. b\<lparr>t_conn_tmr := tcp_keepintvl ! unat (t_count b)\<rparr>) w"
  have "quiet p w x" unfolding x_def by (rule quiet_upd) simp
  then have qx: "quiet p s x" using quiet_trans q w(2) by blast
  have "keep_tick True p s = (if unat (t_count (pcbs v p)) < 12 then Some x else tmo_close p v)"
    unfolding keep_tick_def Let_def v_def [symmetric] w(1) bind.bind_lunit x_def using True by simp
  then show ?thesis using tick_done [OF qx quiet_ok [OF qx assms(1)]] tick_quiet [OF q tick_close [OF ov assms(2)]] by simp
qed

lemma idle_tick_ok:
  assumes "ok s xs" and "p \<in> set (xs ACTIVE)"
  shows "ticked xs p s (idle_tick True p s)"
proof -
  define t where "t = upd_pcb p (\<lambda>b. b\<lparr>t_conn_tmr := t_conn_tmr b - 1\<rparr>) s"
  have qt: "quiet p s t" unfolding t_def by (rule quiet_upd) simp
  note ot = quiet_ok [OF qt assms(1)]
  have st: "cstate s p = cstate t p" by (simp add: t_def)
  have tw: "ticked xs p t (map_option snd (tcp_pcb_free p t))" if "cstate t p = TCPS_TIME_WAIT"
  proof -
    obtain u f where u: "tcp_pcb_free p t = Some (0, u)" "ok u (left_active xs p FREE)" "pcbs u = (pcbs t)(p := (pcbs t p)\<lparr>t_flags := f\<rparr>)"
      "routes u = routes t" "ifns u = ifns t" "\<forall>i<NQ. qbytes i u = (if i = rcv_q p \<or> i = snd_q p then [] else qbytes i t)"
      using free_active [OF ot assms(2)] unfolding left_active_def by blast
    then have "only p t u" "cstate u p \<noteq> TCPS_ESTABLISHED" using that by (auto simp: only_def)
    then show ?thesis using u(1,2) unfolding ticked_def keeps_def by (intro exI [of _ u]) auto
  qed
  have fw: "ticked xs p t (Some (upd_pcb p (\<lambda>b. b\<lparr>t_rxmt_tmr := 0, t_state := TCPS_TIME_WAIT, t_conn_tmr := 2 * tcp_msl\<rparr>) t))"
    using ok_upd [OF ot assms(2)] unfolding ticked_def by (simp add: only_def keeps_def)
  have e: "idle_tick True p s =
      (if t_conn_tmr (pcbs s p) \<noteq> 0 then
         if t_conn_tmr (pcbs t p) = 0 then
           (case cstate t p of TCPS_SYN_SENT \<Rightarrow> tmo_close p t | TCPS_SYN_RCVD \<Rightarrow> tmo_close p t | TCPS_ESTABLISHED \<Rightarrow> keep_tick True p t
            | TCPS_FIN_WAIT_2 \<Rightarrow> Some (upd_pcb p (\<lambda>b. b\<lparr>t_rxmt_tmr := 0, t_state := TCPS_TIME_WAIT, t_conn_tmr := 2 * tcp_msl\<rparr>) t)
            | TCPS_TIME_WAIT \<Rightarrow> map_option snd (tcp_pcb_free p t) | _ \<Rightarrow> Some t)
         else Some t
       else Some s)"
    unfolding idle_tick_def Let_def t_def [symmetric] ..
  have "ticked xs p t (case cstate t p of TCPS_SYN_SENT \<Rightarrow> tmo_close p t | TCPS_SYN_RCVD \<Rightarrow> tmo_close p t | TCPS_ESTABLISHED \<Rightarrow> keep_tick True p t
            | TCPS_FIN_WAIT_2 \<Rightarrow> Some (upd_pcb p (\<lambda>b. b\<lparr>t_rxmt_tmr := 0, t_state := TCPS_TIME_WAIT, t_conn_tmr := 2 * tcp_msl\<rparr>) t)
            | TCPS_TIME_WAIT \<Rightarrow> map_option snd (tcp_pcb_free p t) | _ \<Rightarrow> Some t)"
    using tick_close [OF ot assms(2)] tick_keep [OF ot assms(2)] fw tw tick_done [OF quiet_refl ot] by (cases "cstate t p") simp_all
  then show ?thesis unfolding e using tick_quiet [OF qt] tick_done [OF qt ot] tick_done [OF quiet_refl assms(1)] by (simp split: if_split)
qed

lemma idle_tmr_ok:
  assumes "ok s xs"
  shows "\<exists>u. tcp_idle_tmr True s = Some u \<and> tcp_ok u \<and> keeps_all s u"
proof -
  have "\<exists>u. idle_tick True p t = Some u \<and> (ok u xs \<or> (\<exists>k. k \<noteq> ACTIVE \<and> ok u (left_active xs p k))) \<and> keeps_all t u"
    if "ok t xs" "p \<in> set (xs ACTIVE)" for p t
    using idle_tick_ok [OF that] keeps_own unfolding ticked_def by blast
  from tmr_loop_ok [OF assms _ this keeps_order, of "[]" "xs ACTIVE"] show ?thesis unfolding tcp_idle_tmr_def by simp
qed

text \<open>The idle timer keeps the stack well formed, whatever connections it ends, as long as the driver has memory for its
  probes.\<close>

theorem idle_tmr_safe:
  assumes "tcp_ok s"
  shows "\<exists>u. tcp_idle_tmr True s = Some u \<and> tcp_ok u"
proof -
  obtain xs where xs: "ok s xs" using assms by (auto simp: tcp_ok_def)
  show ?thesis using idle_tmr_ok [OF xs] by blast
qed

theorem idle_tmr_safe_witness:
  "\<forall>d. \<exists>u. tcp_idle_tmr True (sample_tcp ACTIVE (zero_pcb\<lparr>t_state := TCPS_TIME_WAIT\<rparr>) d) = Some u \<and> tcp_ok u"
  using idle_tmr_safe sample_tcp_ok [of ACTIVE TCPS_TIME_WAIT] by simp

text \<open>When the timer closes a connection the walk follows the link of the closed block, which now ends another list: the
  connections behind it are not visited, so their timers miss this tick.\<close>

theorem idle_tmr_skips:
  assumes "ok s xs" and "xs ACTIVE = p # zs" and "t_conn_tmr (pcbs s p) = 1" and "t_state (pcbs s p) = TCPS_SYN_SENT \<or> t_state (pcbs s p) = TCPS_SYN_RCVD"
  shows "\<exists>u. tcp_idle_tmr True s = Some u \<and> t_state (pcbs u p) = TCPS_CLOSED \<and> (\<forall>q. q \<noteq> p \<longrightarrow> pcbs u q = pcbs s q)"
proof -
  define t where "t = upd_pcb p (\<lambda>b. b\<lparr>t_conn_tmr := t_conn_tmr b - 1\<rparr>) s"
  have ot: "ok t xs" unfolding t_def by (rule ok_upd_state [OF assms(1)]) simp
  have p: "p \<in> set (xs ACTIVE)" using assms(2) by simp
  obtain u where u: "tmo_close p t = Some u" "ok u (left_active xs p CLOSED)" "cstate u p = TCPS_CLOSED" "\<forall>q. q \<noteq> p \<longrightarrow> pcbs u q = pcbs t q"
    using tmo_close_ok [OF ot p] unfolding only_def by blast
  have "idle_tick True p s = Some u"
    using assms(3,4) u(1) unfolding idle_tick_def Let_def t_def [symmetric] by (auto simp: t_def)
  moreover have "tmr_loop (idle_tick True) (Buf p) u = Some u" using tmr_loop_end [OF u(2)] by simp
  ultimately have "tcp_idle_tmr True s = Some u"
    using tmr_loop_step [OF assms(1), of "[]" "p # zs" "idle_tick True"] assms(2) by (simp add: tcp_idle_tmr_def)
  then show ?thesis using u(3,4) by (simp add: t_def)
qed

theorem rxmt_tmr_blocks_witness:
  "\<forall>d. \<exists>u. tcp_rxmt_tmr (sample_tcp ACTIVE (zero_pcb\<lparr>t_state := TCPS_ESTABLISHED, t_rxmt_tmr := 1, snd_off := 7\<rparr>) d) = Some u \<and>
    t_rxmt_tmr (pcbs u 0) = 6 \<and> snd_off (pcbs u 0) = 0 \<and> outq u = [Some 0]"
proof
  fix d
  let ?b = "zero_pcb\<lparr>t_state := TCPS_ESTABLISHED, t_rxmt_tmr := 1, snd_off := 7\<rparr>"
  let ?s = "sample_tcp ACTIVE ?b d"
  have "ok ?s (sample_lists ACTIVE)" by (rule sample_ok) simp_all
  from rxmt_tmr_blocks [OF this] obtain u where u: "tcp_rxmt_tmr ?s = Some u"
    "\<forall>q. pcbs u q = (if q \<in> set (sample_lists ACTIVE ACTIVE) then rxmt_block (pcbs ?s q) else pcbs ?s q)"
    "length (outq ?s) + length (filter (\<lambda>q. joins (pcbs ?s q)) (sample_lists ACTIVE ACTIVE)) \<le> 8 \<longrightarrow>
      outq u = outq ?s @ map Some (filter (\<lambda>q. joins (pcbs ?s q)) (sample_lists ACTIVE ACTIVE))" by blast
  have l: "sample_lists ACTIVE ACTIVE = [0]" "pcbs ?s 0 = ?b" "outq ?s = []" by (simp_all add: sample_lists_def sample_tcp_def outq_def)
  have j: "joins ?b" by (simp add: joins_def restarts_def zero_pcb_def flag_def)
  have "t_rxmt_tmr (rxmt_block ?b) = 6" "snd_off (rxmt_block ?b) = 0"
    by (simp_all add: rxmt_block_def tcp_rxmtintvl_def zero_pcb_def)
  moreover have "pcbs u 0 = rxmt_block ?b" using u(2) l by simp
  moreover have "outq u = [Some 0]" using u(3) l j by simp
  ultimately show "\<exists>u. tcp_rxmt_tmr ?s = Some u \<and> t_rxmt_tmr (pcbs u 0) = 6 \<and> snd_off (pcbs u 0) = 0 \<and> outq u = [Some 0]"
    using u(1) by (intro exI [of _ u]) simp
qed

theorem fast_tmr_blocks_witness:
  "\<forall>d. \<exists>u. tcp_fast_tmr (sample_tcp ACTIVE (zero_pcb\<lparr>t_state := TCPS_ESTABLISHED, t_flags := TF_DELACK\<rparr>) d) = Some u \<and>
    t_flags (pcbs u 0) = TF_ACKNOW OR TF_NEEDOUTPUT"
proof
  fix d
  let ?b = "zero_pcb\<lparr>t_state := TCPS_ESTABLISHED, t_flags := TF_DELACK\<rparr>"
  have "ok (sample_tcp ACTIVE ?b d) (sample_lists ACTIVE)" by (rule sample_ok) simp_all
  from fast_tmr_blocks [OF this] obtain u where u: "tcp_fast_tmr (sample_tcp ACTIVE ?b d) = Some u" "pcbs u 0 = fast_block ?b"
    by (auto simp: sample_lists_def sample_tcp_def)
  have "t_flags (fast_block ?b) = TF_ACKNOW OR TF_NEEDOUTPUT" by (simp add: fast_block_def need_output_def flag_def)
  then show "\<exists>u. tcp_fast_tmr (sample_tcp ACTIVE ?b d) = Some u \<and> t_flags (pcbs u 0) = TF_ACKNOW OR TF_NEEDOUTPUT"
    using u by (intro exI [of _ u]) simp
qed

theorem idle_tmr_skips_witness:
  "\<forall>d. \<exists>u. tcp_idle_tmr True (sample_tcp ACTIVE (zero_pcb\<lparr>t_state := TCPS_SYN_SENT, t_conn_tmr := 1\<rparr>) d) = Some u \<and>
    t_state (pcbs u 0) = TCPS_CLOSED"
proof
  fix d
  let ?s = "sample_tcp ACTIVE (zero_pcb\<lparr>t_state := TCPS_SYN_SENT, t_conn_tmr := 1\<rparr>) d"
  have "ok ?s (sample_lists ACTIVE)" by (rule sample_ok) simp_all
  moreover have "sample_lists ACTIVE ACTIVE = 0 # []" "t_conn_tmr (pcbs ?s 0) = 1" "t_state (pcbs ?s 0) = TCPS_SYN_SENT"
    by (simp_all add: sample_lists_def sample_tcp_def)
  ultimately show "\<exists>u. tcp_idle_tmr True ?s = Some u \<and> t_state (pcbs u 0) = TCPS_CLOSED"
    using idle_tmr_skips [of ?s "sample_lists ACTIVE" 0 "[]"] by blast
qed

end
