(* ===== verification/Net_Tcp_User.thy ===== *)
theory Net_Tcp_User
  imports Net_Tcp_Tmr
begin

text \<open>
  The calls of the applications: \<open>tcp_bind\<close>, \<open>tcp_listen\<close>, \<open>tcp_connect\<close>, \<open>tcp_accept\<close>, \<open>tcp_send\<close>, \<open>tcp_recv\<close> and
  \<open>tcp_close\<close> (the files of these names under \<^verbatim>\<open>src/src/sdk/libtcpip/tcp\<close>). A call runs under the lock of the stack; where it
  waits on the condition variable of its connection the lock is given up, and the call goes on later in a state that other
  threads have changed. Such a call is modelled by the code between two waits: it returns, or it waits and says with what
  it goes on. The handles are never null. \<open>nm\<close> is the kernel's number of the lock.
\<close>

section \<open>Definitions\<close>

abbreviation ENOMEM :: int where "ENOMEM \<equiv> 12"
abbreviation ENOTSOCK :: int where "ENOTSOCK \<equiv> 88"
abbreviation EADDRINUSE :: int where "EADDRINUSE \<equiv> 98"

text \<open>Waiting: the lock is released by the kernel in the same step.\<close>

definition os_cond_wait :: "int \<Rightarrow> int \<Rightarrow> tcp_system \<Rightarrow> tcp_system" where
  "os_cond_wait c nm s = s\<lparr>kern := snd (thinkos_cond_wait_svc (\<lambda>i. if i = 0 then of_int c else of_int nm) (kern s)), netlock := False\<rparr>"

subsection \<open>Bind\<close>

definition can_bind :: "u32 \<Rightarrow> u16 \<Rightarrow> tcp_system \<Rightarrow> bool option" where
  "can_bind addr port s =
    bind (pcb_lookup INADDR_ANY 0 addr port (lst s LISTEN) (nx s) (pcbs s)) (\<lambda>r.
      if r \<noteq> None then Some False
      else map_option (\<lambda>r. r = None) (pcb_lookup INADDR_ANY 0 addr port (lst s CLOSED) (nx s) (pcbs s)))"

partial_function (option) bind_loop :: "u32 \<Rightarrow> tcp_system \<Rightarrow> (u16 \<times> tcp_system) option" where
  "bind_loop addr s =
    (let port = ntohs ((port_seq s AND 0x7fff) + 1024);
         s = s\<lparr>port_seq := port_seq s + 1\<rparr>
     in bind (can_bind addr port s) (\<lambda>free. if free then Some (port, s) else bind_loop addr s))"

definition tcp_bind :: "nat \<Rightarrow> u32 \<Rightarrow> u16 \<Rightarrow> tcp_system \<Rightarrow> (int \<times> tcp_system) option" where
  "tcp_bind p addr port s =
    bind (pcb_find p (lst s CLOSED) (nx s)) (\<lambda>r.
      if r < 0 then Some (- ENOTSOCK, s)
      else let s = net_lock s
        in bind (if port = 0 then map_option (\<lambda>(port, s). (Some port, s)) (bind_loop addr s)
                 else map_option (\<lambda>free. (if free then Some port else None, s)) (can_bind addr port s))
           (\<lambda>(port, s). case port of
              None \<Rightarrow> Some (- EADDRINUSE, s)
            | Some port \<Rightarrow> Some (0, net_unlock (upd_pcb p (\<lambda>b. b\<lparr>inp_lport := port, inp_laddr := addr\<rparr>) s))))"

subsection \<open>Listen and accept\<close>

text \<open>The backlog shares its memory with a \<open>tcp_pcb\<close>: (64 - 20) / 4.\<close>

abbreviation TCP_BACKLOG_MAX :: int where "TCP_BACKLOG_MAX \<equiv> 11"

text \<open>The comparison is unsigned.\<close>

definition backlog_size :: "int \<Rightarrow> int" where
  "backlog_size backlog = (if backlog < 0 \<or> backlog > TCP_BACKLOG_MAX - 1 then TCP_BACKLOG_MAX else backlog + 1)"

definition tcp_listen :: "nat \<Rightarrow> int \<Rightarrow> tcp_system \<Rightarrow> (int \<times> tcp_system) option" where
  "tcp_listen p backlog s =
    (let backlog = backlog_size backlog;
         s = net_lock s
     in bind (pcb_wildlookup INADDR_ANY 0 (inp_laddr (pcbs s p)) (inp_lport (pcbs s p)) (lst s LISTEN) (nx s) (pcbs s)) (\<lambda>r.
          if r \<noteq> None then Some (- EADDRINUSE, net_unlock s)
          else if t_state (pcbs s p) = TCPS_CLOSED then
            (case os_call thinkos_sem_alloc_svc 0 s of (sem, s) \<Rightarrow>
               if sem < 0 then Some (- ENOMEM, net_unlock s)
               else map_option (\<lambda>(_, s). (0, net_unlock s))
                 (list_move p CLOSED LISTEN
                   (upd_pcb p (\<lambda>b. b\<lparr>t_state := TCPS_LISTEN, t_max := of_int backlog, t_tail := 0, t_head := 0, t_sem := sem\<rparr>) s)))
          else if t_state (pcbs s p) = TCPS_LISTEN then Some (0, net_unlock (list_insert p LISTEN s))
          else Some (0, net_unlock (net_unlock s))))"

text \<open>After a successful wait on the semaphore of the listener.\<close>

definition tcp_accept :: "nat \<Rightarrow> tcp_system \<Rightarrow> nat option \<times> tcp_system" where
  "tcp_accept mux s =
    (let s = net_lock s
     in if t_state (pcbs s mux) \<noteq> TCPS_LISTEN then (None, net_unlock s)
        else let tail = unat (t_tail (pcbs s mux));
                 tp = t_backlog (pcbs s mux) tail;
                 tail = tail + 1;
                 tail = (if tail = unat (t_max (pcbs s mux)) then 0 else tail)
             in (tp, net_unlock (upd_pcb mux (\<lambda>b. b\<lparr>t_tail := of_nat tail\<rparr>) s)))"

subsection \<open>Connect\<close>

text \<open>The result of the code between two waits.\<close>

datatype ('a, 'b) progress = Returns 'a | Waits 'b

text \<open>The waiting loop.\<close>

definition connect_wait :: "nat \<Rightarrow> int \<Rightarrow> tcp_system \<Rightarrow> ((int, unit) progress \<times> tcp_system) option" where
  "connect_wait p nm s =
    (if t_state (pcbs s p) = TCPS_CLOSED then
       bind (queue_free (snd_q p) (os_cond_free (t_cond (pcbs s p)) s)) (\<lambda>s. bind (queue_free (rcv_q p) s) (\<lambda>s.
         Some (Returns (- 1), net_unlock s)))
     else if t_state (pcbs s p) \<in> {TCPS_TIME_WAIT, TCPS_CLOSING, TCPS_LAST_ACK, TCPS_CLOSE_WAIT} then Some (Returns (- 1), net_unlock s)
     else if t_state (pcbs s p) = TCPS_ESTABLISHED then Some (Returns 0, net_unlock s)
     else Some (Waits (), os_cond_wait (t_cond (pcbs s p)) nm s))"

text \<open>The MSS and the local address; \<open>None\<close> when there is neither a route nor a local address. The route is the one for
  the foreign address that the block had before.\<close>

definition connect_route :: "nat \<Rightarrow> tcp_system \<Rightarrow> (int \<times> u32) option option" where
  "connect_route p s =
    (case route_lookup (inp_faddr (pcbs s p)) (routes s) of
       None \<Rightarrow> Some (if inp_laddr (pcbs s p) = INADDR_ANY then None else Some (int tcp_defmss, inp_laddr (pcbs s p)))
     | Some rt \<Rightarrow> bind (rt_ifn (routes s ! rt)) (\<lambda>i. Some (Some (int (unat (if_mtu (ifns s i))) - 40,
         if inp_laddr (pcbs s p) = INADDR_ANY then if_ipv4_addr (ifns s i) else inp_laddr (pcbs s p)))))"

definition connect_open :: "nat \<Rightarrow> u32 \<Rightarrow> int \<Rightarrow> int \<Rightarrow> tcp_system \<Rightarrow> tcp_system option" where
  "connect_open p laddr mss c s =
    (let s = upd_pcb p (\<lambda>b. b\<lparr>t_cond := c, inp_laddr := laddr, t_maxseg := of_int mss\<rparr>) s;
         s = queue_init (snd_q p) (queue_init (rcv_q p) s);
         s = s\<lparr>iss := iss s + 1\<rparr>;
         s = upd_pcb p (\<lambda>b. b\<lparr>rcv_nxt := 0, snd_seq := push_bit 20 (ucast (iss s)), snd_off := 0, snd_max := 0,
               snd_wnd := 1, t_conn_tmr := tcp_conn_est_tmo\<rparr>) s
     in map_option (\<lambda>(_, s). tcp_output_sched p (upd_pcb p (\<lambda>b. b\<lparr>t_state := TCPS_SYN_SENT\<rparr>) s)) (list_move p CLOSED ACTIVE s))"

definition tcp_connect :: "nat \<Rightarrow> u32 \<Rightarrow> u16 \<Rightarrow> int \<Rightarrow> tcp_system \<Rightarrow> ((int, unit) progress \<times> tcp_system) option" where
  "tcp_connect p addr port nm s =
    bind (pcb_find p (lst s CLOSED) (nx s)) (\<lambda>r.
      if r < 0 then Some (Returns (- ENOTSOCK), s)
      else let s = net_lock s
        in bind (connect_route p s) (\<lambda>ml.
          case ml of
            None \<Rightarrow> Some (Returns (- 1), net_unlock s)
          | Some (mss, laddr) \<Rightarrow>
              bind (pcb_lookup addr port laddr (inp_lport (pcbs s p)) (lst s LISTEN) (nx s) (pcbs s)) (\<lambda>r.
                if r \<noteq> None then Some (Returns (- EADDRINUSE), s)
                else let s = upd_pcb p (\<lambda>b. b\<lparr>inp_faddr := addr, inp_fport := port\<rparr>) s;
                         mss = (if mss > int tcp_maxmss then int tcp_maxmss else mss)
                     in case os_call thinkos_cond_alloc_svc 0 s of (c, s) \<Rightarrow>
                       if c < 0 then Some (Returns (- 1), net_unlock (upd_pcb p (\<lambda>b. b\<lparr>t_cond := c\<rparr>) s))
                       else bind (connect_open p laddr mss c s) (connect_wait p nm))))"

subsection \<open>Close\<close>

definition close_output :: "nat \<Rightarrow> tcp_system \<Rightarrow> int \<times> tcp_system" where
  "close_output p s = (0, net_unlock (tcp_output_sched p (set_flag p TF_ACKNOW s)))"

definition close_free :: "nat \<Rightarrow> tcp_system \<Rightarrow> (int \<times> tcp_system) option" where
  "close_free p s =
    (let s = (if t_cond (pcbs s p) \<ge> 0 then upd_pcb p (\<lambda>b. b\<lparr>t_cond := - 1\<rparr>) (os_cond_free (t_cond (pcbs s p)) s) else s)
     in map_option (\<lambda>(r, s). (r, net_unlock s)) (tcp_pcb_free p s))"

definition tcp_close :: "nat \<Rightarrow> tcp_system \<Rightarrow> (int \<times> tcp_system) option" where
  "tcp_close p s =
    (let s = net_lock s
     in case t_state (pcbs s p) of
          TCPS_LISTEN \<Rightarrow> map_option (\<lambda>(r, s). (r, net_unlock s)) (tcp_pcb_free p s)
        | TCPS_TIME_WAIT \<Rightarrow> close_free p s
        | TCPS_CLOSED \<Rightarrow> close_free p s
        | TCPS_SYN_SENT \<Rightarrow> close_free p s
        | TCPS_SYN_RCVD \<Rightarrow> Some (close_output p (upd_pcb p (\<lambda>b. b\<lparr>t_state := TCPS_FIN_WAIT_1\<rparr>) s))
        | TCPS_ESTABLISHED \<Rightarrow> Some (close_output p (upd_pcb p (\<lambda>b. b\<lparr>t_state := TCPS_FIN_WAIT_1\<rparr>) s))
        | TCPS_CLOSE_WAIT \<Rightarrow>
            let n = of_nat (queue_len (snd_q p) s);
                s = upd_pcb p (\<lambda>b. b\<lparr>t_state := TCPS_LAST_ACK, snd_off := snd_off b - n, snd_max := snd_max b - n\<rparr>) s
            in bind (queue_free (snd_q p) s) (\<lambda>s. bind (queue_free (rcv_q p) s) (\<lambda>s. Some (close_output p s)))
        | _ \<Rightarrow> Some (- 1, net_unlock s))"

subsection \<open>Send and receive\<close>

text \<open>The bytes that remain when the call waits: for space in the send queue, on the condition variable, or for a block of
  the pool (\<open>mbuf_wait\<close>, which gives up the lock while it waits on the pool's own condition variable).\<close>

partial_function (option) send_loop ::
    "nat \<Rightarrow> int \<Rightarrow> u8 list \<Rightarrow> tcp_system \<Rightarrow> ((unit, u8 list) progress \<times> tcp_system) option" where
  "send_loop p nm rem s =
    (if rem = [] then Some (Returns (), s)
     else let m = int tcp_maxsnd - int (queue_len (snd_q p) s)
       in if m \<le> 0 then
            let s = tcp_output_sched p (set_flag p TF_ACKNOW s)
            in Some (Waits rem, os_cond_wait (t_cond (pcbs s p)) nm s)
          else bind (queue_add (snd_q p) (take (nat m) rem) s) (\<lambda>(n, s).
            if n = 0 then Some (Waits rem, net_unlock s) else send_loop p nm (drop n rem) s))"

definition send_step :: "nat \<Rightarrow> nat \<Rightarrow> int \<Rightarrow> int \<Rightarrow> u8 list \<Rightarrow> tcp_system \<Rightarrow> ((int, u8 list) progress \<times> tcp_system) option" where
  "send_step p len flags nm rem s =
    (if t_state (pcbs s p) \<noteq> TCPS_ESTABLISHED then
       if t_state (pcbs s p) = TCPS_SYN_RCVD then Some (Waits rem, os_cond_wait (t_cond (pcbs s p)) nm s)
       else Some (Returns (- 1), net_unlock s)
     else bind (send_loop p nm rem s) (\<lambda>(r, s).
       case r of
         Waits rem \<Rightarrow> Some (Waits rem, s)
       | Returns _ \<Rightarrow>
           let s = (if len > 0 then
                 if flags AND 4 \<noteq> 0 \<or> int (queue_len (snd_q p) s) - int (q_offs (fst (bufs s) (snd_q p))) \<ge> int (unat (t_maxseg (pcbs s p)))
                 then tcp_output_sched p s else set_flag p TF_DELACK s
               else s)
           in Some (Returns (int len), net_unlock s)))"

definition tcp_send :: "nat \<Rightarrow> u8 list \<Rightarrow> int \<Rightarrow> int \<Rightarrow> tcp_system \<Rightarrow> ((int, u8 list) progress \<times> tcp_system) option" where
  "tcp_send p buf flags nm s = send_step p (length buf) flags nm buf (net_lock s)"

definition recv_step :: "nat \<Rightarrow> nat \<Rightarrow> int \<Rightarrow> tcp_system \<Rightarrow> ((int \<times> u8 list, unit) progress \<times> tcp_system) option" where
  "recv_step p len nm s =
    (if t_state (pcbs s p) = TCPS_CLOSED then Some (Returns (- 1, []), net_unlock s)
     else if t_state (pcbs s p) \<in> {TCPS_TIME_WAIT, TCPS_CLOSING, TCPS_LAST_ACK} then Some (Returns (0, []), net_unlock s)
     else if queue_len (rcv_q p) s = 0 then
       if t_state (pcbs s p) = TCPS_CLOSE_WAIT then Some (Returns (0, []), net_unlock s)
       else Some (Waits (), os_cond_wait (t_cond (pcbs s p)) nm s)
     else bind (queue_remove (rcv_q p) len s) (\<lambda>(d, s).
       if t_state (pcbs s p) \<in> {TCPS_FIN_WAIT_1, TCPS_FIN_WAIT_2} then Some (Returns (int (length d), d), net_unlock s)
       else let s = (if queue_len (rcv_q p) s = 0
               then tcp_output_sched p (if flag (t_flags (pcbs s p)) TF_DELACK then set_flag p TF_ACKNOW s else s) else s)
         in Some (Returns (int (length d), d), net_unlock s)))"

definition tcp_recv :: "nat \<Rightarrow> nat \<Rightarrow> int \<Rightarrow> tcp_system \<Rightarrow> ((int \<times> u8 list, unit) progress \<times> tcp_system) option" where
  "tcp_recv p len nm s = (if len = 0 then Some (Returns (- 1, []), s) else recv_step p len nm (net_lock s))"

section \<open>The calls keep the stack in order\<close>

lemma ok_lock [simp]: "ok (s\<lparr>netlock := b\<rparr>) xs \<longleftrightarrow> ok s xs"
  by (simp add: ok_def core_def parts_def)

lemma ok_locks [simp]: "ok (net_lock s) xs \<longleftrightarrow> ok s xs" "ok (net_unlock s) xs \<longleftrightarrow> ok s xs"
  by (simp_all add: net_lock_def net_unlock_def)

lemma tcp_ok_locks [simp]: "tcp_ok (net_lock s) \<longleftrightarrow> tcp_ok s" "tcp_ok (net_unlock s) \<longleftrightarrow> tcp_ok s"
  by (simp_all add: tcp_ok_def)

lemma netlock_simps [simp]:
  "lst (net_lock s) = lst s" "nx (net_lock s) = nx s" "pcbs (net_lock s) = pcbs s" "bufs (net_lock s) = bufs s" "routes (net_lock s) = routes s"
  "ifns (net_lock s) = ifns s" "netlock (net_lock s)"
  "lst (net_unlock s) = lst s" "nx (net_unlock s) = nx s" "pcbs (net_unlock s) = pcbs s" "bufs (net_unlock s) = bufs s"
  "routes (net_unlock s) = routes s" "ifns (net_unlock s) = ifns s" "\<not> netlock (net_unlock s)"
  by (simp_all add: net_lock_def net_unlock_def)

lemma wait_simps [simp]:
  "lst (os_cond_wait c nm s) = lst s" "nx (os_cond_wait c nm s) = nx s" "pcbs (os_cond_wait c nm s) = pcbs s" "bufs (os_cond_wait c nm s) = bufs s"
  "routes (os_cond_wait c nm s) = routes s" "ifns (os_cond_wait c nm s) = ifns s" "\<not> netlock (os_cond_wait c nm s)"
  by (simp_all add: os_cond_wait_def)

lemma ok_agree:
  assumes "ok s xs" and "lst u = lst s" and "nx u = nx s" and "bufs u = bufs s" and "routes u = routes s" and "\<And>q. t_state (pcbs u q) = t_state (pcbs s q)"
  shows "ok u xs"
  using assms parts_cong [of u s xs] by (simp add: ok_def core_def)

lemma ok_wait [simp]: "ok s xs \<Longrightarrow> ok (os_cond_wait c nm s) xs"
  by (rule ok_agree) simp_all

subsection \<open>Bind\<close>

lemma lookup_list: "ok s xs \<Longrightarrow> pcb_lookup fa fp la lp (lst s k) (nx s) B =
    Some (List.find (\<lambda>m. inp_lport (B m) = lp \<and> inp_laddr (B m) = la \<and> inp_faddr (B m) = fa \<and> inp_fport (B m) = fp) (xs k))"
  unfolding pcb_lookup_def by (rule find_loop_list [OF ok_plist])

text \<open>The address and port are free when no unconnected block that is closed or listening has them.\<close>

definition port_free :: "(tcp_list \<Rightarrow> nat list) \<Rightarrow> u32 \<Rightarrow> u16 \<Rightarrow> tcp_system \<Rightarrow> bool" where
  "port_free xs addr port s \<longleftrightarrow> (\<forall>q \<in> set (xs LISTEN) \<union> set (xs CLOSED).
    \<not> (inp_lport (pcbs s q) = port \<and> inp_laddr (pcbs s q) = addr \<and> inp_faddr (pcbs s q) = 0 \<and> inp_fport (pcbs s q) = 0))"

lemma can_bind_free:
  assumes "ok s xs"
  shows "can_bind addr port s = Some (port_free xs addr port s)"
proof -
  let ?P = "\<lambda>m. inp_lport (pcbs s m) = port \<and> inp_laddr (pcbs s m) = addr \<and> inp_faddr (pcbs s m) = 0 \<and> inp_fport (pcbs s m) = 0"
  have f: "List.find ?P ys = None \<longleftrightarrow> (\<forall>y \<in> set ys. \<not> ?P y)" for ys by (auto simp: find_None_iff)
  have "can_bind addr port s = (if List.find ?P (xs LISTEN) = None then Some (List.find ?P (xs CLOSED) = None) else Some False)"
    unfolding can_bind_def lookup_list [OF assms] by simp
  then show ?thesis unfolding f port_free_def by auto
qed

text \<open>The ephemeral ports that the loop tries first are different, and eight blocks cannot have nine of them.\<close>

abbreviation eph :: "u16 \<Rightarrow> u16" where "eph x \<equiv> ntohs ((x AND 0x7fff) + 1024)"

lemma eph_inj:
  fixes x :: u16
  assumes "i < 32768" and "j < 32768" and "eph (x + of_nat i) = eph (x + of_nat j)"
  shows "i = j"
proof -
  have m: "unat ((x + of_nat n) AND 0x7fff) = (unat x + n) mod 32768" for n
  proof -
    have "(x + of_nat n) AND 0x7fff = take_bit 15 (x + of_nat n)" by (simp add: take_bit_eq_mask mask_eq_exp_minus_1)
    moreover have "unat (take_bit 15 (x + of_nat n)) = unat (x + of_nat n) mod 2 ^ 15" by (subst unsigned_take_bit_eq) (rule take_bit_eq_mod)
    moreover have "unat (x + of_nat n) = (unat x + n) mod 2 ^ 16" by (simp add: unat_word_ariths unat_of_nat mod_add_right_eq)
    moreover have "(unat x + n) mod 2 ^ 16 mod 2 ^ 15 = (unat x + n) mod 2 ^ 15" by (rule mod_mod_cancel) simp
    ultimately show ?thesis by simp
  qed
  have "bswap_16 (eph (x + of_nat i)) = bswap_16 (eph (x + of_nat j))" using assms(3) by (rule arg_cong)
  then have "((x + of_nat i) AND 0x7fff) + 1024 = ((x + of_nat j) AND 0x7fff) + 1024" by (simp only: bswap_roundtrip)
  then have "((x + of_nat i) AND 0x7fff) = ((x + of_nat j) AND 0x7fff)" by (rule add_right_imp_eq)
  then have "(unat x + i) mod 32768 = (unat x + j) mod 32768" unfolding m [symmetric] by (rule arg_cong)
  then have "32768 dvd (unat x + i) - (unat x + j)" "32768 dvd (unat x + j) - (unat x + i)"
    by (metis mod_eq_dvd_iff_nat nat_le_linear diff_is_0_eq' dvd_0_right)+
  then have "32768 dvd i - j" "32768 dvd j - i" by simp_all
  then have "i - j = 0" "j - i = 0" using assms(1,2) dvd_imp_le [of 32768 "i - j"] dvd_imp_le [of 32768 "j - i"] by linarith+
  then show ?thesis by simp
qed

text \<open>The port is free in the first of the tries below.\<close>

lemma bind_loop_first:
  assumes "ok s xs" and "k < 32768" and "port_free xs addr (eph (port_seq s + of_nat k)) s"
  shows "\<exists>j y. bind_loop addr s = Some (eph (port_seq s + of_nat j), s\<lparr>port_seq := y\<rparr>) \<and> port_free xs addr (eph (port_seq s + of_nat j)) s"
  using assms
proof (induction k arbitrary: s)
  case 0
  let ?t = "s\<lparr>port_seq := port_seq s + 1\<rparr>"
  have "ok ?t xs" by (rule ok_agree [OF 0(1)]) simp_all
  then have "can_bind addr (eph (port_seq s)) ?t = Some True" using 0(3) can_bind_free by (simp add: port_free_def)
  then have "bind_loop addr s = Some (eph (port_seq s + of_nat 0), ?t)" by (subst bind_loop.simps) (simp add: Let_def)
  then show ?case using 0(3) by blast
next
  case (Suc k)
  let ?t = "s\<lparr>port_seq := port_seq s + 1\<rparr>"
  have t: "ok ?t xs" by (rule ok_agree [OF Suc(2)]) simp_all
  have c: "can_bind addr (eph (port_seq s)) ?t = Some (port_free xs addr (eph (port_seq s)) s)"
    using can_bind_free [OF t] by (simp add: port_free_def)
  have e: "bind_loop addr s = (if port_free xs addr (eph (port_seq s)) s then Some (eph (port_seq s), ?t) else bind_loop addr ?t)"
    by (subst bind_loop.simps) (simp add: Let_def c)
  have sh: "port_seq ?t + of_nat j = port_seq s + of_nat (Suc j)" for j by simp
  have pf: "port_free xs addr q ?t = port_free xs addr q s" for q by (simp add: port_free_def)
  show ?case
  proof (cases "port_free xs addr (eph (port_seq s)) s")
    case True
    then have "bind_loop addr s = Some (eph (port_seq s + of_nat 0), ?t)" using e by simp
    then show ?thesis using True by (intro exI [of _ 0] exI [of _ "port_seq s + 1"]) simp
  next
    case False
    have "port_free xs addr (eph (port_seq ?t + of_nat k)) ?t" using Suc(4) unfolding pf sh .
    then obtain j y where "bind_loop addr ?t = Some (eph (port_seq ?t + of_nat j), ?t\<lparr>port_seq := y\<rparr>)"
      "port_free xs addr (eph (port_seq ?t + of_nat j)) ?t" using Suc.IH [OF t] Suc(3) by auto
    then have "bind_loop addr s = Some (eph (port_seq s + of_nat (Suc j)), s\<lparr>port_seq := y\<rparr>)"
      "port_free xs addr (eph (port_seq s + of_nat (Suc j))) s" using e False unfolding pf sh by simp_all
    then show ?thesis by blast
  qed
qed

lemma some_port_free:
  assumes "ok s xs"
  shows "\<exists>k \<le> 8. port_free xs addr (eph (port_seq s + of_nat k)) s"
proof (rule ccontr)
  assume a: "\<not> (\<exists>k \<le> 8. port_free xs addr (eph (port_seq s + of_nat k)) s)"
  let ?f = "\<lambda>k. eph (port_seq s + of_nat k)"
  have "?f ` {..8} \<subseteq> (\<lambda>q. inp_lport (pcbs s q)) ` {..<NET_TCP_PCB_ACTIVE_MAX}"
  proof
    fix y assume "y \<in> ?f ` {..8}"
    then obtain k where k: "k \<le> 8" "y = ?f k" by auto
    then obtain l q where "q \<in> set (xs l)" "inp_lport (pcbs s q) = y" using a unfolding port_free_def by blast
    moreover have "parts s xs" using assms by (simp add: ok_def core_def)
    ultimately show "y \<in> (\<lambda>q. inp_lport (pcbs s q)) ` {..<NET_TCP_PCB_ACTIVE_MAX}" using partsD(3) by blast
  qed
  then have "card (?f ` {..8}) \<le> card ((\<lambda>q. inp_lport (pcbs s q)) ` {..<NET_TCP_PCB_ACTIVE_MAX})" by (intro card_mono) auto
  also have "\<dots> \<le> NET_TCP_PCB_ACTIVE_MAX" using card_image_le [of "{..<NET_TCP_PCB_ACTIVE_MAX}"] by simp
  finally have "card (?f ` {..8}) \<le> 8" .
  moreover have "inj_on ?f {..8}" by (rule inj_onI) (rule eph_inj [where x = "port_seq s"], auto)
  ultimately show False using card_image [of ?f "{..8}"] by simp
qed

lemma bind_loop_ok:
  assumes "ok s xs"
  shows "\<exists>port y. bind_loop addr s = Some (port, s\<lparr>port_seq := y\<rparr>) \<and> port_free xs addr port s \<and> (\<exists>x. port = eph x)"
proof -
  obtain k where "k \<le> 8" "port_free xs addr (eph (port_seq s + of_nat k)) s" using some_port_free [OF assms] by blast
  then show ?thesis using bind_loop_first [OF assms, of k addr] by auto
qed

subsection \<open>Lists and buffers\<close>

lemma keeps_locks [simp]: "keeps p (net_lock s) u \<longleftrightarrow> keeps p s u" "keeps p s (net_lock u) \<longleftrightarrow> keeps p s u" "keeps p s (net_unlock u) \<longleftrightarrow> keeps p s u"
  "keeps p s (os_cond_wait c nm u) \<longleftrightarrow> keeps p s u" "keeps p s s"
  by (simp_all add: keeps_def)

lemma only_locks [simp]: "only p (net_lock s) u \<longleftrightarrow> only p s u" "only p s (net_unlock u) \<longleftrightarrow> only p s u"
  by (simp_all add: only_def)

lemma keeps_flags: "flags_only p s u \<Longrightarrow> keeps_all s u"
  using keeps_own quiet_keeps [OF quiet_flags] by blast

lemma keeps_all_trans: "keeps_all s t \<Longrightarrow> keeps_all t u \<Longrightarrow> keeps_all s u"
  using keeps_trans by blast

lemma upd_pcb_id: "upd_pcb p (\<lambda>b. b) s = s"
  by (simp add: upd_pcb_def)

lemma list_move_upd: "list_move p a b (upd_pcb q f s) = map_option (\<lambda>(r, u). (r, upd_pcb q f u)) (list_move p a b s)"
  by (auto simp: list_move_def upd_pcb_def option.map_comp comp_def intro!: arg_cong2 [where f = map_option])

text \<open>A block that is not active moves to the list of its new state.\<close>

lemma ok_move:
  assumes "ok s xs" and "p \<in> set (xs a)" and "a \<noteq> b" and "a \<noteq> ACTIVE" and "list_state b (t_state (f (pcbs s p)))"
  shows "\<exists>l n. list_move p a b (upd_pcb p f s) = Some (0, (upd_pcb p f s)\<lparr>lst := l, nx := n\<rparr>) \<and>
    ok ((upd_pcb p f s)\<lparr>lst := l, nx := n\<rparr>) (xs(a := remove1 p (xs a), b := xs b @ [p]))"
proof -
  define s0 where "s0 = upd_pcb p (\<lambda>b. (f b)\<lparr>t_state := t_state b\<rparr>) s"
  have o: "ok s0 xs" unfolding s0_def by (rule ok_upd_state [OF assms(1)]) simp
  have e: "upd_pcb p (\<lambda>c. c\<lparr>t_state := t_state (f (pcbs s p))\<rparr>) s0 = upd_pcb p f s" by (simp add: s0_def upd_pcb_def)
  obtain l n where m: "list_move p a b (upd_pcb p f s) = Some (0, (upd_pcb p f s)\<lparr>lst := l, nx := n\<rparr>)"
    "core ((upd_pcb p f s)\<lparr>lst := l, nx := n\<rparr>) (xs(a := remove1 p (xs a), b := xs b @ [p]))"
    using core_move [of s0 xs p a b "t_state (f (pcbs s p))"] o assms(2,3,5) unfolding e by (auto simp: ok_def)
  have "set ((xs(a := remove1 p (xs a), b := xs b @ [p])) ACTIVE) \<supseteq> set (xs ACTIVE)" using assms(4) by auto
  then have "ok ((upd_pcb p f s)\<lparr>lst := l, nx := n\<rparr>) (xs(a := remove1 p (xs a), b := xs b @ [p]))"
    using m(2) assms(1) by (auto simp: ok_def)
  then show ?thesis using m(1) by blast
qed

lemma ok_bufs_less:
  assumes "ok s xs" and "bufs_inv NQ b" and "\<forall>i<NQ. bufs_bytes i b = qbytes i s \<or> bufs_bytes i b = []"
  shows "ok (s\<lparr>bufs := b\<rparr>) xs"
proof -
  have "bufs_bytes (rcv_q q) b = [] \<and> bufs_bytes (snd_q q) b = []" if "q < NET_TCP_PCB_ACTIVE_MAX" "q \<notin> set (xs ACTIVE)" for q
    using assms(1) assms(3)[rule_format, of "rcv_q q"] assms(3)[rule_format, of "snd_q q"] that by (auto simp: ok_def)
  then show ?thesis using assms(1,2) parts_cong [of "s\<lparr>bufs := b\<rparr>" s xs] by (simp add: ok_def core_def)
qed

lemma ok_block: "ok s xs \<Longrightarrow> p \<in> set (xs k) \<Longrightarrow> p < NET_TCP_PCB_ACTIVE_MAX \<and> rcv_q p < NQ \<and> snd_q p < NQ"
  using partsD(3) [of s xs p k] by (auto simp: ok_def core_def)

lemma release_queues:
  assumes "ok s xs" and "p < NET_TCP_PCB_ACTIVE_MAX"
  shows "\<exists>c d. queue_free (snd_q p) s = Some (s\<lparr>bufs := c\<rparr>) \<and> queue_free (rcv_q p) (s\<lparr>bufs := c\<rparr>) = Some (s\<lparr>bufs := d\<rparr>) \<and> ok (s\<lparr>bufs := d\<rparr>) xs \<and>
    (\<forall>i<NQ. bufs_bytes i d = (if i = rcv_q p \<or> i = snd_q p then [] else qbytes i s))"
proof -
  have lt: "rcv_q p < NQ" "snd_q p < NQ" using assms(2) by simp_all
  obtain c where c: "queue_free (snd_q p) s = Some (s\<lparr>bufs := c\<rparr>)" "bufs_inv NQ c" "\<forall>i<NQ. bufs_bytes i c = (if i = snd_q p then [] else qbytes i s)"
    using queue_free_ok [of s "snd_q p"] assms(1) lt by auto
  obtain d where d: "queue_free (rcv_q p) (s\<lparr>bufs := c\<rparr>) = Some ((s\<lparr>bufs := c\<rparr>)\<lparr>bufs := d\<rparr>)" "bufs_inv NQ d"
    "\<forall>i<NQ. bufs_bytes i d = (if i = rcv_q p then [] else bufs_bytes i c)"
    using queue_free_ok [of "s\<lparr>bufs := c\<rparr>" "rcv_q p"] c(2) lt by auto
  have "ok (s\<lparr>bufs := d\<rparr>) xs" by (rule ok_bufs_less [OF assms(1) d(2)]) (use c(3) d(3) in auto)
  then show ?thesis using c d by (intro exI [of _ c] exI [of _ d]) auto
qed

lemma state_in: "ok s xs \<Longrightarrow> p \<in> set (xs k) \<Longrightarrow> list_state k (t_state (pcbs s p))"
  by (auto simp: ok_def core_def)

text \<open>Where a state says a block is.\<close>

lemma where_state:
  assumes "ok s xs" and "p < NET_TCP_PCB_ACTIVE_MAX" and "p \<notin> set (xs FREE)"
  shows "t_state (pcbs s p) = TCPS_CLOSED \<longleftrightarrow> p \<in> set (xs CLOSED)" and "t_state (pcbs s p) = TCPS_LISTEN \<longleftrightarrow> p \<in> set (xs LISTEN)"
    and "t_state (pcbs s p) \<noteq> TCPS_CLOSED \<and> t_state (pcbs s p) \<noteq> TCPS_LISTEN \<longleftrightarrow> p \<in> set (xs ACTIVE)"
proof -
  have "p \<in> (\<Union>k. set (xs k))" using assms(1,2) by (simp add: ok_def core_def parts_def)
  then obtain k where k: "p \<in> set (xs k)" "k \<noteq> FREE" using assms(3) by auto
  have u: "\<And>j. p \<in> set (xs j) \<longleftrightarrow> j = k" using k(1) partsD(2) [of s xs _ k] assms(1) by (auto simp: ok_def core_def)
  have "list_state k (t_state (pcbs s p))" using k(1) assms(1) by (auto simp: ok_def core_def)
  then show "t_state (pcbs s p) = TCPS_CLOSED \<longleftrightarrow> p \<in> set (xs CLOSED)" "t_state (pcbs s p) = TCPS_LISTEN \<longleftrightarrow> p \<in> set (xs LISTEN)"
    "t_state (pcbs s p) \<noteq> TCPS_CLOSED \<and> t_state (pcbs s p) \<noteq> TCPS_LISTEN \<longleftrightarrow> p \<in> set (xs ACTIVE)"
    unfolding u using k(2) by (cases k; simp)+
qed

subsection \<open>Alloc and bind\<close>

lemma alloc_ok:
  assumes "ok s xs"
  shows "if xs FREE = [] then tcp_alloc s = (None, net_unlock (net_lock s))
    else \<exists>u. tcp_alloc s = (Some (hd (xs FREE)), u) \<and> \<not> netlock u \<and> ok u (xs(FREE := tl (xs FREE), CLOSED := xs CLOSED @ [hd (xs FREE)])) \<and>
      pcbs u = (pcbs s)(hd (xs FREE) := zero_pcb\<lparr>t_cond := - 1\<rparr>) \<and> keeps_all s u"
proof (cases "xs FREE")
  case Nil
  then show ?thesis using pcb_new_parts [of "net_lock s" xs CLOSED] assms by (simp add: tcp_alloc_def)
next
  case (Cons p fs)
  let ?ys = "xs(FREE := fs, CLOSED := xs CLOSED @ [p])" and ?z = "zero_pcb\<lparr>t_cond := - 1\<rparr>"
  obtain l n where n: "tcp_pcb_new CLOSED (net_lock s) = (Some p, (net_lock s)\<lparr>lst := l, nx := n, pcbs := (pcbs s)(p := ?z)\<rparr>)"
    "parts ((net_lock s)\<lparr>lst := l, nx := n\<rparr>) ?ys"
    using pcb_new_parts [of "net_lock s" xs CLOSED] assms Cons by auto
  define u where "u = net_unlock (upd_pcb p (\<lambda>b. b\<lparr>t_state := TCPS_CLOSED\<rparr>) ((net_lock s)\<lparr>lst := l, nx := n, pcbs := (pcbs s)(p := ?z)\<rparr>))"
  have e: "tcp_alloc s = (Some p, u)" using n(1) by (simp add: tcp_alloc_def u_def)
  have f: "lst u = l" "nx u = n" "bufs u = bufs s" "routes u = routes s" "pcbs u = (pcbs s)(p := ?z)"
    by (simp_all add: u_def zero_pcb_def)
  have pt: "parts u ?ys" using n(2) f(1,2) parts_cong [of u "(net_lock s)\<lparr>lst := l, nx := n\<rparr>" ?ys] by simp
  have st: "list_state k (t_state (pcbs u q))" if "q \<in> set (?ys k)" for k q
  proof (cases "q = p")
    case True
    have "p \<in> set (?ys CLOSED)" by simp
    then have "k = CLOSED" using that True partsD(2) [OF pt, of k CLOSED] by blast
    then show ?thesis using True f(5) by (simp add: zero_pcb_def)
  next
    case False
    then have "q \<in> set (xs k)" using that Cons by (auto split: if_splits)
    then show ?thesis using False f(5) assms by (auto simp: ok_def core_def)
  qed
  have "ok u ?ys" using pt st assms f(3,4) by (auto simp: ok_def core_def)
  moreover have "keeps q s u" for q using f(3,5) by (simp add: keeps_def zero_pcb_def)
  ultimately show ?thesis using e f(5) Cons by (simp add: u_def)
qed

lemma bind_ok:
  assumes "ok s xs"
  shows "\<exists>r u. tcp_bind p addr port s = Some (r, u) \<and> ok u xs \<and> lst u = lst s \<and> bufs u = bufs s \<and>
    (if p \<notin> set (xs CLOSED) then r = - ENOTSOCK \<and> u = s
     else if port \<noteq> 0 \<and> \<not> port_free xs addr port s then r = - EADDRINUSE \<and> u = net_lock s
     else r = 0 \<and> \<not> netlock u \<and> (\<exists>q. port_free xs addr q s \<and> (if port \<noteq> 0 then q = port else \<exists>x. q = eph x) \<and>
       pcbs u = (pcbs s)(p := (pcbs s p)\<lparr>inp_lport := q, inp_laddr := addr\<rparr>)))"
proof -
  have f: "pcb_find p (lst s CLOSED) (nx s) = Some (if p \<in> set (xs CLOSED) then 0 else - 1)" by (rule find_plist [OF ok_plist [OF assms]])
  have o: "ok (net_lock s) xs" using assms by simp
  have pf: "port_free xs addr q (net_lock s) = port_free xs addr q s" for q by (simp add: port_free_def)
  show ?thesis
  proof (cases "p \<in> set (xs CLOSED)")
    case False
    then show ?thesis using f assms by (simp add: tcp_bind_def)
  next
    case p: True
    have up: "ok (net_unlock (upd_pcb p (\<lambda>b. b\<lparr>inp_lport := q, inp_laddr := addr\<rparr>) t)) xs" if "ok t xs" for q t
    proof -
      have "ok (upd_pcb p (\<lambda>b. b\<lparr>inp_lport := q, inp_laddr := addr\<rparr>) t) xs" by (rule ok_upd_state [OF that]) simp
      then show ?thesis by simp
    qed
    show ?thesis
    proof (cases "port = 0")
      case True
      obtain q y where q: "bind_loop addr (net_lock s) = Some (q, (net_lock s)\<lparr>port_seq := y\<rparr>)" "port_free xs addr q s" "\<exists>x. q = eph x"
        using bind_loop_ok [OF o, of addr] unfolding pf by blast
      have "ok ((net_lock s)\<lparr>port_seq := y\<rparr>) xs" by (rule ok_agree [OF o]) simp_all
      then show ?thesis using f p True q up by (simp add: tcp_bind_def Let_def) blast
    next
      case False
      have "can_bind addr port (net_lock s) = Some (port_free xs addr port s)" using can_bind_free [OF o, of addr port] unfolding pf .
      then show ?thesis using f p False up [OF o] o by (cases "port_free xs addr port s") (simp_all add: tcp_bind_def Let_def)
    qed
  qed
qed

subsection \<open>Listen and accept\<close>

lemma ok_os_call: "ok s xs \<Longrightarrow> os_call f x s = (c, t) \<Longrightarrow> ok t xs \<and> pcbs t = pcbs s \<and> lst t = lst s \<and> nx t = nx s \<and> bufs t = bufs s \<and>
  routes t = routes s \<and> ifns t = ifns s"
  using os_simps [of f x s] ok_agree [of s xs t] by auto

lemma listen_ok:
  assumes "ok s xs" and "p \<in> set (xs CLOSED)"
  shows "\<exists>r u. tcp_listen p n s = Some (r, u) \<and> \<not> netlock u \<and>
    (r = 0 \<and> ok u (xs(CLOSED := remove1 p (xs CLOSED), LISTEN := xs LISTEN @ [p])) \<and>
       (\<exists>c. pcbs u = (pcbs s)(p := (pcbs s p)\<lparr>t_state := TCPS_LISTEN, t_max := of_int (backlog_size n), t_tail := 0, t_head := 0, t_sem := c\<rparr>)) \<or>
     (r = - EADDRINUSE \<or> r = - ENOMEM) \<and> ok u xs \<and> pcbs u = pcbs s) \<and> keeps_all s u"
proof -
  obtain r where r: "pcb_wildlookup INADDR_ANY 0 (inp_laddr (pcbs s p)) (inp_lport (pcbs s p)) (lst s LISTEN) (nx s) (pcbs s) = Some r"
    using wildlookup_find [OF ok_plist [OF assms(1)]] by blast
  obtain c t where t: "os_call thinkos_sem_alloc_svc 0 (net_lock s) = (c, t)" by fastforce
  have ot: "ok t xs" "pcbs t = pcbs s" "bufs t = bufs s" using ok_os_call [OF _ t, of xs] assms(1) by simp_all
  have st: "t_state (pcbs s p) = TCPS_CLOSED" using state_in [OF assms] by simp
  show ?thesis
  proof (cases "r \<noteq> None \<or> c < 0")
    case True
    then show ?thesis using r t st ot assms(1) by (auto simp: tcp_listen_def Let_def keeps_def)
  next
    case False
    let ?f = "\<lambda>b :: tcp_pcb. b\<lparr>t_state := TCPS_LISTEN, t_max := of_int (backlog_size n), t_tail := 0, t_head := 0, t_sem := c\<rparr>"
    have "list_state LISTEN (t_state (?f (pcbs t p)))" by simp
    with ok_move [OF ot(1) assms(2), of LISTEN ?f] obtain l m where
      m: "list_move p CLOSED LISTEN (upd_pcb p ?f t) = Some (0, (upd_pcb p ?f t)\<lparr>lst := l, nx := m\<rparr>)"
      "ok ((upd_pcb p ?f t)\<lparr>lst := l, nx := m\<rparr>) (xs(CLOSED := remove1 p (xs CLOSED), LISTEN := xs LISTEN @ [p]))" by auto
    have "tcp_listen p n s = Some (0, net_unlock ((upd_pcb p ?f t)\<lparr>lst := l, nx := m\<rparr>))"
      using False r t st m(1) by (simp add: tcp_listen_def Let_def)
    then show ?thesis using m(2) ot(2,3) by (auto simp: keeps_def)
  qed
qed

lemma listen_other_ok:
  assumes "ok s xs" and "t_state (pcbs s p) \<notin> {TCPS_CLOSED, TCPS_LISTEN}"
  shows "\<exists>r u. tcp_listen p n s = Some (r, u) \<and> ok u xs \<and> \<not> netlock u \<and> keeps_all s u"
proof -
  obtain r where r: "pcb_wildlookup INADDR_ANY 0 (inp_laddr (pcbs s p)) (inp_lport (pcbs s p)) (lst s LISTEN) (nx s) (pcbs s) = Some r"
    using wildlookup_find [OF ok_plist [OF assms(1)]] by blast
  then show ?thesis using assms by (cases "r = None") (simp_all add: tcp_listen_def Let_def)
qed

lemma accept_ok: "ok s xs \<Longrightarrow> tcp_accept p s = (r, u) \<Longrightarrow> ok u xs \<and> \<not> netlock u \<and> keeps_all s u"
  by (auto simp: tcp_accept_def Let_def keeps_def split: if_splits intro!: ok_upd_state)

subsection \<open>Close\<close>

lemma close_free_ok:
  assumes "ok s xs" and "p \<in> set (xs CLOSED) \<or> p \<in> set (xs ACTIVE)"
  shows "\<exists>u. close_free p s = Some (0, u) \<and> tcp_ok u \<and> \<not> netlock u \<and> (cstate s p \<noteq> TCPS_ESTABLISHED \<longrightarrow> keeps_all s u)"
proof -
  define t where "t = (if t_cond (pcbs s p) \<ge> 0 then upd_pcb p (\<lambda>b. b\<lparr>t_cond := - 1\<rparr>) (os_cond_free (t_cond (pcbs s p)) s) else s)"
  have "ok (os_cond_free (t_cond (pcbs s p)) s) xs" by (rule ok_same [OF assms(1)]) simp_all
  then have ot: "ok t xs" using assms(1) ok_upd_state [of "os_cond_free (t_cond (pcbs s p)) s" xs "\<lambda>b. b\<lparr>t_cond := - 1\<rparr>" p] by (simp add: t_def)
  have qt: "quiet p s t" unfolding t_def using quiet_trans [OF quiet_simps(6) quiet_upd] by simp
  have "\<exists>u. tcp_pcb_free p t = Some (0, u) \<and> tcp_ok u \<and> only p t u \<and> cstate u p = cstate t p"
  proof (cases "p \<in> set (xs ACTIVE)")
    case True
    obtain u f where u: "tcp_pcb_free p t = Some (0, u)" "ok u (xs(ACTIVE := remove1 p (xs ACTIVE), FREE := xs FREE @ [p]))"
      "pcbs u = (pcbs t)(p := (pcbs t p)\<lparr>t_flags := f\<rparr>)"
      "routes u = routes t" "ifns u = ifns t" "\<forall>i<NQ. qbytes i u = (if i = rcv_q p \<or> i = snd_q p then [] else qbytes i t)"
      using free_active [OF ot True] by blast
    then have "only p t u" "cstate u p = cstate t p" by (auto simp: only_def)
    then show ?thesis using u(1,2) unfolding tcp_ok_def by blast
  next
    case False
    then have p: "p \<in> set (xs CLOSED)" using assms(2) by blast
    define v where "v = (if flag (t_flags (pcbs t p)) TF_NEEDOUTPUT then tcp_output_dequeue p (clear_flag p TF_NEEDOUTPUT t) else t)"
    have fv: "flags_only p t v" unfolding v_def using flags_only_trans [of p t "clear_flag p TF_NEEDOUTPUT t"] by simp
    then have ov: "ok v xs" using ot by (rule flags_only_ok)
    then have st: "t_state (pcbs v p) = TCPS_CLOSED" using state_in [of v xs p CLOSED] p by simp
    obtain l n where "list_move p CLOSED FREE v = Some (0, v\<lparr>lst := l, nx := n\<rparr>)" "tcp_ok (v\<lparr>lst := l, nx := n\<rparr>)"
      using ok_move [OF ov p, of FREE "\<lambda>b. b"] unfolding upd_pcb_id by (auto simp: tcp_ok_def)
    moreover have "tcp_pcb_free p t = list_move p CLOSED FREE v"
      unfolding tcp_pcb_free_def by (subst free_go.simps) (simp add: v_def [symmetric] st Let_def)
    moreover have "only p t (v\<lparr>lst := l, nx := n\<rparr>)" using fv by (auto simp: flags_only_def only_def same_def)
    moreover have "cstate (v\<lparr>lst := l, nx := n\<rparr>) p = cstate t p" using fv by simp
    ultimately show ?thesis by auto
  qed
  then obtain u where u: "tcp_pcb_free p t = Some (0, u)" "tcp_ok u" "only p t u" "cstate u p = cstate t p" by blast
  have "close_free p s = Some (0, net_unlock u)" using u(1) by (simp add: close_free_def t_def [symmetric])
  moreover have "keeps_all s (net_unlock u)" if "cstate s p \<noteq> TCPS_ESTABLISHED"
  proof -
    have "only p s u" using only_trans [OF only_quietI [OF qt] u(3)] .
    moreover have "keeps p s u" using that u(4) quiet_state [OF qt, of p] by (simp add: keeps_def)
    ultimately show ?thesis using keeps_own [of p s u] by simp
  qed
  ultimately show ?thesis using u(2) by auto
qed

lemma close_listen_ok:
  assumes "ok s xs" and "p \<in> set (xs LISTEN)" and "t_head (pcbs s p) = t_tail (pcbs s p)"
  shows "\<exists>u. tcp_pcb_free p s = Some (0, u) \<and> tcp_ok u \<and> keeps_all s u"
proof -
  define v where "v = (if flag (t_flags (pcbs s p)) TF_NEEDOUTPUT then tcp_output_dequeue p (clear_flag p TF_NEEDOUTPUT s) else s)"
  have fv: "flags_only p s v" unfolding v_def using flags_only_trans [of p s "clear_flag p TF_NEEDOUTPUT s"] by simp
  then have ov: "ok v xs" using assms(1) by (rule flags_only_ok)
  then have st: "t_state (pcbs v p) = TCPS_LISTEN" using state_in [of v xs p LISTEN] assms(2) by simp
  have ht: "t_head (pcbs v p) = t_tail (pcbs v p)" using fv assms(3) by (auto simp: flags_only_def)
  define w where "w = os_sem_free (t_sem (pcbs v p)) v"
  have ow: "ok w xs" unfolding w_def by (rule ok_same [OF ov]) simp_all
  obtain l n where m: "list_move p LISTEN FREE w = Some (0, w\<lparr>lst := l, nx := n\<rparr>)" "tcp_ok (w\<lparr>lst := l, nx := n\<rparr>)"
    using ok_move [OF ow assms(2), of FREE "\<lambda>b. b"] unfolding upd_pcb_id by (auto simp: tcp_ok_def)
  have "free_go (Backlog p p) v = list_move p LISTEN FREE w" by (subst free_go.simps) (simp add: ht w_def)
  then have "tcp_pcb_free p s = list_move p LISTEN FREE w"
    unfolding tcp_pcb_free_def by (subst free_go.simps) (simp add: v_def [symmetric] st Let_def)
  moreover have "keeps q s (w\<lparr>lst := l, nx := n\<rparr>)" if "q < NET_TCP_PCB_ACTIVE_MAX" for q
  proof -
    have "keeps q v w" by (rule keeps_pcbs) (simp_all add: w_def os_defs)
    then have "keeps q s w" using keeps_flags [OF fv] that keeps_trans by blast
    then show ?thesis by (simp add: keeps_def)
  qed
  ultimately show ?thesis using m by simp
qed

lemma close_ok:
  assumes "ok s xs" and "p < NET_TCP_PCB_ACTIVE_MAX" and "p \<notin> set (xs FREE)" and "t_state (pcbs s p) = TCPS_LISTEN \<longrightarrow> t_head (pcbs s p) = t_tail (pcbs s p)"
  shows "\<exists>r u. tcp_close p s = Some (r, u) \<and> tcp_ok u \<and> \<not> netlock u \<and> keeps_all s u"
proof -
  have o: "ok (net_lock s) xs" using assms(1) by simp
  note w = where_state [OF assms(1-3)]
  have out: "\<exists>r u. Some (close_output p t) = Some (r, u) \<and> tcp_ok u \<and> \<not> netlock u \<and> keeps_all s u"
    if t: "ok t xs" "only p s t" "cstate t p \<noteq> TCPS_ESTABLISHED" for t
  proof -
    define u where "u = tcp_output_sched p (set_flag p TF_ACKNOW t)"
    have f: "flags_only p t u" unfolding u_def using flags_only_trans [of p t "set_flag p TF_ACKNOW t"] by simp
    have "only p s u" using only_trans [OF t(2) only_quietI [OF quiet_flags [OF f]]] .
    moreover have "keeps p s u" using t(3) f by (simp add: keeps_def)
    ultimately have "keeps_all s u" by (rule keeps_own)
    then show ?thesis using flags_only_ok [OF f t(1)] by (auto simp: close_output_def u_def [symmetric] tcp_ok_def)
  qed
  have fw: ?thesis if a: "p \<in> set (xs ACTIVE)" "tcp_close p s = Some (close_output p (upd_pcb p (\<lambda>b. b\<lparr>t_state := TCPS_FIN_WAIT_1\<rparr>) (net_lock s)))"
  proof -
    have "ok (upd_pcb p (\<lambda>b. b\<lparr>t_state := TCPS_FIN_WAIT_1\<rparr>) (net_lock s)) xs" by (rule ok_upd [OF o a(1)]) simp
    from out [OF this] show ?thesis unfolding a(2) by (simp add: only_def)
  qed
  have la: ?thesis if a: "p \<in> set (xs ACTIVE)" "t_state (pcbs s p) = TCPS_CLOSE_WAIT"
  proof -
    let ?n = "of_nat (queue_len (snd_q p) (net_lock s))"
    define t where "t = upd_pcb p (\<lambda>b. b\<lparr>t_state := TCPS_LAST_ACK, snd_off := snd_off b - ?n, snd_max := snd_max b - ?n\<rparr>) (net_lock s)"
    have "ok t xs" unfolding t_def by (rule ok_upd [OF o a(1)]) simp
    from release_queues [OF this assms(2)] obtain c d where q: "queue_free (snd_q p) t = Some (t\<lparr>bufs := c\<rparr>)"
      "queue_free (rcv_q p) (t\<lparr>bufs := c\<rparr>) = Some (t\<lparr>bufs := d\<rparr>)" "ok (t\<lparr>bufs := d\<rparr>) xs"
      "\<forall>i<NQ. bufs_bytes i d = (if i = rcv_q p \<or> i = snd_q p then [] else qbytes i t)" by blast
    have "tcp_close p s = bind (queue_free (snd_q p) t) (\<lambda>s. bind (queue_free (rcv_q p) s) (\<lambda>s. Some (close_output p s)))"
      using a(2) by (simp add: tcp_close_def Let_def t_def)
    then have e: "tcp_close p s = Some (close_output p (t\<lparr>bufs := d\<rparr>))" by (simp only: q(1,2) bind.bind_lunit)
    have "only p s (t\<lparr>bufs := d\<rparr>)" using q(4) by (simp add: only_def t_def)
    moreover have "cstate (t\<lparr>bufs := d\<rparr>) p \<noteq> TCPS_ESTABLISHED" by (simp add: t_def)
    ultimately show ?thesis unfolding e by (rule out [OF q(3)])
  qed
  have cf: ?thesis if a: "p \<in> set (xs CLOSED) \<or> p \<in> set (xs ACTIVE)" "tcp_close p s = close_free p (net_lock s)" "cstate s p \<noteq> TCPS_ESTABLISHED"
    using close_free_ok [OF o a(1)] a(2,3) by auto
  show ?thesis
  proof (cases "t_state (pcbs s p)")
    case TCPS_LISTEN
    then obtain u where "tcp_pcb_free p (net_lock s) = Some (0, u)" "tcp_ok u" "keeps_all s u" using close_listen_ok [of "net_lock s" xs p] o w(2) assms(4) by auto
    then show ?thesis using TCPS_LISTEN by (simp add: tcp_close_def)
  next
    case TCPS_CLOSE_WAIT
    then show ?thesis using la w(3) by simp
  next
    case TCPS_CLOSED
    show ?thesis by (rule cf) (use w TCPS_CLOSED in \<open>simp_all add: tcp_close_def\<close>)
  next
    case TCPS_SYN_SENT
    show ?thesis by (rule cf) (use w TCPS_SYN_SENT in \<open>simp_all add: tcp_close_def\<close>)
  next
    case TCPS_TIME_WAIT
    show ?thesis by (rule cf) (use w TCPS_TIME_WAIT in \<open>simp_all add: tcp_close_def\<close>)
  next
    case TCPS_SYN_RCVD
    show ?thesis by (rule fw) (use w TCPS_SYN_RCVD in \<open>simp_all add: tcp_close_def\<close>)
  next
    case TCPS_ESTABLISHED
    show ?thesis by (rule fw) (use w TCPS_ESTABLISHED in \<open>simp_all add: tcp_close_def\<close>)
  qed (use assms(1) in \<open>auto simp: tcp_close_def tcp_ok_def\<close>)
qed

subsection \<open>Connect\<close>

lemma connect_wait_ok:
  assumes "ok s xs" and "p < NET_TCP_PCB_ACTIVE_MAX"
  shows "\<exists>r u. connect_wait p nm s = Some (r, u) \<and> ok u xs \<and> \<not> netlock u \<and> keeps_all s u"
proof (cases "t_state (pcbs s p) = TCPS_CLOSED")
  case True
  let ?t = "os_cond_free (t_cond (pcbs s p)) s"
  have "ok ?t xs" by (rule ok_same [OF assms(1)]) simp_all
  from release_queues [OF this assms(2)] obtain c d where q: "queue_free (snd_q p) ?t = Some (?t\<lparr>bufs := c\<rparr>)"
    "queue_free (rcv_q p) (?t\<lparr>bufs := c\<rparr>) = Some (?t\<lparr>bufs := d\<rparr>)" "ok (?t\<lparr>bufs := d\<rparr>) xs"
    "\<forall>i<NQ. bufs_bytes i d = (if i = rcv_q p \<or> i = snd_q p then [] else qbytes i ?t)" by blast
  have "only p s (?t\<lparr>bufs := d\<rparr>)" using q(4) by (simp add: only_def os_defs)
  moreover have "keeps p s (?t\<lparr>bufs := d\<rparr>)" using True by (simp add: keeps_def)
  ultimately have "keeps_all s (?t\<lparr>bufs := d\<rparr>)" by (rule keeps_own)
  then show ?thesis using True q(1-3) by (simp add: connect_wait_def)
qed (use assms(1) in \<open>simp add: connect_wait_def\<close>)

lemma connect_route_ok: "ok s xs \<Longrightarrow> connect_route p s \<noteq> None"
  by (auto simp: connect_route_def route_lookup_def split: option.splits dest: lookup_loop_ifn)

lemma queue_init_empty:
  assumes "ok s xs" and "p \<in> set (xs CLOSED)"
  shows "queue_init (snd_q p) (queue_init (rcv_q p) s) = s"
proof -
  have "p \<notin> set (xs ACTIVE)" using assms partsD(2) [of s xs CLOSED ACTIVE] by (auto simp: ok_def core_def)
  then have q: "qbytes (rcv_q p) s = []" "qbytes (snd_q p) s = []" "rcv_q p < NQ" "snd_q p < NQ"
    using assms ok_block [of s xs p CLOSED] by (auto simp: ok_def)
  have "queue_init (rcv_q p) s = s" using upd_zero [of s "rcv_q p"] q assms(1) by (simp add: queue_init_def)
  moreover have "queue_init (snd_q p) s = s" using upd_zero [of s "snd_q p"] q assms(1) by (simp add: queue_init_def)
  ultimately show ?thesis by simp
qed

text \<open>A new connection: the block moves to the active list with fresh sequence numbers.\<close>

lemma connect_open_ok:
  assumes "ok s xs" and "p \<in> set (xs CLOSED)"
  shows "\<exists>u g. connect_open p la mss c s = Some u \<and> ok u (xs(CLOSED := remove1 p (xs CLOSED), ACTIVE := xs ACTIVE @ [p])) \<and>
    bufs u = bufs s \<and> pcbs u = (pcbs s)(p := (pcbs s p)\<lparr>t_cond := c, inp_laddr := la, t_maxseg := of_int mss, rcv_nxt := 0,
      snd_seq := push_bit 20 (ucast (iss s + 1)), snd_off := 0, snd_max := 0, snd_wnd := 1, t_conn_tmr := tcp_conn_est_tmo,
      t_state := TCPS_SYN_SENT, t_flags := g\<rparr>)"
proof -
  let ?f = "\<lambda>b :: tcp_pcb. b\<lparr>t_cond := c, inp_laddr := la, t_maxseg := of_int mss\<rparr>"
  let ?g = "\<lambda>b :: tcp_pcb. b\<lparr>rcv_nxt := 0, snd_seq := push_bit 20 (ucast (iss s + 1)), snd_off := 0, snd_max := 0,
               snd_wnd := 1, t_conn_tmr := tcp_conn_est_tmo\<rparr>"
  let ?h = "\<lambda>b :: tcp_pcb. b\<lparr>t_state := TCPS_SYN_SENT\<rparr>"
  let ?ys = "xs(CLOSED := remove1 p (xs CLOSED), ACTIVE := xs ACTIVE @ [p])"
  have "ok (upd_pcb p ?f s) xs" by (rule ok_upd_state [OF assms(1)]) simp
  then have i: "queue_init (snd_q p) (queue_init (rcv_q p) (upd_pcb p ?f s)) = upd_pcb p ?f s" using assms(2) by (rule queue_init_empty)
  define v where "v = upd_pcb p ?g ((upd_pcb p ?f s)\<lparr>iss := iss s + 1\<rparr>)"
  have ov: "ok v xs" unfolding v_def
    by (rule ok_agree [OF assms(1)]) simp_all
  obtain l n where m: "list_move p CLOSED ACTIVE (upd_pcb p ?h v) = Some (0, (upd_pcb p ?h v)\<lparr>lst := l, nx := n\<rparr>)"
    "ok ((upd_pcb p ?h v)\<lparr>lst := l, nx := n\<rparr>) ?ys" using ok_move [OF ov assms(2), of ACTIVE ?h] by auto
  define w where "w = (upd_pcb p ?h v)\<lparr>lst := l, nx := n\<rparr>"
  have e: "connect_open p la mss c s = map_option (\<lambda>(_, s). tcp_output_sched p (upd_pcb p ?h s)) (list_move p CLOSED ACTIVE v)"
    unfolding connect_open_def Let_def i by (simp add: v_def)
  have "map_option (\<lambda>(r, u). (r, upd_pcb p ?h u)) (list_move p CLOSED ACTIVE v) = Some (0, w)"
    using m(1) unfolding list_move_upd w_def .
  then have "connect_open p la mss c s = Some (tcp_output_sched p w)" unfolding e by auto
  moreover have "ok (tcp_output_sched p w) ?ys" by (rule flags_only_ok [OF flags_only_simps(4)]) (use m(2) in \<open>simp add: w_def\<close>)
  moreover obtain g where "pcbs (tcp_output_sched p w) = (pcbs w)(p := (pcbs w p)\<lparr>t_flags := g\<rparr>)" "bufs (tcp_output_sched p w) = bufs w"
    using flags_only_simps(4) [of p w] by (auto simp: flags_only_def same_def)
  moreover have "pcbs w = (pcbs s)(p := ?h (?g (?f (pcbs s p))))" "bufs w = bufs s" by (simp_all add: w_def v_def)
  ultimately show ?thesis by (intro exI [of _ "tcp_output_sched p w"] exI [of _ g]) simp
qed

lemma connect_ok:
  assumes "ok s xs"
  shows "\<exists>r u. tcp_connect p a port nm s = Some (r, u) \<and> tcp_ok u \<and> (netlock u \<longrightarrow> r = Returns (- ENOTSOCK) \<or> r = Returns (- EADDRINUSE)) \<and> keeps_all s u"
proof (cases "p \<in> set (xs CLOSED)")
  case False
  then have "tcp_connect p a port nm s = Some (Returns (- ENOTSOCK), s)" using find_plist [OF ok_plist [OF assms], of p CLOSED] by (simp add: tcp_connect_def)
  then show ?thesis using assms by (auto simp: tcp_ok_def)
next
  case True
  have f: "pcb_find p (lst s CLOSED) (nx s) = Some 0" using find_plist [OF ok_plist [OF assms], of p CLOSED] True by simp
  have o: "ok (net_lock s) xs" using assms by simp
  obtain ml where ml: "connect_route p (net_lock s) = Some ml" using connect_route_ok [OF o] by blast
  show ?thesis
  proof (cases ml)
    case None
    then have "tcp_connect p a port nm s = Some (Returns (- 1), net_unlock (net_lock s))" using f ml by (simp add: tcp_connect_def)
    then show ?thesis using assms by (auto simp: tcp_ok_def)
  next
    case (Some x)
    obtain mss la where x: "x = (mss, la)" by fastforce
    obtain l where l: "pcb_lookup a port la (inp_lport (pcbs (net_lock s) p)) (lst (net_lock s) LISTEN) (nx (net_lock s)) (pcbs (net_lock s)) = Some l"
      using lookup_list [OF o] by blast
    define t where "t = upd_pcb p (\<lambda>b. b\<lparr>inp_faddr := a, inp_fport := port\<rparr>) (net_lock s)"
    have ot: "ok t xs" unfolding t_def by (rule ok_upd_state [OF o]) simp
    obtain c v where v: "os_call thinkos_cond_alloc_svc 0 t = (c, v)" by fastforce
    have ov: "ok v xs" and pv: "pcbs v = pcbs t" "bufs v = bufs t" using ok_os_call [OF ot v] by simp_all
    have kv: "keeps q s v" for q by (rule keeps_pcbs) (simp_all add: pv t_def)
    define k where "k = (if mss > int tcp_maxmss then int tcp_maxmss else mss)"
    have e: "tcp_connect p a port nm s = (if l \<noteq> None then Some (Returns (- EADDRINUSE), net_lock s)
        else if c < 0 then Some (Returns (- 1), net_unlock (upd_pcb p (\<lambda>b. b\<lparr>t_cond := c\<rparr>) v))
        else bind (connect_open p la k c v) (connect_wait p nm))"
      using f ml l v Some x unfolding tcp_connect_def Let_def by (simp add: t_def [symmetric] k_def)
    show ?thesis
    proof (cases "l \<noteq> None \<or> c < 0")
      case True
      have "ok (upd_pcb p (\<lambda>b. b\<lparr>t_cond := c\<rparr>) v) xs" by (rule ok_upd_state [OF ov]) simp
      moreover have "keeps q s (upd_pcb p (\<lambda>b. b\<lparr>t_cond := c\<rparr>) v)" for q by (rule keeps_pcbs) (simp_all add: pv t_def)
      ultimately show ?thesis using True o unfolding e by (cases "l \<noteq> None") (auto simp: tcp_ok_def)
    next
      case False
      obtain u ys where u: "connect_open p la k c v = Some u" "ok u ys" "bufs u = bufs v" "cstate u p = TCPS_SYN_SENT"
        "\<forall>q. q \<noteq> p \<longrightarrow> pcbs u q = pcbs v q" using connect_open_ok [OF ov True, of la k c] by auto
      have "p < NET_TCP_PCB_ACTIVE_MAX" using ok_block [OF assms, of p CLOSED] True by simp
      from connect_wait_ok [OF u(2) this] obtain r w where w: "connect_wait p nm u = Some (r, w)" "ok w ys" "\<not> netlock w" "keeps_all u w" by blast
      have "keeps q v u" for q using u(3-5) by (cases "q = p") (auto simp: keeps_def)
      then have "keeps_all s w" using kv w(4) keeps_trans by blast
      then show ?thesis using w(1-3) u(1) False unfolding e by (auto simp: tcp_ok_def)
    qed
  qed
qed

subsection \<open>Send and receive\<close>

text \<open>The loop appends the bytes of the caller, in order, up to the point where it waits.\<close>

lemma send_loop_ok:
  assumes "ok s xs" and "p \<in> set (xs ACTIVE)"
  shows "\<exists>r u k. send_loop p nm rem s = Some (r, u) \<and> ok u xs \<and> k \<le> length rem \<and>
    (\<forall>i<NQ. qbytes i u = qbytes i s @ (if i = snd_q p then take k rem else [])) \<and>
    (case r of Returns _ \<Rightarrow> k = length rem \<and> netlock u = netlock s | Waits rem' \<Rightarrow> rem' = drop k rem \<and> rem' \<noteq> [] \<and> \<not> netlock u) \<and>
    (\<exists>f. pcbs u = (pcbs s)(p := (pcbs s p)\<lparr>t_flags := f\<rparr>))"
  using assms
proof (induction "length rem" arbitrary: rem s rule: less_induct)
  case less
  have lt: "snd_q p < NQ" using ok_active [OF less.prems] by simp
  let ?m = "int tcp_maxsnd - int (queue_len (snd_q p) s)"
  show ?case
  proof (cases "rem = [] \<or> ?m \<le> 0")
    case True
    show ?thesis
    proof (cases "rem = []")
      case True
      then show ?thesis using less.prems(1) by (subst send_loop.simps) (auto intro!: exI [of _ "Returns ()"] exI [of _ "t_flags (pcbs s p)"])
    next
      case False
      define t where "t = tcp_output_sched p (set_flag p TF_ACKNOW s)"
      have f: "flags_only p s t" unfolding t_def using flags_only_trans [of p s "set_flag p TF_ACKNOW s"] by simp
      have "ok t xs" by (rule flags_only_ok [OF f less.prems(1)])
      moreover have "bufs t = bufs s" "\<exists>f. pcbs t = (pcbs s)(p := (pcbs s p)\<lparr>t_flags := f\<rparr>)" using f by (auto simp: flags_only_def same_def)
      moreover have "send_loop p nm rem s = Some (Waits rem, os_cond_wait (t_cond (pcbs t p)) nm t)"
        using False True by (subst send_loop.simps) (simp add: Let_def t_def)
      ultimately show ?thesis using False by (intro exI [of _ "Waits rem"] exI [of _ "os_cond_wait (t_cond (pcbs t p)) nm t"] exI [of _ 0]) simp
    qed
  next
    case False
    let ?d = "take (nat ?m) rem"
    obtain n b where a: "queue_add (snd_q p) ?d s = Some (n, s\<lparr>bufs := b\<rparr>)" "n \<le> length ?d" "bufs_inv NQ b"
      "\<forall>i<NQ. bufs_bytes i b = qbytes i s @ (if i = snd_q p then take n ?d else [])"
      using queue_add_ok [OF ok_bufs_inv [OF less.prems(1)] lt, of ?d] by blast
    let ?t = "s\<lparr>bufs := b\<rparr>"
    have t: "take n ?d = take n rem" using a(2) by (simp add: min_absorb1)
    have ot: "ok ?t xs" using ok_bufs [OF less.prems a(3)] a(4) by simp
    have e: "send_loop p nm rem s = (if n = 0 then Some (Waits rem, net_unlock ?t) else send_loop p nm (drop n rem) ?t)"
      using False a(1) by (subst send_loop.simps) (simp add: Let_def)
    show ?thesis
    proof (cases "n = 0")
      case True
      moreover have "\<exists>f. pcbs s = (pcbs s)(p := (pcbs s p)\<lparr>t_flags := f\<rparr>)" by (rule exI [of _ "t_flags (pcbs s p)"]) simp
      ultimately show ?thesis using e ot a(4) False by (intro exI [of _ "Waits rem"] exI [of _ "net_unlock ?t"] exI [of _ 0]) simp
    next
      case n: False
      have "length (drop n rem) < length rem" using n False by simp
      from less.hyps [OF this ot less.prems(2)] obtain r u k where u: "send_loop p nm (drop n rem) ?t = Some (r, u)" "ok u xs" "k \<le> length (drop n rem)"
        "\<forall>i<NQ. qbytes i u = qbytes i ?t @ (if i = snd_q p then take k (drop n rem) else [])"
        "case r of Returns _ \<Rightarrow> k = length (drop n rem) \<and> netlock u = netlock ?t | Waits rem' \<Rightarrow> rem' = drop k (drop n rem) \<and> rem' \<noteq> [] \<and> \<not> netlock u"
        "\<exists>f. pcbs u = (pcbs ?t)(p := (pcbs ?t p)\<lparr>t_flags := f\<rparr>)" by blast
      have l: "n \<le> length rem" using a(2) by simp
      have "\<forall>i<NQ. qbytes i u = qbytes i s @ (if i = snd_q p then take (n + k) rem else [])"
        using u(4) a(4) t by (simp add: take_add)
      moreover have "case r of Returns _ \<Rightarrow> n + k = length rem \<and> netlock u = netlock s | Waits rem' \<Rightarrow> rem' = drop (n + k) rem \<and> rem' \<noteq> [] \<and> \<not> netlock u"
        using u(5) l by (simp add: add.commute split: progress.splits)
      ultimately show ?thesis using e n u(1-3,6) l by (intro exI [of _ r] exI [of _ u] exI [of _ "n + k"]) simp
    qed
  qed
qed

lemma ok_unlock_flags: "flags_only p s t \<Longrightarrow> ok s xs \<Longrightarrow> ok (net_unlock t) xs"
  using flags_only_ok [of p s t xs] by simp

lemma send_step_ok:
  assumes "ok s xs" and "p < NET_TCP_PCB_ACTIVE_MAX" and "p \<notin> set (xs FREE)"
  shows "\<exists>r u k. send_step p len flags nm rem s = Some (r, u) \<and> ok u xs \<and> \<not> netlock u \<and> k \<le> length rem \<and>
    (\<forall>i<NQ. qbytes i u = qbytes i s @ (if i = snd_q p then take k rem else [])) \<and>
    (case r of Returns v \<Rightarrow> if t_state (pcbs s p) = TCPS_ESTABLISHED then v = int len \<and> k = length rem else v = - 1 \<and> k = 0
     | Waits rem' \<Rightarrow> rem' = drop k rem) \<and> keeps_all s u"
proof (cases "t_state (pcbs s p) = TCPS_ESTABLISHED")
  case False
  then show ?thesis using assms(1)
    by (cases "t_state (pcbs s p) = TCPS_SYN_RCVD") (auto simp: send_step_def intro!: exI [of _ 0])
next
  case True
  have p: "p \<in> set (xs ACTIVE)" using where_state(3) [OF assms] True by simp
  obtain r u k where u: "send_loop p nm rem s = Some (r, u)" "ok u xs" "k \<le> length rem"
    "\<forall>i<NQ. qbytes i u = qbytes i s @ (if i = snd_q p then take k rem else [])"
    "case r of Returns _ \<Rightarrow> k = length rem \<and> netlock u = netlock s | Waits rem' \<Rightarrow> rem' = drop k rem \<and> rem' \<noteq> [] \<and> \<not> netlock u"
    "\<exists>f. pcbs u = (pcbs s)(p := (pcbs s p)\<lparr>t_flags := f\<rparr>)"
    using send_loop_ok [OF assms(1) p, of nm rem] by blast
  have ku: "keeps q s u" if "q < NET_TCP_PCB_ACTIVE_MAX" for q
  proof -
    have "rcv_q q < NQ" "rcv_q q \<noteq> snd_q p" using that by (simp, presburger)
    then have "qbytes (rcv_q q) u = qbytes (rcv_q q) s" using u(4) by simp
    then show ?thesis using u(6) by (cases "q = p") (auto simp: keeps_def)
  qed
  show ?thesis
  proof (cases r)
    case (Waits w)
    then have "send_step p len flags nm rem s = Some (Waits w, u)" using True u(1) by (simp add: send_step_def)
    then show ?thesis using u(2-5) Waits ku by auto
  next
    case (Returns x)
    define t where "t = (if len > 0 then
                 if flags AND 4 \<noteq> 0 \<or> int (queue_len (snd_q p) u) - int (q_offs (fst (bufs u) (snd_q p))) \<ge> int (unat (t_maxseg (pcbs u p)))
                 then tcp_output_sched p u else set_flag p TF_DELACK u
               else u)"
    have f: "flags_only p u t" by (simp add: t_def)
    have "send_step p len flags nm rem s = Some (Returns (int len), net_unlock t)"
      using True u(1) Returns unfolding send_step_def t_def Let_def by simp
    moreover have "ok (net_unlock t) xs" using f u(2) by (rule ok_unlock_flags)
    moreover have "bufs t = bufs u" using f by (auto simp: flags_only_def same_def)
    moreover have "keeps_all s (net_unlock t)" using ku keeps_flags [OF f] keeps_trans [of _ s u t] by simp
    ultimately show ?thesis using u(3-5) Returns True
      by (intro exI [of _ "Returns (int len)"] exI [of _ "net_unlock t"] exI [of _ k]) simp
  qed
qed

lemma ok_remove:
  assumes "ok s xs" and "p < NET_TCP_PCB_ACTIVE_MAX"
  shows "\<exists>b. queue_remove (rcv_q p) n s = Some (take n (qbytes (rcv_q p) s), s\<lparr>bufs := b\<rparr>) \<and> ok (s\<lparr>bufs := b\<rparr>) xs \<and>
    (\<forall>i<NQ. bufs_bytes i b = (if i = rcv_q p then drop n (qbytes i s) else qbytes i s))"
proof -
  have lt: "rcv_q p < NQ" using assms(2) by simp
  obtain b where b: "queue_remove (rcv_q p) n s = Some (take n (qbytes (rcv_q p) s), s\<lparr>bufs := b\<rparr>)" "bufs_inv NQ b"
    "\<forall>i<NQ. bufs_bytes i b = (if i = rcv_q p then drop n (qbytes i s) else qbytes i s)"
    using queue_remove_ok [OF ok_bufs_inv [OF assms(1)] lt, of n] by blast
  have "ok (s\<lparr>bufs := b\<rparr>) xs"
  proof (cases "p \<in> set (xs ACTIVE)")
    case True
    then show ?thesis using ok_bufs [OF assms(1) True b(2)] b(3) by simp
  next
    case False
    then have "qbytes (rcv_q p) s = []" using assms by (simp add: ok_def)
    then show ?thesis using ok_bufs_less [OF assms(1) b(2)] b(3) by simp
  qed
  then show ?thesis using b by blast
qed

text \<open>What \<open>tcp_recv\<close> returns is taken from the front of the receive queue.\<close>

lemma recv_step_ok:
  assumes "ok s xs" and "p < NET_TCP_PCB_ACTIVE_MAX"
  shows "\<exists>r u d. recv_step p len nm s = Some (r, u) \<and> ok u xs \<and> \<not> netlock u \<and>
    (\<forall>i<NQ. qbytes i s = (if i = rcv_q p then d else []) @ qbytes i u) \<and>
    (case r of Returns (v, e) \<Rightarrow> e = d \<and> (d = take len (qbytes (rcv_q p) s) \<and> v = int (length d) \<or> d = [] \<and> v \<le> 0) | Waits _ \<Rightarrow> d = [] \<and> qbytes (rcv_q p) s = []) \<and>
    (\<exists>f. pcbs u = (pcbs s)(p := (pcbs s p)\<lparr>t_flags := f\<rparr>))"
proof -
  have lt: "rcv_q p < NQ" using assms(2) by simp
  have ql: "queue_len (rcv_q p) s = length (qbytes (rcv_q p) s)" using queue_len_eq [OF ok_bufs_inv [OF assms(1)] lt] .
  have "pcbs s = (pcbs s)(p := (pcbs s p)\<lparr>t_flags := t_flags (pcbs s p)\<rparr>)" by simp
  then have p0: "\<exists>f. pcbs s = (pcbs s)(p := (pcbs s p)\<lparr>t_flags := f\<rparr>)" by blast
  let ?st = "t_state (pcbs s p)"
  consider (ended) "?st \<in> {TCPS_CLOSED, TCPS_TIME_WAIT, TCPS_CLOSING, TCPS_LAST_ACK} \<or> queue_len (rcv_q p) s = 0 \<and> ?st = TCPS_CLOSE_WAIT"
    | (wait) "?st \<notin> {TCPS_CLOSED, TCPS_TIME_WAIT, TCPS_CLOSING, TCPS_LAST_ACK, TCPS_CLOSE_WAIT}" "queue_len (rcv_q p) s = 0"
    | (data) "?st \<notin> {TCPS_CLOSED, TCPS_TIME_WAIT, TCPS_CLOSING, TCPS_LAST_ACK}" "queue_len (rcv_q p) s \<noteq> 0" by blast
  then show ?thesis
  proof cases
    case ended
    then have "\<exists>v \<le> 0. recv_step p len nm s = Some (Returns (v, []), net_unlock s)" by (auto simp: recv_step_def)
    then obtain v where "v \<le> 0" "recv_step p len nm s = Some (Returns (v, []), net_unlock s)" by blast
    then show ?thesis using assms(1) p0 by (intro exI [of _ "Returns (v, [])"] exI [of _ "net_unlock s"] exI [of _ "[]"]) simp
  next
    case wait
    then have "recv_step p len nm s = Some (Waits (), os_cond_wait (t_cond (pcbs s p)) nm s)" by (simp add: recv_step_def)
    then show ?thesis using assms(1) ql wait(2) p0
      by (intro exI [of _ "Waits ()"] exI [of _ "os_cond_wait (t_cond (pcbs s p)) nm s"] exI [of _ "[]"]) simp
  next
    case data
    obtain b where b: "queue_remove (rcv_q p) len s = Some (take len (qbytes (rcv_q p) s), s\<lparr>bufs := b\<rparr>)" "ok (s\<lparr>bufs := b\<rparr>) xs"
      "\<forall>i<NQ. bufs_bytes i b = (if i = rcv_q p then drop len (qbytes i s) else qbytes i s)" using ok_remove [OF assms] by blast
    let ?d = "take len (qbytes (rcv_q p) s)" and ?t = "s\<lparr>bufs := b\<rparr>"
    define v where "v = (if ?st \<in> {TCPS_FIN_WAIT_1, TCPS_FIN_WAIT_2} then ?t
      else if queue_len (rcv_q p) ?t = 0 then tcp_output_sched p (if flag (t_flags (pcbs s p)) TF_DELACK then set_flag p TF_ACKNOW ?t else ?t) else ?t)"
    have e: "recv_step p len nm s = Some (Returns (int (length ?d), ?d), net_unlock v)"
      using data b(1) unfolding recv_step_def v_def Let_def by simp
    have f: "flags_only p ?t v" unfolding v_def using flags_only_trans [of p ?t "set_flag p TF_ACKNOW ?t"] by simp
    then have "bufs v = b" "\<exists>f. pcbs v = (pcbs s)(p := (pcbs s p)\<lparr>t_flags := f\<rparr>)" by (auto simp: flags_only_def same_def)
    moreover have "ok (net_unlock v) xs" using f b(2) by (rule ok_unlock_flags)
    ultimately show ?thesis using e b(3) by (intro exI [of _ "Returns (int (length ?d), ?d)"] exI [of _ "net_unlock v"] exI [of _ ?d]) simp
  qed
qed

section \<open>Properties\<close>

text \<open>Binding: a closed block gets the address and the port that was asked for, unless another closed or listening block has
  them; without a port it gets an ephemeral one that is free. The search for it always ends, since the stack has fewer blocks
  than there are such ports.\<close>

theorem tcp_bind_binds:
  assumes "ok s xs" and "p \<in> set (xs CLOSED)"
  shows "\<exists>r u. tcp_bind p addr port s = Some (r, u) \<and> ok u xs \<and>
    (if port \<noteq> 0 \<and> \<not> port_free xs addr port s then r = - EADDRINUSE \<and> u = net_lock s
     else r = 0 \<and> \<not> netlock u \<and> (\<exists>q. port_free xs addr q s \<and> (if port \<noteq> 0 then q = port else \<exists>x. q = eph x) \<and>
       pcbs u = (pcbs s)(p := (pcbs s p)\<lparr>inp_lport := q, inp_laddr := addr\<rparr>)))"
proof -
  have "(p \<notin> set (xs CLOSED)) = False" using assms(2) by simp
  from bind_ok [OF assms(1), of p addr port, unfolded this if_False] show ?thesis by blast
qed

text \<open>Sending: between two waits, a call appends some of its bytes to the send queue of its connection, from the front on and
  in order, and goes on with the rest; it returns the length of its buffer only when all bytes were appended. No byte of
  another queue changes, and the lock is given up. In states other than ESTABLISHED nothing is sent.\<close>

theorem tcp_send_appends:
  assumes "ok s xs" and "p < 8" and "p \<notin> set (xs FREE)"
  shows "\<exists>r u k. send_step p len flags nm rem s = Some (r, u) \<and> ok u xs \<and> \<not> netlock u \<and> k \<le> length rem \<and>
    (\<forall>i<NQ. qbytes i u = qbytes i s @ (if i = snd_q p then take k rem else [])) \<and>
    (case r of Returns v \<Rightarrow> if t_state (pcbs s p) = TCPS_ESTABLISHED then v = int len \<and> k = length rem else v = - 1 \<and> k = 0
     | Waits rem' \<Rightarrow> rem' = drop k rem)"
  using send_step_ok [OF assms, of len flags nm rem] by blast

theorem tcp_send_appends_witness:
  "\<forall>d. \<exists>r u k. send_step 0 2 0 0 [65, 66] (sample_tcp ACTIVE (zero_pcb\<lparr>t_state := TCPS_ESTABLISHED\<rparr>) d) = Some (r, u) \<and>
    qbytes (snd_q 0) u = take k [65, 66] \<and> (case r of Returns v \<Rightarrow> v = 2 \<and> k = 2 | Waits w \<Rightarrow> w = drop k [65, 66])"
proof
  fix d
  let ?s = "sample_tcp ACTIVE (zero_pcb\<lparr>t_state := TCPS_ESTABLISHED\<rparr>) d"
  have o: "ok ?s (sample_lists ACTIVE)" by (rule sample_ok) simp_all
  have p: "0 \<notin> set (sample_lists ACTIVE FREE)" by (simp add: sample_lists_def)
  have q: "qbytes (snd_q 0) ?s = []" using init_bufs(2) [of _ "\<lambda>_. zero_queue" d] by (simp add: sample_tcp_def)
  have t: "t_state (pcbs ?s 0) = TCPS_ESTABLISHED" by (simp add: sample_tcp_def)
  have lt: "snd_q 0 < NQ" by simp
  obtain r u k where u: "send_step 0 2 0 0 [65, 66] ?s = Some (r, u)" "\<forall>i<NQ. qbytes i u = qbytes i ?s @ (if i = snd_q 0 then take k [65, 66] else [])"
    "case r of Returns v \<Rightarrow> if t_state (pcbs ?s 0) = TCPS_ESTABLISHED then v = int 2 \<and> k = length [65 :: u8, 66] else v = - 1 \<and> k = 0
     | Waits rem' \<Rightarrow> rem' = drop k [65, 66]"
    using tcp_send_appends [OF o _ p, of 2 0 0 "[65, 66]"] by auto
  have "qbytes (snd_q 0) u = take k [65, 66]" using u(2) lt q by simp
  then show "\<exists>r u k. send_step 0 2 0 0 [65, 66] ?s = Some (r, u) \<and>
      qbytes (snd_q 0) u = take k [65, 66] \<and> (case r of Returns v \<Rightarrow> v = 2 \<and> k = 2 | Waits w \<Rightarrow> w = drop k [65, 66])"
    using u(1,3) t by (intro exI [of _ r] exI [of _ u] exI [of _ k]) (simp split: progress.splits)
qed

text \<open>A block that is closed, for the examples.\<close>

lemma sample_closed:
  "\<exists>u. tcp_alloc (sample_tcp LISTEN (zero_pcb\<lparr>t_state := TCPS_LISTEN\<rparr>) d) = (Some 1, u) \<and>
    ok u ((sample_lists LISTEN)(FREE := [2, 3, 4, 5, 6, 7], CLOSED := [1]))"
proof -
  have o: "ok (sample_tcp LISTEN (zero_pcb\<lparr>t_state := TCPS_LISTEN\<rparr>) d) (sample_lists LISTEN)" by (rule sample_ok) simp_all
  have l: "sample_lists LISTEN FREE = [1, 2, 3, 4, 5, 6, 7]" "sample_lists LISTEN CLOSED = []" by (simp_all add: sample_lists_def)
  show ?thesis using alloc_ok [OF o] by (auto simp: l)
qed

theorem tcp_bind_binds_witness:
  "\<forall>d. \<exists>r u. tcp_bind 1 0 0 (snd (tcp_alloc (sample_tcp LISTEN (zero_pcb\<lparr>t_state := TCPS_LISTEN\<rparr>) d))) = Some (r, u) \<and> r = 0 \<and> (\<exists>x. inp_lport (pcbs u 1) = eph x)"
proof
  fix d
  obtain s where s: "tcp_alloc (sample_tcp LISTEN (zero_pcb\<lparr>t_state := TCPS_LISTEN\<rparr>) d) = (Some 1, s)"
    "ok s ((sample_lists LISTEN)(FREE := [2, 3, 4, 5, 6, 7], CLOSED := [1]))" using sample_closed by blast
  have "\<exists>r u. tcp_bind 1 0 0 s = Some (r, u) \<and> r = 0 \<and> (\<exists>x. inp_lport (pcbs u 1) = eph x)"
    using tcp_bind_binds [OF s(2), of 1 0 0] by auto
  then show "\<exists>r u. tcp_bind 1 0 0 (snd (tcp_alloc (sample_tcp LISTEN (zero_pcb\<lparr>t_state := TCPS_LISTEN\<rparr>) d))) = Some (r, u) \<and> r = 0 \<and> (\<exists>x. inp_lport (pcbs u 1) = eph x)"
    using s(1) by simp
qed

end
