(* ===== verification/Net_Tcp_Run.thy ===== *)
theory Net_Tcp_Run
  imports Net_Tcp_User
begin

text \<open>
  TCP as a whole: the events that change the receive side and the lists of the stack (segments from the network, the ticks of
  the timers, the calls of the applications and their continuations after a wait) in any order. One event runs under the lock
  of the stack, so events do not overlap. \<open>allowed\<close> is what the stack relies on: applications pass handles that are in use,
  a listening block is not put to listen again, segments are shorter than 2 GB and have options that end with their header,
  and a listening block is closed when no connection waits in its backlog. The idle timer always has memory for a probe.
  Sending is no event here; \<open>Net_Tcp_Out\<close> shows that \<open>tcp_output\<close> keeps the invariant.
\<close>

section \<open>Definitions\<close>

datatype tcp_event =
    Segment mem nat nat int
  | FastTick
  | RxmtTick
  | IdleTick
  | Alloc
  | Bind nat u32 u16
  | Listen nat int
  | Accept nat
  | Connect nat u32 u16
  | ConnectAgain nat
  | Send nat "u8 list" int
  | SendAgain nat nat int "u8 list"
  | Recv nat nat
  | RecvAgain nat nat
  | Close nat

text \<open>The bytes that a call hands to its application.\<close>

fun received :: "(int \<times> u8 list, unit) progress \<Rightarrow> u8 list" where
  "received (Returns (v, d)) = d"
| "received (Waits w) = []"

definition locked :: "(tcp_system \<Rightarrow> tcp_system option) \<Rightarrow> tcp_system \<Rightarrow> (u8 list \<times> tcp_system) option" where
  "locked f s = map_option (\<lambda>u. ([], net_unlock u)) (f (net_lock s))"

definition silent :: "('a \<times> tcp_system) option \<Rightarrow> (u8 list \<times> tcp_system) option" where
  "silent r = map_option (\<lambda>(_, u). ([], u)) r"

fun tcp_do :: "int \<Rightarrow> tcp_event \<Rightarrow> tcp_system \<Rightarrow> (u8 list \<times> tcp_system) option" where
  "tcp_do nm (Segment m iph th len) s = locked (\<lambda>s. map_option snd (tcp_input m iph th len s)) s"
| "tcp_do nm FastTick s = locked tcp_fast_tmr s"
| "tcp_do nm RxmtTick s = locked tcp_rxmt_tmr s"
| "tcp_do nm IdleTick s = locked (tcp_idle_tmr True) s"
| "tcp_do nm Alloc s = Some ([], snd (tcp_alloc s))"
| "tcp_do nm (Bind p a port) s = silent (tcp_bind p a port s)"
| "tcp_do nm (Listen p n) s = silent (tcp_listen p n s)"
| "tcp_do nm (Accept p) s = Some ([], snd (tcp_accept p s))"
| "tcp_do nm (Connect p a port) s = silent (tcp_connect p a port nm s)"
| "tcp_do nm (ConnectAgain p) s = silent (connect_wait p nm (net_lock s))"
| "tcp_do nm (Send p d flags) s = silent (tcp_send p d flags nm s)"
| "tcp_do nm (SendAgain p n flags d) s = silent (send_step p n flags nm d (net_lock s))"
| "tcp_do nm (Recv p n) s = map_option (\<lambda>(r, u). (received r, u)) (tcp_recv p n nm s)"
| "tcp_do nm (RecvAgain p n) s = map_option (\<lambda>(r, u). (received r, u)) (recv_step p n nm (net_lock s))"
| "tcp_do nm (Close p) s = silent (tcp_close p s)"

definition in_use :: "nat \<Rightarrow> tcp_system \<Rightarrow> bool" where
  "in_use p s \<longleftrightarrow> p < NET_TCP_PCB_ACTIVE_MAX \<and> pcb_find p (lst s FREE) (nx s) = Some (- 1)"

fun allowed :: "tcp_event \<Rightarrow> tcp_system \<Rightarrow> bool" where
  "allowed (Segment m iph th len) s \<longleftrightarrow> syn_ok m th \<and> len < 2 ^ 31"
| "allowed (Listen p n) s \<longleftrightarrow> in_use p s \<and> t_state (pcbs s p) \<noteq> TCPS_LISTEN"
| "allowed (ConnectAgain p) s \<longleftrightarrow> in_use p s"
| "allowed (Send p d flags) s \<longleftrightarrow> in_use p s"
| "allowed (SendAgain p n flags d) s \<longleftrightarrow> in_use p s"
| "allowed (Recv p n) s \<longleftrightarrow> in_use p s"
| "allowed (RecvAgain p n) s \<longleftrightarrow> in_use p s"
| "allowed (Close p) s \<longleftrightarrow> in_use p s \<and> (t_state (pcbs s p) = TCPS_LISTEN \<longrightarrow> t_head (pcbs s p) = t_tail (pcbs s p))"
| "allowed _ s \<longleftrightarrow> True"

text \<open>The states of the stack after its initialisation, under all orders of events.\<close>

inductive tcp_reachable :: "int \<Rightarrow> tcp_system \<Rightarrow> bool" for nm where
  start: "bufs_inv NQ (bufs s) \<Longrightarrow> (\<forall>i<NQ. qbytes i s = []) \<Longrightarrow> table (routes s) rs \<Longrightarrow> tcp_reachable nm (tcp_init s)"
| event: "tcp_reachable nm s \<Longrightarrow> \<not> netlock s \<Longrightarrow> allowed e s \<Longrightarrow> tcp_do nm e s = Some (d, u) \<Longrightarrow> tcp_reachable nm u"

text \<open>The events that may change the receive side of the connection \<open>p\<close>.\<close>

fun concerns :: "nat \<Rightarrow> tcp_event \<Rightarrow> tcp_system \<Rightarrow> bool" where
  "concerns p (Segment m iph th len) s \<longleftrightarrow> conn m iph th s = Some (Some p)"
| "concerns p (Recv q n) s \<longleftrightarrow> q = p"
| "concerns p (RecvAgain q n) s \<longleftrightarrow> q = p"
| "concerns p _ s \<longleftrightarrow> False"

section \<open>Every event keeps the stack in order\<close>

lemma in_use_list: "ok s xs \<Longrightarrow> in_use p s \<longleftrightarrow> p < NET_TCP_PCB_ACTIVE_MAX \<and> p \<notin> set (xs FREE)"
  using find_plist [OF ok_plist, of s xs p FREE] by (auto simp: in_use_def)

text \<open>The result of an event that may leave the lock only if \<open>L\<close>, and changes the receive sides in \<open>C\<close> only.\<close>

definition fine :: "(nat \<Rightarrow> bool) \<Rightarrow> bool \<Rightarrow> tcp_system \<Rightarrow> (u8 list \<times> tcp_system) option \<Rightarrow> bool" where
  "fine C L s r \<longleftrightarrow> (\<exists>d u. r = Some (d, u) \<and> tcp_ok u \<and> (netlock u \<longrightarrow> L) \<and> (\<forall>q < NET_TCP_PCB_ACTIVE_MAX. C q \<or> keeps q s u))"

lemma fine_locked: "\<exists>u. f (net_lock s) = Some u \<and> tcp_ok u \<and> (\<forall>q < NET_TCP_PCB_ACTIVE_MAX. C q \<or> keeps q s u) \<Longrightarrow> fine C L s (locked f s)"
  by (auto simp: fine_def locked_def)

lemma fine_silent: "\<exists>r u. c = Some (r, u) \<and> tcp_ok u \<and> (netlock u \<longrightarrow> L) \<and> keeps_all s u \<Longrightarrow> fine C L s (silent c)"
  by (auto simp: fine_def silent_def)

lemma fine_plain: "ok u ys \<Longrightarrow> \<not> netlock u \<Longrightarrow> keeps_all s u \<Longrightarrow> fine C L s (Some (d, u))"
  by (auto simp: fine_def tcp_ok_def)

lemma segment_fine:
  assumes "ok s xs" and "syn_ok m th" and "len < 2 ^ 31"
  shows "fine (\<lambda>q. conn m iph th s = Some (Some q)) L s (locked (\<lambda>s. map_option snd (tcp_input m iph th len s)) s)"
proof (rule fine_locked)
  have o: "ok (net_lock s) xs" using assms(1) by simp
  have ce: "conn m iph th (net_lock s) = conn m iph th s" by simp
  obtain r where r: "conn m iph th s = Some r" using conn_found [OF assms(1)] by blast
  show "\<exists>u. map_option snd (tcp_input m iph th len (net_lock s)) = Some u \<and> tcp_ok u \<and>
      (\<forall>q < NET_TCP_PCB_ACTIVE_MAX. conn m iph th s = Some (Some q) \<or> keeps q s u)"
  proof (cases r)
    case None
    obtain v u r' where u: "tcp_input m iph th len (net_lock s) = Some (v, u)" "tcp_ok u"
      "case r' of None \<Rightarrow> unmoved (net_lock s) u
       | Some mux \<Rightarrow> mux \<in> set (xs LISTEN) \<and>
           (if accepts mux (th_flags m th) (ti_len (input_seg m th len)) (xs FREE) (net_lock s)
            then ok u (xs(FREE := tl (xs FREE), ACTIVE := xs ACTIVE @ [hd (xs FREE)])) \<and>
              accepted mux (hd (xs FREE)) m iph th (net_lock s) u
            else unmoved (net_lock s) u)"
    proof -
      have e: "tcp_input m iph th len (net_lock s) = in_listen m iph th (input_seg m th len) (int (4 * th_off m th) - 20) (net_lock s)"
        unfolding input_eq ce r None by simp
      from in_listen_ok [OF o assms(2) seg_simps(1) [of m th len] refl, of iph] show ?thesis
        unfolding e by (elim exE conjE) (rule that [unfolded e], assumption+)
    qed
    then consider "unmoved (net_lock s) u" | mux tp where "mux \<in> set (xs LISTEN)" "filled mux tp m iph th (net_lock s) u"
      unfolding accepted_def by (auto split: option.splits if_splits)
    then have "keeps q (net_lock s) u" if "q < NET_TCP_PCB_ACTIVE_MAX" for q
    proof cases
      case 1
      then show ?thesis by (simp add: unmoved_def same_def keeps_def)
    next
      case (2 mux tp)
      then have "cstate (net_lock s) mux = TCPS_LISTEN" using state_in [of "net_lock s" xs mux LISTEN] o by simp
      then show ?thesis using 2(2) by (cases "q = tp"; cases "q = mux") (auto simp: filled_def keeps_def)
    qed
    then show ?thesis using u(1,2) by auto
  next
    case (Some p)
    have "handled p (th_flags m th) (net_lock s) (tcp_input m iph th len (net_lock s))"
      using input_handled [of "net_lock s" m th len iph p] o assms(2,3) r Some unfolding ce by (auto simp: tcp_ok_def)
    then obtain v u where u: "tcp_input m iph th len (net_lock s) = Some (v, u)" "tcp_ok u" "only p (net_lock s) u" by (auto simp: handled_def)
    have "q = p \<or> keeps q s u" if "q < NET_TCP_PCB_ACTIVE_MAX" for q using keeps_only [OF u(3) _ that] by auto
    then show ?thesis using u(1,2) r Some by auto
  qed
qed


lemma fold_keeps:
  assumes "\<And>p. p < NET_TCP_PCB_ACTIVE_MAX \<Longrightarrow> bufs u = bufs s \<and> cstate u p = cstate s p \<and> rcv_nxt (pcbs u p) = rcv_nxt (pcbs s p)"
  shows "keeps_all s u"
  using assms by (simp add: keeps_def)

text \<open>Each event returns; the lock is given back but for two error returns.\<close>

fun may_keep_lock :: "tcp_event \<Rightarrow> bool" where
  "may_keep_lock (Bind p a port) \<longleftrightarrow> port \<noteq> 0"
| "may_keep_lock (Connect p a port) \<longleftrightarrow> True"
| "may_keep_lock _ \<longleftrightarrow> False"

lemma recv_fine:
  assumes "ok s xs" and "p < NET_TCP_PCB_ACTIVE_MAX"
  shows "fine (\<lambda>q. q = p) L s (map_option (\<lambda>(r, u). (received r, u)) (recv_step p n nm (net_lock s)))"
proof -
  have o: "ok (net_lock s) xs" using assms(1) by simp
  obtain r u d where u: "recv_step p n nm (net_lock s) = Some (r, u)" "ok u xs" "\<not> netlock u"
    "\<forall>i<NQ. qbytes i (net_lock s) = (if i = rcv_q p then d else []) @ qbytes i u"
    "\<exists>f. pcbs u = (pcbs (net_lock s))(p := (pcbs (net_lock s) p)\<lparr>t_flags := f\<rparr>)"
    using recv_step_ok [OF o assms(2), of n nm] by blast
  have "q = p \<or> keeps q s u" if "q < NET_TCP_PCB_ACTIVE_MAX" for q
  proof (cases "q = p")
    case False
    have "rcv_q q < NQ" "rcv_q q \<noteq> rcv_q p" using that False by simp_all
    then have "qbytes (rcv_q q) u = qbytes (rcv_q q) s" using u(4) by simp
    then show ?thesis using u(5) False by (auto simp: keeps_def)
  qed simp
  then show ?thesis using u(1-3) by (auto simp: fine_def tcp_ok_def)
qed

lemma tick_blocks: "rcv_nxt (fast_block b) = rcv_nxt b \<and> t_state (fast_block b) = t_state b" "rcv_nxt (rxmt_block b) = rcv_nxt b \<and> t_state (rxmt_block b) = t_state b"
  by (simp_all add: fast_block_def rxmt_block_def)

lemma fast_fine: "ok s xs \<Longrightarrow> fine C L s (locked tcp_fast_tmr s)"
  using fast_tmr_walk [of "net_lock s" xs] tick_blocks(1) by (auto simp: tcp_ok_def same_def keeps_def intro!: fine_locked)

lemma rxmt_fine: "ok s xs \<Longrightarrow> fine C L s (locked tcp_rxmt_tmr s)"
  using rxmt_tmr_walk [of "net_lock s" xs] tick_blocks(2) by (auto simp: tcp_ok_def same_def keeps_def intro!: fine_locked)

lemma event_fine:
  assumes "ok s xs" and "\<not> netlock s" and "allowed e s"
  shows "fine (\<lambda>q. concerns q e s) (may_keep_lock e) s (tcp_do nm e s)"
proof (cases e)
  case (Segment m iph th len)
  then show ?thesis using segment_fine [OF assms(1), of m th len iph False] assms(3) by simp
next
  case FastTick
  then show ?thesis using fast_fine [OF assms(1)] by simp
next
  case RxmtTick
  then show ?thesis using rxmt_fine [OF assms(1)] by simp
next
  case IdleTick
  then show ?thesis using idle_tmr_ok [of "net_lock s" xs] assms(1) by (auto intro!: fine_locked)
next
  case Alloc
  then show ?thesis using alloc_ok [OF assms(1)] assms(1) by (auto split: if_splits intro: fine_plain)
next
  case (Bind p a port)
  obtain r u where u: "tcp_bind p a port s = Some (r, u)" "ok u xs" "bufs u = bufs s"
    "if p \<notin> set (xs CLOSED) then r = - ENOTSOCK \<and> u = s
     else if port \<noteq> 0 \<and> \<not> port_free xs a port s then r = - EADDRINUSE \<and> u = net_lock s
     else r = 0 \<and> \<not> netlock u \<and> (\<exists>q. port_free xs a q s \<and> (if port \<noteq> 0 then q = port else \<exists>x. q = eph x) \<and>
       pcbs u = (pcbs s)(p := (pcbs s p)\<lparr>inp_lport := q, inp_laddr := a\<rparr>))" using bind_ok [OF assms(1), of p a port] by blast
  have "keeps q s u" for q using u(3,4) by (cases "q = p") (auto simp: keeps_def split: if_splits)
  moreover have "netlock u \<longrightarrow> port \<noteq> 0" using u(4) assms(2) by (auto split: if_splits)
  ultimately show ?thesis using Bind u(1,2) by (auto simp: tcp_ok_def intro!: fine_silent)
next
  case (Listen p n)
  have p: "p < NET_TCP_PCB_ACTIVE_MAX" "p \<notin> set (xs FREE)" "cstate s p \<noteq> TCPS_LISTEN" using assms(1,3) Listen by (simp_all add: in_use_list)
  have "\<exists>r u. tcp_listen p n s = Some (r, u) \<and> tcp_ok u \<and> \<not> netlock u \<and> keeps_all s u"
  proof (cases "cstate s p = TCPS_CLOSED")
    case True
    then have "p \<in> set (xs CLOSED)" using where_state(1) [OF assms(1) p(1,2)] by simp
    from listen_ok [OF assms(1) this, of n] show ?thesis unfolding tcp_ok_def by (elim exE conjE disjE) blast+
  next
    case False
    then show ?thesis using listen_other_ok [OF assms(1), of p n] p(3) by (auto simp: tcp_ok_def)
  qed
  then show ?thesis using Listen by (auto intro!: fine_silent)
next
  case (Accept p)
  then show ?thesis using accept_ok [OF assms(1), of p] by (cases "tcp_accept p s") (auto intro!: fine_plain)
next
  case (Connect p a port)
  then show ?thesis using connect_ok [OF assms(1), of p a port nm] by (auto intro!: fine_silent)
next
  case (ConnectAgain p)
  then show ?thesis using connect_wait_ok [of "net_lock s" xs p nm] assms(1,3) by (auto simp: in_use_list tcp_ok_def intro!: fine_silent)
next
  case (Send p d flags)
  then show ?thesis using send_step_ok [of "net_lock s" xs p "length d" flags nm d] assms(1,3)
    by (auto simp: in_use_list tcp_ok_def tcp_send_def intro!: fine_silent)
next
  case (SendAgain p n flags d)
  then show ?thesis using send_step_ok [of "net_lock s" xs p n flags nm d] assms(1,3)
    by (auto simp: in_use_list tcp_ok_def intro!: fine_silent)
next
  case (Recv p n)
  then show ?thesis using recv_fine [OF assms(1), of p False n nm] assms by (auto simp: in_use_list tcp_recv_def fine_def tcp_ok_def)
next
  case (RecvAgain p n)
  then show ?thesis using recv_fine [OF assms(1), of p False n nm] assms(1,3) by (simp add: in_use_list eq_commute)
next
  case (Close p)
  then show ?thesis using close_ok [OF assms(1), of p] assms(1,3) by (auto simp: in_use_list intro!: fine_silent)
qed

section \<open>Safety of the whole stack\<close>

lemma reachable_ok:
  assumes "tcp_reachable nm s"
  shows "tcp_ok s"
  using assms
proof (induction rule: tcp_reachable.induct)
  case (start s rs)
  then show ?case using tcp_init_ok by (auto simp: tcp_ok_def)
next
  case (event s e d u)
  then show ?case using event_fine [of s _ e nm] by (auto simp: tcp_ok_def fine_def)
qed

text \<open>After any sequence of segments, timer ticks and calls, each control block is in exactly one of the four lists, with a
  state that list allows; the byte queues are well formed, those of blocks that are not active are empty, and the routing
  table is in order. The next event returns, without a null pointer or an endless loop, and gives back the lock, but for the
  error returns of \<open>tcp_bind\<close> to a given port and of \<open>tcp_connect\<close>.\<close>

theorem tcp_stack_safe:
  assumes "tcp_reachable nm s" and "\<not> netlock s" and "allowed e s"
  shows "tcp_ok s \<and> (\<exists>d u. tcp_do nm e s = Some (d, u) \<and> tcp_ok u \<and> (netlock u \<longrightarrow> may_keep_lock e))"
proof -
  have o: "tcp_ok s" using assms(1) by (rule reachable_ok)
  then obtain xs where "ok s xs" by (auto simp: tcp_ok_def)
  from event_fine [OF this assms(2,3), of nm] show ?thesis using o unfolding fine_def by blast
qed

text \<open>The stack after its initialisation.\<close>

lemma init_netlock: "netlock (tcp_init s) = netlock s"
proof -
  have "netlock (init_loop n i t) = netlock t" for n i t
    by (induction n arbitrary: i t) (simp_all add: list_insert_def split: prod.split)
  then show ?thesis using os_simps(8) [of thinkos_cond_alloc_svc 0] by (simp add: tcp_init_def Let_def case_prod_unfold)
qed

lemma sample_reachable: "tcp_reachable nm (tcp_init (net_unlock (sample_tcp LISTEN (zero_pcb\<lparr>t_state := TCPS_LISTEN\<rparr>) d)))"
proof (rule tcp_reachable.start)
  let ?s = "sample_tcp LISTEN (zero_pcb\<lparr>t_state := TCPS_LISTEN\<rparr>) d"
  have o: "ok ?s (sample_lists LISTEN)" by (rule sample_ok) simp_all
  show "bufs_inv NQ (bufs (net_unlock ?s))" using o by simp
  show "\<forall>i<NQ. qbytes i (net_unlock ?s) = []"
  proof (intro allI impI)
    fix i assume "i < NQ"
    then have "i div 2 < NET_TCP_PCB_ACTIVE_MAX" "i div 2 \<notin> set (sample_lists LISTEN ACTIVE)" "i = rcv_q (i div 2) \<or> i = snd_q (i div 2)"
      by (auto simp: sample_lists_def)
    then show "qbytes i (net_unlock ?s) = []" using o unfolding ok_def by (metis netlock_simps(11))
  qed
  show "table (routes (net_unlock ?s)) sample_routes" using sample_table by (simp add: sample_tcp_def)
qed

theorem tcp_stack_safe_witness:
  "\<forall>d. \<exists>b u. tcp_do 0 Alloc (tcp_init (net_unlock (sample_tcp LISTEN (zero_pcb\<lparr>t_state := TCPS_LISTEN\<rparr>) d))) = Some (b, u) \<and> tcp_ok u \<and> \<not> netlock u"
proof
  fix d
  let ?s = "tcp_init (net_unlock (sample_tcp LISTEN (zero_pcb\<lparr>t_state := TCPS_LISTEN\<rparr>) d))"
  have "\<not> netlock ?s" by (simp add: init_netlock)
  moreover have "allowed Alloc ?s" by simp
  ultimately have "\<exists>b u. tcp_do 0 Alloc ?s = Some (b, u) \<and> tcp_ok u \<and> (netlock u \<longrightarrow> may_keep_lock Alloc)"
    using tcp_stack_safe [OF sample_reachable] by blast
  then show "\<exists>b u. tcp_do 0 Alloc ?s = Some (b, u) \<and> tcp_ok u \<and> \<not> netlock u" by simp
qed

section \<open>Delivery to the application\<close>

text \<open>Sequences of events in which the connection \<open>p\<close> stays established and its segments carry the bytes of the stream
  \<open>S\<close>; \<open>out\<close> is what the application has read from it.\<close>

fun fair :: "(u32 \<Rightarrow> u8) \<Rightarrow> tcp_event \<Rightarrow> bool" where
  "fair S (Segment m iph th len) \<longleftrightarrow> honest m S (input_seg m th len) \<and> \<not> flag (th_flags m th) TH_FIN"
| "fair S _ \<longleftrightarrow> True"

inductive stream_run :: "int \<Rightarrow> (u32 \<Rightarrow> u8) \<Rightarrow> nat \<Rightarrow> tcp_system \<Rightarrow> u8 list \<Rightarrow> tcp_system \<Rightarrow> bool" for nm S p s where
  nothing: "stream_run nm S p s [] s"
| event: "stream_run nm S p s out t \<Longrightarrow> \<not> netlock t \<Longrightarrow> allowed e t \<Longrightarrow> (concerns p e t \<longrightarrow> fair S e) \<Longrightarrow> tcp_do nm e t = Some (d, u) \<Longrightarrow>
    t_state (pcbs u p) = TCPS_ESTABLISHED \<Longrightarrow> stream_run nm S p s (if concerns p e t then out @ d else out) u"

lemma recv_reads:
  assumes "ok s xs" and "p < NET_TCP_PCB_ACTIVE_MAX" and "map_option (\<lambda>(r, u). (received r, u)) (recv_step p n nm (net_lock s)) = Some (d, u)"
  shows "qbytes (rcv_q p) s = d @ qbytes (rcv_q p) u \<and> rcv_nxt (pcbs u p) = rcv_nxt (pcbs s p)"
proof -
  have o: "ok (net_lock s) xs" and lt: "rcv_q p < NQ" using assms(1,2) by simp_all
  obtain r v d' where u: "recv_step p n nm (net_lock s) = Some (r, v)"
    "\<forall>i<NQ. qbytes i (net_lock s) = (if i = rcv_q p then d' else []) @ qbytes i v"
    "case r of Returns (x, e) \<Rightarrow> e = d' \<and> (d' = take n (qbytes (rcv_q p) (net_lock s)) \<and> x = int (length d') \<or> d' = [] \<and> x \<le> 0) | Waits _ \<Rightarrow> d' = [] \<and> qbytes (rcv_q p) (net_lock s) = []"
    "\<exists>f. pcbs v = (pcbs (net_lock s))(p := (pcbs (net_lock s) p)\<lparr>t_flags := f\<rparr>)"
    using recv_step_ok [OF o assms(2), of n nm] by blast
  have d: "d = received r" "u = v" using assms(3) u(1) by simp_all
  have "received r = d'" using u(3) by (cases r rule: received.cases) auto
  then show ?thesis using u(2,4) lt unfolding d by auto
qed

text \<open>What one event adds to the stream that was received, and what it takes from it.\<close>

lemma event_stream:
  assumes "ok s xs" and "\<not> netlock s" and "allowed e s" and "concerns p e s \<longrightarrow> fair S e" and "tcp_do nm e s = Some (d, u)"
    and "t_state (pcbs u p) = TCPS_ESTABLISHED" and "t_state (pcbs s p) = TCPS_ESTABLISHED" and "p < NET_TCP_PCB_ACTIVE_MAX"
  shows "\<exists>n. rcv_nxt (pcbs u p) = rcv_nxt (pcbs s p) + of_nat n \<and>
    qbytes (rcv_q p) s @ map (\<lambda>i. S (rcv_nxt (pcbs s p) + of_nat i)) [0..<n] = (if concerns p e s then d else []) @ qbytes (rcv_q p) u"
proof (cases "concerns p e s")
  case False
  then have "keeps p s u" using event_fine [OF assms(1-3), of nm] assms(5,8) by (auto simp: fine_def)
  then show ?thesis using assms(6) False by (intro exI [of _ 0]) (simp add: keeps_def)
next
  case True
  have rc: ?thesis if "map_option (\<lambda>(r, u). (received r, u)) (recv_step p n nm (net_lock s)) = Some (d, u)" for n
    using recv_reads [OF assms(1,8) that] True by (intro exI [of _ 0]) simp
  show ?thesis
  proof (cases e)
    case (Segment m iph th len)
    have o: "ok (net_lock s) xs" using assms(1) by simp
    have c: "conn m iph th (net_lock s) = Some (Some p)" using True Segment by simp
    have h: "honest m S (input_seg m th len)" "\<not> flag (th_flags m th) TH_FIN" using assms(4) True Segment by simp_all
    have "cstate (net_lock s) p \<noteq> TCPS_SYN_SENT" using assms(7) by simp
    from input_result [OF o c h(1) this] obtain v w where w: "tcp_input m iph th len (net_lock s) = Some (v, w)" "rx p S (th_flags m th) (net_lock s) w"
      unfolding result_def by blast
    have u: "u = net_unlock w" "d = []" using w(1) assms(5) Segment by (auto simp: locked_def)
    then have "cstate w p = TCPS_ESTABLISHED" using assms(6) by simp
    then obtain n where "rcv_nxt (pcbs w p) = rcv_nxt (pcbs s p) + of_nat n"
      "qbytes (rcv_q p) w = qbytes (rcv_q p) s @ map (\<lambda>i. S (rcv_nxt (pcbs s p) + of_nat i)) [0..<n]"
      using w(2) h(2) unfolding rx_def gone_def by auto
    then show ?thesis using u by auto
  next
    case (Recv q n)
    then have "q = p" using True by simp
    show ?thesis
    proof (cases "n = 0")
      case True
      then show ?thesis using assms(5) Recv \<open>q = p\<close> by (intro exI [of _ 0]) (auto simp: tcp_recv_def)
    next
      case False
      then show ?thesis using rc [of n] assms(5) Recv \<open>q = p\<close> by (simp add: tcp_recv_def)
    qed
  next
    case (RecvAgain q n)
    then show ?thesis using rc [of n] assms(5) True by simp
  qed (use True in simp_all)
qed

lemma append_through: "a = b @ c \<Longrightarrow> x @ b = y @ z \<Longrightarrow> z @ c = v @ w \<Longrightarrow> x @ a = y @ v @ w"
  by (metis append.assoc)

lemma stream_run_inv:
  assumes "stream_run nm S p s out u" and "tcp_ok s" and "t_state (pcbs s p) = TCPS_ESTABLISHED" and "p < NET_TCP_PCB_ACTIVE_MAX"
  shows "tcp_ok u \<and> t_state (pcbs u p) = TCPS_ESTABLISHED \<and> (\<exists>n. rcv_nxt (pcbs u p) = rcv_nxt (pcbs s p) + of_nat n \<and>
    qbytes (rcv_q p) s @ map (\<lambda>i. S (rcv_nxt (pcbs s p) + of_nat i)) [0..<n] = out @ qbytes (rcv_q p) u)"
  using assms(1)
proof (induction rule: stream_run.induct)
  case nothing
  show ?case using assms(2,3) by (auto intro: exI [of _ 0])
next
  case (event out t e d u)
  then obtain xs where xs: "ok t xs" by (auto simp: tcp_ok_def)
  obtain n where n: "rcv_nxt (pcbs t p) = rcv_nxt (pcbs s p) + of_nat n"
    "qbytes (rcv_q p) s @ map (\<lambda>i. S (rcv_nxt (pcbs s p) + of_nat i)) [0..<n] = out @ qbytes (rcv_q p) t" using event.IH by blast
  have est: "t_state (pcbs t p) = TCPS_ESTABLISHED" using event.IH by blast
  obtain k where k: "rcv_nxt (pcbs u p) = rcv_nxt (pcbs t p) + of_nat k"
    "qbytes (rcv_q p) t @ map (\<lambda>i. S (rcv_nxt (pcbs t p) + of_nat i)) [0..<k] = (if concerns p e t then d else []) @ qbytes (rcv_q p) u"
    using event_stream [OF xs event.hyps(2-6) est assms(4)] by blast
  have "[0..<n + k] = [0..<n] @ map (\<lambda>i. n + i) [0..<k]" by (induction k) simp_all
  then have m: "map (\<lambda>i. S (rcv_nxt (pcbs s p) + of_nat i)) [0..<n + k] = map (\<lambda>i. S (rcv_nxt (pcbs s p) + of_nat i)) [0..<n] @
      map (\<lambda>i. S (rcv_nxt (pcbs t p) + of_nat i)) [0..<k]" using n(1) by (simp add: add.assoc)
  have "qbytes (rcv_q p) s @ map (\<lambda>i. S (rcv_nxt (pcbs s p) + of_nat i)) [0..<n + k] = (if concerns p e t then out @ d else out) @ qbytes (rcv_q p) u"
    using append_through [OF m n(2) k(2)] by (simp split: if_splits)
  moreover have "rcv_nxt (pcbs u p) = rcv_nxt (pcbs s p) + of_nat (n + k)" using n(1) k(1) by simp
  moreover have "tcp_ok u" using event_fine [OF xs event.hyps(2,3), of nm] event.hyps(5) by (auto simp: fine_def)
  ultimately show ?case using event.hyps(6) by blast
qed

text \<open>End to end: whatever else happens in the stack, in any order (other connections, timers, calls, lost, repeated and
  reordered segments), what an application has read from an established connection, followed by what waits in its receive
  queue, is the stream of the peer from the first byte on, without a gap, a repetition or a change of order.\<close>

theorem stream_in_order:
  assumes "stream_run nm S p s out u" and "tcp_ok s" and "t_state (pcbs s p) = TCPS_ESTABLISHED" and "p < 8" and "qbytes (rcv_q p) s = []"
  shows "\<exists>n. out @ qbytes (rcv_q p) u = map (\<lambda>i. S (rcv_nxt (pcbs s p) + of_nat i)) [0..<n] \<and>
    rcv_nxt (pcbs u p) = rcv_nxt (pcbs s p) + of_nat n"
proof -
  obtain n where n: "rcv_nxt (pcbs u p) = rcv_nxt (pcbs s p) + of_nat n"
    "qbytes (rcv_q p) s @ map (\<lambda>i. S (rcv_nxt (pcbs s p) + of_nat i)) [0..<n] = out @ qbytes (rcv_q p) u"
    using stream_run_inv [OF assms(1-4)] by blast
  then show ?thesis unfolding assms(5) append_Nil by (intro exI [of _ n] conjI) simp_all
qed

theorem stream_in_order_witness:
  "\<forall>d. \<exists>u n. tcp_do 0 (Segment (sample_seg 0x10 65) 0 20 21) (net_unlock (sample_tcp ACTIVE (zero_pcb\<lparr>t_state := TCPS_ESTABLISHED\<rparr>) d)) = Some ([], u) \<and>
    qbytes (rcv_q 0) u = map (\<lambda>i. if (of_nat i :: u32) = 0 then 65 else 0) [0..<n] \<and> rcv_nxt (pcbs u 0) = of_nat n"
proof
  fix d
  let ?t = "sample_tcp ACTIVE (zero_pcb\<lparr>t_state := TCPS_ESTABLISHED\<rparr>) d" and ?m = "sample_seg 0x10 65"
  let ?s = "net_unlock ?t" and ?S = "\<lambda>q :: u32. if q = 0 then 65 else 0 :: u8"
  have l: "net_lock ?s = ?t" by (simp add: net_lock_def net_unlock_def sample_tcp_def)
  have o: "tcp_ok ?t" by (rule sample_tcp_ok) simp_all
  have c: "conn ?m 0 20 ?t = Some (Some 0)" using sample_conn [of ACTIVE TCPS_ESTABLISHED "0x10" 65 d] by simp
  have t: "t_state (pcbs ?t 0) = TCPS_ESTABLISHED" "rcv_nxt (pcbs ?t 0) = 0" by (simp_all add: sample_tcp_def zero_pcb_def)
  have q: "qbytes (rcv_q 0) ?s = []" using init_bufs(2) [of _ "\<lambda>_. zero_queue" d] by (simp add: sample_tcp_def)
  obtain v w where w: "tcp_input ?m 0 20 21 ?t = Some (v, w)" "(seg_edge 0x10)\<^sup>*\<^sup>* TCPS_ESTABLISHED (cstate w 0)"
    using input_handled [OF o syn_ok_sample _ c, of 21] t(1) by (auto simp: handled_def)
  have no: "\<not> seg_edge 0x10 TCPS_ESTABLISHED y" for y by (auto simp: flag_def elim: seg_edge.cases)
  have est: "cstate w 0 = TCPS_ESTABLISHED" using w(2) no by (metis converse_rtranclpE)
  have h: "honest ?m ?S (input_seg ?m 20 21)"
    by (simp add: honest_def hon_def input_seg_def flag_def drop_bit_eq_div bswap_32_def) (simp add: sample_seg_def)
  have e: "tcp_do 0 (Segment ?m 0 20 21) ?s = Some ([], net_unlock w)" using w(1) l by (simp add: locked_def)
  have "stream_run 0 ?S 0 ?s (if concerns 0 (Segment ?m 0 20 21) ?s then [] @ [] else []) (net_unlock w)"
    by (rule stream_run.event [OF stream_run.nothing _ _ _ e]) (use est h in \<open>simp_all add: syn_ok_sample, simp add: flag_def\<close>)
  then have "stream_run 0 ?S 0 ?s [] (net_unlock w)" unfolding append_Nil if_cancel .
  from stream_in_order [OF this _ _ _ q] o t obtain n where "qbytes (rcv_q 0) (net_unlock w) = map (\<lambda>i. ?S (of_nat i)) [0..<n]"
    "rcv_nxt (pcbs (net_unlock w) 0) = of_nat n" by auto
  then show "\<exists>u n. tcp_do 0 (Segment ?m 0 20 21) ?s = Some ([], u) \<and>
      qbytes (rcv_q 0) u = map (\<lambda>i. if (of_nat i :: u32) = 0 then 65 else 0) [0..<n] \<and> rcv_nxt (pcbs u 0) = of_nat n"
    using e by (intro exI [of _ "net_unlock w"] exI [of _ n] conjI)
qed

end
