(* ===== verification/Net_Tcp_Out.thy ===== *)
theory Net_Tcp_Out
  imports Net_Tcp_Tmr
begin

text \<open>
  Sending segments: \<open>tcp_output\<close> (\<^verbatim>\<open>src/src/sdk/libtcpip/tcp/tcp_out.c\<close>), one definition for each of its parts, and the
  loop of \<open>tcp_tmr_task\<close> over the connections that wait for output. The driver is a parameter: \<open>mm\<close> says whether it has
  memory for a packet (\<open>ifn_mmap\<close>), and \<open>drv\<close> is the result of \<open>ip_output\<close>, negative when the packet was not sent. The
  property at the end is for segments of at least five bytes: a smaller maximum segment size, which the peer can ask for,
  lets the loop send segments without data again and again (\<^verbatim>\<open>tcp_out.c:279\<close>). The address query after \<open>EAGAIN\<close> is ARP's and
  not modelled.
\<close>

section \<open>Definitions\<close>

fun tcp_outflags :: "tcps \<Rightarrow> u8" where
  "tcp_outflags TCPS_CLOSED = TH_RST OR TH_ACK"
| "tcp_outflags TCPS_LISTEN = 0"
| "tcp_outflags TCPS_SYN_SENT = TH_SYN"
| "tcp_outflags TCPS_SYN_RCVD = TH_SYN OR TH_ACK"
| "tcp_outflags TCPS_ESTABLISHED = TH_ACK"
| "tcp_outflags TCPS_CLOSE_WAIT = TH_ACK"
| "tcp_outflags TCPS_FIN_WAIT_1 = TH_FIN OR TH_ACK"
| "tcp_outflags TCPS_CLOSING = TH_FIN OR TH_ACK"
| "tcp_outflags TCPS_LAST_ACK = TH_FIN OR TH_ACK"
| "tcp_outflags TCPS_FIN_WAIT_2 = TH_ACK"
| "tcp_outflags TCPS_TIME_WAIT = TH_ACK"

definition tcp_mss :: "nat \<Rightarrow> tcp_system \<Rightarrow> int option" where
  "tcp_mss p s =
    (case t_route (pcbs s p) of
       None \<Rightarrow> Some (int tcp_defmss)
     | Some rt \<Rightarrow> map_option (\<lambda>mtu. min (int mtu - 40) (int tcp_maxmss)) (route_mtu s rt))"

text \<open>The length of the data, whether there is more, \<open>snd_nxt\<close>, and the state, where a closed window stops the timer.\<close>

definition out_size :: "nat \<Rightarrow> u32 \<Rightarrow> u32 \<Rightarrow> tcp_system \<Rightarrow> int \<times> bool \<times> u32 \<times> tcp_system" where
  "out_size p una nxt s =
    (let b = pcbs s p;
         len = min (int (queue_len (snd_q p) s)) (int (unat (snd_wnd b))) - sint (nxt - una);
         (len, nxt, s) = (if len < 0 then
             if snd_wnd b = 0 then (0, una, upd_pcb p (\<lambda>b. b\<lparr>t_rxmt_tmr := 0, snd_off := 0\<rparr>) s) else (0, nxt, s)
           else (len, nxt, s))
     in if len > int (unat (t_maxseg b)) then (int (unat (t_maxseg b)), True, nxt, s) else (len, False, nxt, s))"

definition out_flags :: "nat \<Rightarrow> u32 \<Rightarrow> u32 \<Rightarrow> int \<Rightarrow> tcp_system \<Rightarrow> u8" where
  "out_flags p una nxt len s =
    (let f = tcp_outflags (t_state (pcbs s p))
     in if SEQ_LT (nxt + of_int len) (una + of_nat (queue_len (snd_q p) s)) then f AND NOT TH_FIN else f)"

text \<open>The reasons to send.\<close>

definition out_due :: "nat \<Rightarrow> u32 \<Rightarrow> u32 \<Rightarrow> u32 \<Rightarrow> bool \<Rightarrow> int \<Rightarrow> int \<Rightarrow> int \<Rightarrow> u8 \<Rightarrow> tcp_system \<Rightarrow> bool" where
  "out_due p una nxt mx idle off len win flags s =
    (let b = pcbs s p
     in len \<noteq> 0 \<and> (len = int (unat (t_maxseg b)) \<or> idle \<and> len + off \<ge> int (queue_len (snd_q p) s) \<or>
          len \<ge> int (unat (snd_wnd b)) div 2 \<or> SEQ_LT nxt mx) \<or>
        win > 0 \<and> (let adv = min win (int tcp_maxwin - int (unat (rcv_adv_wnd b)))
          in adv \<ge> 2 * int (unat (t_maxseg b)) \<or> 2 * adv \<ge> int tcp_maxrcv) \<or>
        flag (t_flags b) TF_ACKNOW \<or> flag flags TH_SYN \<or> flag flags TH_RST \<or>
        flag flags TH_FIN \<and> (\<not> flag (t_flags b) TF_SENTFIN \<or> nxt = una))"

text \<open>The route, kept in the block; \<open>None\<close> inside when there is no route to the host.\<close>

definition out_route :: "nat \<Rightarrow> tcp_system \<Rightarrow> nat option \<times> tcp_system" where
  "out_route p s =
    (case t_route (pcbs s p) of
       Some rt \<Rightarrow> (Some rt, s)
     | None \<Rightarrow> (case route_lookup (inp_faddr (pcbs s p)) (routes s) of
           None \<Rightarrow> (None, s)
         | Some rt \<Rightarrow> (Some rt, upd_pcb p (\<lambda>b. b\<lparr>t_route := Some rt\<rparr>) s)))"

text \<open>The length that fits the interface and the options; the comparison with \<open>optlen\<close> is unsigned.\<close>

definition out_fit :: "u16 \<Rightarrow> nat \<Rightarrow> nat \<Rightarrow> int \<Rightarrow> bool \<Rightarrow> int \<times> bool" where
  "out_fit maxseg mtu optlen len again =
    (let len = (if 40 + len > int mtu then int mtu - 40 else len);
         m = ucast maxseg - of_nat optlen :: u32
     in if (of_int len :: u32) > m then (sint m, True) else (len, again))"

definition out_window :: "int \<Rightarrow> u16 \<Rightarrow> int" where
  "out_window win maxseg =
    (let win = (if win < int tcp_maxrcv div 4 \<and> win < int (unat maxseg) then 0 else win)
     in if win > int tcp_maxwin then int tcp_maxwin else win)"

text \<open>The packet, \<open>snd_nxt\<close> and \<open>snd_max\<close> after it, and the block with its timer and offsets.\<close>

definition out_build :: "nat \<Rightarrow> u32 \<Rightarrow> u32 \<Rightarrow> u32 \<Rightarrow> int \<Rightarrow> int \<Rightarrow> int \<Rightarrow> u8 \<Rightarrow> u8 list \<Rightarrow> tcp_system \<Rightarrow>
    (ip_packet \<times> u32 \<times> u32 \<times> tcp_system) option" where
  "out_build p una nxt mx off len win flags opt s =
    (let b = pcbs s p;
         flags = (if len \<noteq> 0 \<and> off + len = int (queue_len (snd_q p) s) then flags OR TH_PSH else flags);
         nxt = (if flag flags TH_FIN \<and> flag (t_flags b) TF_SENTFIN \<and> nxt = mx then nxt - 1 else nxt);
         seq = (if len \<noteq> 0 \<or> flag flags TH_SYN \<or> flag flags TH_FIN then nxt else mx)
     in bind (if len > 0 then queue_get (snd_q p) (nat off) (nat len) s else Some []) (\<lambda>data.
       let pk = \<lparr>ip_saddr = inp_laddr b, ip_daddr = inp_faddr b,
             ip_payload = tcp_segment (inp_laddr b) (inp_faddr b) (inp_lport b) (inp_fport b) seq (rcv_nxt b) flags (of_int win) opt data\<rparr>;
           s = (if flag flags TH_FIN then set_flag p TF_SENTFIN s else s);
           nxt = nxt + of_bool (flag flags TH_SYN) + of_bool (flag flags TH_FIN) + of_int len;
           mx = (if SEQ_GT nxt mx then nxt else mx);
           s = (if t_rxmt_tmr (pcbs s p) = 0 \<and> nxt \<noteq> una then upd_pcb p (\<lambda>b. b\<lparr>t_rxmt_tmr := tcp_rxmtintvl ! 0, t_count := 0\<rparr>) s else s);
           s = upd_pcb p (\<lambda>b. b\<lparr>snd_seq := una, snd_off := ucast (nxt - una), snd_max := ucast (mx - una)\<rparr>) s
       in Some (pk, nxt, mx, s)))"

text \<open>After the packet was sent.\<close>

definition out_sent :: "nat \<Rightarrow> int \<Rightarrow> ip_packet \<Rightarrow> tcp_system \<Rightarrow> tcp_system" where
  "out_sent p win pk s =
    (let s = s\<lparr>sent := sent s @ [pk]\<rparr>;
         s = (if win > 0 \<and> win > int (unat (rcv_adv_wnd (pcbs s p))) then upd_pcb p (\<lambda>b. b\<lparr>rcv_adv_wnd := of_int win\<rparr>) s else s)
     in clear_flag p (TF_ACKNOW OR TF_DELACK) s)"

partial_function (option) output_loop ::
    "(tcp_system \<Rightarrow> bool) \<Rightarrow> (tcp_system \<Rightarrow> ip_packet \<Rightarrow> int) \<Rightarrow> nat \<Rightarrow> u32 \<Rightarrow> bool \<Rightarrow> u32 \<Rightarrow> u32 \<Rightarrow> tcp_system \<Rightarrow> (int \<times> tcp_system) option" where
  "output_loop mm drv p una idle nxt mx s =
    (let off = sint (nxt - una);
         (len, again, nxt, s) = out_size p una nxt s;
         flags = out_flags p una nxt len s;
         win = int tcp_maxrcv - int (queue_len (rcv_q p) s)
     in if \<not> out_due p una nxt mx idle off len win flags s then Some (0, s)
        else case out_route p s of
          (None, s) \<Rightarrow> Some (0, s)
        | (Some rt, s) \<Rightarrow> bind (route_mtu s rt) (\<lambda>mtu.
            if \<not> mm s then Some (0, s)
            else bind (if flag flags TH_SYN then map_option (\<lambda>m. [2, 4] @ st16 (ntohs (of_int m))) (tcp_mss p s) else Some []) (\<lambda>opt.
              case out_fit (t_maxseg (pcbs s p)) mtu (length opt) len again of
                (len, again) \<Rightarrow>
                  let win = out_window win (t_maxseg (pcbs s p))
                  in bind (out_build p una nxt mx off len win flags opt s) (\<lambda>(pk, nxt, mx, s).
                    if drv s pk < 0 then Some (drv s pk, s)
                    else let s = out_sent p win pk s
                      in if again then output_loop mm drv p una idle nxt mx s else Some (0, s)))))"

definition tcp_output :: "(tcp_system \<Rightarrow> bool) \<Rightarrow> (tcp_system \<Rightarrow> ip_packet \<Rightarrow> int) \<Rightarrow> nat \<Rightarrow> tcp_system \<Rightarrow> (int \<times> tcp_system) option" where
  "tcp_output mm drv p s =
    (let b = pcbs s p; una = snd_seq b; nxt = snd_seq b + ucast (snd_off b); mx = snd_seq b + ucast (snd_max b)
     in output_loop mm drv p una (mx = una) nxt mx s)"

text \<open>The connections that wait for output, up to the first whose packet waits for an address.\<close>

abbreviation EAGAIN :: int where "EAGAIN \<equiv> 11"

function pending_loop :: "(tcp_system \<Rightarrow> bool) \<Rightarrow> (tcp_system \<Rightarrow> ip_packet \<Rightarrow> int) \<Rightarrow> u16 \<Rightarrow> u16 \<Rightarrow> tcp_system \<Rightarrow> (u16 \<times> tcp_system) option" where
  "pending_loop mm drv tail head s =
    (if tail \<noteq> head then
       case out_tp s (unat tail mod NET_TCP_PCB_ACTIVE_MAX) of
         None \<Rightarrow> pending_loop mm drv (tail + 1) head s
       | Some p \<Rightarrow>
           if \<not> flag (t_flags (pcbs s p)) TF_NEEDOUTPUT then pending_loop mm drv (tail + 1) head s
           else case tcp_output mm drv p s of
               None \<Rightarrow> None
             | Some (r, s) \<Rightarrow>
                 if r = - EAGAIN then Some (tail, s)
                 else pending_loop mm drv (tail + 1) head
                   (clear_flag p TF_NEEDOUTPUT (s\<lparr>out_tp := (out_tp s)(unat tail mod NET_TCP_PCB_ACTIVE_MAX := None)\<rparr>))
     else Some (tail, s))"
  by pat_completeness auto

termination pending_loop
  by (relation "measure (\<lambda>(mm, drv, tail, head, s). unat (head - tail))") (auto intro: countdown)

declare pending_loop.simps [simp del]

definition output_pending :: "(tcp_system \<Rightarrow> bool) \<Rightarrow> (tcp_system \<Rightarrow> ip_packet \<Rightarrow> int) \<Rightarrow> tcp_system \<Rightarrow> tcp_system option" where
  "output_pending mm drv s = map_option (\<lambda>(tail, s). s\<lparr>out_tail := tail\<rparr>) (pending_loop mm drv (out_tail s) (out_head s) s)"

section \<open>What sending keeps\<close>

text \<open>Sending changes only the timer, the flags, the route, the window that was offered and the two offsets of its block.\<close>

definition steady :: "nat \<Rightarrow> tcp_system \<Rightarrow> tcp_system \<Rightarrow> bool" where
  "steady p s u \<longleftrightarrow> same s u \<and> (\<forall>q. q \<noteq> p \<longrightarrow> pcbs u q = pcbs s q) \<and> t_state (pcbs u p) = t_state (pcbs s p) \<and>
    inp_laddr (pcbs u p) = inp_laddr (pcbs s p) \<and> inp_faddr (pcbs u p) = inp_faddr (pcbs s p) \<and>
    inp_lport (pcbs u p) = inp_lport (pcbs s p) \<and> inp_fport (pcbs u p) = inp_fport (pcbs s p) \<and>
    t_maxseg (pcbs u p) = t_maxseg (pcbs s p) \<and> snd_wnd (pcbs u p) = snd_wnd (pcbs s p) \<and> rcv_nxt (pcbs u p) = rcv_nxt (pcbs s p) \<and>
    snd_seq (pcbs u p) = snd_seq (pcbs s p)"

lemma steady_refl [simp]: "steady p s s"
  by (simp add: steady_def)

lemma steady_trans: "steady p s t \<Longrightarrow> steady p t u \<Longrightarrow> steady p s u"
  by (simp add: steady_def same_def)

lemma steady_state: "steady p s u \<Longrightarrow> t_state (pcbs u q) = t_state (pcbs s q)"
  by (cases "q = p") (simp_all add: steady_def)

lemma steady_ok: "steady p s u \<Longrightarrow> ok s xs \<Longrightarrow> ok u xs"
  using ok_same [of s xs u] steady_state [of p s u] unfolding steady_def by blast

text \<open>The routes that the block may use lead to interfaces whose packets have room for a header, options and a byte.\<close>

definition routed :: "nat \<Rightarrow> tcp_system \<Rightarrow> bool" where
  "routed p s \<longleftrightarrow> (\<forall>i. 44 < unat (if_mtu (ifns s i))) \<and> (\<forall>rt. t_route (pcbs s p) = Some rt \<longrightarrow> rt_ifn (routes s ! rt) \<noteq> None)"

lemma route_mtu_some: "rt_ifn (routes s ! rt) \<noteq> None \<Longrightarrow> \<forall>i. 44 < unat (if_mtu (ifns s i)) \<Longrightarrow> \<exists>n. route_mtu s rt = Some n \<and> 44 < n"
  by (auto simp: route_mtu_def)

lemma out_route_ok:
  assumes "routed p s" and "out_route p s = (r, u)"
  shows "steady p s u \<and> sent u = sent s \<and> routed p u \<and> (\<forall>rt. r = Some rt \<longrightarrow> (\<exists>n. route_mtu u rt = Some n \<and> 44 < n) \<and> (\<exists>m. tcp_mss p u = Some m))"
proof (cases "t_route (pcbs s p)")
  case None
  show ?thesis
  proof (cases "route_lookup (inp_faddr (pcbs s p)) (routes s)")
    case (Some rt)
    then have i: "rt_ifn (routes s ! rt) \<noteq> None" using lookup_loop_ifn by (auto simp: route_lookup_def)
    have u: "u = upd_pcb p (\<lambda>b. b\<lparr>t_route := Some rt\<rparr>) s" "r = Some rt" using assms(2) None Some by (auto simp: out_route_def)
    then show ?thesis using i assms(1) route_mtu_some [of u rt] by (auto simp: routed_def steady_def same_def tcp_mss_def)
  qed (use assms None in \<open>auto simp: out_route_def\<close>)
next
  case (Some rt)
  then have u: "u = s" "r = Some rt" using assms(2) by (simp_all add: out_route_def)
  then show ?thesis using Some assms(1) route_mtu_some [of s rt] by (auto simp: routed_def tcp_mss_def)
qed

section \<open>The parts\<close>

lemma out_size_ok:
  assumes "out_size p una nxt s = (len, again, nxt', u)" and "sint (nxt - una) = int n"
  shows "steady p s u \<and> sent u = sent s \<and> t_route (pcbs u p) = t_route (pcbs s p) \<and> 0 \<le> len \<and> len \<le> int (unat (t_maxseg (pcbs s p))) \<and>
    (len \<noteq> 0 \<longrightarrow> nxt' = nxt \<and> int n + len \<le> int (queue_len (snd_q p) s) \<and> int n + len \<le> int (unat (snd_wnd (pcbs s p)))) \<and>
    (again \<longrightarrow> len = int (unat (t_maxseg (pcbs s p))))"
proof -
  define w where "w = min (int (queue_len (snd_q p) s)) (int (unat (snd_wnd (pcbs s p)))) - int n"
  have e: "out_size p una nxt s =
    (if w < 0 then if snd_wnd (pcbs s p) = 0 then (0, False, una, upd_pcb p (\<lambda>b. b\<lparr>t_rxmt_tmr := 0, snd_off := 0\<rparr>) s) else (0, False, nxt, s)
     else if w > int (unat (t_maxseg (pcbs s p))) then (int (unat (t_maxseg (pcbs s p))), True, nxt, s) else (w, False, nxt, s))"
    unfolding out_size_def Let_def assms(2) w_def [symmetric] by (simp split: if_split)
  have "int n + w \<le> int (queue_len (snd_q p) s)" "int n + w \<le> int (unat (snd_wnd (pcbs s p)))" unfolding w_def by simp_all
  then show ?thesis using assms(1) unfolding e by (auto split: if_splits simp: steady_def same_def)
qed

lemma out_fit_ok:
  assumes "out_fit mseg mtu ol len again = (len', again')" and "0 \<le> len" and "len \<le> int (unat mseg)" and "ol + 1 \<le> unat mseg" and "44 < mtu"
    and "again \<longrightarrow> len \<noteq> 0"
  shows "0 \<le> len' \<and> len' \<le> len \<and> (again' \<longrightarrow> len' \<noteq> 0)"
proof -
  define l where "l = nat (if 40 + len > int mtu then int mtu - 40 else len)"
  define k where "k = unat mseg - ol"
  have l: "(if 40 + len > int mtu then int mtu - 40 else len) = int l" "int l \<le> len" using assms(2,5) by (auto simp: l_def)
  have b: "unat mseg < 65536" using unsigned_less [of mseg] by simp
  have "(ucast mseg - of_nat ol :: u32) = of_nat k" using assms(4) by (simp add: k_def of_nat_diff)
  then have "out_fit mseg mtu ol len again = (if (of_nat l :: u32) > of_nat k then (sint (of_nat k :: u32), True) else (int l, again))"
    unfolding out_fit_def Let_def l(1) by simp
  moreover have "sint (of_nat k :: u32) = int k" using b by (simp add: k_def signed_of_nat signed_take_bit_int_eq_self)
  moreover have "l < 65536" using l(2) assms(3) b by linarith
  then have "(of_nat l :: u32) > of_nat k \<longleftrightarrow> l > k" using b by (simp add: word_less_nat_alt unat_of_nat k_def)
  ultimately have "(len', again') = (if l > k then (int k, True) else (int l, again))" using assms(1) by simp
  moreover have "k \<noteq> 0" "again \<longrightarrow> l \<noteq> 0" using assms(2,4,5,6) by (auto simp: k_def l_def split: if_splits)
  ultimately show ?thesis using l(2) by (auto split: if_splits)
qed

lemma out_window_bound: "0 \<le> out_window win m \<and> (win \<le> int n \<longrightarrow> out_window win m \<le> int n)"
proof -
  define t where "t = int (unat m)"
  have "0 \<le> t" by (simp add: t_def)
  then show ?thesis unfolding out_window_def t_def [symmetric] by (auto simp: Let_def)
qed

text \<open>A packet whose data are the bytes of the send queue at their sequence numbers.\<close>

definition carries :: "nat \<Rightarrow> tcp_system \<Rightarrow> ip_packet \<Rightarrow> bool" where
  "carries p s pk \<longleftrightarrow> (\<exists>off len seq flags win opt. let b = pcbs s p; q = qbytes (snd_q p) s in
    pk = \<lparr>ip_saddr = inp_laddr b, ip_daddr = inp_faddr b,
      ip_payload = tcp_segment (inp_laddr b) (inp_faddr b) (inp_lport b) (inp_fport b) seq (rcv_nxt b) flags win opt (take len (drop off q))\<rparr> \<and>
    len \<le> unat (t_maxseg b) \<and> (len \<noteq> 0 \<longrightarrow> seq = snd_seq b + of_nat off \<and> off + len \<le> length q \<and> off + len \<le> unat (snd_wnd b)) \<and>
    unat win \<le> tcp_maxrcv - length (qbytes (rcv_q p) s))"

lemma steady_carries: "steady p s u \<Longrightarrow> carries p u pk \<longleftrightarrow> carries p s pk"
  by (simp add: steady_def same_def carries_def Let_def)

lemma flag_psh: "flag (f OR TH_PSH) TH_FIN = flag f TH_FIN" "flag (f OR TH_PSH) TH_SYN = flag f TH_SYN"
  by (simp_all add: flag_def bit.conj_disj_distrib2)

lemma out_build_ok:
  assumes "bufs_inv NQ (bufs s)" and "p < NET_TCP_PCB_ACTIVE_MAX" and "\<not> flag flags TH_FIN" and "una = snd_seq (pcbs s p)" and "len \<noteq> 0 \<longrightarrow> nxt = una + of_nat off"
    and "len \<le> unat (t_maxseg (pcbs s p))"
    and "len \<noteq> 0 \<longrightarrow> off + len \<le> length (qbytes (snd_q p) s) \<and> off + len \<le> unat (snd_wnd (pcbs s p))"
    and "0 \<le> win" and "win \<le> int (tcp_maxrcv - length (qbytes (rcv_q p) s))"
  shows "\<exists>pk mx' u. out_build p una nxt mx (int off) (int len) win flags opt s = Some (pk, nxt + of_bool (flag flags TH_SYN) + of_nat len, mx', u) \<and>
    carries p s pk \<and> steady p s u \<and> sent u = sent s \<and> t_route (pcbs u p) = t_route (pcbs s p)"
proof -
  define f where "f = (if int len \<noteq> 0 \<and> int off + int len = int (queue_len (snd_q p) s) then flags OR TH_PSH else flags)"
  have nf: "\<not> flag f TH_FIN" "flag f TH_SYN = flag flags TH_SYN" using assms(3) by (simp_all add: f_def flag_psh)
  have lt: "snd_q p < NQ" using assms(2) by simp
  have d: "(if int len > 0 then queue_get (snd_q p) (nat (int off)) (nat (int len)) s else Some []) = Some (take len (drop off (qbytes (snd_q p) s)))"
    using queue_get_eq [OF assms(1) lt, of off len] by simp
  define seq where "seq = (if int len \<noteq> 0 \<or> flag f TH_SYN then nxt else mx)"
  define pk where "pk = \<lparr>ip_saddr = inp_laddr (pcbs s p), ip_daddr = inp_faddr (pcbs s p),
    ip_payload = tcp_segment (inp_laddr (pcbs s p)) (inp_faddr (pcbs s p)) (inp_lport (pcbs s p)) (inp_fport (pcbs s p)) seq (rcv_nxt (pcbs s p)) f
      (of_int win) opt (take len (drop off (qbytes (snd_q p) s)))\<rparr>"
  define n where "n = nxt + of_bool (flag f TH_SYN) + of_nat len"
  define mx' where "mx' = (if SEQ_GT n mx then n else mx)"
  define t where "t = (if t_rxmt_tmr (pcbs s p) = 0 \<and> n \<noteq> una then upd_pcb p (\<lambda>b. b\<lparr>t_rxmt_tmr := tcp_rxmtintvl ! 0, t_count := 0\<rparr>) s else s)"
  define u where "u = upd_pcb p (\<lambda>b. b\<lparr>snd_seq := una, snd_off := ucast (n - una), snd_max := ucast (mx' - una)\<rparr>) t"
  have "out_build p una nxt mx (int off) (int len) win flags opt s = Some (pk, n, mx', u)"
    unfolding out_build_def Let_def d bind.bind_lunit f_def [symmetric]
    by (simp only: nf(1) simp_thms if_False of_bool_eq add_0_right of_int_of_nat_eq seq_def [symmetric] pk_def [symmetric] n_def [symmetric]
      mx'_def [symmetric] t_def [symmetric] u_def [symmetric])
  moreover obtain w where w: "win = int w" using assms(8) zero_le_imp_eq_int by blast
  then have "w \<le> tcp_maxrcv - length (qbytes (rcv_q p) s)" "w < 65536" using assms(9) by simp_all
  then have "unat (of_int win :: u16) \<le> tcp_maxrcv - length (qbytes (rcv_q p) s)" by (simp add: w unat_of_nat)
  then have "carries p s pk"
    unfolding carries_def Let_def pk_def using assms(4-7)
    by (intro exI [of _ off] exI [of _ len] exI [of _ seq] exI [of _ f] exI [of _ "of_int win"] exI [of _ opt]) (simp add: seq_def)
  moreover have "steady p s u" "sent u = sent s" "t_route (pcbs u p) = t_route (pcbs s p)"
    using assms(4) by (simp_all add: u_def t_def steady_def same_def)
  ultimately show ?thesis using nf(2) by (simp add: n_def)
qed

lemma out_sent_ok: "steady p s (out_sent p win pk s) \<and> sent (out_sent p win pk s) = sent s @ [pk] \<and> t_route (pcbs (out_sent p win pk s) p) = t_route (pcbs s p)"
  by (simp add: out_sent_def Let_def steady_def same_def clear_flag_def)

section \<open>The loop\<close>

lemma out_flags_fin: "\<not> flag (tcp_outflags (t_state (pcbs s p))) TH_FIN \<Longrightarrow> \<not> flag (out_flags p una nxt len s) TH_FIN"
  by (auto simp: out_flags_def Let_def flag_def and.assoc)

lemma options_ok: "\<exists>m. tcp_mss p s = Some m \<Longrightarrow>
    \<exists>opt. (if syn then map_option (\<lambda>m. [2, 4] @ st16 (ntohs (of_int m))) (tcp_mss p s) else Some []) = Some opt \<and> length opt \<le> 4"
  by (auto simp: st16_def)

lemma small_sint: "n < 2 ^ 31 \<Longrightarrow> sint ((x + of_nat n) - x :: u32) = int n"
  by (simp add: signed_of_nat signed_take_bit_int_eq_self)

lemma routed_steady: "routed p s \<Longrightarrow> steady p s u \<Longrightarrow> t_route (pcbs u p) = t_route (pcbs s p) \<Longrightarrow> routed p u"
  by (simp add: routed_def steady_def same_def)

text \<open>One turn: it ends, or the next one starts behind the data that were sent.\<close>

definition sends :: "nat \<Rightarrow> tcp_system \<Rightarrow> tcp_system \<Rightarrow> bool" where
  "sends p s u \<longleftrightarrow> steady p s u \<and> (\<exists>ps. sent u = sent s @ ps \<and> (\<forall>pk \<in> set ps. carries p s pk))"

lemma sends_steady: "steady p s u \<Longrightarrow> sent u = sent s \<Longrightarrow> sends p s u"
  by (simp add: sends_def)

lemma sends_trans: "sends p s t \<Longrightarrow> sends p t u \<Longrightarrow> sends p s u"
  unfolding sends_def by (auto simp: steady_carries dest: steady_trans)

lemma output_step:
  assumes "bufs_inv NQ (bufs s)" and "p < NET_TCP_PCB_ACTIVE_MAX" and "routed p s" and "5 \<le> unat (t_maxseg (pcbs s p))"
    and "\<not> flag (tcp_outflags (t_state (pcbs s p))) TH_FIN" and "n < 2 ^ 31" and "una = snd_seq (pcbs s p)"
  shows "(\<exists>r u. output_loop mm drv p una idle (una + of_nat n) mx s = Some (r, u) \<and> sends p s u) \<or>
    (\<exists>k mx' u. output_loop mm drv p una idle (una + of_nat n) mx s = output_loop mm drv p una idle (una + of_nat (n + k)) mx' u \<and> sends p s u \<and> routed p u \<and>
      0 < k \<and> n < unat (snd_wnd (pcbs s p)) \<and> n + k \<le> unat (snd_wnd (pcbs s p)) + 1)"
proof -
  have lt: "rcv_q p < NQ" "snd_q p < NQ" using assms(2) by simp_all
  note ql = queue_len_eq [OF assms(1) lt(1)] queue_len_eq [OF assms(1) lt(2)]
  let ?nxt = "una + of_nat n"
  have off: "sint (?nxt - una) = int n" using small_sint assms(6) by simp
  obtain len0 again0 nxt s1 where z: "out_size p una ?nxt s = (len0, again0, nxt, s1)" by (metis prod_cases4)
  from out_size_ok [OF this off] have z1: "steady p s s1" "sent s1 = sent s" "t_route (pcbs s1 p) = t_route (pcbs s p)" "0 \<le> len0"
    "len0 \<le> int (unat (t_maxseg (pcbs s p)))" "len0 \<noteq> 0 \<longrightarrow> nxt = ?nxt \<and> int n + len0 \<le> int (queue_len (snd_q p) s) \<and> int n + len0 \<le> int (unat (snd_wnd (pcbs s p)))"
    "again0 \<longrightarrow> len0 = int (unat (t_maxseg (pcbs s p)))" by blast+
  define fl where "fl = out_flags p una nxt len0 s1"
  define win where "win = int tcp_maxrcv - int (queue_len (rcv_q p) s1)"
  show ?thesis
  proof (cases "out_due p una nxt mx idle (int n) len0 win fl s1")
    case False
    then have "output_loop mm drv p una idle ?nxt mx s = Some (0, s1)"
      unfolding output_loop.simps [of mm drv p una idle ?nxt mx s] off Let_def z prod.case fl_def win_def by simp
    then show ?thesis using sends_steady [OF z1(1,2)] by blast
  next
    case due: True
    obtain rt s2 where r: "out_route p s1 = (rt, s2)" by fastforce
    have r1: "steady p s1 s2" "sent s2 = sent s1" "routed p s2"
      "\<forall>x. rt = Some x \<longrightarrow> (\<exists>m. route_mtu s2 x = Some m \<and> 44 < m) \<and> (\<exists>m. tcp_mss p s2 = Some m)"
      using out_route_ok [OF routed_steady [OF assms(3) z1(1,3)] r] by blast+
    have s2: "steady p s s2" "sent s2 = sent s" using steady_trans [OF z1(1) r1(1)] r1(2) z1(2) by simp_all
    show ?thesis
    proof (cases "rt = None \<or> \<not> mm s2")
      case True
      then have "output_loop mm drv p una idle ?nxt mx s = Some (0, s2)"
        using due r1(4) unfolding output_loop.simps [of mm drv p una idle ?nxt mx s] off Let_def z prod.case fl_def win_def r by (auto split: option.split)
      then show ?thesis using sends_steady [OF s2] by blast
    next
      case False
      then obtain x where x: "rt = Some x" by auto
      obtain mtu where mtu: "route_mtu s2 x = Some mtu" "44 < mtu" using r1(4) x by blast
      obtain opt where opt: "(if flag fl TH_SYN then map_option (\<lambda>m. [2, 4] @ st16 (ntohs (of_int m))) (tcp_mss p s2) else Some []) = Some opt" "length opt \<le> 4"
        using options_ok [of p s2 "flag fl TH_SYN"] r1(4) x by blast
      obtain len1 again where f: "out_fit (t_maxseg (pcbs s2 p)) mtu (length opt) len0 again0 = (len1, again)" by fastforce
      have ms: "t_maxseg (pcbs s2 p) = t_maxseg (pcbs s p)" using s2(1) by (simp add: steady_def)
      have f1: "0 \<le> len1" "len1 \<le> len0" "again \<longrightarrow> len1 \<noteq> 0"
      proof -
        have a: "again0 \<longrightarrow> len0 \<noteq> 0" using z1(7) assms(4) by (metis of_nat_0_eq_iff not_numeral_le_zero)
        have o: "length opt + 1 \<le> unat (t_maxseg (pcbs s2 p))" using opt(2) assms(4) ms by simp
        from out_fit_ok [OF f z1(4) z1(5) [folded ms] o mtu(2) a] show "0 \<le> len1" "len1 \<le> len0" "again \<longrightarrow> len1 \<noteq> 0" by blast+
      qed
      then obtain len where len: "len1 = int len" using zero_le_imp_eq_int by blast
      have nxt: "len \<noteq> 0 \<longrightarrow> nxt = una + of_nat n" using z1(6) f1(2) len by auto
      have qs: "qbytes i s2 = qbytes i s" for i using s2(1) by (simp add: steady_def same_def)
      have fin: "\<not> flag fl TH_FIN"
        unfolding fl_def by (rule out_flags_fin) (use assms(5) steady_state [OF z1(1)] in simp)
      define w where "w = out_window win (t_maxseg (pcbs s2 p))"
      have "win \<le> int (tcp_maxrcv - length (qbytes (rcv_q p) s2))"
        using ql(1) z1(1) unfolding win_def qs by (simp add: steady_def same_def queue_len_def)
      then have w: "0 \<le> w" "w \<le> int (tcp_maxrcv - length (qbytes (rcv_q p) s2))" using out_window_bound unfolding w_def by blast+
      have b2: "bufs_inv NQ (bufs s2)" "una = snd_seq (pcbs s2 p)" using s2(1) assms(1,7) by (simp_all add: steady_def same_def)
      have l: "len \<le> unat (t_maxseg (pcbs s2 p))" using f1(2) z1(5) unfolding len ms by linarith
      have lq: "len \<noteq> 0 \<longrightarrow> n + len \<le> length (qbytes (snd_q p) s2) \<and> n + len \<le> unat (snd_wnd (pcbs s2 p))"
      proof
        assume "len \<noteq> 0"
        then have "int n + len0 \<le> int (length (qbytes (snd_q p) s))" "int n + len0 \<le> int (unat (snd_wnd (pcbs s p)))"
          using z1(6) f1(2) len ql(2) by simp_all
        then have "n + len \<le> length (qbytes (snd_q p) s)" "n + len \<le> unat (snd_wnd (pcbs s p))" using f1(2) unfolding len by linarith+
        then show "n + len \<le> length (qbytes (snd_q p) s2) \<and> n + len \<le> unat (snd_wnd (pcbs s2 p))"
          using s2(1) unfolding qs by (simp add: steady_def)
      qed
      obtain pk mx' s3 where b: "out_build p una nxt mx (int n) (int len) w fl opt s2 = Some (pk, nxt + of_bool (flag fl TH_SYN) + of_nat len, mx', s3)"
        "carries p s2 pk" "steady p s2 s3" "sent s3 = sent s2" "t_route (pcbs s3 p) = t_route (pcbs s2 p)"
        using out_build_ok [OF b2(1) assms(2) fin b2(2) nxt l lq w, of mx opt] by blast
      define nxt' where "nxt' = nxt + of_bool (flag fl TH_SYN) + of_nat len"
      define s4 where "s4 = out_sent p w pk s3"
      have e: "output_loop mm drv p una idle ?nxt mx s =
          (if drv s3 pk < 0 then Some (drv s3 pk, s3) else if again then output_loop mm drv p una idle nxt' mx' s4 else Some (0, s4))"
        unfolding output_loop.simps [of mm drv p una idle ?nxt mx s] off Let_def z prod.case fl_def [symmetric] win_def [symmetric] r option.case x
          mtu(1) bind.bind_lunit opt(1) f len w_def [symmetric] b(1) s4_def nxt'_def
        using due False by simp
      have k3: "sends p s s3" by (rule sends_steady) (use s2 b(3,4) steady_trans in auto)
      have s4: "steady p s3 s4" "sent s4 = sent s3 @ [pk]" "t_route (pcbs s4 p) = t_route (pcbs s3 p)" unfolding s4_def using out_sent_ok by blast+
      have "carries p s3 pk" using b(2) steady_carries [OF b(3)] by simp
      then have k4: "sends p s s4" using sends_trans [OF k3, of s4] s4(1,2) by (simp add: sends_def)
      show ?thesis
      proof (cases "drv s3 pk < 0 \<or> \<not> again")
        case True
        then show ?thesis using e k3 k4 by (cases "drv s3 pk < 0") auto
      next
        case False
        then have "len \<noteq> 0" using f1(3) len by simp
        let ?k = "len + of_bool (flag fl TH_SYN)"
        have "nxt' = una + of_nat (n + ?k)" using nxt \<open>len \<noteq> 0\<close> unfolding nxt'_def by (simp add: ac_simps)
        then have "output_loop mm drv p una idle ?nxt mx s = output_loop mm drv p una idle (una + of_nat (n + ?k)) mx' s4" using e False by simp
        moreover have "routed p s4" using routed_steady [OF r1(3), of s4] steady_trans [OF b(3) s4(1)] s4(3) b(5) by simp
        moreover have "n < unat (snd_wnd (pcbs s p))" "n + ?k \<le> unat (snd_wnd (pcbs s p)) + 1"
          using lq \<open>len \<noteq> 0\<close> s2(1) by (auto simp: steady_def)
        ultimately show ?thesis using k4 \<open>len \<noteq> 0\<close> by (intro disjI2 exI [of _ ?k] exI [of _ mx'] exI [of _ s4]) simp
      qed
    qed
  qed
qed

lemma output_loop_ok:
  assumes "bufs_inv NQ (bufs s)" and "p < NET_TCP_PCB_ACTIVE_MAX" and "routed p s" and "5 \<le> unat (t_maxseg (pcbs s p))"
    and "\<not> flag (tcp_outflags (t_state (pcbs s p))) TH_FIN" and "n < 2 ^ 31" and "una = snd_seq (pcbs s p)"
  shows "\<exists>r u. output_loop mm drv p una idle (una + of_nat n) mx s = Some (r, u) \<and> sends p s u"
  using assms
proof (induction "unat (snd_wnd (pcbs s p)) - n" arbitrary: n mx s rule: less_induct)
  case less
  from output_step [OF less.prems, of mm drv idle mx] show ?case
  proof (elim disjE exE conjE)
    fix k mx' u
    assume e: "output_loop mm drv p una idle (una + of_nat n) mx s = output_loop mm drv p una idle (una + of_nat (n + k)) mx' u"
      and u: "sends p s u" "routed p u" and k: "0 < k" "n < unat (snd_wnd (pcbs s p))" "n + k \<le> unat (snd_wnd (pcbs s p)) + 1"
    have st: "steady p s u" using u(1) by (simp add: sends_def)
    have w: "snd_wnd (pcbs u p) = snd_wnd (pcbs s p)" using st by (simp add: steady_def)
    have "unat (snd_wnd (pcbs s p)) < 65536" using unsigned_less [of "snd_wnd (pcbs s p)"] by simp
    then have b: "n + k < 2 ^ 31" using k(3) by simp
    have "unat (snd_wnd (pcbs u p)) - (n + k) < unat (snd_wnd (pcbs s p)) - n" using k w by simp
    moreover have "bufs_inv NQ (bufs u)" "5 \<le> unat (t_maxseg (pcbs u p))" "\<not> flag (tcp_outflags (t_state (pcbs u p))) TH_FIN" "una = snd_seq (pcbs u p)"
      using less.prems(1,4,5,7) st by (simp_all add: steady_def same_def)
    ultimately obtain r v where "output_loop mm drv p una idle (una + of_nat (n + k)) mx' u = Some (r, v)" "sends p u v"
      using less.hyps [of u "n + k" mx'] less.prems(2) u(2) b by blast
    then show ?thesis using e sends_trans [OF u(1)] by auto
  qed blast
qed

text \<open>Sending always ends, when the segments may have five bytes or more and the route leads somewhere.\<close>

lemma tcp_output_ok:
  assumes "ok s xs" and "p < NET_TCP_PCB_ACTIVE_MAX" and "routed p s" and "5 \<le> unat (t_maxseg (pcbs s p))"
    and "\<not> flag (tcp_outflags (t_state (pcbs s p))) TH_FIN"
  shows "\<exists>r u. tcp_output mm drv p s = Some (r, u) \<and> ok u xs \<and> sends p s u"
proof -
  define n where "n = unat (snd_off (pcbs s p))"
  define mx where "mx = snd_seq (pcbs s p) + ucast (snd_max (pcbs s p))"
  have c: "ucast (snd_off (pcbs s p)) = (of_nat n :: u32)" by (simp add: n_def)
  have "n < 65536" unfolding n_def using unsigned_less [of "snd_off (pcbs s p)"] by simp
  then have "n < 2 ^ 31" by simp
  from output_loop_ok [OF ok_bufs_inv [OF assms(1)] assms(2-5) this refl, of mm drv "mx = snd_seq (pcbs s p)" mx]
  obtain r u where "tcp_output mm drv p s = Some (r, u)" "sends p s u"
    unfolding tcp_output_def Let_def mx_def [symmetric] c by blast
  then show ?thesis using steady_ok [of p s u xs] assms(1) by (auto simp: sends_def)
qed

section \<open>Properties\<close>

text \<open>Sending: in every state that does not send a FIN, \<open>tcp_output\<close> returns, whatever the driver does, with the invariant
  kept, and every packet it sent is a segment of its connection whose data are exactly the bytes of the send queue at the
  sequence number in its header, that is no longer than the maximum segment size, ends within the window of the peer, and
  offers no more of our own window than there is space in the receive queue. The queue and the other connections do not
  change.\<close>

theorem tcp_output_sends:
  assumes "ok s xs" and "p < 8" and "routed p s" and "5 \<le> unat (t_maxseg (pcbs s p))"
    and "t_state (pcbs s p) \<notin> {TCPS_FIN_WAIT_1, TCPS_CLOSING, TCPS_LAST_ACK}"
  shows "\<exists>r u ps. tcp_output mm drv p s = Some (r, u) \<and> ok u xs \<and> sent u = sent s @ ps \<and> (\<forall>pk \<in> set ps. carries p s pk) \<and>
    bufs u = bufs s \<and> (\<forall>q. q \<noteq> p \<longrightarrow> pcbs u q = pcbs s q) \<and> snd_seq (pcbs u p) = snd_seq (pcbs s p)"
proof -
  have "\<not> flag (tcp_outflags (t_state (pcbs s p))) TH_FIN" using assms(5) by (cases "t_state (pcbs s p)") (simp_all add: flag_def)
  from tcp_output_ok [OF assms(1-4) this, of mm drv] show ?thesis unfolding sends_def steady_def same_def by blast
qed

theorem tcp_output_sends_witness:
  "\<forall>d. \<exists>r u. tcp_output (\<lambda>_. True) (\<lambda>_ _. 0) 0 (sample_tcp ACTIVE (zero_pcb\<lparr>t_state := TCPS_ESTABLISHED, t_maxseg := 1460, t_flags := TF_ACKNOW\<rparr>) d) = Some (r, u) \<and>
    bufs u = bufs (sample_tcp ACTIVE (zero_pcb\<lparr>t_state := TCPS_ESTABLISHED, t_maxseg := 1460, t_flags := TF_ACKNOW\<rparr>) d) \<and> snd_seq (pcbs u 0) = 0"
proof
  fix d
  let ?s = "sample_tcp ACTIVE (zero_pcb\<lparr>t_state := TCPS_ESTABLISHED, t_maxseg := 1460, t_flags := TF_ACKNOW\<rparr>) d"
  have o: "ok ?s (sample_lists ACTIVE)" by (rule sample_ok) simp_all
  have r: "routed 0 ?s" by (simp add: routed_def sample_tcp_def zero_pcb_def)
  have m: "5 \<le> unat (t_maxseg (pcbs ?s 0))" and t: "t_state (pcbs ?s 0) \<notin> {TCPS_FIN_WAIT_1, TCPS_CLOSING, TCPS_LAST_ACK}"
    and q: "snd_seq (pcbs ?s 0) = 0" by (simp_all add: sample_tcp_def zero_pcb_def)
  from tcp_output_sends [OF o _ r m t, of "\<lambda>_. True" "\<lambda>_ _. 0"]
  show "\<exists>r u. tcp_output (\<lambda>_. True) (\<lambda>_ _. 0) 0 ?s = Some (r, u) \<and> bufs u = bufs ?s \<and> snd_seq (pcbs u 0) = 0" unfolding q by auto
qed

end
