(* ===== verification/Spec2Isabelle.thy ===== *)
theory Spec2Isabelle
  imports ThinkOS_Svc Crc Bitvec Libc_Mem Libc_Inet Net_Mbuf Net_Tcp_Run Net_Tcp_Out
begin

text \<open>
  \<^bold>\<open>A verification library for YARD-ICE and its ThinkOS kernel\<close>

  YARD-ICE is the firmware of a JTAG debug probe. Under \<^verbatim>\<open>src/src/sdk\<close> it has its own real-time kernel
  (ThinkOS, \<^verbatim>\<open>libthinkos\<close>), C library (\<^verbatim>\<open>libc\<close>), check sums and bit vectors (\<^verbatim>\<open>libcrc\<close>, \<^verbatim>\<open>libbitvec\<close>,
  \<^verbatim>\<open>libutil\<close>) and network stack (\<^verbatim>\<open>libtcpip\<close>), and under \<^verbatim>\<open>src/src/yard-ice\<close> the debugger. Everything above the
  kernel consists of ThinkOS threads that enter it by \<open>svc\<close> instructions; the network stack runs in such threads, keeps
  its data in buffers of a pool that a kernel mutex protects, and wakes its callers by condition variables and semaphores
  of the kernel.

  \<^bold>\<open>The kernel\<close> (theories \<open>ThinkOS_*\<close>, on \<open>Cortex_M3\<close> and \<open>Prelude\<close>)

  \<^item> \<open>ThinkOS_State\<close>: \<open>struct thinkos_rt\<close> as the record \<open>thinkos_rt\<close> of 32-bit words, 8-bit counters and maps, and the
    inline functions of \<^verbatim>\<open>include/thinkos_sys.h\<close> on wait-queue bitmaps (\<open>thinkos_wq_insert\<close>, \<open>thinkos_wakeup\<close>, \<open>thinkos_wait\<close>,
    ...). \<open>Cortex_M3\<close> has the instructions they use (\<open>clz\<close>, \<open>rbit\<close>, bit banding).
  \<^item> \<open>ThinkOS_Inv\<close>: the invariant \<open>kinv\<close> of a kernel state: each thread is in exactly one queue, its status word agrees,
    nothing dead is queued, and the mutexes have owners that exist. Each service has a lemma that it keeps \<open>kinv\<close>.
  \<^item> \<open>ThinkOS_Alloc\<close>, \<open>ThinkOS_Init\<close>: identifiers, \<open>thinkos_init\<close>. \<open>ThinkOS_Sched\<close>: \<open>cm3_pendsv_isr\<close>, the SysTick handler
    with time sharing, \<open>thinkos_exit\<close> and \<open>join\<close>. \<open>ThinkOS_Wake\<close>: waking all threads of a queue.
  \<^item> \<open>ThinkOS_Mutex\<close>, \<open>ThinkOS_Cond\<close>, \<open>ThinkOS_Sem\<close>, \<open>ThinkOS_Event\<close>, \<open>ThinkOS_Flag\<close>, \<open>ThinkOS_Thread\<close>: one theory for
    each file \<^verbatim>\<open>thinkos_*.c\<close>, one definition for each service call. The mutex and the semaphore refine abstract objects
    (an owner with a queue, a counter with a queue) on every branch, errors included.
  \<^item> \<open>ThinkOS_Svc\<close>: the dispatcher \<open>cm3_svc_isr\<close>, and the step relation \<open>kstep\<close> of the whole kernel. It has calls, ends of
    threads, ticks, interrupts and context switches in any order but for those under which the code loses the invariant:
    calls while a switch is pending, a tick that ends the share of a thread that has just blocked (\<open>late_tick_breaks\<close>),
    \<open>resume\<close> of a thread that was not in a timed wait for something still unavailable (\<open>resume_exact\<close>), a thread that
    cancels itself, allocation or setting of an object in whose queue threads wait (\<open>alloc_breaks\<close>), and an interrupt of a
    thread that waits for something else. Reachable states satisfy \<open>kinv\<close>, and the scheduler always finds a thread.
    \<open>thinkos_thread_exit\<close> is one step, though the code enables the interrupts before its last statements.

  \<^bold>\<open>The libraries\<close>

  \<^item> \<open>Crc\<close>: the eleven routines of \<^verbatim>\<open>libcrc\<close> with their tables; they agree with one shift-register specification.
  \<^item> \<open>Bitvec\<close>, \<open>Util\<close>: the vectors of \<^verbatim>\<open>libbitvec\<close> on a memory of words, the integer square root and small helpers.
  \<^item> \<open>Libc_Conv\<close>, \<open>Libc_Mem\<close>, \<open>Libc_Printf\<close>, \<open>Libc_Inet\<close>: numbers and text (\<open>strtoul\<close>, \<open>atoi\<close>, \<open>uint2dec\<close>, ...),
    \<open>memcpy\<close>, \<open>memmove\<close>, \<open>memset\<close> and \<open>memcmp\<close> on a memory of bytes, \<open>vfprintf\<close> over any output function and
    \<open>vsnprintf\<close>, and the dotted form of addresses. Strings are functions or lists of bytes with a terminator.

  \<^bold>\<open>The network stack\<close>

  \<^item> \<open>Net_Mbuf\<close>: the pool of blocks of 124 bytes and the byte queues and lists made of them (\<^verbatim>\<open>libtcpip/mbuf\<close>), with links as
    partial functions. The locale \<open>byte_fifos\<close> states the contract of the queues, that any sequence of operations behaves
    as independent streams, and is interpreted on \<open>bufs_add\<close> and \<open>bufs_remove\<close>, the model's queues with their pool.
  \<^item> \<open>Net_Route\<close>, \<open>Net_Chksum\<close>: the routing table of four entries (\<^verbatim>\<open>ip_route.c\<close>), and \<open>in_chksum\<close> as a ones'-complement sum.
  \<^item> \<open>Net_Pcb\<close>: the singly linked lists of control blocks (\<^verbatim>\<open>pcb/in_pcb.c\<close>) and both lookups.
  \<^item> \<open>Net_Tcp\<close>: \<open>struct tcp_system\<close> as the record \<open>tcp_system\<close>, which holds the blocks, the four lists, the queue of blocks
    that wait for output, the buffers, the routes and the state of the kernel; allocation and release of blocks
    (\<^verbatim>\<open>tcp.c\<close>) and the output queue (\<^verbatim>\<open>tcp_tmr.c\<close>). Calls of the kernel are calls of the service definitions above. The
    locale \<open>stream_bufs\<close> extends \<open>byte_fifos\<close> by what TCP needs more: trimming, reading ahead and releasing.
  \<^item> \<open>Net_Tcp_In\<close>: \<open>tcp_input\<close> with all its labels as functions that call each other where the code jumps, the parser of
    options, the passive open and the resets. The relation \<open>seg_edge\<close> has the transitions of a connection on a segment.
    \<open>Net_Tcp_Conn\<close> puts the parts together: \<open>tcp_input\<close> always returns and keeps \<open>tcp_ok\<close>, moves one connection along
    \<open>seg_edge\<close>, delivers the stream of the peer in order, drops what is acknowledged, and opens connections. Segments with a SYN have
    options that end with their header; on others the parser may run on (\<open>long_option_runs_on\<close>).
  \<^item> \<open>Net_Tcp_Tmr\<close>: the delayed-acknowledge, retransmission and idle timers (\<^verbatim>\<open>tcp_tmr.c\<close>) as walks through the list of
    active connections, what they do to every block and to the queue of blocks that wait for output.
  \<^item> \<open>Net_Tcp_User\<close>: bind, listen, accept, connect, close, send and receive. A call that waits is the code between two
    waits. \<open>Net_Tcp_Run\<close> puts segments, timer ticks and calls together as events in any order (conditions in \<open>allowed\<close>): the
    stack keeps \<open>tcp_ok\<close>, and what an application reads is the stream of the peer in order.
  \<^item> \<open>Net_Tcp_Out\<close>: \<open>tcp_output\<close> (\<^verbatim>\<open>tcp_out.c\<close>) over any driver. It ends, and sends the bytes of the send queue at their
    sequence numbers within the window of the peer, in states that send no FIN, with segments of five bytes or more.

  \<^bold>\<open>Conventions\<close>

  Machine integers are words of their width (\<open>u8\<close>, \<open>u16\<close>, \<open>u32\<close>), so that arithmetic wraps as in C; \<open>int\<close> is used where the
  code computes with differences that stay in range. Pointers to blocks, buffers and threads are their indices. An
  operation that can follow a null pointer or not return gives an option (\<open>partial_function\<close>), and the properties say
  that it returns. There is no fuel: loops are structural, have a measure, or are options. Array accesses behind the end
  of a table are not given a meaning; where the code makes them, a finding says so.
  The bounds are those of the build: 8 threads and the idle thread, 4 routes, 8 control blocks with 16 byte queues, the limits of
  \<^verbatim>\<open>src/src/config.h\<close> for segments and windows.

  \<^bold>\<open>Not modelled\<close>

  The assembly of the exception entries and the register-level drivers (they only move registers); the
  waits in \<open>tcp_tmr_task\<close> between its timers, abort, shutdown and the accept with a time limit, UDP, ARP, ICMP and DHCP, which are left for later work; the checksum of
  received segments in software, which the configuration of the firmware leaves to the interface; the microjs compiler,
  the shell, the HTTP server, XMODEM and the debugger with its JTAG and GDB parts, which are left for later work; vendored
  code (the disassembler), boot loaders, test programs and host tools.
\<close>

end
